(* ===== verification/Go_Prelude.thy ===== *)
theory Go_Prelude
  imports Complex_Main "HOL-Library.Char_ord" "HOL-Library.List_Lexorder"
    "HOL-Library.Product_Lexorder" "HOL-Library.Multiset"
begin

text \<open>
  Shared vocabulary of the development: how the Go values of the program are represented, the
  string and slice functions of Go's standard library the modelled code calls, and the generic
  facts about stable sorting and about results that several components use.

  A Go \<^verbatim>\<open>string\<close> is a list of bytes (\<open>string\<close>, the character list of HOL, compared
  bytewise as Go does); \<^verbatim>\<open>int\<close> and \<^verbatim>\<open>int64\<close> are integers with the wrap-around written out by
  \<open>wrap64\<close>; a panic or a returned error is the left side of a sum.
\<close>

named_theorems go_defs \<open>unfolding of the small library functions of Go\<close>
named_theorems perm_intros \<open>equality of results up to the order of the inputs\<close>

section \<open>Results\<close>

text \<open>A call that can panic or return an error: \<open>Inl\<close> carries the error.\<close>

type_synonym ('e, 'a) res = "'e + 'a"

fun bind_res :: "('e, 'a) res \<Rightarrow> ('a \<Rightarrow> ('e, 'b) res) \<Rightarrow> ('e, 'b) res" where
  "bind_res (Inl e) f = Inl e"
| "bind_res (Inr x) f = f x"

lemma bind_res_Inr_iff: "bind_res m f = Inr y \<longleftrightarrow> (\<exists>x. m = Inr x \<and> f x = Inr y)"
  by (cases m) auto

lemma bind_res_Inl_iff:
  "bind_res m f = Inl e \<longleftrightarrow> m = Inl e \<or> (\<exists>x. m = Inr x \<and> f x = Inl e)"
  by (cases m) auto

section \<open>Machine integers\<close>

text \<open>Go's \<^verbatim>\<open>int64\<close> (and \<^verbatim>\<open>int\<close> on the supported 64-bit targets) wraps silently.\<close>

definition min_int64 :: int where "min_int64 = - (2 ^ 63)"
definition max_int64 :: int where "max_int64 = 2 ^ 63 - 1"

definition wrap64 :: "int \<Rightarrow> int" where
  "wrap64 n = (n + 2 ^ 63) mod 2 ^ 64 - 2 ^ 63"

definition in_int64 :: "int \<Rightarrow> bool" where
  "in_int64 n \<longleftrightarrow> min_int64 \<le> n \<and> n \<le> max_int64"

lemma wrap64_in_range: "in_int64 (wrap64 n)"
proof -
  have "0 \<le> (n + 2 ^ 63) mod 2 ^ 64" and "(n + 2 ^ 63) mod 2 ^ 64 < (2 ^ 64 :: int)"
    by simp_all
  then show ?thesis
    by (simp add: in_int64_def wrap64_def min_int64_def max_int64_def)
qed

lemma wrap64_id [simp]: "in_int64 n \<Longrightarrow> wrap64 n = n"
  by (simp add: in_int64_def wrap64_def min_int64_def max_int64_def)

section \<open>Strings\<close>

text \<open>\<^verbatim>\<open>strings.HasPrefix\<close>, \<^verbatim>\<open>strings.IndexByte\<close> and \<^verbatim>\<open>strings.LastIndexByte\<close>; \<open>None\<close> stands for -1.\<close>

fun has_prefix :: "'a list \<Rightarrow> 'a list \<Rightarrow> bool" where
  "has_prefix [] s = True"
| "has_prefix (p # ps) [] = False"
| "has_prefix (p # ps) (x # s) = (p = x \<and> has_prefix ps s)"

fun index_byte :: "'a \<Rightarrow> 'a list \<Rightarrow> nat option" where
  "index_byte c [] = None"
| "index_byte c (x # s) = (if x = c then Some 0 else map_option Suc (index_byte c s))"

fun last_index_byte :: "'a \<Rightarrow> 'a list \<Rightarrow> nat option" where
  "last_index_byte c [] = None"
| "last_index_byte c (x # s) =
     (case last_index_byte c s of
        Some i \<Rightarrow> Some (Suc i)
      | None \<Rightarrow> (if x = c then Some 0 else None))"

lemma has_prefix_iff: "has_prefix p s \<longleftrightarrow> (\<exists>r. s = p @ r)"
  by (induction p s rule: has_prefix.induct) auto

lemma index_byte_None: "index_byte c s = None \<longleftrightarrow> c \<notin> set s"
  by (induction s) auto

lemma index_byte_Some:
  "index_byte c s = Some i \<Longrightarrow> i < length s \<and> s ! i = c \<and> c \<notin> set (take i s)"
proof (induction s arbitrary: i)
  case (Cons x s)
  then show ?case by (cases i) (auto split: if_splits)
qed simp

lemma last_index_byte_None: "last_index_byte c s = None \<longleftrightarrow> c \<notin> set s"
  by (induction s) (auto split: option.splits)

lemma last_index_byte_append:
  "last_index_byte c (s @ t) =
     (case last_index_byte c t of Some i \<Rightarrow> Some (length s + i) | None \<Rightarrow> last_index_byte c s)"
  by (induction s) (auto split: option.splits)

lemma last_index_byte_Some:
  "last_index_byte c s = Some i \<Longrightarrow> i < length s \<and> s ! i = c \<and> c \<notin> set (drop (Suc i) s)"
  by (induction s arbitrary: i) (auto split: option.splits if_splits simp: last_index_byte_None)

section \<open>More of the strings package\<close>

text \<open>ASCII lower case; \<^verbatim>\<open>strings.Contains\<close>, \<^verbatim>\<open>strings.Split\<close> on a one-byte separator, \<^verbatim>\<open>strings.Join\<close>.\<close>

definition ascii_lower :: "char \<Rightarrow> char" where
  "ascii_lower c = (let n = (of_char c :: nat) in if 65 \<le> n \<and> n \<le> 90 then char_of (n + 32) else c)"

definition is_lower :: "char \<Rightarrow> bool" where
  "is_lower c \<longleftrightarrow> 97 \<le> (of_char c :: nat) \<and> (of_char c :: nat) \<le> 122"

fun index_sub :: "'a list \<Rightarrow> 'a list \<Rightarrow> nat option" where
  "index_sub p [] = (if p = [] then Some 0 else None)"
| "index_sub p (x # s) = (if has_prefix p (x # s) then Some 0 else map_option Suc (index_sub p s))"

definition contains :: "'a list \<Rightarrow> 'a list \<Rightarrow> bool" where
  "contains p s \<longleftrightarrow> index_sub p s \<noteq> None"

fun split_on :: "'a \<Rightarrow> 'a list \<Rightarrow> 'a list list" where
  "split_on c [] = [[]]"
| "split_on c (x # s) =
     (if x = c then [] # split_on c s
      else (case split_on c s of p # ps \<Rightarrow> (x # p) # ps | [] \<Rightarrow> [[x]]))"

fun join_with :: "'a \<Rightarrow> 'a list list \<Rightarrow> 'a list" where
  "join_with c [] = []"
| "join_with c [p] = p"
| "join_with c (p # ps) = p @ c # join_with c ps"

lemma split_on_nonempty [simp]: "split_on c s \<noteq> []"
  by (cases s) (auto split: list.splits)

lemma split_on_append: "split_on c (a @ c # b) = split_on c a @ split_on c b"
  by (induction a) (auto split: list.splits)

lemma split_on_none: "c \<notin> set s \<Longrightarrow> split_on c s = [s]"
  by (induction s) auto

lemma split_on_snoc: "split_on c (a @ [c]) = split_on c a @ [[]]"
  using split_on_append [of c a "[]"] by simp

text \<open>\<^verbatim>\<open>strings.TrimSpace\<close> and \<^verbatim>\<open>bytes.TrimSpace\<close>: the white space of Unicode in its UTF-8 encoding.\<close>

definition bytes_of :: "nat list \<Rightarrow> string" where "bytes_of ns = map char_of ns"

definition go_spaces :: "string list" where
  "go_spaces = map bytes_of ([[9], [10], [11], [12], [13], [32], [194, 133], [194, 160], [225, 154, 128]] @
     map (\<lambda>n. [226, 128, n]) [128, 129, 130, 131, 132, 133, 134, 135, 136, 137, 138, 168, 169, 175] @
     [[226, 129, 159], [227, 128, 128]])"

lemma go_spaces_code [code]:
  "go_spaces = [[CHR 0x09], [CHR 0x0A], [CHR 0x0B], [CHR 0x0C], [CHR 0x0D], [CHR 0x20],
     [CHR 0xC2, CHR 0x85], [CHR 0xC2, CHR 0xA0], [CHR 0xE1, CHR 0x9A, CHR 0x80],
     [CHR 0xE2, CHR 0x80, CHR 0x80], [CHR 0xE2, CHR 0x80, CHR 0x81], [CHR 0xE2, CHR 0x80, CHR 0x82],
     [CHR 0xE2, CHR 0x80, CHR 0x83], [CHR 0xE2, CHR 0x80, CHR 0x84], [CHR 0xE2, CHR 0x80, CHR 0x85],
     [CHR 0xE2, CHR 0x80, CHR 0x86], [CHR 0xE2, CHR 0x80, CHR 0x87], [CHR 0xE2, CHR 0x80, CHR 0x88],
     [CHR 0xE2, CHR 0x80, CHR 0x89], [CHR 0xE2, CHR 0x80, CHR 0x8A], [CHR 0xE2, CHR 0x80, CHR 0xA8],
     [CHR 0xE2, CHR 0x80, CHR 0xA9], [CHR 0xE2, CHR 0x80, CHR 0xAF], [CHR 0xE2, CHR 0x81, CHR 0x9F],
     [CHR 0xE3, CHR 0x80, CHR 0x80]]"
  by (simp add: go_spaces_def bytes_of_def char_of_def bit_iff_odd)

fun leading_space :: "string list \<Rightarrow> string \<Rightarrow> nat" where
  "leading_space [] s = 0"
| "leading_space (p # ps) s = (if has_prefix p s then length p else leading_space ps s)"

function trim_left :: "string list \<Rightarrow> string \<Rightarrow> string" where
  "trim_left sp s =
     (if s \<noteq> [] \<and> leading_space sp s \<noteq> 0 then trim_left sp (drop (leading_space sp s) s) else s)"
  by pat_completeness auto
termination by (relation "measure (\<lambda>(sp, s). length s)") auto

declare trim_left.simps [simp del]

definition TrimSpace :: "string \<Rightarrow> string" where
  "TrimSpace s = rev (trim_left (map rev go_spaces) (rev (trim_left go_spaces s)))"

lemma index_sub_Some:
  "index_sub p s = Some i \<Longrightarrow> has_prefix p (drop i s) \<and> i \<le> length s"
  by (induction s arbitrary: i) (auto split: if_splits)

lemma has_prefix_length: "has_prefix p s \<Longrightarrow> length p \<le> length s"
  by (auto simp: has_prefix_iff)

lemma index_sub_bound: "index_sub p s = Some i \<Longrightarrow> i + length p \<le> length s"
  using index_sub_Some [of p s i] has_prefix_length [of p "drop i s"] by auto

lemma index_sub_split: "index_sub p s = Some i \<Longrightarrow> s = take i s @ p @ drop (i + length p) s"
proof -
  assume "index_sub p s = Some i"
  then obtain r where "drop i s = p @ r" using index_sub_Some by (fastforce simp: has_prefix_iff)
  moreover from this have "drop (i + length p) s = r"
    by (metis add.commute append_eq_conv_conj drop_drop)
  ultimately show ?thesis by (metis append_take_drop_id)
qed

lemma has_prefix_append: "has_prefix p a \<Longrightarrow> has_prefix p (a @ b)"
  by (auto simp: has_prefix_iff)

lemma has_prefix_short: "length p \<le> length a \<Longrightarrow> has_prefix p (a @ b) = has_prefix p a"
  by (induction p a rule: has_prefix.induct) auto

lemma index_sub_short: "length s < length p \<Longrightarrow> index_sub p s = None"
  by (induction s) (auto simp: has_prefix_iff dest: arg_cong [of _ _ length])

lemma index_sub_append: "index_sub p a = Some i \<Longrightarrow> index_sub p (a @ b) = Some i"
proof (induction a arbitrary: i)
  case (Cons x a)
  show ?case
  proof (cases "has_prefix p (x # a)")
    case True
    then show ?thesis using Cons.prems has_prefix_append [of p "x # a" b] by simp
  next
    case False
    then obtain j where j: "index_sub p a = Some j" "i = Suc j" using Cons.prems by auto
    then have "length p \<le> length (x # a)"
      using index_sub_short [of a p] by (cases "length a < length p") auto
    then show ?thesis using False j Cons.IH has_prefix_short [of p "x # a" b] by simp
  qed
next
  case Nil
  then show ?case by (cases b) (auto split: if_splits)
qed

section \<open>Stable sorting\<close>

text \<open>
  \<^verbatim>\<open>sort.SliceStable\<close> with a \<^verbatim>\<open>less\<close> that compares keys is \<open>sort_key\<close>, which is
  stable. Two inputs sort to the same slice as soon as they agree, key by key, on the
  subsequence carrying that key: the map-ranging order of Go is then irrelevant.
\<close>

lemma mset_eq_if_filters_eq:
  assumes "\<And>k. filter (\<lambda>x. f x = k) xs = filter (\<lambda>x. f x = k) ys"
  shows "mset xs = mset ys"
proof (rule multiset_eqI)
  fix a
  have "count (mset xs) a = count (mset (filter (\<lambda>x. f x = f a) xs)) a" by simp
  also have "\<dots> = count (mset (filter (\<lambda>x. f x = f a) ys)) a" using assms by simp
  also have "\<dots> = count (mset ys) a" by simp
  finally show "count (mset xs) a = count (mset ys) a" .
qed

lemma sort_key_cong_filters [perm_intros]:
  assumes "\<And>k. filter (\<lambda>x. f x = k) xs = filter (\<lambda>x. f x = k) ys"
  shows "sort_key f xs = sort_key f ys"
proof (rule properties_for_sort_key)
  show "mset (sort_key f ys) = mset xs"
    using mset_eq_if_filters_eq [OF assms] by simp
  show "sorted (map f (sort_key f ys))" by simp
  fix k assume "k \<in> set (sort_key f ys)"
  show "filter (\<lambda>x. f k = f x) (sort_key f ys) = filter (\<lambda>x. f k = f x) xs"
    using assms [of "f k"] sort_key_stable [of f "f k" ys] by (simp add: eq_commute)
qed

lemma filter_key_distinct:
  assumes "distinct (map f xs)" and "mset xs = mset ys"
  shows "filter (\<lambda>x. f x = k) xs = filter (\<lambda>x. f x = k) ys"
proof -
  have dy: "distinct (map f ys)"
    using assms by (metis mset_map mset_eq_imp_distinct_iff)
  have *: "length (filter (\<lambda>x. f x = k) zs) \<le> 1" if "distinct (map f zs)" for zs
    using that by (induction zs) (auto simp: filter_empty_conv, metis image_eqI)
  have m: "mset (filter (\<lambda>x. f x = k) xs) = mset (filter (\<lambda>x. f x = k) ys)"
    using assms(2) by simp
  show ?thesis
  proof (cases "filter (\<lambda>x. f x = k) xs")
    case Nil
    then show ?thesis using m by simp
  next
    case (Cons a as)
    then have "as = []" using * [OF assms(1)] by (cases as) auto
    then have "mset (filter (\<lambda>x. f x = k) ys) = {#a#}"
      using m Cons by (simp del: mset_filter)
    then have "filter (\<lambda>x. f x = k) ys = [a]" by (simp only: mset_single_iff)
    then show ?thesis using Cons \<open>as = []\<close> by simp
  qed
qed

lemma sort_key_perm_distinct [perm_intros]:
  assumes "distinct (map f xs)" and "mset xs = mset ys"
  shows "sort_key f xs = sort_key f ys"
  by (rule sort_key_cong_filters) (rule filter_key_distinct [OF assms])

section \<open>Ranging a map\<close>

text \<open>An order Go may range a map in: any rearrangement of its keys.\<close>

definition map_order :: "('a list \<Rightarrow> 'a list) \<Rightarrow> bool" where
  "map_order ord \<longleftrightarrow> (\<forall>xs. mset (ord xs) = mset xs)"

lemma map_order_keys:
  assumes "map_order ord" and "distinct xs"
  shows "distinct (ord xs)" and "set (ord xs) = set xs"
  using assms by (metis map_order_def mset_eq_imp_distinct_iff, metis map_order_def mset_eq_setD)

lemma map_order_rev [simp]: "map_order rev" by (simp add: map_order_def)
lemma map_order_id [simp]: "map_order id" by (simp add: map_order_def)

section \<open>Decimal numbers\<close>

text \<open>
  \<^verbatim>\<open>strconv.Itoa\<close> on a non-negative number, and \<^verbatim>\<open>strconv.Atoi\<close> on a string the caller has
  already checked to be digits: the value, or an error when it does not fit an \<^verbatim>\<open>int\<close>.
\<close>

definition digit_char :: "nat \<Rightarrow> char" where "digit_char d = char_of (48 + d)"
definition is_digit :: "char \<Rightarrow> bool" where
  "is_digit c \<longleftrightarrow> 48 \<le> (of_char c :: nat) \<and> (of_char c :: nat) \<le> 57"
definition digit_val :: "char \<Rightarrow> nat" where "digit_val c = of_char c - 48"

fun itoa_nat :: "nat \<Rightarrow> string" where
  "itoa_nat n = (if n < 10 then [digit_char n] else itoa_nat (n div 10) @ [digit_char (n mod 10)])"

declare itoa_nat.simps [simp del]

definition itoa :: "int \<Rightarrow> string" where
  "itoa n = (if n < 0 then CHR ''-'' # itoa_nat (nat (- n)) else itoa_nat (nat n))"

definition digits_val :: "string \<Rightarrow> nat" where
  "digits_val s = foldl (\<lambda>a c. 10 * a + digit_val c) 0 s"

definition atoi_digits :: "string \<Rightarrow> int option" where
  "atoi_digits s = (let n = int (digits_val s) in if n \<le> max_int64 then Some n else None)"

lemma of_char_digit_char: "d < 10 \<Longrightarrow> (of_char (digit_char d) :: nat) = 48 + d"
  by (simp add: digit_char_def)

lemma is_digit_digit_char [simp]: "d < 10 \<Longrightarrow> is_digit (digit_char d)"
  by (simp add: is_digit_def of_char_digit_char)

lemma digit_val_digit_char [simp]: "d < 10 \<Longrightarrow> digit_val (digit_char d) = d"
  by (simp add: digit_val_def of_char_digit_char)

lemma itoa_nat_digits: "list_all is_digit (itoa_nat n)"
proof (induction n rule: itoa_nat.induct)
  case (1 n)
  then show ?case by (subst itoa_nat.simps) auto
qed

lemma itoa_nat_nonempty [simp]: "itoa_nat n \<noteq> []"
  by (subst itoa_nat.simps) simp

lemma digits_val_snoc: "digits_val (s @ [c]) = 10 * digits_val s + digit_val c"
  by (simp add: digits_val_def)

lemma digits_val_itoa_nat [simp]: "digits_val (itoa_nat n) = n"
proof (induction n rule: itoa_nat.induct)
  case (1 n)
  then show ?case
    by (subst itoa_nat.simps) (auto simp: digits_val_snoc, simp add: digits_val_def)
qed

lemma not_digit_notin_itoa_nat: "\<not> is_digit c \<Longrightarrow> c \<notin> set (itoa_nat n)"
  using itoa_nat_digits [of n] by (auto simp: list_all_iff)

section \<open>Time\<close>

text \<open>
  A \<^verbatim>\<open>time.Time\<close> is its wall-clock distance in nanoseconds from Go's zero time, so \<^verbatim>\<open>IsZero\<close>
  is equality with 0; a \<^verbatim>\<open>time.Duration\<close> is an \<^verbatim>\<open>int64\<close> of nanoseconds and \<^verbatim>\<open>Sub\<close> saturates.
\<close>

type_synonym time = int
type_synonym duration = int

definition time_is_zero :: "time \<Rightarrow> bool" where "time_is_zero t \<longleftrightarrow> t = 0"

definition time_sub :: "time \<Rightarrow> time \<Rightarrow> duration" where
  "time_sub t u = max min_int64 (min max_int64 (t - u))"

definition Second :: duration where "Second = 1000000000"
definition Minute :: duration where "Minute = 60 * Second"
definition Hour :: duration where "Hour = 60 * Minute"

lemma time_sub_between:
  "0 \<le> lo \<Longrightarrow> hi < max_int64 \<Longrightarrow>
   (lo \<le> time_sub t u \<and> time_sub t u \<le> hi) = (lo \<le> t - u \<and> t - u \<le> hi)"
  by (auto simp: time_sub_def min_int64_def max_int64_def min_def max_def)

text \<open>\<^verbatim>\<open>Duration.String\<close>: the fraction without its trailing zeros, then the unit.\<close>

definition frac_digits :: "nat \<Rightarrow> nat \<Rightarrow> string" where
  "frac_digits v prec =
     (let ds = itoa_nat (v mod 10 ^ prec); padded = replicate (prec - length ds) (CHR ''0'') @ ds;
          kept = rev (dropWhile (\<lambda>c. c = CHR ''0'') (rev padded))
      in if kept = [] then [] else CHR ''.'' # kept)"

definition dur_string :: "duration \<Rightarrow> string" where
  "dur_string d =
     (let u = nat \<bar>d\<bar>; secs = u div 1000000000; frac = frac_digits u 9;
          body = (if u = 0 then ''0s''
            else if u < 1000 then itoa_nat u @ ''ns''
            else if u < 1000000 then itoa_nat (u div 1000) @ frac_digits u 3 @ [char_of (194 :: nat), char_of (181 :: nat)] @ ''s''
            else if u < 1000000000 then itoa_nat (u div 1000000) @ frac_digits u 6 @ ''ms''
            else if secs < 60 then itoa_nat secs @ frac @ ''s''
            else if secs < 3600 then itoa_nat (secs div 60) @ ''m'' @ itoa_nat (secs mod 60) @ frac @ ''s''
            else itoa_nat (secs div 3600) @ ''h'' @ itoa_nat (secs div 60 mod 60) @ ''m'' @
              itoa_nat (secs mod 60) @ frac @ ''s'')
      in if d < 0 then CHR ''-'' # body else body)"

end
