(* ===== verification/Go_Float.thy ===== *)
theory Go_Float
  imports Go_Prelude "HOL-Library.Log_Nat"
begin

text \<open>
  Go's \<^verbatim>\<open>float64\<close>: IEEE 754 binary64 values with round-to-nearest-even arithmetic, computed on
  exact rationals. \<open>Fin r\<close> is a finite value (the two zeros are one value, since no modelled
  code tells them apart), \<open>fl\<close> rounds an exact rational result to a value, with gradual
  underflow and overflow to the infinities. The arithmetic operators of the code are the
  class operations \<open>+\<close>, \<open>-\<close>, \<open>*\<close>, \<open>/\<close>, and its comparisons \<open><\<close> and \<open>\<le>\<close>, false as
  soon as an operand is not a number.

  The lemmas show what the money code rests on: integers up to 2^53 are exact, rounding is
  monotone and odd, and its relative error in the normal range is at most 2^-53.
\<close>

section \<open>Rounding\<close>

text \<open>Nearest integer, ties to even: \<^verbatim>\<open>math.RoundToEven\<close> on a finite value.\<close>

definition rne :: "rat \<Rightarrow> int" where
  "rne x = (let f = \<lfloor>x\<rfloor>; d = x - of_int f in
     if d < 1 / 2 then f else if 1 / 2 < d then f + 1 else if even f then f else f + 1)"

definition ilog2 :: "rat \<Rightarrow> int" where
  "ilog2 x = (case quotient_of x of (p, q) \<Rightarrow>
     let k = bitlen p - bitlen q in if 2 powi k \<le> x then k else k - 1)"

datatype f64 = Fin rat | PInf | NInf | NaN

definition ulp_exp :: "rat \<Rightarrow> int" where
  "ulp_exp x = max (-1074) (ilog2 \<bar>x\<bar> - 52)"

definition round_rat :: "rat \<Rightarrow> rat" where
  "round_rat x = (if x = 0 then 0
     else of_int (rne (x / 2 powi ulp_exp x)) * 2 powi ulp_exp x)"

definition fl :: "rat \<Rightarrow> f64" where
  "fl x = (let y = round_rat x in
     if 2 ^ 1024 \<le> y then PInf else if y \<le> - (2 ^ 1024) then NInf else Fin y)"

section \<open>Arithmetic\<close>

fun fneg :: "f64 \<Rightarrow> f64" where
  "fneg (Fin x) = Fin (- x)"
| "fneg PInf = NInf"
| "fneg NInf = PInf"
| "fneg NaN = NaN"

fun fadd :: "f64 \<Rightarrow> f64 \<Rightarrow> f64" where
  "fadd (Fin x) (Fin y) = fl (x + y)"
| "fadd NaN _ = NaN"
| "fadd _ NaN = NaN"
| "fadd PInf NInf = NaN"
| "fadd NInf PInf = NaN"
| "fadd PInf _ = PInf"
| "fadd _ PInf = PInf"
| "fadd NInf _ = NInf"
| "fadd _ NInf = NInf"

fun fsgn :: "f64 \<Rightarrow> int" where
  "fsgn (Fin x) = (if 0 < x then 1 else if x < 0 then -1 else 0)"
| "fsgn PInf = 1"
| "fsgn NInf = -1"
| "fsgn NaN = 0"

definition signed_inf :: "int \<Rightarrow> f64" where
  "signed_inf s = (if 0 < s then PInf else if s < 0 then NInf else NaN)"

fun fmul :: "f64 \<Rightarrow> f64 \<Rightarrow> f64" where
  "fmul (Fin x) (Fin y) = fl (x * y)"
| "fmul NaN _ = NaN"
| "fmul _ NaN = NaN"
| "fmul a b = signed_inf (fsgn a * fsgn b)"

text \<open>Division by the one zero of the model takes the sign of the dividend, as by \<^verbatim>\<open>+0\<close>.\<close>

fun fdiv :: "f64 \<Rightarrow> f64 \<Rightarrow> f64" where
  "fdiv NaN _ = NaN"
| "fdiv _ NaN = NaN"
| "fdiv (Fin x) (Fin y) = (if y = 0 then signed_inf (fsgn (Fin x)) else fl (x / y))"
| "fdiv (Fin x) _ = Fin 0"
| "fdiv a (Fin y) = signed_inf (fsgn a * (if y < 0 then -1 else 1))"
| "fdiv _ _ = NaN"

fun fle :: "f64 \<Rightarrow> f64 \<Rightarrow> bool" where
  "fle NaN _ = False"
| "fle _ NaN = False"
| "fle NInf _ = True"
| "fle _ PInf = True"
| "fle (Fin x) (Fin y) = (x \<le> y)"
| "fle _ _ = False"

fun flt :: "f64 \<Rightarrow> f64 \<Rightarrow> bool" where
  "flt NaN _ = False"
| "flt _ NaN = False"
| "flt NInf y = (y \<noteq> NInf)"
| "flt x PInf = (x \<noteq> PInf)"
| "flt (Fin x) (Fin y) = (x < y)"
| "flt _ _ = False"

instantiation f64 :: "{zero, one, plus, minus, uminus, times, inverse, ord}"
begin

definition zero_f64 :: f64 where "0 = Fin 0"
definition one_f64 :: f64 where "1 = Fin 1"
definition plus_f64 :: "f64 \<Rightarrow> f64 \<Rightarrow> f64" where "x + y = fadd x y"
definition uminus_f64 :: "f64 \<Rightarrow> f64" where "- x = fneg x"
definition minus_f64 :: "f64 \<Rightarrow> f64 \<Rightarrow> f64" where "x - y = fadd x (fneg y)"
definition times_f64 :: "f64 \<Rightarrow> f64 \<Rightarrow> f64" where "x * y = fmul x y"
definition divide_f64 :: "f64 \<Rightarrow> f64 \<Rightarrow> f64" where "divide x y = fdiv x y"
definition inverse_f64 :: "f64 \<Rightarrow> f64" where "inverse x = fdiv (Fin 1) x"
definition less_eq_f64 :: "f64 \<Rightarrow> f64 \<Rightarrow> bool" where "x \<le> y = fle x y"
definition less_f64 :: "f64 \<Rightarrow> f64 \<Rightarrow> bool" where "x < y = flt x y"

instance ..

end

lemmas f64_defs = zero_f64_def one_f64_def plus_f64_def minus_f64_def uminus_f64_def
  times_f64_def divide_f64_def inverse_f64_def less_eq_f64_def less_f64_def

lemma Fin_arith [simp]:
  "Fin x + Fin y = fl (x + y)" "Fin x * Fin y = fl (x * y)"
  "y \<noteq> 0 \<Longrightarrow> Fin x / Fin y = fl (x / y)"
  "Fin x \<le> Fin y \<longleftrightarrow> x \<le> y" "Fin x < Fin y \<longleftrightarrow> x < y"
  by (simp_all add: f64_defs)

text \<open>\<^verbatim>\<open>float64(n)\<close>, and \<^verbatim>\<open>math.IsNaN\<close>, \<^verbatim>\<open>math.IsInf(x, 0)\<close>.\<close>

definition f64_of_int :: "int \<Rightarrow> f64" where "f64_of_int n = fl (of_int n)"
definition is_nan :: "f64 \<Rightarrow> bool" where "is_nan x \<longleftrightarrow> x = NaN"
definition is_inf :: "f64 \<Rightarrow> bool" where "is_inf x \<longleftrightarrow> x = PInf \<or> x = NInf"

text \<open>The order \<^verbatim>\<open>sort.Float64s\<close> sorts by: not-a-number first, then numerically.\<close>

fun f64_key :: "f64 \<Rightarrow> nat \<times> rat" where
  "f64_key NaN = (0, 0)"
| "f64_key NInf = (1, 0)"
| "f64_key (Fin x) = (2, x)"
| "f64_key PInf = (3, 0)"

section \<open>Facts about rounding\<close>

lemma rne_of_int [simp]: "rne (of_int n) = n"
  by (simp add: rne_def)

lemma rne_cases: "rne x = \<lfloor>x\<rfloor> \<or> rne x = \<lfloor>x\<rfloor> + 1"
  by (auto simp: rne_def Let_def)

lemma rne_dist: "\<bar>of_int (rne x) - x\<bar> \<le> 1 / 2"
proof -
  define d where "d = x - of_int \<lfloor>x\<rfloor>"
  have d: "0 \<le> d" "d < 1"
    using floor_correct [of x] unfolding d_def by linarith+
  have x: "x = of_int \<lfloor>x\<rfloor> + d" by (simp add: d_def)
  have "of_int (rne x) - x = - d \<and> d \<le> 1 / 2 \<or> of_int (rne x) - x = 1 - d \<and> 1 / 2 \<le> d"
    by (auto simp: rne_def Let_def d_def)
  with d show ?thesis by (auto simp: abs_if)
qed

lemma rne_unique: "\<bar>of_int n - x\<bar> < 1 / 2 \<Longrightarrow> rne x = n"
proof -
  assume "\<bar>of_int n - x\<bar> < 1 / 2"
  with rne_dist [of x] have "\<bar>of_int (rne x) - of_int n\<bar> < (1 :: rat)" by linarith
  then have "\<bar>rne x - n\<bar> < 1" by (metis of_int_1 of_int_abs of_int_diff of_int_less_iff)
  then show ?thesis by simp
qed

lemma rne_tie: "even n \<Longrightarrow> \<bar>of_int n - x\<bar> \<le> 1 / 2 \<Longrightarrow> rne x = n"
proof -
  assume n: "even n" and le: "\<bar>of_int n - x\<bar> \<le> 1 / 2"
  consider "\<bar>of_int n - x\<bar> < 1 / 2" | "x = of_int n + 1 / 2" | "x = of_int n - 1 / 2"
    using le by linarith
  then show ?thesis
  proof cases
    case 1
    then show ?thesis by (rule rne_unique)
  next
    case 2
    have "\<lfloor>of_int n + 1 / 2 :: rat\<rfloor> = n" by (simp add: floor_eq_iff)
    then show ?thesis using n by (simp add: rne_def Let_def 2)
  next
    case 3
    have "\<lfloor>of_int n - 1 / 2 :: rat\<rfloor> = n - 1" by (simp add: floor_eq_iff)
    then show ?thesis using n by (simp add: rne_def Let_def 3)
  qed
qed

lemma rne_mono: "x \<le> y \<Longrightarrow> rne x \<le> rne y"
proof -
  assume le: "x \<le> y"
  then have f: "\<lfloor>x\<rfloor> \<le> \<lfloor>y\<rfloor>" by (rule floor_mono)
  show ?thesis
  proof (cases "\<lfloor>x\<rfloor> = \<lfloor>y\<rfloor>")
    case True
    with le show ?thesis by (auto simp: rne_def Let_def)
  next
    case False
    with f rne_cases [of x] rne_cases [of y] show ?thesis by linarith
  qed
qed

lemma rne_minus: "rne (- x) = - rne x"
proof (cases "x = of_int \<lfloor>x\<rfloor>")
  case True
  then have "rne (- x) = rne (of_int (- \<lfloor>x\<rfloor>))" by simp
  also have "\<dots> = - rne x" using True by (metis rne_of_int)
  finally show ?thesis .
next
  case False
  define f where "f = \<lfloor>x\<rfloor>"
  define d where "d = x - of_int f"
  have d: "0 < d" "d < 1"
    using floor_correct [of x] False unfolding d_def f_def by linarith+
  have x: "x = of_int f + d" by (simp add: d_def)
  have fl: "\<lfloor>- x\<rfloor> = - f - 1"
    using d by (simp add: x floor_eq_iff)
  have d': "- x - of_int (- f - 1) = 1 - d" by (simp add: d_def)
  have "rne (- x) = (if 1 - d < 1 / 2 then - f - 1 else if 1 / 2 < 1 - d then - f - 1 + 1
      else if even (- f - 1) then - f - 1 else - f - 1 + 1)"
    by (simp only: rne_def Let_def fl d')
  moreover have "rne x = (if d < 1 / 2 then f else if 1 / 2 < d then f + 1
      else if even f then f else f + 1)"
    by (simp only: rne_def Let_def f_def d_def)
  ultimately show ?thesis by auto
qed

lemma ilog2_bounds:
  assumes "0 < x"
  shows "2 powi ilog2 x \<le> x \<and> x < 2 powi (ilog2 x + 1)"
proof -
  obtain p q where pq: "quotient_of x = (p, q)" by fastforce
  have q: "0 < q" using pq by (rule quotient_of_denom_pos)
  have x: "x = of_int p / of_int q" using pq by (rule quotient_of_div)
  have p: "0 < p" using assms q unfolding x by (simp add: zero_less_divide_iff)
  define a where "a = bitlen p"
  define b where "b = bitlen q"
  have ab: "1 \<le> a" "1 \<le> b"
    using p q bitlen_nonneg [of p] bitlen_nonneg [of q] bitlen_eq_zero_iff [of p]
      bitlen_eq_zero_iff [of q] unfolding a_def b_def by linarith+
  have "2 ^ nat (a - 1) \<le> p" "p < 2 ^ nat a" "2 ^ nat (b - 1) \<le> q" "q < 2 ^ nat b"
    using bitlen_bounds [OF p] bitlen_bounds [OF q] by (simp_all add: a_def b_def)
  then have bnd: "2 powi (a - 1) \<le> (of_int p :: rat)" "(of_int p :: rat) < 2 powi a"
    "2 powi (b - 1) \<le> (of_int q :: rat)" "(of_int q :: rat) < 2 powi b"
    using ab by (simp_all add: power_int_nonneg_exp)
  have up: "x < 2 powi (a - b + 1)"
  proof -
    have "x < 2 powi a / of_int q" unfolding x using bnd(2) q by (simp add: divide_strict_right_mono)
    also have "\<dots> \<le> 2 powi a / 2 powi (b - 1)"
      using bnd(3) by (intro divide_left_mono) (simp_all add: q)
    also have "\<dots> = 2 powi (a - (b - 1))" by (rule power_int_diff [symmetric]) simp
    also have "a - (b - 1) = a - b + 1" by simp
    finally show ?thesis .
  qed
  have lo: "2 powi (a - b - 1) \<le> x"
  proof -
    have "2 powi (a - b - 1) = (2 powi ((a - 1) - b) :: rat)" by (simp add: algebra_simps)
    also have "\<dots> = 2 powi (a - 1) / 2 powi b" by (rule power_int_diff) simp
    also have "\<dots> \<le> 2 powi (a - 1) / of_int q"
      using bnd(4) q by (intro divide_left_mono) simp_all
    also have "\<dots> \<le> x" unfolding x using bnd(1) q by (simp add: divide_right_mono)
    finally show ?thesis .
  qed
  have ilog: "ilog2 x = (if 2 powi (a - b) \<le> x then a - b else a - b - 1)"
    by (simp add: ilog2_def pq Let_def a_def b_def)
  show ?thesis using up lo by (auto simp: ilog)
qed

lemma powi2_less_iff: "2 powi m < (2 powi n :: rat) \<longleftrightarrow> m < n"
  using power_int_strict_increasing [of m n "2 :: rat"] power_int_increasing [of n m "2 :: rat"]
  by (auto simp: not_less [symmetric])

lemma ilog2_unique:
  assumes "2 powi k \<le> x" and "x < 2 powi (k + 1)"
  shows "ilog2 x = k"
proof -
  have "0 < x" using assms(1) by (rule less_le_trans [rotated]) simp
  from ilog2_bounds [OF this]
  have "2 powi ilog2 x < (2 powi (k + 1) :: rat)" "2 powi k < (2 powi (ilog2 x + 1) :: rat)"
    using assms by linarith+
  then have "ilog2 x < k + 1" "k < ilog2 x + 1"
    by (simp_all only: powi2_less_iff)
  then show ?thesis by simp
qed

lemma ilog2_mono: "0 < x \<Longrightarrow> x \<le> y \<Longrightarrow> ilog2 x \<le> ilog2 y"
proof -
  assume x: "0 < x" and xy: "x \<le> y"
  then have "2 powi ilog2 x < (2 powi (ilog2 y + 1) :: rat)"
    using ilog2_bounds [of x] ilog2_bounds [of y] by linarith
  then show ?thesis
    by (simp only: powi2_less_iff)
qed
lemma round_rat_0 [simp]: "round_rat 0 = 0"
  by (simp add: round_rat_def)

lemma round_rat_minus [simp]: "round_rat (- x) = - round_rat x"
  by (simp add: round_rat_def ulp_exp_def rne_minus)

text \<open>Values on the grid of a larger or equal exponent are exact.\<close>

lemma round_rat_grid:
  assumes "x = of_int n * 2 powi k" and "ulp_exp x \<le> k"
  shows "round_rat x = x"
proof (cases "x = 0")
  case False
  have "x / 2 powi ulp_exp x = of_int n * 2 powi (k - ulp_exp x)"
    by (simp add: assms(1) power_int_diff)
  also have "\<dots> = of_int (n * 2 ^ nat (k - ulp_exp x))"
    using assms(2) by (simp add: power_int_nonneg_exp)
  finally have q: "x / 2 powi ulp_exp x = of_int (n * 2 ^ nat (k - ulp_exp x))" .
  then have "rne (x / 2 powi ulp_exp x) = n * 2 ^ nat (k - ulp_exp x)"
    by (metis rne_of_int)
  moreover have "of_int (n * 2 ^ nat (k - ulp_exp x)) * 2 powi ulp_exp x = x"
    using q by (metis nonzero_divide_eq_eq power_int_eq_0_iff zero_neq_numeral)
  ultimately show ?thesis using False by (simp add: round_rat_def)
qed simp

lemma round_rat_int:
  assumes "\<bar>n\<bar> \<le> 2 ^ 53"
  shows "round_rat (of_int n) = of_int n"
proof (cases "\<bar>n\<bar> = 2 ^ 53 \<or> n = 0")
  case True
  have "ilog2 (2 ^ 53) = 53" by (rule ilog2_unique) simp_all
  then have "round_rat (of_int (2 ^ 53)) = of_int (2 ^ 53)"
    by (intro round_rat_grid [where n = 1 and k = 53]) (simp_all add: ulp_exp_def)
  moreover from True have "n = 2 ^ 53 \<or> n = - (2 ^ 53) \<or> n = 0" by linarith
  ultimately show ?thesis by (metis of_int_0 of_int_minus round_rat_0 round_rat_minus)
next
  case False
  then have pos: "0 < \<bar>of_int n :: rat\<bar>" by simp
  have "\<bar>n\<bar> < 2 ^ 53" using assms False by simp
  then have lt: "\<bar>of_int n :: rat\<bar> < 2 powi 53"
    by (metis of_int_abs of_int_less_iff of_int_numeral of_int_power power_int_numeral)
  have "2 powi ilog2 \<bar>of_int n\<bar> < (2 powi 53 :: rat)"
    using ilog2_bounds [OF pos] lt by linarith
  then have "ilog2 \<bar>of_int n\<bar> < 53" by (simp only: powi2_less_iff)
  then show ?thesis
    by (intro round_rat_grid [where n = n and k = 0]) (simp_all add: ulp_exp_def)
qed

lemma round_rat_nonneg: "0 \<le> x \<Longrightarrow> 0 \<le> round_rat x"
  using rne_mono [of 0 "x / 2 powi ulp_exp x"] rne_of_int [of 0]
  by (auto simp: round_rat_def)

text \<open>Rounding stays inside the binade, its upper end included.\<close>

lemma powi2_exact:
  assumes "ulp_exp x \<le> k" and "x = 2 powi k"
  shows "round_rat x = x"
  using round_rat_grid [of x 1 k] assms by simp

lemma round_rat_upper:
  assumes "0 < x"
  shows "round_rat x \<le> 2 powi (max (-1022) (ilog2 x + 1))"
proof -
  define e where "e = ulp_exp x"
  define m where "m = max (-1022) (ilog2 x + 1)"
  have e: "e = max (-1074) (ilog2 x - 52)" using assms by (simp add: e_def ulp_exp_def)
  have me: "m - e \<ge> 0" "ilog2 x + 1 \<le> m" unfolding m_def e by linarith+
  have "x \<le> 2 powi (ilog2 x + 1)" using ilog2_bounds [OF assms] by simp
  also have "\<dots> \<le> 2 powi m" using me by (intro power_int_increasing) simp_all
  finally have "x / 2 powi e \<le> 2 powi m / 2 powi e" by (simp add: divide_right_mono)
  also have "\<dots> = 2 powi (m - e)" by (simp add: power_int_diff)
  also have "\<dots> = of_int (2 ^ nat (m - e))" using me by (simp add: power_int_nonneg_exp)
  finally have "rne (x / 2 powi e) \<le> 2 ^ nat (m - e)" by (metis rne_mono rne_of_int)
  then have "of_int (rne (x / 2 powi e)) \<le> (2 powi (m - e) :: rat)"
    using me by (metis of_int_le_iff of_int_numeral of_int_power power_int_nonneg_exp)
  then have "of_int (rne (x / 2 powi e)) * 2 powi e \<le> 2 powi (m - e) * (2 powi e :: rat)"
    by (intro mult_right_mono) simp_all
  also have "\<dots> = 2 powi m" by (simp flip: power_int_add)
  finally show ?thesis using assms by (simp add: round_rat_def e_def m_def)
qed

lemma round_rat_lower:
  assumes "0 < x" and "ulp_exp x \<le> k" and "2 powi k \<le> x"
  shows "2 powi k \<le> round_rat x"
proof -
  define e where "e = ulp_exp x"
  have "2 powi (k - e) \<le> x / 2 powi e"
    using assms(3) by (simp add: power_int_diff divide_right_mono)
  moreover have "(2 powi (k - e) :: rat) = of_int (2 ^ nat (k - e))"
    using assms(2) by (simp add: e_def power_int_nonneg_exp)
  ultimately have "2 ^ nat (k - e) \<le> rne (x / 2 powi e)" by (metis rne_mono rne_of_int)
  then have "(2 powi (k - e) :: rat) \<le> of_int (rne (x / 2 powi e))"
    using assms(2) by (metis diff_ge_0_iff_ge e_def of_int_le_iff of_int_numeral of_int_power power_int_nonneg_exp)
  then have "2 powi (k - e) * 2 powi e \<le> of_int (rne (x / 2 powi e)) * (2 powi e :: rat)"
    by (intro mult_right_mono) simp_all
  then show ?thesis using assms(1) by (simp add: round_rat_def e_def power_int_add [symmetric])
qed

lemma round_rat_mono_pos:
  assumes x: "0 < x" and xy: "x \<le> y"
  shows "round_rat x \<le> round_rat y"
proof (cases "ulp_exp x = ulp_exp y")
  case True
  have "rne (x / 2 powi ulp_exp y) \<le> rne (y / 2 powi ulp_exp y)"
    using xy by (intro rne_mono divide_right_mono) simp_all
  then show ?thesis using x xy True by (simp add: round_rat_def mult_right_mono)
next
  case False
  have le: "ilog2 x \<le> ilog2 y" using x xy by (rule ilog2_mono)
  have e: "ulp_exp x = max (-1074) (ilog2 x - 52)" "ulp_exp y = max (-1074) (ilog2 y - 52)"
    using x xy by (simp_all add: ulp_exp_def)
  with False le have m: "max (-1022) (ilog2 x + 1) \<le> ilog2 y" "ulp_exp y \<le> ilog2 y" by auto
  have y: "0 < y" using x xy by simp
  have "round_rat x \<le> 2 powi (max (-1022) (ilog2 x + 1))" using x by (rule round_rat_upper)
  also have "\<dots> \<le> 2 powi ilog2 y" using m(1) by (intro power_int_increasing) simp_all
  also have "\<dots> \<le> round_rat y"
    using y m(2) ilog2_bounds [OF y] by (intro round_rat_lower) simp_all
  finally show ?thesis .
qed

lemma round_rat_mono: "x \<le> y \<Longrightarrow> round_rat x \<le> round_rat y"
proof -
  assume xy: "x \<le> y"
  consider "0 < x" | "x \<le> 0" "0 \<le> y" | "y < 0" by linarith
  then show ?thesis
  proof cases
    case 1
    then show ?thesis using xy by (rule round_rat_mono_pos)
  next
    case 2
    have "round_rat x \<le> 0" using 2(1) round_rat_nonneg [of "- x"] by simp
    also have "\<dots> \<le> round_rat y" using 2(2) by (rule round_rat_nonneg)
    finally show ?thesis .
  next
    case 3
    then show ?thesis using xy round_rat_mono_pos [of "- y" "- x"] by simp
  qed
qed

lemma round_rat_err:
  assumes "2 powi (-1022) \<le> \<bar>x\<bar>"
  shows "\<bar>round_rat x - x\<bar> \<le> \<bar>x\<bar> * 2 powi (-53)"
proof -
  define e where "e = ulp_exp x"
  have pos: "0 < \<bar>x\<bar>" using assms by (rule less_le_trans [rotated]) simp
  have "2 powi (-1022) < (2 powi (ilog2 \<bar>x\<bar> + 1) :: rat)"
    using assms ilog2_bounds [OF pos] by linarith
  then have "-1022 < ilog2 \<bar>x\<bar> + 1" by (simp only: powi2_less_iff)
  then have e: "e = ilog2 \<bar>x\<bar> - 52" by (simp add: e_def ulp_exp_def)
  have "\<bar>round_rat x - x\<bar> = \<bar>of_int (rne (x / 2 powi e)) - x / 2 powi e\<bar> * 2 powi e"
  proof -
    have "round_rat x - x = (of_int (rne (x / 2 powi e)) - x / 2 powi e) * 2 powi e"
      using pos by (simp add: round_rat_def e_def left_diff_distrib)
    then show ?thesis by (simp add: abs_mult)
  qed
  also have "\<dots> \<le> 1 / 2 * 2 powi e" by (intro mult_right_mono rne_dist) simp
  also have "\<dots> = 2 powi ilog2 \<bar>x\<bar> * 2 powi (-53)"
    by (simp add: e power_int_diff power_int_minus)
  also have "\<dots> \<le> \<bar>x\<bar> * 2 powi (-53)"
    using ilog2_bounds [OF pos] by (intro mult_right_mono) simp_all
  finally show ?thesis .
qed

lemma fl_int: "\<bar>n\<bar> \<le> 2 ^ 53 \<Longrightarrow> fl (of_int n) = Fin (of_int n)"
proof -
  assume n: "\<bar>n\<bar> \<le> 2 ^ 53"
  then have "\<bar>of_int n :: rat\<bar> \<le> of_int (2 ^ 53)" by (metis of_int_abs of_int_le_iff)
  then have "\<bar>of_int n :: rat\<bar> < 2 ^ 1024" by simp
  then show ?thesis using round_rat_int [OF n] by (simp add: fl_def Let_def abs_less_iff not_le)
qed

text \<open>An evaluation rule: an integer of at most 53 bits is its own rounding.\<close>

lemma fl_code [code]:
  "fl x = (if snd (quotient_of x) = 1 \<and> \<bar>fst (quotient_of x)\<bar> \<le> 9007199254740992 then Fin x
    else let y = round_rat x in if 2 ^ 1024 \<le> y then PInf else if y \<le> - (2 ^ 1024) then NInf else Fin y)"
proof (cases "snd (quotient_of x) = 1 \<and> \<bar>fst (quotient_of x)\<bar> \<le> 9007199254740992")
  case True
  then have "x = of_int (fst (quotient_of x))"
    using quotient_of_div [of x "fst (quotient_of x)" 1] by (cases "quotient_of x") simp
  with True show ?thesis using fl_int [of "fst (quotient_of x)"] by simp
qed (auto simp: fl_def)

lemma fl_0 [simp]: "fl 0 = Fin 0"
  by (simp add: fl_def)

lemma fl_not_NaN [simp]: "fl x \<noteq> NaN"
  by (simp add: fl_def Let_def)

lemma fl_mono: "x \<le> y \<Longrightarrow> fl x \<le> fl y"
  using round_rat_mono [of x y] by (auto simp: fl_def Let_def less_eq_f64_def)

lemma fl_nonneg: "0 \<le> x \<Longrightarrow> Fin 0 \<le> fl x"
  using fl_mono [of 0 x] by simp

lemma fl_of_round: "round_rat x = y \<Longrightarrow> \<bar>y\<bar> < 2 ^ 1024 \<Longrightarrow> fl x = Fin y"
  by (auto simp: fl_def Let_def abs_less_iff not_le)

lemma fl_numeral [simp]: "numeral w \<le> (2 ^ 53 :: int) \<Longrightarrow> fl (numeral w) = Fin (numeral w)"
  using fl_int [of "numeral w"] by simp

lemma fl_neg_numeral [simp]:
  "numeral w \<le> (2 ^ 53 :: int) \<Longrightarrow> fl (- numeral w) = Fin (- numeral w)"
  using fl_int [of "- numeral w"] by simp

lemma fl_one [simp]: "fl 1 = Fin 1"
  using fl_int [of 1] by simp

text \<open>A dyadic fraction with a small numerator is exact; the executable check for concrete values.\<close>

lemma fl_dyadic:
  assumes "\<bar>n\<bar> \<le> 2 ^ 52" and "k \<le> 1000"
  shows "fl (of_int n / 2 ^ k) = Fin (of_int n / 2 ^ k)"
proof (cases "n = 0")
  case False
  define x where "x = (of_int n / 2 ^ k :: rat)"
  have x: "x = of_int n * 2 powi (- int k)" by (simp add: x_def power_int_minus field_simps)
  have pos: "0 < \<bar>x\<bar>" using False by (simp add: x_def)
  have "\<bar>x\<bar> = of_int \<bar>n\<bar> * 2 powi (- int k)" by (simp add: x abs_mult)
  also have "\<dots> \<le> of_int (2 ^ 52) * 2 powi (- int k)"
    using assms(1) by (intro mult_right_mono) (simp_all only: of_int_le_iff zero_le_power_int zero_le_numeral)
  finally have "\<bar>x\<bar> \<le> 2 powi (52 - int k)" by (simp add: power_int_diff power_int_minus divide_inverse)
  then have "2 powi ilog2 \<bar>x\<bar> < (2 powi (53 - int k) :: rat)"
    using ilog2_bounds [OF pos] power_int_strict_increasing [of "52 - int k" "53 - int k" "2 :: rat"]
    by linarith
  then have "ilog2 \<bar>x\<bar> < 53 - int k" by (simp only: powi2_less_iff)
  then have "ulp_exp x \<le> - int k" using assms(2) by (simp add: ulp_exp_def)
  then have "round_rat x = x" by (rule round_rat_grid [OF x])
  moreover have "\<bar>x\<bar> < 2 ^ 1024"
  proof -
    have "\<bar>x\<bar> \<le> 2 powi (52 - int k)" by fact
    also have "\<dots> < 2 powi 1024" by (intro power_int_strict_increasing) simp_all
    finally show ?thesis by simp
  qed
  ultimately show ?thesis unfolding x_def by (rule fl_of_round)
qed simp

text \<open>
  Evaluating \<open>fl\<close> on a concrete positive value: give the 53-bit significand \<open>m\<close> and the
  scale \<open>j\<close>; the side conditions are arithmetic on numerals.
\<close>

lemma fl_cert:
  assumes lo: "2 ^ 52 \<le> x * 2 ^ j" and hi: "x * 2 ^ j < 2 ^ 53" and j: "j \<le> 1000"
    and m: "\<bar>of_int m - x * 2 ^ j\<bar> < 1 / 2 \<or> even m \<and> \<bar>of_int m - x * 2 ^ j\<bar> \<le> 1 / 2"
  shows "fl x = Fin (of_int m / 2 ^ j)"
proof -
  have k: "(2 powi (52 - int j) :: rat) = 2 ^ 52 / 2 ^ j" "(2 powi (53 - int j) :: rat) = 2 ^ 53 / 2 ^ j"
    by (simp_all add: power_int_diff)
  have "2 powi (52 - int j) \<le> x" "x < 2 powi (53 - int j)"
    unfolding k using lo hi by (simp_all add: field_simps)
  then have il: "ilog2 x = 52 - int j" by (intro ilog2_unique) simp_all
  have x0: "0 < x" using lo by (metis less_le_trans zero_less_mult_pos2 zero_less_numeral zero_less_power)
  then have e: "ulp_exp x = - int j" using j by (simp add: ulp_exp_def il)
  have "x / 2 powi ulp_exp x = x * 2 ^ j" by (simp add: e power_int_minus divide_inverse)
  moreover have "rne (x * 2 ^ j) = m" using m by (auto intro: rne_unique rne_tie)
  ultimately have r: "round_rat x = of_int m / 2 ^ j"
    using x0 by (simp add: round_rat_def e power_int_minus field_simps)
  have "\<bar>of_int m :: rat\<bar> < 2 ^ 54"
  proof -
    define y where "y = x * 2 ^ j"
    have "4503599627370496 \<le> y" "y < 9007199254740992" "\<bar>of_int m - y\<bar> \<le> 1 / 2"
      using lo hi m by (auto simp: y_def)
    then have "\<bar>of_int m :: rat\<bar> < 18014398509481984" by linarith
    then show ?thesis by simp
  qed
  also have "(2 :: rat) ^ 54 \<le> 2 ^ 1024 * 2 ^ j"
  proof -
    have "(2 :: rat) ^ 54 \<le> 2 ^ 1024 * 1" by simp
    also have "\<dots> \<le> 2 ^ 1024 * 2 ^ j" by (rule mult_left_mono) simp_all
    finally show ?thesis .
  qed
  finally have "\<bar>of_int m / 2 ^ j :: rat\<bar> < 2 ^ 1024"
    unfolding abs_divide by (simp add: pos_divide_less_eq)
  with r show ?thesis by (rule fl_of_round)
qed

text \<open>Rounded values are values: rounding again changes nothing.\<close>

lemma round_rat_idem_pos:
  assumes x: "0 < x"
  shows "round_rat (round_rat x) = round_rat x"
proof (cases "round_rat x = 2 powi (max (-1022) (ilog2 x + 1))")
  case True
  define k where "k = max (-1022) (ilog2 x + 1)"
  have "ilog2 (2 powi k) = k" by (rule ilog2_unique) (simp_all add: powi2_less_iff)
  then have "ulp_exp (2 powi k) \<le> k" by (simp add: ulp_exp_def k_def)
  then show ?thesis unfolding True k_def [symmetric] by (rule powi2_exact) simp
next
  case False
  define e where "e = ulp_exp x"
  define y where "y = round_rat x"
  have y: "y = of_int (rne (x / 2 powi e)) * 2 powi e"
    using x by (simp add: y_def round_rat_def e_def)
  show ?thesis
  proof (cases "y = 0")
    case True
    then show ?thesis by (simp add: y_def)
  next
    case y0: False
    have pos: "0 < y" using y0 round_rat_nonneg [of x] x by (simp add: y_def)
    have "y < 2 powi (max (-1022) (ilog2 x + 1))"
      using False round_rat_upper [OF x] by (simp add: y_def)
    then have "2 powi ilog2 y < (2 powi (max (-1022) (ilog2 x + 1)) :: rat)"
      using ilog2_bounds [OF pos] by linarith
    then have "ilog2 y < max (-1022) (ilog2 x + 1)" by (simp only: powi2_less_iff)
    then have "ulp_exp y \<le> e" using x pos by (auto simp: ulp_exp_def e_def)
    then show ?thesis unfolding y_def [symmetric] by (rule round_rat_grid [OF y])
  qed
qed

lemma round_rat_idem [simp]: "round_rat (round_rat x) = round_rat x"
proof -
  consider "0 < x" | "x = 0" | "0 < - x" by linarith
  then show ?thesis
  proof cases
    case 3
    then show ?thesis using round_rat_idem_pos [of "- x"] by simp
  qed (simp_all add: round_rat_idem_pos)
qed

lemma fl_Fin_idem: "fl x = Fin y \<Longrightarrow> fl y = Fin y"
  by (auto simp: fl_def Let_def split: if_splits)

text \<open>\<open>is_f64\<close>: a value a \<^verbatim>\<open>float64\<close> variable can hold.\<close>

definition is_f64 :: "f64 \<Rightarrow> bool" where
  "is_f64 v \<longleftrightarrow> (case v of Fin x \<Rightarrow> fl x = Fin x | _ \<Rightarrow> True)"

lemma is_f64_fl [simp]: "is_f64 (fl x)"
  by (cases "fl x") (auto simp: is_f64_def dest: fl_Fin_idem)

lemma is_f64_0 [simp]: "is_f64 (Fin 0)"
  by (simp add: is_f64_def)

lemma fadd_0_left: "is_f64 v \<Longrightarrow> Fin 0 + v = v"
  by (cases v) (simp_all add: is_f64_def plus_f64_def)

lemma is_f64_add [simp]: "is_f64 (a + b)"
  by (cases a; cases b) (auto simp: plus_f64_def, simp_all add: is_f64_def)

end
