(* ===== verification/Scoring.thy ===== *)
theory Scoring
  imports Go_Float
begin

text \<open>
  The TIER formula: \<^verbatim>\<open>internal/scoring/engine.go\<close> up to the team rollup, the correction policy
  of \<^verbatim>\<open>correction_policy.go\<close> and the confidence intervals of \<^verbatim>\<open>bootstrap.go\<close>. Scores are
  \<^verbatim>\<open>float64\<close> values with their rounding, summed in the order the code sums them.
\<close>

section \<open>Policy and corrections\<close>

definition RubricVersion :: int where "RubricVersion = 1"

record scoring_policy =
  Event3 :: bool
  Resolved :: bool
  pol_RuleVersion :: string

record rule_stamp =
  st_Policy :: string
  st_RuleVersion :: string
  st_RubricVersion :: int

record correction_projection =
  pr_Points :: f64
  pr_Quality :: f64
  pr_Eligibility :: string
  pr_RuleVersion :: string

record correction_values =
  cv_Points :: f64
  cv_Quality :: f64
  cv_Eligible :: bool
  cv_Eligibility :: string
  cv_RuleVersion :: string

record outcome =
  o_Correction :: "correction_values option"
  o_Developer :: string
  o_IssueID :: string
  o_Repo :: string
  o_WorkType :: string
  o_Weight :: f64
  o_Quality :: f64
  o_ZeroToken :: bool

definition Stamp :: "scoring_policy \<Rightarrow> (string, rule_stamp) res" where
  "Stamp p =
     (if \<not> Event3 p then
        Inr \<lparr>st_Policy = ''legacy'', st_RuleVersion = ''legacy-v1'', st_RubricVersion = RubricVersion\<rparr>
      else if \<not> Resolved p \<or> pol_RuleVersion p \<noteq> ''event3-v2'' then
        Inl ''event 3 policy is not resolved under stored state''
      else Inr \<lparr>st_Policy = ''event3'', st_RuleVersion = pol_RuleVersion p, st_RubricVersion = 2\<rparr>)"

definition invalid_projection :: "correction_projection \<Rightarrow> bool" where
  "invalid_projection pr \<longleftrightarrow>
     is_nan (pr_Points pr) \<or> is_inf (pr_Points pr) \<or> pr_Points pr < Fin 0 \<or>
     is_nan (pr_Quality pr) \<or> is_inf (pr_Quality pr) \<or> pr_Quality pr < Fin 0 \<or> Fin 1 < pr_Quality pr"

definition EffectiveCorrectionValues ::
  "scoring_policy \<Rightarrow> outcome \<Rightarrow> correction_projection option \<Rightarrow> (string, correction_values) res" where
  "EffectiveCorrectionValues policy legacy projection =
     (if \<not> Event3 policy then
        Inr \<lparr>cv_Points = o_Weight legacy * o_Quality legacy, cv_Quality = o_Quality legacy,
          cv_Eligible = True, cv_Eligibility = ''eligible'', cv_RuleVersion = ''legacy-v1''\<rparr>
      else
        (case Stamp policy of
           Inl e \<Rightarrow> Inl e
         | Inr _ \<Rightarrow>
             (case projection of
                None \<Rightarrow> Inl ''event 3 projection unresolved''
              | Some pr \<Rightarrow>
                  if pr_RuleVersion pr \<noteq> ''event3-v1'' \<and> pr_RuleVersion pr \<noteq> ''event3-v2'' then
                    Inl ''event 3 projection unresolved''
                  else if invalid_projection pr then Inl ''invalid Event 3 projection''
                  else if pr_Eligibility pr \<notin> {''eligible'', ''ineligible'', ''unknown''} then
                    Inl ''invalid ranking eligibility''
                  else
                    Inr \<lparr>cv_Points = pr_Points pr, cv_Quality = pr_Quality pr,
                      cv_Eligible = (pr_Eligibility pr = ''eligible''),
                      cv_Eligibility = pr_Eligibility pr, cv_RuleVersion = pr_RuleVersion pr\<rparr>)))"

definition Points :: "outcome \<Rightarrow> f64" where
  "Points outc = (case o_Correction outc of Some c \<Rightarrow> cv_Points c | None \<Rightarrow> o_Weight outc * o_Quality outc)"

definition RankingEligible :: "outcome \<Rightarrow> bool" where
  "RankingEligible outc = (case o_Correction outc of None \<Rightarrow> True | Some c \<Rightarrow> cv_Eligible c)"

section \<open>Developer scores\<close>

definition MinRankedOutcomes :: int where "MinRankedOutcomes = 3"
definition MinRankedCostUSD :: f64 where "MinRankedCostUSD = Fin 5"
definition tierCostScaleUSD :: f64 where "tierCostScaleUSD = Fin 1000"

record developer_score =
  d_OutcomeN :: int
  d_Developer :: string
  d_TIER :: f64
  d_WeightedPoints :: f64
  d_TotalCostUSD :: f64
  d_ActualPaidUSD :: f64
  d_SpendLeverage :: f64
  d_CostPerPoint :: f64
  d_CoveragePercent :: f64
  d_FlaggedOutcomes :: int
  d_SampleN :: int
  d_CILow :: f64
  d_CIHigh :: f64
  d_Ranked :: bool
  d_CapturedRealtimeUSD :: f64
  d_CapturedNonRealtimeUSD :: f64

definition RawOutcomeCount :: "developer_score \<Rightarrow> int" where
  "RawOutcomeCount d = (if d_OutcomeN d \<noteq> 0 then d_OutcomeN d else d_SampleN d)"

text \<open>The loop of \<^verbatim>\<open>ComputeDeveloper\<close>: points, flagged, samples, projected.\<close>

fun outcome_loop :: "outcome list \<Rightarrow> f64 \<Rightarrow> int \<Rightarrow> int \<Rightarrow> bool \<Rightarrow> f64 \<times> int \<times> int \<times> bool" where
  "outcome_loop [] points flagged samples projected = (points, flagged, samples, projected)"
| "outcome_loop (x # xs) points flagged samples projected =
     outcome_loop xs (points + Points x)
       (if o_ZeroToken x then flagged + 1 else flagged)
       (if RankingEligible x then samples + 1 else samples)
       (projected \<or> o_Correction x \<noteq> None)"

definition ComputeDeveloper :: "string \<Rightarrow> outcome list \<Rightarrow> f64 \<Rightarrow> f64 \<Rightarrow> f64 \<Rightarrow> developer_score" where
  "ComputeDeveloper developer outcomes totalCostUSD realtimeCostUSD actualPaidUSD =
     (let (points, flagged, samples, projected) = outcome_loop outcomes (Fin 0) 0 0 False
      in \<lparr>d_OutcomeN = (if projected then int (length outcomes) else 0),
          d_Developer = developer,
          d_TIER = (if Fin 0 < totalCostUSD then points / (totalCostUSD / tierCostScaleUSD) else Fin 0),
          d_WeightedPoints = points,
          d_TotalCostUSD = totalCostUSD,
          d_ActualPaidUSD = actualPaidUSD,
          d_SpendLeverage = (if Fin 0 < actualPaidUSD then totalCostUSD / actualPaidUSD else Fin 0),
          d_CostPerPoint = (if Fin 0 < points then totalCostUSD / points else Fin 0),
          d_CoveragePercent =
            (if Fin 0 < totalCostUSD then (realtimeCostUSD / totalCostUSD) * Fin 100 else Fin 0),
          d_FlaggedOutcomes = flagged,
          d_SampleN = samples,
          d_CILow = Fin 0,
          d_CIHigh = Fin 0,
          d_Ranked = (flagged = 0 \<and> MinRankedOutcomes \<le> samples \<and> MinRankedCostUSD \<le> totalCostUSD),
          d_CapturedRealtimeUSD = Fin 0,
          d_CapturedNonRealtimeUSD = Fin 0\<rparr>)"

section \<open>Team rollup\<close>

record team_score =
  t_Team :: string
  t_TIER :: f64
  t_WeightedPoints :: f64
  t_TotalCostUSD :: f64
  t_ActualPaidUSD :: f64
  t_SpendLeverage :: f64
  t_CoveragePercent :: f64
  t_CostPerPoint :: f64
  t_Ranked :: bool
  t_Developers :: "developer_score list"

record rollup_sums =
  s_WeightedPoints :: f64
  s_TotalCostUSD :: f64
  s_ActualPaidUSD :: f64
  s_RealtimeUSD :: f64
  s_OutcomeN :: int
  s_SampleN :: int
  s_FlaggedOutcomes :: int

definition zero_sums :: rollup_sums where
  "zero_sums = \<lparr>s_WeightedPoints = Fin 0, s_TotalCostUSD = Fin 0, s_ActualPaidUSD = Fin 0,
     s_RealtimeUSD = Fin 0, s_OutcomeN = 0, s_SampleN = 0, s_FlaggedOutcomes = 0\<rparr>"

definition sums_add :: "rollup_sums \<Rightarrow> developer_score \<Rightarrow> rollup_sums" where
  "sums_add s d =
     \<lparr>s_WeightedPoints = s_WeightedPoints s + d_WeightedPoints d,
      s_TotalCostUSD = s_TotalCostUSD s + d_TotalCostUSD d,
      s_ActualPaidUSD = s_ActualPaidUSD s + d_ActualPaidUSD d,
      s_RealtimeUSD = s_RealtimeUSD s + d_TotalCostUSD d * (d_CoveragePercent d / Fin 100),
      s_OutcomeN = s_OutcomeN s + d_OutcomeN d,
      s_SampleN = s_SampleN s + d_SampleN d,
      s_FlaggedOutcomes = s_FlaggedOutcomes s + d_FlaggedOutcomes d\<rparr>"

definition sums_merge :: "rollup_sums \<Rightarrow> rollup_sums \<Rightarrow> rollup_sums" where
  "sums_merge s u =
     \<lparr>s_WeightedPoints = s_WeightedPoints s + s_WeightedPoints u,
      s_TotalCostUSD = s_TotalCostUSD s + s_TotalCostUSD u,
      s_ActualPaidUSD = s_ActualPaidUSD s + s_ActualPaidUSD u,
      s_RealtimeUSD = s_RealtimeUSD s + s_RealtimeUSD u,
      s_OutcomeN = s_OutcomeN s + s_OutcomeN u,
      s_SampleN = s_SampleN s + s_SampleN u,
      s_FlaggedOutcomes = s_FlaggedOutcomes s + s_FlaggedOutcomes u\<rparr>"

definition sums_team :: "rollup_sums \<Rightarrow> string \<Rightarrow> team_score" where
  "sums_team s name =
     \<lparr>t_Team = name,
      t_TIER = (if Fin 0 < s_TotalCostUSD s
        then s_WeightedPoints s / (s_TotalCostUSD s / tierCostScaleUSD) else Fin 0),
      t_WeightedPoints = s_WeightedPoints s,
      t_TotalCostUSD = s_TotalCostUSD s,
      t_ActualPaidUSD = s_ActualPaidUSD s,
      t_SpendLeverage = (if Fin 0 < s_ActualPaidUSD s
        then s_TotalCostUSD s / s_ActualPaidUSD s else Fin 0),
      t_CoveragePercent = (if Fin 0 < s_TotalCostUSD s
        then (s_RealtimeUSD s / s_TotalCostUSD s) * Fin 100 else Fin 0),
      t_CostPerPoint = (if Fin 0 < s_WeightedPoints s
        then s_TotalCostUSD s / s_WeightedPoints s else Fin 0),
      t_Ranked = (s_FlaggedOutcomes s = 0 \<and> MinRankedOutcomes \<le> s_SampleN s \<and>
        MinRankedCostUSD \<le> s_TotalCostUSD s),
      t_Developers = []\<rparr>"

definition RollupTeam :: "string \<Rightarrow> developer_score list \<Rightarrow> team_score" where
  "RollupTeam team devScores =
     (sums_team (foldl sums_add zero_sums devScores) team)\<lparr>t_Developers := devScores\<rparr>"

section \<open>Aggregation modes\<close>

text \<open>\<^verbatim>\<open>AggregationMode\<close> is an \<^verbatim>\<open>int\<close>: every value but the three named ones is unknown.\<close>

datatype aggregation_mode = AggregationDeveloper | AggregationTeam | AggregationDivision
  | AggregationUnknown int

fun mode_String :: "aggregation_mode \<Rightarrow> string" where
  "mode_String AggregationDeveloper = ''developer''"
| "mode_String AggregationTeam = ''team''"
| "mode_String AggregationDivision = ''division''"
| "mode_String (AggregationUnknown n) = ''unknown''"

definition Anonymized :: "aggregation_mode \<Rightarrow> bool" where
  "Anonymized m \<longleftrightarrow> m = AggregationTeam \<or> m = AggregationDivision"

section \<open>Confidence intervals\<close>

text \<open>
  The generator is a parameter: \<open>rng k\<close> is the value of the \<open>k\<close>-th call of \<^verbatim>\<open>rng.IntN(n)\<close>,
  which by its documentation lies in \<open>[0, n)\<close>; \<open>None\<close> is the nil generator.
\<close>

fun replicate_sums ::
  "f64 list \<Rightarrow> f64 list \<Rightarrow> (nat \<Rightarrow> nat) \<Rightarrow> nat \<Rightarrow> nat \<Rightarrow> f64 \<Rightarrow> f64 \<Rightarrow> f64 \<times> f64" where
  "replicate_sums contribs costs rng pos 0 num cost = (num, cost)"
| "replicate_sums contribs costs rng pos (Suc j) num cost =
     replicate_sums contribs costs rng (Suc pos) j
       (num + contribs ! rng pos) (cost + costs ! rng pos)"

fun replicate_tiers ::
  "f64 list \<Rightarrow> f64 list \<Rightarrow> f64 \<Rightarrow> f64 \<Rightarrow> (nat \<Rightarrow> nat) \<Rightarrow> nat \<Rightarrow> nat \<Rightarrow> f64 list" where
  "replicate_tiers contribs costs fixedPoints fixedCost rng pos 0 = []"
| "replicate_tiers contribs costs fixedPoints fixedCost rng pos (Suc b) =
     (let n = length contribs;
          (num, cost) = replicate_sums contribs costs rng pos n fixedPoints (Fin 0);
          denom = (cost + fixedCost) / tierCostScaleUSD;
          rest = replicate_tiers contribs costs fixedPoints fixedCost rng (pos + n) b
      in if denom \<le> Fin 0 then rest else (num / denom) # rest)"

text \<open>\<^verbatim>\<open>int(math.Floor(x))\<close> and \<^verbatim>\<open>int(math.Ceil(x))\<close> of a finite product.\<close>

fun floor_int :: "f64 \<Rightarrow> int" where
  "floor_int (Fin x) = \<lfloor>x\<rfloor>" | "floor_int _ = 0"
fun ceil_int :: "f64 \<Rightarrow> int" where
  "ceil_int (Fin x) = \<lceil>x\<rceil>" | "ceil_int _ = 0"

definition lo_index :: "nat \<Rightarrow> int" where
  "lo_index m = (let i = floor_int (fl (25 / 1000) * f64_of_int (int m)) in if i < 0 then 0 else i)"

definition hi_index :: "nat \<Rightarrow> int" where
  "hi_index m =
     (let i = ceil_int (fl (975 / 1000) * f64_of_int (int m)) - 1;
          i = (if int m \<le> i then int m - 1 else i)
      in if i < 0 then 0 else i)"

definition BootstrapCIWithFixedPoints ::
  "f64 list \<Rightarrow> f64 list \<Rightarrow> f64 \<Rightarrow> f64 \<Rightarrow> int \<Rightarrow> (nat \<Rightarrow> nat) option \<Rightarrow> f64 \<times> f64" where
  "BootstrapCIWithFixedPoints contribs costs fixedPoints fixedCost b rng =
     (case rng of
        None \<Rightarrow> (Fin 0, Fin 0)
      | Some r \<Rightarrow>
          if b \<le> 0 \<or> length contribs = 0 \<or> length contribs \<noteq> length costs then (Fin 0, Fin 0)
          else if foldl (+) (Fin 0) costs + fixedCost \<le> Fin 0 then (Fin 0, Fin 0)
          else
            let tiers = sort_key f64_key
                  (replicate_tiers contribs costs fixedPoints fixedCost r 0 (nat b))
            in if tiers = [] then (Fin 0, Fin 0)
               else (tiers ! nat (lo_index (length tiers)), tiers ! nat (hi_index (length tiers))))"

definition BootstrapCI ::
  "f64 list \<Rightarrow> f64 list \<Rightarrow> f64 \<Rightarrow> int \<Rightarrow> (nat \<Rightarrow> nat) option \<Rightarrow> f64 \<times> f64" where
  "BootstrapCI contribs costs fixedCost b rng =
     BootstrapCIWithFixedPoints contribs costs (Fin 0) fixedCost b rng"

definition CostPerPointCI :: "f64 \<Rightarrow> f64 \<Rightarrow> f64 \<times> f64" where
  "CostPerPointCI tierLo tierHi =
     (if \<not> Fin 0 < tierLo \<or> \<not> Fin 0 < tierHi then (Fin 0, Fin 0)
      else (tierCostScaleUSD / tierHi, tierCostScaleUSD / tierLo))"

section \<open>A concrete row\<close>

text \<open>A row that carries only cost: an index row of the residual of the ranking threshold.\<close>

definition cost_row :: "int \<Rightarrow> developer_score" where
  "cost_row micro = (ComputeDeveloper ''dev'' [] (f64_of_int micro / Fin 1000000) (Fin 0) (Fin 0))
     \<lparr>d_SampleN := 1\<rparr>"

section \<open>The developer loop in closed form\<close>

lemma outcome_loop_eq:
  "outcome_loop xs p f s pr =
     (foldl (+) p (map Points xs), f + int (length (filter o_ZeroToken xs)),
      s + int (length (filter RankingEligible xs)), pr \<or> (\<exists>x\<in>set xs. o_Correction x \<noteq> None))"
  by (induction xs arbitrary: p f s pr) auto

lemma Points_ZeroToken [simp]: "Points (x\<lparr>o_ZeroToken := z\<rparr>) = Points x"
  by (simp add: Points_def split: option.split)

lemma RankingEligible_ZeroToken [simp]: "RankingEligible (x\<lparr>o_ZeroToken := z\<rparr>) = RankingEligible x"
  by (simp add: RankingEligible_def split: option.split)

text \<open>The evidence floor of \<^verbatim>\<open>ComputeDeveloper\<close>: a developer is ranked exactly when no outcome
  carries the zero-token flag, at least three outcomes are eligible observations and the list
  cost reaches 5 dollars.\<close>

theorem ComputeDeveloper_ranked_iff:
  "d_Ranked (ComputeDeveloper dev xs cost rt paid) \<longleftrightarrow>
     filter o_ZeroToken xs = [] \<and> 3 \<le> length (filter RankingEligible xs) \<and> Fin 5 \<le> cost"
  by (auto simp: ComputeDeveloper_def outcome_loop_eq MinRankedOutcomes_def MinRankedCostUSD_def)

text \<open>Visibility, not score surgery: setting or clearing zero-token flags changes the flag
  count and the ranking verdict of a score and no other field of it.\<close>

theorem ComputeDeveloper_flags_frame:
  "ComputeDeveloper dev (map (\<lambda>x. x\<lparr>o_ZeroToken := flag x\<rparr>) xs) cost rt paid =
     (ComputeDeveloper dev xs cost rt paid)
       \<lparr>d_FlaggedOutcomes := int (length (filter flag xs)),
        d_Ranked := (filter flag xs = [] \<and> 3 \<le> length (filter RankingEligible xs) \<and> Fin 5 \<le> cost)\<rparr>"
proof -
  have "filter o_ZeroToken (map (\<lambda>x. x\<lparr>o_ZeroToken := flag x\<rparr>) xs) =
      map (\<lambda>x. x\<lparr>o_ZeroToken := flag x\<rparr>) (filter flag xs)"
    by (simp add: filter_map comp_def)
  moreover have "filter RankingEligible (map (\<lambda>x. x\<lparr>o_ZeroToken := flag x\<rparr>) xs) =
      map (\<lambda>x. x\<lparr>o_ZeroToken := flag x\<rparr>) (filter RankingEligible xs)"
    by (simp add: filter_map comp_def)
  ultimately show ?thesis
    by (auto simp: ComputeDeveloper_def outcome_loop_eq MinRankedOutcomes_def MinRankedCostUSD_def comp_def)
qed

section \<open>Sums depend on their order\<close>

lemma cost_certs:
  "fl (1 / 250000) = Fin (4722366482869645 / 2 ^ 70)"
  "fl (9 / 1000000) = Fin (5312662293228351 / 2 ^ 69)"
  "fl (199999 / 40000) = Fin (5629471386715449 / 2 ^ 50)"
  "fl (4722366482869645 / 1180591620717411303424) = Fin (4722366482869645 / 2 ^ 70)"
  "fl (4722366482869645 / 590295810358705651712) = Fin (4722366482869645 / 2 ^ 69)"
  "fl (14167099448608935 / 1180591620717411303424) = Fin (7083549724304468 / 2 ^ 69)"
  "fl (18889465931478581 / 1180591620717411303424) = Fin (4722366482869645 / 2 ^ 68)"
  "fl (14757395258967641 / 590295810358705651712) = Fin (7378697629483820 / 2 ^ 68)"
  "fl (368934881474191036619 / 73786976294838206464) = Fin (5629499534213120 / 2 ^ 50)"
  "fl (15347691069326347 / 1180591620717411303424) = Fin (7673845534663174 / 2 ^ 69)"
  "fl (20070057552195993 / 1180591620717411303424) = Fin (5017514388048998 / 2 ^ 68)"
  "fl (737868582356761355827 / 147573952589676412928) = Fin (5629490527013865 / 2 ^ 50)"
  "fl (5902953381220573375885 / 1180591620717411303424) = Fin (5629495030613492 / 2 ^ 50)"
  "fl (5902958103587055857037 / 1180591620717411303424) = Fin (5629499534213119 / 2 ^ 50)"
  using fl_cert [of "1 / 250000" 70 4722366482869645]
    fl_cert [of "9 / 1000000" 69 5312662293228351]
    fl_cert [of "199999 / 40000" 50 5629471386715449]
    fl_cert [of "4722366482869645 / 1180591620717411303424" 70 4722366482869645]
    fl_cert [of "4722366482869645 / 590295810358705651712" 69 4722366482869645]
    fl_cert [of "14167099448608935 / 1180591620717411303424" 69 7083549724304468]
    fl_cert [of "18889465931478581 / 1180591620717411303424" 68 4722366482869645]
    fl_cert [of "14757395258967641 / 590295810358705651712" 68 7378697629483820]
    fl_cert [of "368934881474191036619 / 73786976294838206464" 50 5629499534213120]
    fl_cert [of "15347691069326347 / 1180591620717411303424" 69 7673845534663174]
    fl_cert [of "20070057552195993 / 1180591620717411303424" 68 5017514388048998]
    fl_cert [of "737868582356761355827 / 147573952589676412928" 50 5629490527013865]
    fl_cert [of "5902953381220573375885 / 1180591620717411303424" 50 5629495030613492]
    fl_cert [of "5902958103587055857037 / 1180591620717411303424" 50 5629499534213119]
  by simp_all

lemma cost_row_fields [simp]:
  "d_TotalCostUSD (cost_row m) = f64_of_int m / Fin 1000000"
  "d_SampleN (cost_row m) = 1" "d_FlaggedOutcomes (cost_row m) = 0"
  by (simp_all add: cost_row_def ComputeDeveloper_def)

lemma ranked_foldl:
  "t_Ranked (RollupTeam team ds) \<longleftrightarrow>
     foldl (+) 0 (map d_FlaggedOutcomes ds) = 0 \<and> 3 \<le> foldl (+) 0 (map d_SampleN ds) \<and>
     Fin 5 \<le> foldl (+) (Fin 0) (map d_TotalCostUSD ds)"
proof -
  have f: "s_FlaggedOutcomes (foldl sums_add s ds) = foldl (+) (s_FlaggedOutcomes s) (map d_FlaggedOutcomes ds)"
    "s_SampleN (foldl sums_add s ds) = foldl (+) (s_SampleN s) (map d_SampleN ds)"
    "s_TotalCostUSD (foldl sums_add s ds) = foldl (+) (s_TotalCostUSD s) (map d_TotalCostUSD ds)" for s
    by (induction ds arbitrary: s) (simp_all add: sums_add_def)
  show ?thesis
    by (simp add: RollupTeam_def sums_team_def f zero_sums_def MinRankedOutcomes_def MinRankedCostUSD_def)
qed

text \<open>Why every rollup is fed a canonical order: two orders of the same six rows, 24 millionths
  and 4.999975 dollars in all, roll up on opposite sides of the 5 dollar ranking floor.\<close>

theorem RollupTeam_order_sensitive:
  "t_Ranked (RollupTeam ''other'' (map cost_row [4, 4, 4, 4, 9, 4999975]))
   \<and> \<not> t_Ranked (RollupTeam ''other'' (map cost_row [4, 9, 4, 4999975, 4, 4]))"
proof -
  have n: "f64_of_int 4 = Fin 4" "f64_of_int 9 = Fin 9" "f64_of_int 4999975 = Fin 4999975"
    by (simp_all add: f64_of_int_def)
  show ?thesis by (simp add: ranked_foldl n cost_certs)
qed

section \<open>Percentile indices\<close>

lemma const_certs:
  "fl (25 / 1000) = Fin (7205759403792794 / 2 ^ 58)"
  "fl (975 / 1000) = Fin (8782019273372467 / 2 ^ 53)"
  using fl_cert [of "25 / 1000" 58 7205759403792794] fl_cert [of "975 / 1000" 53 8782019273372467]
  by simp_all

lemma index_range:
  assumes m: "0 < m" "m \<le> 2 ^ 50"
  shows "0 \<le> lo_index m \<and> lo_index m \<le> hi_index m \<and> hi_index m < int m"
proof -
  define r where "r = (of_nat m :: rat)"
  have r: "1 \<le> r" "r \<le> 2 ^ 50"
  proof -
    show "1 \<le> r" using m(1) by (simp add: r_def)
    have "r \<le> of_nat (2 ^ 50)" unfolding r_def using m(2) by (rule of_nat_mono)
    then show "r \<le> 2 ^ 50" by simp
  qed
  have ri: "r = of_int (int m)" by (simp add: r_def)
  have fm: "f64_of_int (int m) = Fin r"
    unfolding f64_of_int_def ri using m by (intro fl_int) simp
  define x where "x = 7205759403792794 / 2 ^ 58 * r"
  define y where "y = 8782019273372467 / 2 ^ 53 * r"
  have half: "fl (r / 2) = Fin (r / 2)"
    using fl_dyadic [of "int m" 1] m(2) by (simp add: r_def)
  have threeq: "fl (3 * r / 4) = Fin (3 * r / 4)"
    using fl_dyadic [of "3 * int m" 2] m(2) by (simp add: r_def)
  have whole: "fl r = Fin r" using fm by (simp add: f64_of_int_def ri)
  have "x \<le> r / 2" "0 \<le> x" "3 * r / 4 \<le> y" "y \<le> r" using r by (simp_all add: x_def y_def)
  then have fx: "fl x \<le> Fin (r / 2)" "Fin 0 \<le> fl x" and fy: "Fin (3 * r / 4) \<le> fl y" "fl y \<le> Fin r"
    using fl_mono [of x "r / 2"] fl_nonneg [of x] fl_mono [of "3 * r / 4" y] fl_mono [of y r]
    by (simp_all add: half threeq whole)
  obtain u where u: "fl x = Fin u" "0 \<le> u" "u \<le> r / 2"
    using fx by (cases "fl x") (auto simp: less_eq_f64_def)
  obtain v where v: "fl y = Fin v" "3 * r / 4 \<le> v" "v \<le> r"
    using fy by (cases "fl y") (auto simp: less_eq_f64_def)
  have px: "fl (25 / 1000) * f64_of_int (int m) = fl x" "fl (975 / 1000) * f64_of_int (int m) = fl y"
    by (simp_all only: const_certs fm Fin_arith x_def y_def)
  have lo: "lo_index m = \<lfloor>u\<rfloor>"
    using u unfolding lo_index_def px by simp
  have "u < v" using u v r by simp
  then have uv: "\<lfloor>u\<rfloor> < \<lceil>v\<rceil>" by (simp add: less_ceiling_iff) (meson floor_le_iff le_less_trans of_int_floor_le)
  have "\<lceil>v\<rceil> \<le> int m" using v(3) by (simp add: ceiling_le_iff ri)
  then have hi: "hi_index m = \<lceil>v\<rceil> - 1"
    using v uv u unfolding hi_index_def px by (simp add: Let_def) linarith
  show ?thesis using lo hi u uv \<open>\<lceil>v\<rceil> \<le> int m\<close> by simp
qed

lemma sorted_index_key:
  "i \<le> j \<Longrightarrow> j < length xs \<Longrightarrow> f64_key (sort_key f64_key xs ! i) \<le> f64_key (sort_key f64_key xs ! j)"
  using sorted_nth_mono [of "map f64_key (sort_key f64_key xs)" i j] by simp

lemma length_replicate_tiers:
  "length (replicate_tiers contribs costs fp fc rng pos b) \<le> b"
  by (induction b arbitrary: pos) (auto simp: Let_def split: prod.splits intro: le_SucI)

text \<open>The percentile positions of the bootstrap never leave the replicate slice and never
  cross, for any number of finite replicates up to 2^50: \<^verbatim>\<open>tiers[loIdx]\<close> and \<^verbatim>\<open>tiers[hiIdx]\<close>
  cannot panic although the positions are computed in floating point.\<close>

theorem bootstrap_index_bounds:
  assumes "0 < m" and "m \<le> 2 ^ 50"
  shows "0 \<le> lo_index m \<and> lo_index m \<le> hi_index m \<and> hi_index m < int m"
  using assms by (rule index_range)

theorem bootstrap_index_bounds_witness: "0 \<le> lo_index 1 \<and> lo_index 1 \<le> hi_index 1 \<and> hi_index 1 < int 1"
  by (rule bootstrap_index_bounds) simp_all

text \<open>A bootstrap interval is ordered: for any generator, the lower bound never exceeds the
  upper one in the order the replicates are sorted by, on every path, the degenerate ones
  included.\<close>

theorem BootstrapCI_ordered:
  assumes "b \<le> 2 ^ 50"
  shows "f64_key (fst (BootstrapCIWithFixedPoints contribs costs fp fc b rng))
    \<le> f64_key (snd (BootstrapCIWithFixedPoints contribs costs fp fc b rng))"
proof (cases rng)
  case None
  then show ?thesis by (simp add: BootstrapCIWithFixedPoints_def)
next
  case (Some r)
  define ts where "ts = replicate_tiers contribs costs fp fc r 0 (nat b)"
  show ?thesis
  proof (cases "ts = []")
    case True
    then show ?thesis by (simp add: BootstrapCIWithFixedPoints_def Some ts_def [symmetric])
  next
    case False
    have "length ts \<le> nat b" unfolding ts_def by (rule length_replicate_tiers)
    then have len: "0 < length ts" "length ts \<le> 2 ^ 50" using False assms by auto
    note i = index_range [OF len]
    have "f64_key (sort_key f64_key ts ! nat (lo_index (length ts)))
        \<le> f64_key (sort_key f64_key ts ! nat (hi_index (length ts)))"
      using i by (intro sorted_index_key) auto
    then show ?thesis
      by (simp add: BootstrapCIWithFixedPoints_def Some ts_def [symmetric] Let_def)
  qed
qed

theorem BootstrapCI_ordered_witness:
  "f64_key (fst (BootstrapCIWithFixedPoints [Fin 2, Fin 3] [Fin 500, Fin 500] (Fin 0) (Fin 0) 1000 (Some (\<lambda>k. k mod 2))))
    \<le> f64_key (snd (BootstrapCIWithFixedPoints [Fin 2, Fin 3] [Fin 500, Fin 500] (Fin 0) (Fin 0) 1000 (Some (\<lambda>k. k mod 2))))"
  by (rule BootstrapCI_ordered) simp

text \<open>The interval of cost per point is the reciprocal of the TIER interval with the bounds
  swapped: an ordered positive TIER interval gives an ordered non-negative one, and a bound
  that is not a positive number, NaN included, gives (0, 0).\<close>

theorem CostPerPointCI_reciprocal:
  "(if Fin 0 < lo \<and> lo \<le> hi then
      fst (CostPerPointCI lo hi) = Fin 1000 / hi \<and> snd (CostPerPointCI lo hi) = Fin 1000 / lo \<and>
      Fin 0 \<le> fst (CostPerPointCI lo hi) \<and> fst (CostPerPointCI lo hi) \<le> snd (CostPerPointCI lo hi)
    else if \<not> (Fin 0 < lo \<and> Fin 0 < hi) then CostPerPointCI lo hi = (Fin 0, Fin 0)
    else CostPerPointCI lo hi = (Fin 1000 / hi, Fin 1000 / lo))"
proof (cases "Fin 0 < lo \<and> lo \<le> hi")
  case True
  have pos: "Fin 0 < hi" using True by (cases lo; cases hi) (auto simp: less_f64_def less_eq_f64_def)
  have "Fin 0 \<le> Fin 1000 / hi" "Fin 1000 / hi \<le> Fin 1000 / lo"
  proof -
    show "Fin 0 \<le> Fin 1000 / hi"
      using pos by (cases hi) (auto simp: less_f64_def less_eq_f64_def [of _ "Fin _"] divide_f64_def intro: fl_nonneg)
    show "Fin 1000 / hi \<le> Fin 1000 / lo"
      using True pos
      by (cases lo; cases hi)
        (auto simp: less_f64_def less_eq_f64_def [of "Fin _" "Fin _"] divide_f64_def less_eq_f64_def [of "Fin _" PInf]
          less_eq_f64_def [of PInf] intro!: fl_mono fl_nonneg divide_left_mono)
  qed
  then show ?thesis using True pos by (simp add: CostPerPointCI_def tierCostScaleUSD_def)
next
  case False
  then show ?thesis by (auto simp: CostPerPointCI_def tierCostScaleUSD_def)
qed

text \<open>Under the Event 3 policy nothing but a resolved, valid projection is scored: whenever
  \<^verbatim>\<open>EffectiveCorrectionValues\<close> succeeds, the stored state was resolved, and the projection's own
  points and quality are used unchanged, finite, non-negative and with quality at most 1.\<close>

theorem EffectiveCorrectionValues_sound:
  assumes "EffectiveCorrectionValues policy legacy projection = Inr cv" and "Event3 policy"
  shows "\<exists>pr pts q. projection = Some pr \<and> Resolved policy \<and> pol_RuleVersion policy = ''event3-v2'' \<and>
    cv_Points cv = pr_Points pr \<and> cv_Quality cv = pr_Quality pr \<and>
    pr_Points pr = Fin pts \<and> 0 \<le> pts \<and> pr_Quality pr = Fin q \<and> 0 \<le> q \<and> q \<le> 1 \<and>
    (cv_Eligible cv \<longleftrightarrow> pr_Eligibility pr = ''eligible'') \<and>
    pr_RuleVersion pr \<in> {''event3-v1'', ''event3-v2''}"
proof -
  obtain pr where pr: "projection = Some pr" "\<not> invalid_projection pr"
    "Resolved policy" "pol_RuleVersion policy = ''event3-v2''"
    "cv_Points cv = pr_Points pr" "cv_Quality cv = pr_Quality pr"
    "cv_Eligible cv \<longleftrightarrow> pr_Eligibility pr = ''eligible''"
    "pr_RuleVersion pr \<in> {''event3-v1'', ''event3-v2''}"
    using assms by (auto simp: EffectiveCorrectionValues_def Stamp_def split: if_splits option.splits)
  obtain pts where "pr_Points pr = Fin pts" "0 \<le> pts"
    using pr(2) by (cases "pr_Points pr") (auto simp: invalid_projection_def is_nan_def is_inf_def)
  moreover obtain q where "pr_Quality pr = Fin q" "0 \<le> q" "q \<le> 1"
    using pr(2) by (cases "pr_Quality pr") (auto simp: invalid_projection_def is_nan_def is_inf_def)
  ultimately show ?thesis using pr by blast
qed

theorem EffectiveCorrectionValues_sound_witness:
  "\<exists>pr pts q. Some (\<lparr>pr_Points = Fin 3, pr_Quality = Fin 1, pr_Eligibility = ''eligible'', pr_RuleVersion = ''event3-v2''\<rparr>) = Some pr \<and>
    pr_Points pr = Fin pts \<and> 0 \<le> pts \<and> pr_Quality pr = Fin q \<and> q \<le> 1"
proof -
  let ?p = "\<lparr>Event3 = True, Resolved = True, pol_RuleVersion = ''event3-v2''\<rparr>"
  let ?pr = "\<lparr>pr_Points = Fin 3, pr_Quality = Fin 1, pr_Eligibility = ''eligible'', pr_RuleVersion = ''event3-v2''\<rparr>"
  let ?cv = "\<lparr>cv_Points = Fin 3, cv_Quality = Fin 1, cv_Eligible = True, cv_Eligibility = ''eligible'', cv_RuleVersion = ''event3-v2''\<rparr>"
  have "EffectiveCorrectionValues ?p legacy (Some ?pr) = Inr ?cv" for legacy
    by (simp add: EffectiveCorrectionValues_def Stamp_def invalid_projection_def is_nan_def is_inf_def)
  from EffectiveCorrectionValues_sound [OF this] show ?thesis by auto
qed

end
