(* ===== verification/K_Anon.thy ===== *)
theory K_Anon
  imports Scoring
begin

text \<open>
  The k-anonymity folds of \<^verbatim>\<open>internal/scoring/engine.go\<close>: the per-measure seat census, the
  one-window aggregation and the two-window comparison. A nil predicate of a census is \<open>None\<close>
  and makes the call panic (\<open>Inl\<close>); the order in which Go ranges a map is a parameter.

  The lemmas give both folds in closed form over the sets of rows and people, from which the
  safety of every published row and the independence of the iteration order follow.
\<close>

section \<open>Rows, seats and the floor\<close>

definition DefaultKAnonymity :: int where "DefaultKAnonymity = 5"
definition MinKAnonymity :: int where "MinKAnonymity = 3"
definition OtherCohort :: string where "OtherCohort = ''other''"

definition HasActivity :: "developer_score \<Rightarrow> bool" where
  "HasActivity d \<longleftrightarrow> d_OutcomeN d \<noteq> 0 \<or> d_SampleN d \<noteq> 0 \<or> d_WeightedPoints d \<noteq> Fin 0 \<or>
     d_TotalCostUSD d \<noteq> Fin 0"

definition contributes :: "developer_score \<Rightarrow> bool" where
  "contributes d \<longleftrightarrow> d_OutcomeN d \<noteq> 0 \<or> d_SampleN d \<noteq> 0 \<or> d_WeightedPoints d \<noteq> Fin 0 \<or>
     d_TotalCostUSD d \<noteq> Fin 0 \<or> d_ActualPaidUSD d \<noteq> Fin 0"

record labeled_score =
  Label :: string
  Score :: developer_score

definition row_key :: "labeled_score \<Rightarrow> string \<times> string" where
  "row_key r = (d_Developer (Score r), Label r)"

definition sortLabeledScores :: "labeled_score list \<Rightarrow> labeled_score list" where
  "sortLabeledScores rows = sort_key row_key rows"

definition labeledScores :: "labeled_score list \<Rightarrow> developer_score list" where
  "labeledScores rows = map Score rows"

record census =
  cs_Uncounted :: "(string \<Rightarrow> bool) option"
  cs_UncapturedCost :: "(developer_score \<Rightarrow> bool \<Rightarrow> bool) option"
  cs_Pseudo :: "(string \<Rightarrow> bool) option"

record counting =
  Uncounted :: "string \<Rightarrow> bool"
  UncapturedCost :: "developer_score \<Rightarrow> bool \<Rightarrow> bool"
  Pseudo :: "string \<Rightarrow> bool"

definition mustHaveCensus :: "census \<Rightarrow> (string, counting) res" where
  "mustHaveCensus c =
     (case (cs_Uncounted c, cs_UncapturedCost c, cs_Pseudo c) of
        (Some u, Some g, Some p) \<Rightarrow> Inr \<lparr>Uncounted = u, UncapturedCost = g, Pseudo = p\<rparr>
      | _ \<Rightarrow> Inl (''scoring: k-anonymity aggregation needs a census with every predicate (the API'' @ [CHR 0x27] @
          ''s k-anonymity census)''))"

datatype measure = measurePoints | measureCost | measureRealtime | measureNonRealtime | measurePaid

definition all_measures :: "measure list" where
  "all_measures = [measurePoints, measureCost, measureRealtime, measureNonRealtime, measurePaid]"

fun carries :: "developer_score \<Rightarrow> measure \<Rightarrow> bool" where
  "carries d measurePoints = (d_OutcomeN d \<noteq> 0 \<or> d_SampleN d \<noteq> 0 \<or> d_WeightedPoints d \<noteq> Fin 0)"
| "carries d measureCost = (d_TotalCostUSD d \<noteq> Fin 0)"
| "carries d measureRealtime = (d_TotalCostUSD d \<noteq> Fin 0 \<and> d_CoveragePercent d \<noteq> Fin 0)"
| "carries d measureNonRealtime = (d_TotalCostUSD d \<noteq> Fin 0 \<and> d_CoveragePercent d \<noteq> Fin 100)"
| "carries d measurePaid = (d_ActualPaidUSD d \<noteq> Fin 0)"

record row_seats =
  rs_person :: bool
  rs_with :: "measure \<Rightarrow> bool"
  rs_has :: "measure \<Rightarrow> bool"

text \<open>The \<^verbatim>\<open>captured\<close> array of \<^verbatim>\<open>seatsOf\<close>; its paid entry is never read.\<close>

fun captured :: "counting \<Rightarrow> developer_score \<Rightarrow> measure \<Rightarrow> bool" where
  "captured c d measurePoints = True"
| "captured c d measureRealtime = (\<not> UncapturedCost c d True)"
| "captured c d measureNonRealtime = (\<not> UncapturedCost c d False)"
| "captured c d measureCost = (\<not> UncapturedCost c d True \<or> \<not> UncapturedCost c d False)"
| "captured c d measurePaid = False"

definition seatsOf :: "developer_score \<Rightarrow> counting \<Rightarrow> row_seats" where
  "seatsOf d c =
     (let pseudo = Pseudo c (d_Developer d);
          has = (\<lambda>m. carries d m \<and> \<not> (pseudo \<and> (m = measureRealtime \<or> m = measureNonRealtime)))
      in if Uncounted c (d_Developer d) then
           \<lparr>rs_person = False, rs_with = (\<lambda>_. False), rs_has = has\<rparr>
         else if \<not> HasActivity d then
           \<lparr>rs_person = False, rs_with = (\<lambda>m. m = measurePaid \<and> carries d measurePaid), rs_has = has\<rparr>
         else
           \<lparr>rs_person = True,
            rs_with = (\<lambda>m. if m = measurePaid then carries d measurePaid
              else carries d m \<and> captured c d m),
            rs_has = has\<rparr>)"

text \<open>The tally's Go sets of person keys are duplicate-free lists.\<close>

record seat_tally =
  tl_people :: "string list"
  tl_with :: "measure \<Rightarrow> string list"
  tl_has :: "measure \<Rightarrow> bool"

definition newSeatTally :: seat_tally where
  "newSeatTally = \<lparr>tl_people = [], tl_with = (\<lambda>_. []), tl_has = (\<lambda>_. False)\<rparr>"

definition tally_add :: "string \<Rightarrow> row_seats \<Rightarrow> seat_tally \<Rightarrow> seat_tally" where
  "tally_add person s t =
     \<lparr>tl_people = (if rs_person s then List.insert person (tl_people t) else tl_people t),
      tl_with = (\<lambda>m. if rs_with s m then List.insert person (tl_with t m) else tl_with t m),
      tl_has = (\<lambda>m. tl_has t m \<or> rs_has s m)\<rparr>"

record floor_census =
  fc_people :: int
  fc_with :: "measure \<Rightarrow> int"
  fc_has :: "measure \<Rightarrow> bool"

definition tally_census :: "seat_tally \<Rightarrow> floor_census" where
  "tally_census t =
     \<lparr>fc_people = int (length (tl_people t)), fc_with = (\<lambda>m. int (length (tl_with t m))),
      fc_has = tl_has t\<rparr>"

definition floorCensusOf :: "developer_score list \<Rightarrow> counting \<Rightarrow> floor_census" where
  "floorCensusOf devs c =
     tally_census (foldl (\<lambda>t d. tally_add (d_Developer d) (seatsOf d c) t) newSeatTally devs)"

definition clears :: "floor_census \<Rightarrow> int \<Rightarrow> bool" where
  "clears c k \<longleftrightarrow> \<not> fc_people c < k \<and> list_all (\<lambda>m. \<not> (fc_has c m \<and> fc_with c m < k)) all_measures"

definition residualVerdict :: "floor_census \<Rightarrow> int \<Rightarrow> bool \<Rightarrow> bool \<times> int" where
  "residualVerdict c k measured =
     (if clears c k then (False, fc_people c) else (measured, fc_people c))"

definition residualUnsafe :: "developer_score list \<Rightarrow> int \<Rightarrow> counting \<Rightarrow> bool \<times> int" where
  "residualUnsafe devs k c = residualVerdict (floorCensusOf devs c) k (list_ex contributes devs)"

definition teamClearsFloor :: "developer_score list \<Rightarrow> int \<Rightarrow> counting \<Rightarrow> bool" where
  "teamClearsFloor devs k c = clears (floorCensusOf devs c) k"

record suppression =
  sup_Residual :: bool
  sup_Developers :: int
  sup_K :: int

definition no_suppression :: suppression where
  "no_suppression = \<lparr>sup_Residual = False, sup_Developers = 0, sup_K = 0\<rparr>"

definition clamp_k :: "int \<Rightarrow> int" where
  "clamp_k k = (if k < MinKAnonymity then MinKAnonymity else k)"

section \<open>The one-window aggregation\<close>

definition rollup :: "string \<Rightarrow> developer_score list \<Rightarrow> team_score" where
  "rollup team devs = (RollupTeam team devs)\<lparr>t_Developers := []\<rparr>"

text \<open>
  \<^verbatim>\<open>groups[l]\<close> after the grouping loop, and \<^verbatim>\<open>range groups\<close>: the distinct labels in the
  unspecified order \<open>order\<close> of Go's map iteration.
\<close>

definition group_of :: "labeled_score list \<Rightarrow> string \<Rightarrow> labeled_score list" where
  "group_of rows l = filter (\<lambda>r. Label r = l) (sortLabeledScores rows)"

definition label_keys :: "labeled_score list \<Rightarrow> string list" where
  "label_keys rows = remdups (map Label (sortLabeledScores rows))"

definition nameable :: "string \<Rightarrow> bool" where
  "nameable l \<longleftrightarrow> l \<noteq> OtherCohort \<and> l \<noteq> []"

fun fold_groups ::
  "labeled_score list \<Rightarrow> int \<Rightarrow> counting \<Rightarrow> string list \<Rightarrow> team_score list \<times> labeled_score list" where
  "fold_groups rows k c [] = ([], [])"
| "fold_groups rows k c (l # ls) =
     (let grp = group_of rows l; devs = labeledScores grp; (named, other) = fold_groups rows k c ls
      in if nameable l \<and> teamClearsFloor devs k c then (rollup l devs # named, other)
         else (named, grp @ other))"

definition aggregate ::
  "(string list \<Rightarrow> string list) \<Rightarrow> labeled_score list \<Rightarrow> int \<Rightarrow> counting \<Rightarrow> team_score list \<times> suppression" where
  "aggregate order rows k c =
     (let (named, other) = fold_groups rows k c (order (label_keys rows));
          otherDevs = labeledScores (sortLabeledScores other);
          named = sort_key t_Team named
      in if otherDevs = [] then (named, no_suppression)
         else (case residualUnsafe otherDevs k c of
             (unsafe, n) \<Rightarrow>
               if unsafe then (named, \<lparr>sup_Residual = True, sup_Developers = n, sup_K = k\<rparr>)
               else (named @ [rollup OtherCohort otherDevs], no_suppression)))"

definition AggregateLabeledKAnon ::
  "(string list \<Rightarrow> string list) \<Rightarrow> labeled_score list \<Rightarrow> int \<Rightarrow> census
    \<Rightarrow> (string, team_score list \<times> suppression) res" where
  "AggregateLabeledKAnon order rows k cns =
     bind_res (mustHaveCensus cns) (\<lambda>c. Inr (aggregate order rows (clamp_k k) c))"

section \<open>The two-window comparison\<close>

record team_comparison =
  tc_Team :: string
  tc_A :: team_score
  tc_B :: team_score

fun fold_pairs ::
  "labeled_score list \<Rightarrow> labeled_score list \<Rightarrow> int \<Rightarrow> counting \<Rightarrow> counting \<Rightarrow> string list
    \<Rightarrow> team_comparison list \<times> labeled_score list \<times> labeled_score list" where
  "fold_pairs ar br k ca cb [] = ([], [], [])"
| "fold_pairs ar br k ca cb (l # ls) =
     (let ga = group_of ar l; gb = group_of br l; (named, oa, ob) = fold_pairs ar br k ca cb ls
      in if nameable l \<and> teamClearsFloor (labeledScores ga) k ca \<and> teamClearsFloor (labeledScores gb) k cb
         then (\<lparr>tc_Team = l, tc_A = rollup l (labeledScores ga), tc_B = rollup l (labeledScores gb)\<rparr>
                 # named, oa, ob)
         else (named, ga @ oa, gb @ ob))"

definition compare_windows ::
  "(string list \<Rightarrow> string list) \<Rightarrow> labeled_score list \<Rightarrow> labeled_score list \<Rightarrow> int \<Rightarrow> counting
    \<Rightarrow> counting \<Rightarrow> team_comparison list \<times> suppression" where
  "compare_windows order ar br k ca cb =
     (let (named, oa, ob) = fold_pairs ar br k ca cb (order (remdups (label_keys ar @ label_keys br)));
          otherA = labeledScores (sortLabeledScores oa);
          otherB = labeledScores (sortLabeledScores ob);
          named = sort_key tc_Team named
      in if otherA = [] \<and> otherB = [] then (named, no_suppression)
         else
           (let (unsafeA, nA) = residualUnsafe otherA k ca; (unsafeB, nB) = residualUnsafe otherB k cb
            in if unsafeA \<or> unsafeB
               then (named, \<lparr>sup_Residual = True, sup_Developers = (if nA < nB then nB else nA), sup_K = k\<rparr>)
               else (named @ [\<lparr>tc_Team = OtherCohort, tc_A = rollup OtherCohort otherA,
                       tc_B = rollup OtherCohort otherB\<rparr>], no_suppression)))"

definition CompareLabeledKAnon ::
  "(string list \<Rightarrow> string list) \<Rightarrow> labeled_score list \<Rightarrow> labeled_score list \<Rightarrow> int \<Rightarrow> census \<Rightarrow> census
    \<Rightarrow> (string, team_comparison list \<times> suppression) res" where
  "CompareLabeledKAnon order ar br k cnsA cnsB =
     bind_res (mustHaveCensus cnsA) (\<lambda>ca.
       bind_res (mustHaveCensus cnsB) (\<lambda>cb. Inr (compare_windows order ar br (clamp_k k) ca cb)))"

section \<open>The specification\<close>

text \<open>
  The people who count in a group and those who carry a measure, as sets: the floor asks for
  \<open>k\<close> of each, whatever the number of rows a person brings.
\<close>

definition counted_people :: "developer_score set \<Rightarrow> counting \<Rightarrow> string set" where
  "counted_people ds c = {d_Developer d | d. d \<in> ds \<and> \<not> Uncounted c (d_Developer d) \<and> HasActivity d}"

definition carriers :: "developer_score set \<Rightarrow> counting \<Rightarrow> measure \<Rightarrow> string set" where
  "carriers ds c m = {d_Developer d | d. d \<in> ds \<and> rs_with (seatsOf d c) m}"

definition published :: "developer_score set \<Rightarrow> counting \<Rightarrow> measure \<Rightarrow> bool" where
  "published ds c m \<longleftrightarrow> (\<exists>d\<in>ds. rs_has (seatsOf d c) m)"

definition k_safe :: "developer_score set \<Rightarrow> int \<Rightarrow> counting \<Rightarrow> bool" where
  "k_safe ds k c \<longleftrightarrow> k \<le> int (card (counted_people ds c)) \<and>
     (\<forall>m. published ds c m \<longrightarrow> k \<le> int (card (carriers ds c m)))"

text \<open>The scores behind one label, behind the labels that are not named, and the named labels.\<close>

definition named_labels :: "labeled_score list \<Rightarrow> int \<Rightarrow> counting \<Rightarrow> string list" where
  "named_labels rows k c =
     filter (\<lambda>l. nameable l \<and> k_safe (Score ` {r \<in> set rows. Label r = l}) k c)
       (sorted_list_of_set (Label ` set rows))"

definition residual_rows :: "labeled_score list \<Rightarrow> int \<Rightarrow> counting \<Rightarrow> labeled_score list" where
  "residual_rows rows k c = filter (\<lambda>r. Label r \<notin> set (named_labels rows k c)) (sortLabeledScores rows)"

definition rows_of :: "labeled_score list \<Rightarrow> string \<Rightarrow> developer_score list" where
  "rows_of rows l = map Score (filter (\<lambda>r. Label r = l) (sortLabeledScores rows))"

definition residual_safe :: "developer_score list \<Rightarrow> int \<Rightarrow> counting \<Rightarrow> bool" where
  "residual_safe devs k c \<longleftrightarrow> k_safe (set devs) k c \<or> \<not> list_ex contributes devs"

section \<open>The seat tally counts people\<close>

named_theorems seat_simps \<open>what one row brings to the tally\<close>

lemma rs_person_seatsOf [seat_simps]:
  "rs_person (seatsOf d c) \<longleftrightarrow> \<not> Uncounted c (d_Developer d) \<and> HasActivity d"
  by (simp add: seatsOf_def Let_def)

lemma rs_with_uncounted [seat_simps]: "Uncounted c (d_Developer d) \<Longrightarrow> \<not> rs_with (seatsOf d c) m"
  by (simp add: seatsOf_def Let_def)

definition tally :: "developer_score list \<Rightarrow> counting \<Rightarrow> seat_tally" where
  "tally devs c = foldl (\<lambda>t d. tally_add (d_Developer d) (seatsOf d c) t) newSeatTally devs"

lemma tally_Nil [simp]: "tally [] c = newSeatTally"
  by (simp add: tally_def)

lemma tally_snoc [simp]:
  "tally (devs @ [d]) c = tally_add (d_Developer d) (seatsOf d c) (tally devs c)"
  by (simp add: tally_def)

lemma tally_people:
  "set (tl_people (tally devs c)) = counted_people (set devs) c \<and> distinct (tl_people (tally devs c))"
proof (induction devs rule: rev_induct)
  case (snoc d devs)
  have "counted_people (insert d (set devs)) c =
    (if rs_person (seatsOf d c) then insert (d_Developer d) (counted_people (set devs) c)
     else counted_people (set devs) c)"
    by (auto simp: counted_people_def seat_simps)
  with snoc show ?case by (simp add: tally_add_def)
qed (simp add: newSeatTally_def counted_people_def)

lemma tally_with:
  "set (tl_with (tally devs c) m) = carriers (set devs) c m \<and> distinct (tl_with (tally devs c) m)"
proof (induction devs rule: rev_induct)
  case (snoc d devs)
  have "carriers (insert d (set devs)) c m =
    (if rs_with (seatsOf d c) m then insert (d_Developer d) (carriers (set devs) c m)
     else carriers (set devs) c m)"
    by (auto simp: carriers_def)
  with snoc show ?case by (simp add: tally_add_def)
qed (simp add: newSeatTally_def carriers_def)

lemma tally_has: "tl_has (tally devs c) m = published (set devs) c m"
  by (induction devs rule: rev_induct) (auto simp: newSeatTally_def tally_add_def published_def)

lemma set_all_measures: "set all_measures = UNIV"
proof -
  have "m \<in> set all_measures" for m by (cases m) (simp_all add: all_measures_def)
  then show ?thesis by auto
qed

lemma all_measures: "list_all P all_measures \<longleftrightarrow> (\<forall>m. P m)"
  by (simp add: list_all_iff set_all_measures)

lemma floorCensusOf_sets:
  "fc_people (floorCensusOf devs c) = int (card (counted_people (set devs) c))"
  "fc_with (floorCensusOf devs c) m = int (card (carriers (set devs) c m))"
  "fc_has (floorCensusOf devs c) m = published (set devs) c m"
  using tally_people [of devs c] tally_with [of devs c m] tally_has [of devs c m]
  by (simp_all add: floorCensusOf_def tally_census_def flip: tally_def, simp_all flip: distinct_card)

lemma teamClearsFloor_k_safe: "teamClearsFloor devs k c \<longleftrightarrow> k_safe (set devs) k c"
  by (auto simp: teamClearsFloor_def clears_def all_measures floorCensusOf_sets k_safe_def not_less)

lemma residualUnsafe_iff:
  "residualUnsafe devs k c = (\<not> residual_safe devs k c, int (card (counted_people (set devs) c)))"
  using teamClearsFloor_k_safe [of devs k c]
  by (auto simp: residualUnsafe_def residualVerdict_def teamClearsFloor_def residual_safe_def
      floorCensusOf_sets)

section \<open>The folds in closed form\<close>

lemma t_Team_rollup [simp]: "t_Team (rollup l ds) = l"
  by (simp add: rollup_def RollupTeam_def sums_team_def Let_def)

lemma group_of_rows [simp]: "labeledScores (group_of rows l) = rows_of rows l"
  by (simp add: labeledScores_def group_of_def rows_of_def)

lemma set_sortLabeledScores [simp]: "set (sortLabeledScores rows) = set rows"
  by (simp add: sortLabeledScores_def)

lemma set_rows_of: "set (rows_of rows l) = Score ` {r \<in> set rows. Label r = l}"
  by (auto simp: rows_of_def)

lemma set_label_keys: "set (label_keys rows) = Label ` set rows"
  by (auto simp: label_keys_def)

definition named_ok :: "labeled_score list \<Rightarrow> int \<Rightarrow> counting \<Rightarrow> string \<Rightarrow> bool" where
  "named_ok rows k c l \<longleftrightarrow> nameable l \<and> k_safe (set (rows_of rows l)) k c"

lemma fold_groups_closed:
  "fold_groups rows k c ls =
     (map (\<lambda>l. rollup l (rows_of rows l)) (filter (named_ok rows k c) ls),
      concat (map (group_of rows) (filter (\<lambda>l. \<not> named_ok rows k c l) ls)))"
  by (induction ls) (auto simp: Let_def teamClearsFloor_k_safe named_ok_def)

lemma filter_concat_groups:
  "distinct ls \<Longrightarrow>
   filter (\<lambda>r. row_key r = (p, l)) (concat (map (group_of rows) ls)) =
     (if l \<in> set ls then filter (\<lambda>r. row_key r = (p, l)) (sortLabeledScores rows) else [])"
  by (induction ls) (auto simp: group_of_def row_key_def filter_empty_conv intro!: filter_cong)

lemma sort_residual:
  assumes "distinct ls"
  shows "sortLabeledScores (concat (map (group_of rows) ls)) =
    filter (\<lambda>r. Label r \<in> set ls) (sortLabeledScores rows)"
proof -
  let ?F = "filter (\<lambda>r. Label r \<in> set ls) (sortLabeledScores rows)"
  have "sort_key row_key (concat (map (group_of rows) ls)) = sort_key row_key ?F"
  proof (rule sort_key_cong_filters)
    fix k :: "string \<times> string"
    obtain p l where k: "k = (p, l)" by (cases k)
    show "filter (\<lambda>r. row_key r = k) (concat (map (group_of rows) ls)) =
        filter (\<lambda>r. row_key r = k) ?F"
      unfolding k filter_concat_groups [OF assms] filter_filter
      by (auto simp: row_key_def filter_empty_conv intro!: filter_cong filter_False [symmetric])
  qed
  also have "\<dots> = ?F"
    unfolding sortLabeledScores_def
    by (intro sort_key_id_if_sorted sorted_filter) simp
  finally show ?thesis by (simp add: sortLabeledScores_def)
qed

lemma insort_key_map: "insort_key f (g x) (map g ys) = map g (insort_key (\<lambda>y. f (g y)) x ys)"
  by (induction ys) auto

lemma sort_key_map: "sort_key f (map g xs) = map g (sort_key (\<lambda>x. f (g x)) xs)"
  by (induction xs) (auto simp: insort_key_map)

lemma named_labels_alt:
  assumes "distinct ls" and "set ls = Label ` set rows"
  shows "sort (filter (named_ok rows k c) ls) = named_labels rows k c"
proof (rule sorted_distinct_set_unique)
  show "set (sort (filter (named_ok rows k c) ls)) = set (named_labels rows k c)"
    using assms(2) by (auto simp: named_labels_def named_ok_def set_rows_of)
  show "sorted (named_labels rows k c)"
    by (simp add: named_labels_def sorted_wrt_filter)
qed (use assms in \<open>simp_all add: named_labels_def\<close>)

lemma set_named_labels:
  "l \<in> set (named_labels rows k c) \<longleftrightarrow> l \<in> Label ` set rows \<and> named_ok rows k c l"
  by (auto simp: named_labels_def named_ok_def set_rows_of)

lemma aggregate_closed:
  assumes "map_order ord"
  shows "aggregate ord rows k c =
    (let named = map (\<lambda>l. rollup l (rows_of rows l)) (named_labels rows k c);
         other = map Score (residual_rows rows k c)
     in if other = [] then (named, no_suppression)
        else if residual_safe other k c then (named @ [rollup OtherCohort other], no_suppression)
        else (named, \<lparr>sup_Residual = True,
               sup_Developers = int (card (counted_people (set other) c)), sup_K = k\<rparr>))"
proof -
  let ?ls = "ord (label_keys rows)"
  have dk: "distinct (label_keys rows)" by (simp add: label_keys_def)
  have d: "distinct ?ls" and s: "set ?ls = Label ` set rows"
    using map_order_keys [OF assms dk] by (simp_all add: set_label_keys)
  have other: "sortLabeledScores (concat (map (group_of rows) (filter (\<lambda>l. \<not> named_ok rows k c l) ?ls)))
      = residual_rows rows k c"
    using d s by (auto simp: sort_residual residual_rows_def set_named_labels intro!: filter_cong)
  show ?thesis
    by (simp add: aggregate_def fold_groups_closed other sort_key_map named_labels_alt [OF d s]
        labeledScores_def residualUnsafe_iff Let_def)
qed

text \<open>The labels two windows may name, and what is left of one window.\<close>

definition pair_ok ::
  "labeled_score list \<Rightarrow> labeled_score list \<Rightarrow> int \<Rightarrow> counting \<Rightarrow> counting \<Rightarrow> string \<Rightarrow> bool" where
  "pair_ok ar br k ca cb l \<longleftrightarrow> named_ok ar k ca l \<and> named_ok br k cb l"

definition compared_labels ::
  "labeled_score list \<Rightarrow> labeled_score list \<Rightarrow> int \<Rightarrow> counting \<Rightarrow> counting \<Rightarrow> string list" where
  "compared_labels ar br k ca cb =
     filter (pair_ok ar br k ca cb) (sorted_list_of_set (Label ` (set ar \<union> set br)))"

definition rows_without :: "string list \<Rightarrow> labeled_score list \<Rightarrow> developer_score list" where
  "rows_without ls rows = map Score (filter (\<lambda>r. Label r \<notin> set ls) (sortLabeledScores rows))"

definition pair_of :: "labeled_score list \<Rightarrow> labeled_score list \<Rightarrow> string \<Rightarrow> team_comparison" where
  "pair_of ar br l =
     \<lparr>tc_Team = l, tc_A = rollup l (rows_of ar l), tc_B = rollup l (rows_of br l)\<rparr>"

lemma fold_pairs_closed:
  "fold_pairs ar br k ca cb ls =
     (let P = pair_ok ar br k ca cb
      in (map (pair_of ar br) (filter P ls), concat (map (group_of ar) (filter (\<lambda>l. \<not> P l) ls)),
          concat (map (group_of br) (filter (\<lambda>l. \<not> P l) ls))))"
  by (induction ls) (auto simp: Let_def teamClearsFloor_k_safe named_ok_def pair_ok_def pair_of_def)

lemma residual_filter:
  assumes "distinct ls" and "Label ` set rows \<subseteq> set ls"
  shows "labeledScores (sortLabeledScores (concat (map (group_of rows) (filter (\<lambda>l. \<not> P l) ls)))) =
    rows_without (filter P ls) rows"
proof -
  have "filter (\<lambda>r. Label r \<in> set (filter (\<lambda>l. \<not> P l) ls)) (sortLabeledScores rows) =
      filter (\<lambda>r. Label r \<notin> set (filter P ls)) (sortLabeledScores rows)"
    using assms(2) by (intro filter_cong) (auto simp: subset_iff)
  then show ?thesis using assms(1) by (simp add: sort_residual labeledScores_def rows_without_def)
qed

lemma sort_filter_labels:
  assumes "distinct ls" and "set ls = L"
  shows "sort (filter P ls) = filter P (sorted_list_of_set L)"
proof (rule sorted_distinct_set_unique)
  show "sorted (filter P (sorted_list_of_set L))" by (simp add: sorted_wrt_filter)
qed (use assms in auto)

lemma rows_without_cong: "set ls = set ls' \<Longrightarrow> rows_without ls rows = rows_without ls' rows"
  by (simp add: rows_without_def)

lemma compare_closed:
  assumes "map_order ord"
  shows "compare_windows ord ar br k ca cb =
    (let ls = compared_labels ar br k ca cb; named = map (pair_of ar br) ls;
         oa = rows_without ls ar; ob = rows_without ls br
     in if oa = [] \<and> ob = [] then (named, no_suppression)
        else if residual_safe oa k ca \<and> residual_safe ob k cb then
          (named @ [\<lparr>tc_Team = OtherCohort, tc_A = rollup OtherCohort oa, tc_B = rollup OtherCohort ob\<rparr>],
           no_suppression)
        else (named, \<lparr>sup_Residual = True,
          sup_Developers = max (int (card (counted_people (set oa) ca)))
             (int (card (counted_people (set ob) cb))), sup_K = k\<rparr>))"
proof -
  let ?keys = "remdups (label_keys ar @ label_keys br)"
  let ?ls = "ord ?keys" and ?P = "pair_ok ar br k ca cb"
  have d: "distinct ?ls" and s: "set ?ls = Label ` (set ar \<union> set br)"
    using map_order_keys [OF assms, of ?keys] by (simp_all add: set_label_keys image_Un)
  have names: "sort (filter ?P ?ls) = compared_labels ar br k ca cb"
    using sort_filter_labels [OF d s] by (simp add: compared_labels_def)
  have rest: "rows_without (filter ?P ?ls) rows = rows_without (compared_labels ar br k ca cb) rows" for rows
    by (rule rows_without_cong) (simp flip: names)
  have a: "Label ` set ar \<subseteq> set ?ls" and b: "Label ` set br \<subseteq> set ?ls" using s by auto
  have tp: "(\<lambda>l. tc_Team (pair_of ar br l)) = (\<lambda>l. l)" by (simp add: pair_of_def)
  show ?thesis
    by (simp add: compare_windows_def fold_pairs_closed Let_def residual_filter [OF d a]
        residual_filter [OF d b] rest sort_key_map tp names residualUnsafe_iff max_def)
qed

lemma residual_rows_without: "map Score (residual_rows rows k c) = rows_without (named_labels rows k c) rows"
  by (simp add: residual_rows_def rows_without_def)

lemma set_rows_without: "set (rows_without ls rows) = Score ` {r \<in> set rows. Label r \<notin> set ls}"
  by (auto simp: rows_without_def)

lemma compared_labels_ok:
  "l \<in> set (compared_labels ar br k ca cb) \<Longrightarrow> named_ok ar k ca l \<and> named_ok br k cb l"
  by (simp add: compared_labels_def pair_ok_def)

section \<open>A small organisation\<close>

text \<open>Three developers of team \<^verbatim>\<open>a\<close> and a single one of team \<^verbatim>\<open>b\<close>, each with one outcome.\<close>

definition ex_row :: "string \<Rightarrow> string \<Rightarrow> labeled_score" where
  "ex_row l p = \<lparr>Label = l,
     Score = (ComputeDeveloper p [] (Fin 0) (Fin 0) (Fin 0))\<lparr>d_OutcomeN := 1, d_SampleN := 1\<rparr>\<rparr>"

definition ex_rows :: "labeled_score list" where
  "ex_rows = [ex_row ''a'' ''p1'', ex_row ''b'' ''p4'', ex_row ''a'' ''p2'', ex_row ''a'' ''p3'']"

definition ex_counting :: counting where
  "ex_counting = \<lparr>Uncounted = (\<lambda>_. False), UncapturedCost = (\<lambda>_ _. False), Pseudo = (\<lambda>_. False)\<rparr>"

definition ex_census :: census where
  "ex_census = \<lparr>cs_Uncounted = Some (Uncounted ex_counting),
     cs_UncapturedCost = Some (UncapturedCost ex_counting), cs_Pseudo = Some (Pseudo ex_counting)\<rparr>"

fun fold_names :: "(string, team_score list \<times> suppression) res \<Rightarrow> (string list \<times> suppression) option" where
  "fold_names (Inl _) = None"
| "fold_names (Inr (ts, s)) = Some (map t_Team ts, s)"


lemma ex_mustHaveCensus: "mustHaveCensus ex_census = Inr ex_counting"
  by (simp add: mustHaveCensus_def ex_census_def)

lemma ex_aggregate:
  "fold_names (AggregateLabeledKAnon rev ex_rows 3 ex_census) =
     Some ([''a''], \<lparr>sup_Residual = True, sup_Developers = 1, sup_K = 3\<rparr>)"
  by code_simp

lemma ex_aggregate_result:
  obtains t where "AggregateLabeledKAnon rev ex_rows 3 ex_census =
    Inr ([t], \<lparr>sup_Residual = True, sup_Developers = 1, sup_K = 3\<rparr>)" and "t_Team t = ''a''"
  using ex_aggregate by (cases "AggregateLabeledKAnon rev ex_rows 3 ex_census") auto

lemma ex_rows_distinct: "distinct (map row_key ex_rows)"
  by code_simp

lemma clamp_3 [simp]: "clamp_k 3 = 3" by (simp add: clamp_k_def MinKAnonymity_def)

section \<open>Safety of what is published\<close>

text \<open>
  The people a published row speaks of: those behind its label, or those of every label that is
  not named when it is the residual row.
\<close>

definition row_people :: "labeled_score list \<Rightarrow> string list \<Rightarrow> string \<Rightarrow> developer_score set" where
  "row_people rows named l =
     Score ` (if l = OtherCohort then {r \<in> set rows. Label r \<notin> set named}
              else {r \<in> set rows. Label r = l})"

definition safe_or_empty :: "developer_score set \<Rightarrow> int \<Rightarrow> counting \<Rightarrow> bool" where
  "safe_or_empty ds k c \<longleftrightarrow> k_safe ds k c \<or> \<not> (\<exists>d\<in>ds. contributes d)"

lemma residual_safe_set: "residual_safe devs k c \<longleftrightarrow> safe_or_empty (set devs) k c"
  by (simp add: residual_safe_def safe_or_empty_def list_ex_iff)

lemma named_ok_label: "named_ok rows k c l \<Longrightarrow> l \<noteq> OtherCohort \<and> k_safe (row_people rows ls l) k c"
  by (simp add: named_ok_def nameable_def row_people_def set_rows_of)

lemma MinK_clamp: "MinKAnonymity \<le> clamp_k k" "k \<le> clamp_k k"
  by (simp_all add: clamp_k_def)

text \<open>C1. Every row the aggregation publishes is k-safe, for a floor that is never below three: at
  least that many distinct people count in it, and every measure it shows is carried by as many. The
  residual row may also be one whose rows carry no measured value at all. It holds whatever order
  the map of groups is ranged in.\<close>

theorem AggregateLabeledKAnon_safe:
  assumes "map_order ord" and "mustHaveCensus cns = Inr c"
    and "AggregateLabeledKAnon ord rows k cns = Inr (teams, s)" and "t \<in> set teams"
  shows "3 \<le> clamp_k k \<and> k \<le> clamp_k k \<and>
    (let ds = row_people rows (named_labels rows (clamp_k k) c) (t_Team t)
     in k_safe ds (clamp_k k) c \<or> t_Team t = OtherCohort \<and> \<not> (\<exists>d\<in>ds. contributes d))"
proof -
  let ?k = "clamp_k k" and ?n = "named_labels rows (clamp_k k) c"
  have agg: "aggregate ord rows ?k c = (teams, s)"
    using assms by (simp add: AggregateLabeledKAnon_def)
  have "t \<in> set (map (\<lambda>l. rollup l (rows_of rows l)) ?n) \<or>
      t = rollup OtherCohort (rows_without ?n rows) \<and> residual_safe (rows_without ?n rows) ?k c"
    using agg assms(4) unfolding aggregate_closed [OF assms(1)] residual_rows_without
    by (auto simp: Let_def split: if_splits)
  then show ?thesis
  proof
    assume "t \<in> set (map (\<lambda>l. rollup l (rows_of rows l)) ?n)"
    then obtain l where "l \<in> set ?n" and "t_Team t = l" by auto
    then show ?thesis
      using named_ok_label set_named_labels MinK_clamp [of k]
      by (auto simp: MinKAnonymity_def Let_def)
  next
    assume "t = rollup OtherCohort (rows_without ?n rows) \<and> residual_safe (rows_without ?n rows) ?k c"
    then show ?thesis
      using MinK_clamp [of k]
      by (auto simp: MinKAnonymity_def residual_safe_set safe_or_empty_def row_people_def set_rows_without)
  qed
qed

theorem AggregateLabeledKAnon_safe_witness:
  "\<exists>t. t_Team t = ''a'' \<and> AggregateLabeledKAnon rev ex_rows 3 ex_census =
      Inr ([t], \<lparr>sup_Residual = True, sup_Developers = 1, sup_K = 3\<rparr>) \<and>
    k_safe (row_people ex_rows (named_labels ex_rows 3 ex_counting) ''a'') 3 ex_counting"
proof (rule ex_aggregate_result)
  fix t
  assume a: "AggregateLabeledKAnon rev ex_rows 3 ex_census =
      Inr ([t], \<lparr>sup_Residual = True, sup_Developers = 1, sup_K = 3\<rparr>)" and t: "t_Team t = ''a''"
  then show ?thesis
    using AggregateLabeledKAnon_safe [OF map_order_rev ex_mustHaveCensus a, of t]
    by (auto simp: OtherCohort_def)
qed

text \<open>The aggregation is all or nothing about what it cannot name: it withholds the residual
  exactly when some row is left unnamed, some of these rows carries a measured value and they are not
  k-safe; it then says how many people and which floor, and publishes no residual row at all. When it
  withholds nothing, a residual row is published exactly when some row is left unnamed.\<close>

theorem AggregateLabeledKAnon_residual:
  assumes "map_order ord" and "mustHaveCensus cns = Inr c"
    and "AggregateLabeledKAnon ord rows k cns = Inr (teams, s)"
  shows "let rest = Score ` {r \<in> set rows. Label r \<notin> set (named_labels rows (clamp_k k) c)}
    in (sup_Residual s \<longleftrightarrow> (\<exists>d\<in>rest. contributes d) \<and> \<not> k_safe rest (clamp_k k) c) \<and>
       (OtherCohort \<in> t_Team ` set teams \<longleftrightarrow> rest \<noteq> {} \<and> \<not> sup_Residual s) \<and>
       (if sup_Residual s then sup_K s = clamp_k k \<and>
          sup_Developers s = int (card (counted_people rest c)) else s = no_suppression)"
proof -
  let ?k = "clamp_k k" and ?n = "named_labels rows (clamp_k k) c"
  have agg: "aggregate ord rows ?k c = (teams, s)"
    using assms by (simp add: AggregateLabeledKAnon_def)
  have "OtherCohort \<notin> set ?n"
    using set_named_labels [of OtherCohort rows ?k c] by (auto simp: named_ok_def nameable_def)
  moreover have "rows_without ?n rows = [] \<longleftrightarrow> set (rows_without ?n rows) = {}" by simp
  ultimately show ?thesis
    using agg unfolding aggregate_closed [OF assms(1)] residual_rows_without
    by (auto simp: Let_def residual_safe_set safe_or_empty_def set_rows_without no_suppression_def
        image_iff split: if_splits)
qed

theorem AggregateLabeledKAnon_residual_witness:
  "let rest = Score ` {r \<in> set ex_rows. Label r \<notin> set (named_labels ex_rows 3 ex_counting)}
    in (\<exists>d\<in>rest. contributes d) \<and> \<not> k_safe rest 3 ex_counting \<and> card (counted_people rest ex_counting) = 1"
proof (rule ex_aggregate_result)
  fix t
  assume a: "AggregateLabeledKAnon rev ex_rows 3 ex_census =
      Inr ([t], \<lparr>sup_Residual = True, sup_Developers = 1, sup_K = 3\<rparr>)" and t: "t_Team t = ''a''"
  then show ?thesis
    using AggregateLabeledKAnon_residual [OF map_order_rev ex_mustHaveCensus a] by (simp add: Let_def)
qed

text \<open>The result does not depend on the order Go ranges the map of groups in, nor on the order
  the rows arrive in: when no two rows share developer and label, every float of every published row
  is the same bit for bit.\<close>

theorem AggregateLabeledKAnon_deterministic:
  assumes "map_order ord" and "map_order ord'" and "distinct (map row_key rows)"
    and "mset rows = mset rows'"
  shows "AggregateLabeledKAnon ord rows k cns = AggregateLabeledKAnon ord' rows' k cns"
proof -
  have s: "sortLabeledScores rows = sortLabeledScores rows'"
    unfolding sortLabeledScores_def by (rule sort_key_perm_distinct [OF assms(3,4)])
  have "set rows = set rows'" using assms(4) by (rule mset_eq_setD)
  with s have "aggregate ord rows j c = aggregate ord' rows' j c" for j c
    by (simp add: aggregate_closed assms(1,2) rows_of_def residual_rows_def named_labels_def)
  then show ?thesis by (simp add: AggregateLabeledKAnon_def)
qed

theorem AggregateLabeledKAnon_deterministic_witness:
  "AggregateLabeledKAnon rev ex_rows 3 ex_census = AggregateLabeledKAnon id (rev ex_rows) 3 ex_census"
  by (rule AggregateLabeledKAnon_deterministic [OF map_order_rev map_order_id ex_rows_distinct]) simp

text \<open>Padding never unlocks a group: adding rows of people who are not counted, or rows
  without activity, never makes a group that is below the floor clear it, as long as the padding
  carries no paid figure of a counted person.\<close>

theorem teamClearsFloor_padding:
  assumes "\<And>d. d \<in> set pad \<Longrightarrow>
      Uncounted c (d_Developer d) \<or> \<not> HasActivity d \<and> d_ActualPaidUSD d = Fin 0"
    and "teamClearsFloor (devs @ pad) k c"
  shows "teamClearsFloor devs k c"
proof -
  have idle: "\<not> rs_with (seatsOf d c) m" if "d \<in> set pad" for d m
    using assms(1) [OF that] by (auto simp: seatsOf_def Let_def)
  have p: "counted_people (set (devs @ pad)) c = counted_people (set devs) c"
    using assms(1) by (auto simp: counted_people_def)
  have w: "carriers (set (devs @ pad)) c m = carriers (set devs) c m" for m
    using idle by (auto simp: carriers_def)
  have h: "published (set devs) c m \<Longrightarrow> published (set (devs @ pad)) c m" for m
    by (auto simp: published_def)
  show ?thesis
    using assms(2) p w h unfolding teamClearsFloor_k_safe k_safe_def by simp
qed

definition ex_pad :: developer_score where
  "ex_pad = ComputeDeveloper ''p9'' [] (Fin 0) (Fin 0) (Fin 0)"

theorem teamClearsFloor_padding_witness:
  "\<not> teamClearsFloor [Score (ex_row ''b'' ''p4''), ex_pad, ex_pad] 3 ex_counting"
proof
  have idle: "\<not> HasActivity ex_pad \<and> d_ActualPaidUSD ex_pad = Fin 0" by code_simp
  assume "teamClearsFloor [Score (ex_row ''b'' ''p4''), ex_pad, ex_pad] 3 ex_counting"
  then have "teamClearsFloor [Score (ex_row ''b'' ''p4'')] 3 ex_counting"
    using teamClearsFloor_padding [of "[ex_pad, ex_pad]" ex_counting "[Score (ex_row ''b'' ''p4'')]" 3] idle
    by auto
  moreover have "\<not> teamClearsFloor [Score (ex_row ''b'' ''p4'')] 3 ex_counting" by code_simp
  ultimately show False by simp
qed

text \<open>A comparison names a label only when it is k-safe in both windows, and publishes a
  residual only when it is safe on both sides: no row pairs a safe aggregate with an unsafe one.\<close>

theorem CompareLabeledKAnon_safe:
  assumes "map_order ord" and "mustHaveCensus cnsA = Inr ca" and "mustHaveCensus cnsB = Inr cb"
    and "CompareLabeledKAnon ord ar br k cnsA cnsB = Inr (rows, s)" and "t \<in> set rows"
  shows "let ls = compared_labels ar br (clamp_k k) ca cb; A = row_people ar ls (tc_Team t);
      B = row_people br ls (tc_Team t)
    in 3 \<le> clamp_k k \<and>
       (if tc_Team t = OtherCohort then safe_or_empty A (clamp_k k) ca \<and> safe_or_empty B (clamp_k k) cb
        else k_safe A (clamp_k k) ca \<and> k_safe B (clamp_k k) cb)"
proof -
  let ?k = "clamp_k k" and ?n = "compared_labels ar br (clamp_k k) ca cb"
  have cmp: "compare_windows ord ar br ?k ca cb = (rows, s)"
    using assms by (simp add: CompareLabeledKAnon_def)
  have "t \<in> set (map (pair_of ar br) ?n) \<or> tc_Team t = OtherCohort \<and>
      residual_safe (rows_without ?n ar) ?k ca \<and> residual_safe (rows_without ?n br) ?k cb"
    using cmp assms(5) unfolding compare_closed [OF assms(1)] by (auto simp: Let_def split: if_splits)
  then show ?thesis
  proof
    assume "t \<in> set (map (pair_of ar br) ?n)"
    then obtain l where l: "l \<in> set ?n" and t: "tc_Team t = l" by (auto simp: pair_of_def)
    then have "l \<noteq> OtherCohort" and "k_safe (row_people ar ?n l) ?k ca"
      and "k_safe (row_people br ?n l) ?k cb"
      using compared_labels_ok [OF l] named_ok_label by blast+
    then show ?thesis
      using MinK_clamp [of k] unfolding t Let_def by (simp add: MinKAnonymity_def)
  next
    assume "tc_Team t = OtherCohort \<and>
      residual_safe (rows_without ?n ar) ?k ca \<and> residual_safe (rows_without ?n br) ?k cb"
    then show ?thesis
      using MinK_clamp [of k]
      by (auto simp: MinKAnonymity_def residual_safe_set row_people_def set_rows_without Let_def)
  qed
qed

fun pair_names :: "(string, team_comparison list \<times> suppression) res \<Rightarrow> (string list \<times> suppression) option" where
  "pair_names (Inl _) = None"
| "pair_names (Inr (ts, s)) = Some (map tc_Team ts, s)"

theorem CompareLabeledKAnon_safe_witness:
  "k_safe (row_people ex_rows (compared_labels ex_rows ex_rows 3 ex_counting ex_counting) ''a'') 3 ex_counting"
proof -
  have "pair_names (CompareLabeledKAnon rev ex_rows ex_rows 3 ex_census ex_census) =
      Some ([''a''], \<lparr>sup_Residual = True, sup_Developers = 1, sup_K = 3\<rparr>)"
    by code_simp
  then obtain t s where r: "CompareLabeledKAnon rev ex_rows ex_rows 3 ex_census ex_census = Inr ([t], s)"
    and t: "tc_Team t = ''a''"
    by (cases "CompareLabeledKAnon rev ex_rows ex_rows 3 ex_census ex_census") auto
  show ?thesis
    using CompareLabeledKAnon_safe [OF map_order_rev ex_mustHaveCensus ex_mustHaveCensus r, of t] t
    by (simp add: OtherCohort_def Let_def)
qed

end
