(* ===== verification/K_Fold.thy ===== *)
theory K_Fold
  imports K_Anon
begin

text \<open>
  The stored fold inputs of \<^verbatim>\<open>internal/scoring/prefold.go\<close>: \<open>PreFold\<close> reduces the rows of one
  window to one input per label, which \<open>AggregateFolded\<close> and \<open>CompareFolded\<close> refold later.

  The theorems refine the row-level folds of \<open>K_Anon\<close>: refolding the stored inputs names the same
  labels, with the same figures bit for bit, and suppresses the same residual.
\<close>

section \<open>The fold input of a label\<close>

record label_input =
  li_Label :: string
  li_Sums :: rollup_sums
  li_People :: "string list"
  li_Carriers :: "measure \<Rightarrow> string list"
  li_Has :: "measure \<Rightarrow> bool"
  li_Contributes :: bool

definition new_input :: "string \<Rightarrow> label_input" where
  "new_input l = \<lparr>li_Label = l, li_Sums = zero_sums, li_People = [], li_Carriers = (\<lambda>_. []),
     li_Has = (\<lambda>_. False), li_Contributes = False\<rparr>"

text \<open>\<^verbatim>\<open>sort.Strings\<close> then \<^verbatim>\<open>slices.Compact\<close>.\<close>

definition sortedDistinct :: "string list \<Rightarrow> string list" where
  "sortedDistinct keys = remdups_adj (sort keys)"

text \<open>The body of the loop of \<^verbatim>\<open>PreFold\<close> on the input of the row's label.\<close>

definition input_add ::
  "(string \<Rightarrow> string) \<Rightarrow> counting \<Rightarrow> label_input \<Rightarrow> labeled_score \<Rightarrow> label_input" where
  "input_add key c i r =
     (let s = seatsOf (Score r) c; p = key (d_Developer (Score r))
      in \<lparr>li_Label = li_Label i,
          li_Sums = sums_add (li_Sums i) (Score r),
          li_People = (if rs_person s then li_People i @ [p] else li_People i),
          li_Carriers = (\<lambda>m. if rs_with s m then li_Carriers i m @ [p] else li_Carriers i m),
          li_Has = (\<lambda>m. li_Has i m \<or> rs_has s m),
          li_Contributes = (li_Contributes i \<or> contributes (Score r))\<rparr>)"

definition input_finish :: "label_input \<Rightarrow> label_input" where
  "input_finish i = i\<lparr>li_People := sortedDistinct (li_People i),
     li_Carriers := (\<lambda>m. sortedDistinct (li_Carriers i m))\<rparr>"

text \<open>The loop over the sorted rows; \<open>prev\<close> is the label of the row before.\<close>

fun prefold_loop ::
  "(string \<Rightarrow> string) \<Rightarrow> counting \<Rightarrow> string option \<Rightarrow> label_input list \<Rightarrow> labeled_score list
    \<Rightarrow> label_input list" where
  "prefold_loop key c prev outp [] = outp"
| "prefold_loop key c prev outp (r # rs) =
     (let outp = (if prev = Some (Label r) then outp else outp @ [new_input (Label r)])
      in prefold_loop key c (Some (Label r)) (butlast outp @ [input_add key c (last outp) r]) rs)"

definition label_key :: "labeled_score \<Rightarrow> string \<times> string" where
  "label_key r = (Label r, d_Developer (Score r))"

definition PreFold ::
  "labeled_score list \<Rightarrow> census \<Rightarrow> (string \<Rightarrow> string) \<Rightarrow> (string, label_input list) res" where
  "PreFold rows cns key =
     bind_res (mustHaveCensus cns) (\<lambda>c.
       Inr (map input_finish (prefold_loop key c None [] (sort_key label_key rows))))"

section \<open>Refolding\<close>

fun has_repeat :: "string list \<Rightarrow> string option" where
  "has_repeat (x # y # xs) = (if y = x then Some y else has_repeat (y # xs))"
| "has_repeat _ = None"

definition sortedInputs :: "label_input list \<Rightarrow> (string, label_input list) res" where
  "sortedInputs inputs =
     (let outp = sort_key li_Label inputs
      in case has_repeat (map li_Label outp) of
           Some l \<Rightarrow> Inl (''scoring: fold inputs carry label '' @ l @ '' twice'')
         | None \<Rightarrow> Inr outp)"

definition tally_input :: "label_input \<Rightarrow> seat_tally \<Rightarrow> seat_tally" where
  "tally_input i t =
     \<lparr>tl_people = fold List.insert (li_People i) (tl_people t),
      tl_with = (\<lambda>m. fold List.insert (li_Carriers i m) (tl_with t m)),
      tl_has = (\<lambda>m. tl_has t m \<or> li_Has i m)\<rparr>"

definition foldedCensus :: "label_input list \<Rightarrow> floor_census" where
  "foldedCensus inputs = tally_census (foldl (\<lambda>t i. tally_input i t) newSeatTally inputs)"

definition foldedResidualUnsafe :: "label_input list \<Rightarrow> int \<Rightarrow> bool \<times> int" where
  "foldedResidualUnsafe inputs k =
     residualVerdict (foldedCensus inputs) k (list_ex li_Contributes inputs)"

definition foldedSums :: "label_input list \<Rightarrow> rollup_sums" where
  "foldedSums inputs = foldl (\<lambda>s i. sums_merge s (li_Sums i)) zero_sums inputs"

fun folded_split :: "int \<Rightarrow> label_input list \<Rightarrow> team_score list \<times> label_input list" where
  "folded_split k [] = ([], [])"
| "folded_split k (i # is) =
     (let (named, other) = folded_split k is
      in if li_Label i \<noteq> OtherCohort \<and> li_Label i \<noteq> [] \<and> clears (foldedCensus [i]) k
         then (sums_team (li_Sums i) (li_Label i) # named, other)
         else (named, i # other))"

definition aggregate_folded :: "label_input list \<Rightarrow> int \<Rightarrow> team_score list \<times> suppression" where
  "aggregate_folded inputs k =
     (let (named, other) = folded_split k inputs
      in if other = [] then (named, no_suppression)
         else (case foldedResidualUnsafe other k of
             (unsafe, n) \<Rightarrow>
               if unsafe then (named, \<lparr>sup_Residual = True, sup_Developers = n, sup_K = k\<rparr>)
               else (named @ [sums_team (foldedSums other) OtherCohort], no_suppression)))"

definition AggregateFolded ::
  "label_input list \<Rightarrow> int \<Rightarrow> (string, team_score list \<times> suppression) res" where
  "AggregateFolded inputs k =
     bind_res (sortedInputs inputs) (\<lambda>is. Inr (aggregate_folded is (clamp_k k)))"

text \<open>The merge of two windows by label: each step takes the smaller head, or both.\<close>

fun merge_windows ::
  "label_input list \<Rightarrow> label_input list \<Rightarrow> (string \<times> label_input list \<times> label_input list) list" where
  "merge_windows [] [] = []"
| "merge_windows (a # as) [] = (li_Label a, [a], []) # merge_windows as []"
| "merge_windows [] (b # bs) = (li_Label b, [], [b]) # merge_windows [] bs"
| "merge_windows (a # as) (b # bs) =
     (if li_Label a < li_Label b then (li_Label a, [a], []) # merge_windows as (b # bs)
      else if li_Label b < li_Label a then (li_Label b, [], [b]) # merge_windows (a # as) bs
      else (li_Label a, [a], [b]) # merge_windows as bs)"

fun folded_pairs ::
  "int \<Rightarrow> (string \<times> label_input list \<times> label_input list) list
    \<Rightarrow> team_comparison list \<times> label_input list \<times> label_input list" where
  "folded_pairs k [] = ([], [], [])"
| "folded_pairs k ((l, ga, gb) # ps) =
     (let (named, oa, ob) = folded_pairs k ps
      in if l \<noteq> OtherCohort \<and> l \<noteq> [] \<and> clears (foldedCensus ga) k \<and> clears (foldedCensus gb) k
         then (\<lparr>tc_Team = l, tc_A = sums_team (li_Sums (hd ga)) l,
                 tc_B = sums_team (li_Sums (hd gb)) l\<rparr> # named, oa, ob)
         else (named, ga @ oa, gb @ ob))"

definition compare_folded ::
  "label_input list \<Rightarrow> label_input list \<Rightarrow> int \<Rightarrow> team_comparison list \<times> suppression" where
  "compare_folded as bs k =
     (let (named, oa, ob) = folded_pairs k (merge_windows as bs)
      in if oa = [] \<and> ob = [] then (named, no_suppression)
         else
           (let (unsafeA, nA) = foldedResidualUnsafe oa k; (unsafeB, nB) = foldedResidualUnsafe ob k
            in if unsafeA \<or> unsafeB
               then (named, \<lparr>sup_Residual = True, sup_Developers = max nA nB, sup_K = k\<rparr>)
               else (named @ [\<lparr>tc_Team = OtherCohort, tc_A = sums_team (foldedSums oa) OtherCohort,
                       tc_B = sums_team (foldedSums ob) OtherCohort\<rparr>], no_suppression)))"

definition CompareFolded ::
  "label_input list \<Rightarrow> label_input list \<Rightarrow> int \<Rightarrow> (string, team_comparison list \<times> suppression) res" where
  "CompareFolded a b k =
     bind_res (sortedInputs a) (\<lambda>as. bind_res (sortedInputs b) (\<lambda>bs.
       Inr (compare_folded as bs (clamp_k k))))"

section \<open>The inputs of a window\<close>

definition rows_with :: "string \<Rightarrow> labeled_score list \<Rightarrow> labeled_score list" where
  "rows_with l rows = filter (\<lambda>r. Label r = l) rows"

definition raw_input :: "(string \<Rightarrow> string) \<Rightarrow> counting \<Rightarrow> labeled_score list \<Rightarrow> string \<Rightarrow> label_input" where
  "raw_input key c rows l = foldl (input_add key c) (new_input l) (rows_with l rows)"

definition labels_of :: "labeled_score list \<Rightarrow> string list" where
  "labels_of rows = sorted_list_of_set (Label ` set rows)"

lemma set_labels_of [simp]: "set (labels_of rows) = Label ` set rows"
  by (simp add: labels_of_def)

lemma distinct_labels_of [simp]: "distinct (labels_of rows)"
  by (simp add: labels_of_def)

lemma sorted_labels_of [simp]: "sorted (labels_of rows)"
  by (simp add: labels_of_def)

lemma labels_of_Cons:
  assumes "\<forall>x\<in>set rows. Label r \<le> Label x"
  shows "labels_of (r # rows) = Label r # labels_of (filter (\<lambda>x. Label x \<noteq> Label r) rows)"
proof (rule sorted_distinct_set_unique)
  show "sorted (Label r # labels_of (filter (\<lambda>x. Label x \<noteq> Label r) rows))"
    using assms by auto
qed auto

lemma prefold_loop_closed:
  assumes "sorted (map Label rs)" and "\<forall>x\<in>set rs. l \<le> Label x"
  shows "prefold_loop key c (Some l) (pre @ [i]) rs =
    pre @ foldl (input_add key c) i (rows_with l rs) #
      map (raw_input key c rs) (labels_of (filter (\<lambda>x. Label x \<noteq> l) rs))"
  using assms
proof (induction rs arbitrary: l pre i)
  case (Cons r rs)
  show ?case
  proof (cases "Label r = l")
    case True
    have "map (raw_input key c (r # rs)) (labels_of (filter (\<lambda>x. Label x \<noteq> l) rs)) =
        map (raw_input key c rs) (labels_of (filter (\<lambda>x. Label x \<noteq> l) rs))"
      using True by (intro map_cong) (auto simp: raw_input_def rows_with_def)
    with True show ?thesis
      using Cons.IH [of l pre "input_add key c i r"] Cons.prems by (simp add: rows_with_def)
  next
    case False
    let ?l = "Label r"
    have lt: "\<forall>x\<in>set (r # rs). l \<noteq> Label x"
      using False Cons.prems by (auto simp: order.antisym)
    have le: "\<forall>x\<in>set rs. ?l \<le> Label x" using Cons.prems by simp
    have f: "filter (\<lambda>x. Label x \<noteq> l) (r # rs) = r # rs"
      using lt by (intro filter_True) (auto simp: eq_commute)
    have n: "rows_with l (r # rs) = []" using lt by (auto simp: rows_with_def filter_empty_conv)
    have m: "map (raw_input key c (r # rs)) (labels_of (filter (\<lambda>x. Label x \<noteq> ?l) rs)) =
        map (raw_input key c rs) (labels_of (filter (\<lambda>x. Label x \<noteq> ?l) rs))"
      by (intro map_cong) (auto simp: raw_input_def rows_with_def)
    have "prefold_loop key c (Some l) (pre @ [i]) (r # rs) =
        prefold_loop key c (Some ?l) ((pre @ [i]) @ [input_add key c (new_input ?l) r]) rs"
      using False by (simp add: butlast_append)
    also have "\<dots> = (pre @ [i]) @ foldl (input_add key c) (input_add key c (new_input ?l) r) (rows_with ?l rs) #
        map (raw_input key c rs) (labels_of (filter (\<lambda>x. Label x \<noteq> ?l) rs))"
      using Cons.IH [of ?l "pre @ [i]" "input_add key c (new_input ?l) r"] Cons.prems le
      by (simp del: append_assoc)
    also have "\<dots> = pre @ foldl (input_add key c) i (rows_with l (r # rs)) #
        map (raw_input key c (r # rs)) (labels_of (filter (\<lambda>x. Label x \<noteq> l) (r # rs)))"
      unfolding f n labels_of_Cons [OF le] list.map m by (simp add: raw_input_def rows_with_def)
    finally show ?thesis .
  qed
qed (simp add: rows_with_def labels_of_def)

lemma prefold_loop_start:
  assumes "sorted (map Label rs)"
  shows "prefold_loop key c None [] rs = map (raw_input key c rs) (labels_of rs)"
proof (cases rs)
  case (Cons r rs')
  have le: "\<forall>x\<in>set rs'. Label r \<le> Label x" and s: "sorted (map Label rs')"
    using assms Cons by simp_all
  have m: "map (raw_input key c (r # rs')) (labels_of (filter (\<lambda>x. Label x \<noteq> Label r) rs')) =
      map (raw_input key c rs') (labels_of (filter (\<lambda>x. Label x \<noteq> Label r) rs'))"
    by (intro map_cong) (auto simp: raw_input_def rows_with_def)
  show ?thesis
    using prefold_loop_closed [OF s le, where pre = "[]" and i = "input_add key c (new_input (Label r)) r"]
    unfolding Cons labels_of_Cons [OF le] list.map m by (simp add: raw_input_def rows_with_def)
qed (simp add: labels_of_def)

lemma keys_agree:
  "Label x = l \<Longrightarrow> Label y = l \<Longrightarrow> (label_key x \<le> label_key y) = (row_key x \<le> row_key y)"
  by (auto simp: row_key_def label_key_def less_eq_prod_def)

lemma insort_label_key:
  "Label x = l \<Longrightarrow> \<forall>y\<in>set ys. Label y = l \<Longrightarrow> insort_key label_key x ys = insort_key row_key x ys"
proof (induction ys)
  case (Cons y ys)
  then show ?case using keys_agree [of x l y] by simp
qed simp

lemma sort_label_key:
  "\<forall>y\<in>set ys. Label y = l \<Longrightarrow> sort_key label_key ys = sort_key row_key ys"
proof (induction ys)
  case (Cons y ys)
  then have "\<forall>z\<in>set (sort_key row_key ys). Label z = l" and "Label y = l" by simp_all
  then show ?case using Cons insort_label_key [of y l "sort_key row_key ys"] by simp
qed simp

lemma rows_with_sorted: "map Score (rows_with l (sort_key label_key rows)) = rows_of rows l"
proof -
  have "rows_with l (sort_key label_key rows) = sort_key label_key (rows_with l rows)"
    by (simp add: rows_with_def filter_sort)
  also have "\<dots> = sort_key row_key (rows_with l rows)"
    by (rule sort_label_key [of _ l]) (simp add: rows_with_def)
  also have "\<dots> = rows_with l (sortLabeledScores rows)"
    by (simp add: rows_with_def sortLabeledScores_def filter_sort)
  finally show ?thesis by (simp add: rows_of_def rows_with_def)
qed

lemma set_sortedDistinct [simp]: "set (sortedDistinct keys) = set keys"
  by (simp add: sortedDistinct_def)

text \<open>What the loop has accumulated for a label, in terms of the rows of that label.\<close>

lemma input_add_closed:
  "let i = foldl (input_add key c) (new_input l) rs; ds = map Score rs
   in li_Label i = l \<and> li_Sums i = foldl sums_add zero_sums ds \<and>
      set (li_People i) = key ` counted_people (set ds) c \<and>
      (\<forall>m. set (li_Carriers i m) = key ` carriers (set ds) c m) \<and>
      (\<forall>m. li_Has i m = published (set ds) c m) \<and> li_Contributes i = list_ex contributes ds"
proof (induction rs rule: rev_induct)
  case (snoc r rs)
  let ?d = "Score r" and ?D = "set (map Score rs)"
  have p: "counted_people (insert ?d ?D) c =
      (if rs_person (seatsOf ?d c) then insert (d_Developer ?d) (counted_people ?D c) else counted_people ?D c)"
    by (auto simp: counted_people_def seat_simps)
  have w: "carriers (insert ?d ?D) c m =
      (if rs_with (seatsOf ?d c) m then insert (d_Developer ?d) (carriers ?D c m) else carriers ?D c m)" for m
    by (auto simp: carriers_def)
  have h: "published (insert ?d ?D) c m \<longleftrightarrow> published ?D c m \<or> rs_has (seatsOf ?d c) m" for m
    by (auto simp: published_def)
  show ?case
    using snoc p w h by (auto simp: input_add_def Let_def)
qed (simp add: new_input_def counted_people_def carriers_def published_def)

definition input_of :: "(string \<Rightarrow> string) \<Rightarrow> counting \<Rightarrow> labeled_score list \<Rightarrow> string \<Rightarrow> label_input" where
  "input_of key c rows l = input_finish (raw_input key c (sort_key label_key rows) l)"

lemma input_of_simps [simp]:
  "li_Label (input_of key c rows l) = l"
  "li_Sums (input_of key c rows l) = foldl sums_add zero_sums (rows_of rows l)"
  "set (li_People (input_of key c rows l)) = key ` counted_people (set (rows_of rows l)) c"
  "set (li_Carriers (input_of key c rows l) m) = key ` carriers (set (rows_of rows l)) c m"
  "li_Has (input_of key c rows l) m = published (set (rows_of rows l)) c m"
  "li_Contributes (input_of key c rows l) = list_ex contributes (rows_of rows l)"
  using input_add_closed [of key c l "rows_with l (sort_key label_key rows)"]
  unfolding rows_with_sorted
  by (simp_all add: input_of_def input_finish_def raw_input_def Let_def)

lemma PreFold_closed:
  "PreFold rows cns key =
     bind_res (mustHaveCensus cns) (\<lambda>c. Inr (map (input_of key c rows) (labels_of rows)))"
proof -
  have "sorted (map Label (sort_key label_key rows))"
  proof -
    have "sorted (map label_key (sort_key label_key rows))" by simp
    then show ?thesis
      unfolding sorted_map
      by (rule sorted_wrt_mono_rel [rotated]) (auto simp: label_key_def less_eq_prod_def)
  qed
  then show ?thesis
    by (cases "mustHaveCensus cns")
      (simp_all add: PreFold_def prefold_loop_start input_of_def labels_of_def)
qed

section \<open>Refolding counts the same people\<close>

lemma fold_insert_distinct:
  "distinct xs \<Longrightarrow> set (fold List.insert ys xs) = set ys \<union> set xs \<and> distinct (fold List.insert ys xs)"
  by (induction ys arbitrary: xs) auto

lemma foldedCensus_sets:
  "fc_people (foldedCensus is) = int (card (\<Union>i\<in>set is. set (li_People i)))"
  "fc_with (foldedCensus is) m = int (card (\<Union>i\<in>set is. set (li_Carriers i m)))"
  "fc_has (foldedCensus is) m = (\<exists>i\<in>set is. li_Has i m)"
proof -
  let ?t = "foldl (\<lambda>t i. tally_input i t) newSeatTally is"
  have "set (tl_people ?t) = (\<Union>i\<in>set is. set (li_People i)) \<and> distinct (tl_people ?t)"
    by (induction "is" rule: rev_induct)
      (auto simp: newSeatTally_def tally_input_def fold_insert_distinct)
  then show "fc_people (foldedCensus is) = int (card (\<Union>i\<in>set is. set (li_People i)))"
    by (metis distinct_card foldedCensus_def floor_census.select_convs(1) tally_census_def)
  have "set (tl_with ?t m) = (\<Union>i\<in>set is. set (li_Carriers i m)) \<and> distinct (tl_with ?t m)"
    by (induction "is" rule: rev_induct)
      (auto simp: newSeatTally_def tally_input_def fold_insert_distinct)
  then show "fc_with (foldedCensus is) m = int (card (\<Union>i\<in>set is. set (li_Carriers i m)))"
    by (simp add: foldedCensus_def tally_census_def flip: distinct_card)
  have "tl_has ?t m \<longleftrightarrow> (\<exists>i\<in>set is. li_Has i m)"
    by (induction "is" rule: rev_induct) (auto simp: newSeatTally_def tally_input_def)
  then show "fc_has (foldedCensus is) m = (\<exists>i\<in>set is. li_Has i m)"
    by (simp add: foldedCensus_def tally_census_def)
qed

text \<open>The scores behind a set of labels.\<close>

definition scores_in :: "labeled_score list \<Rightarrow> string set \<Rightarrow> developer_score set" where
  "scores_in rows L = Score ` {r \<in> set rows. Label r \<in> L}"

lemma scores_in_UN: "(\<Union>l\<in>L. set (rows_of rows l)) = scores_in rows L"
  by (auto simp: scores_in_def set_rows_of)

lemma folded_people:
  "(\<Union>l\<in>L. key ` counted_people (set (rows_of rows l)) c) = key ` counted_people (scores_in rows L) c"
  "(\<Union>l\<in>L. key ` carriers (set (rows_of rows l)) c m) = key ` carriers (scores_in rows L) c m"
  "(\<exists>l\<in>L. published (set (rows_of rows l)) c m) \<longleftrightarrow> published (scores_in rows L) c m"
  "(\<exists>l\<in>L. list_ex contributes (rows_of rows l)) \<longleftrightarrow> (\<exists>d\<in>scores_in rows L. contributes d)"
  unfolding scores_in_UN [symmetric]
  by (auto simp: counted_people_def carriers_def published_def list_ex_iff)

definition devs_of :: "labeled_score list \<Rightarrow> string set" where
  "devs_of rows = (\<lambda>r. d_Developer (Score r)) ` set rows"

lemma people_devs:
  "counted_people (scores_in rows L) c \<subseteq> devs_of rows" "carriers (scores_in rows L) c m \<subseteq> devs_of rows"
  by (auto simp: counted_people_def carriers_def scores_in_def devs_of_def)

lemma foldedCensus_inputs:
  assumes "inj_on key (devs_of rows)"
  shows "fc_people (foldedCensus (map (input_of key c rows) ls)) =
      int (card (counted_people (scores_in rows (set ls)) c))"
    and "clears (foldedCensus (map (input_of key c rows) ls)) k \<longleftrightarrow> k_safe (scores_in rows (set ls)) k c"
  using card_image [OF inj_on_subset [OF assms people_devs(1)]]
    card_image [OF inj_on_subset [OF assms people_devs(2)]]
  by (auto simp: clears_def all_measures foldedCensus_sets folded_people k_safe_def not_less)

lemma foldedResidualUnsafe_inputs:
  assumes "inj_on key (devs_of rows)"
  shows "foldedResidualUnsafe (map (input_of key c rows) ls) k =
    (\<not> safe_or_empty (scores_in rows (set ls)) k c, int (card (counted_people (scores_in rows (set ls)) c)))"
proof -
  have "list_ex li_Contributes (map (input_of key c rows) ls) \<longleftrightarrow>
      (\<exists>d\<in>scores_in rows (set ls). contributes d)"
    by (simp add: list_ex_iff flip: folded_people(4))
  then show ?thesis
    using foldedCensus_inputs [OF assms]
    by (simp add: foldedResidualUnsafe_def residualVerdict_def safe_or_empty_def)
qed

section \<open>The folded aggregation refines the row-level one\<close>

lemma rollup_sums: "rollup l ds = sums_team (foldl sums_add zero_sums ds) l"
  by (simp add: rollup_def RollupTeam_def sums_team_def)

lemma has_repeat_distinct: "distinct ls \<Longrightarrow> has_repeat ls = None"
  by (induction ls rule: has_repeat.induct) auto

lemma sortedInputs_distinct:
  assumes "mset stored = mset (map f ls)" and "\<And>l. li_Label (f l) = l" and "distinct ls" and "sorted ls"
  shows "sortedInputs stored = Inr (map f ls)"
proof -
  have lab: "map li_Label (map f ls) = ls" using assms(2) by (simp add: o_def)
  have "sort_key li_Label (map f ls) = sort_key li_Label stored"
    by (rule sort_key_perm_distinct) (use assms lab in \<open>simp_all only: mset_map\<close>)
  moreover have "sort_key li_Label (map f ls) = map f ls"
    by (rule sort_key_id_if_sorted) (use assms lab in simp)
  ultimately have "sort_key li_Label stored = map f ls" by simp
  then show ?thesis
    using assms(3) lab by (simp only: sortedInputs_def Let_def has_repeat_distinct option.case)
qed

lemma clears_one:
  assumes "inj_on key (devs_of rows)"
  shows "clears (foldedCensus [input_of key c rows l]) k = k_safe (set (rows_of rows l)) k c"
  using foldedCensus_inputs(2) [OF assms, of c "[l]" k] scores_in_UN [of rows "{l}"] by simp

lemma folded_split_closed:
  assumes "inj_on key (devs_of rows)"
  shows "folded_split k (map (input_of key c rows) ls) =
     (map (\<lambda>l. rollup l (rows_of rows l)) (filter (named_ok rows k c) ls),
      map (input_of key c rows) (filter (\<lambda>l. \<not> named_ok rows k c l) ls))"
  by (induction ls)
    (auto simp: Let_def clears_one [OF assms] named_ok_def nameable_def rollup_sums)

lemma named_labels_labels_of: "named_labels rows k c = filter (named_ok rows k c) (labels_of rows)"
  by (auto simp: named_labels_def labels_of_def named_ok_def set_rows_of intro!: filter_cong)

text \<open>What the two folds agree on: the rows published under their own names, the names of all
  published rows, and the suppression.\<close>

definition same_named :: "team_score list \<times> suppression \<Rightarrow> team_score list \<times> suppression \<Rightarrow> bool" where
  "same_named x y \<longleftrightarrow> filter (\<lambda>t. t_Team t \<noteq> OtherCohort) (fst x) = filter (\<lambda>t. t_Team t \<noteq> OtherCohort) (fst y) \<and>
     map t_Team (fst x) = map t_Team (fst y) \<and> snd x = snd y"

lemma aggregate_folded_same:
  assumes "inj_on key (devs_of rows)" and "map_order ord"
  shows "same_named (aggregate_folded (map (input_of key c rows) (labels_of rows)) k) (aggregate ord rows k c)"
proof -
  define R where "R = filter (\<lambda>l. \<not> named_ok rows k c l) (labels_of rows)"
  let ?n = "named_labels rows k c"
  have rest: "scores_in rows (set R) = set (rows_without ?n rows)"
    by (auto simp: R_def scores_in_def set_rows_without named_labels_labels_of)
  have empty: "rows_without ?n rows = [] \<longleftrightarrow> R = []"
    by (auto simp: R_def rows_without_def named_labels_labels_of filter_empty_conv)
  have split: "folded_split k (map (input_of key c rows) (labels_of rows)) =
      (map (\<lambda>l. rollup l (rows_of rows l)) ?n, map (input_of key c rows) R)"
    by (simp add: folded_split_closed [OF assms(1)] R_def named_labels_labels_of)
  show ?thesis
    unfolding aggregate_closed [OF assms(2)] residual_rows_without aggregate_folded_def split
    by (simp add: same_named_def empty foldedResidualUnsafe_inputs [OF assms(1)] rest
        residual_safe_set Let_def) (simp add: sums_team_def)
qed

text \<open>C2. Refolding the stored inputs of a window publishes the rows of the row-level aggregation: every row
  under its own name has the same figures, every float the same bit for bit, the rows carry the same team
  names in the same order, and the suppression is the same with the same head count, as long as the person
  keys tell the developers of the window apart. Of the residual row only the name is compared, since the
  fold sums its labels in another order. It holds for every order the inputs are stored in and every order
  the map is ranged in.\<close>

theorem AggregateFolded_refines:
  assumes "PreFold rows cns key = Inr inputs" and "inj_on key (devs_of rows)"
    and "mset stored = mset inputs" and "map_order ord"
  shows "\<exists>x y. AggregateFolded stored k = Inr x \<and> AggregateLabeledKAnon ord rows k cns = Inr y \<and>
    same_named x y"
proof -
  obtain c where c: "mustHaveCensus cns = Inr c" and i: "inputs = map (input_of key c rows) (labels_of rows)"
    using assms(1) by (auto simp: PreFold_closed bind_res_Inr_iff)
  have "sortedInputs stored = Inr (map (input_of key c rows) (labels_of rows))"
    by (rule sortedInputs_distinct) (use assms(3) i in simp_all)
  then show ?thesis
    using aggregate_folded_same [OF assms(2,4), of c "clamp_k k"] c
    by (simp add: AggregateFolded_def AggregateLabeledKAnon_def)
qed

definition ex_key :: "string \<Rightarrow> string" where "ex_key p = ''u-'' @ p"

definition ex_inputs :: "label_input list" where
  "ex_inputs = (case PreFold ex_rows ex_census ex_key of Inr is \<Rightarrow> is | Inl _ \<Rightarrow> [])"

lemma ex_inputs: "PreFold ex_rows ex_census ex_key = Inr ex_inputs"
  by (simp add: ex_inputs_def PreFold_closed ex_mustHaveCensus)

lemma ex_key_inj: "inj_on ex_key A"
  by (simp add: inj_on_def ex_key_def)

theorem AggregateFolded_refines_witness:
  "fold_names (AggregateFolded (rev ex_inputs) 3) =
     Some ([''a''], \<lparr>sup_Residual = True, sup_Developers = 1, sup_K = 3\<rparr>)"
proof -
  obtain x y where "AggregateFolded (rev ex_inputs) 3 = Inr x"
    and "AggregateLabeledKAnon rev ex_rows 3 ex_census = Inr y" and "same_named x y"
    using AggregateFolded_refines [OF ex_inputs ex_key_inj mset_rev map_order_rev, of 3] by auto
  then show ?thesis
    using ex_aggregate by (cases x; cases y) (simp add: same_named_def)
qed

section \<open>The folded comparison refines the row-level one\<close>

lemma sorted_list_of_set_insert_less:
  "finite S \<Longrightarrow> \<forall>y\<in>S. (x::'a::linorder) < y \<Longrightarrow> sorted_list_of_set (insert x S) = x # sorted_list_of_set S"
  by (subst sorted_list_of_set_insert) (auto simp: insort_is_Cons less_imp_le)

definition part :: "(string \<Rightarrow> label_input) \<Rightarrow> string list \<Rightarrow> string \<Rightarrow> label_input list" where
  "part f ls l = (if l \<in> set ls then [f l] else [])"

lemma merge_windows_closed:
  assumes "sorted la" "distinct la" "sorted lb" "distinct lb"
    and f: "\<And>l. li_Label (f l) = l" and g: "\<And>l. li_Label (g l) = l"
  shows "merge_windows (map f la) (map g lb) =
    map (\<lambda>l. (l, part f la l, part g lb l)) (sorted_list_of_set (set la \<union> set lb))"
  using assms(1-4)
proof (induction la arbitrary: lb)
  case Nil
  then show ?case
  proof (induction lb)
    case (Cons b lb)
    then have "\<forall>y\<in>set lb. b < y" by (auto simp: less_le)
    with Cons show ?case
      by (auto simp: part_def g insort_is_Cons intro!: map_cong)
  qed simp
next
  case (Cons a la)
  note IHa = Cons.IH
  have la: "sorted la" "distinct la" "\<forall>y\<in>set la. a < y" using Cons.prems by (auto simp: less_le)
  show ?case
    using Cons.prems(3,4)
  proof (induction lb)
    case Nil
    have "a \<notin> set la" and "\<forall>y\<in>set la. a \<le> y" using la by (auto simp: less_imp_le)
    then show ?case
      using la IHa [of "[]"] by (auto simp: part_def f insort_is_Cons intro!: map_cong)
  next
    case (Cons b lb)
    have lb: "sorted lb" "distinct lb" "\<forall>y\<in>set lb. b < y" using Cons.prems by (auto simp: less_le)
    have step: "map (\<lambda>l. (l, part f (a # la) l, part g (b # lb) l)) (sorted_list_of_set (insert x S)) =
        (x, part f (a # la) x, part g (b # lb) x) # map (\<lambda>l. (l, part f as' l, part g bs' l)) (sorted_list_of_set S)"
      if "finite S" "\<forall>y\<in>S. x < y" "\<forall>y\<in>S. part f (a # la) y = part f as' y \<and> part g (b # lb) y = part g bs' y"
      for x S as' bs'
      using that unfolding sorted_list_of_set_insert_less [OF that(1,2)] by simp
    consider "a < b" | "b < a" | "a = b" by fastforce
    then show ?case
    proof cases
      case 1
      have u: "set (a # la) \<union> set (b # lb) = insert a (set la \<union> set (b # lb))" by auto
      have m: "\<forall>y\<in>set la \<union> set (b # lb). a < y" using 1 la(3) lb(3) by auto
      show ?thesis
        unfolding u
        by (subst step [of "set la \<union> set (b # lb)" a la "b # lb"])
          (use 1 m IHa [OF la(1,2) Cons.prems] in \<open>auto simp: f g part_def\<close>)
    next
      case 2
      have u: "set (a # la) \<union> set (b # lb) = insert b (set (a # la) \<union> set lb)" by auto
      have m: "\<forall>y\<in>set (a # la) \<union> set lb. b < y" using 2 la(3) lb(3) by auto
      show ?thesis
        unfolding u
        by (subst step [of "set (a # la) \<union> set lb" b "a # la" lb])
          (use 2 m Cons.IH [OF lb(1,2)] in \<open>auto simp: f g part_def\<close>)
    next
      case 3
      have u: "set (a # la) \<union> set (b # lb) = insert a (set la \<union> set lb)" using 3 by auto
      have m: "\<forall>y\<in>set la \<union> set lb. a < y" using 3 la(3) lb(3) by auto
      show ?thesis
        unfolding u
        by (subst step [of "set la \<union> set lb" a la lb])
          (use 3 m IHa [OF la(1,2) lb(1,2)] in \<open>auto simp: f g part_def\<close>)
    qed
  qed
qed

lemma k_safe_empty: "0 < k \<Longrightarrow> \<not> k_safe {} k c"
  by (simp add: k_safe_def counted_people_def)

lemma clears_Nil: "0 < k \<Longrightarrow> \<not> clears (foldedCensus []) k"
  by (simp add: clears_def foldedCensus_sets)

lemma clears_part:
  assumes "inj_on key (devs_of rows)" and "0 < k"
  shows "clears (foldedCensus (part (input_of key c rows) (labels_of rows) l)) k =
    k_safe (set (rows_of rows l)) k c"
proof (cases "l \<in> Label ` set rows")
  case False
  then have "rows_of rows l = []" by (auto simp: rows_of_def filter_empty_conv)
  with False show ?thesis using assms(2) by (simp add: part_def clears_Nil k_safe_empty)
qed (simp add: part_def clears_one [OF assms(1)])

lemma k_safe_rows:
  "0 < k \<Longrightarrow> k_safe (set (rows_of rows l)) k c \<Longrightarrow> l \<in> Label ` set rows"
proof (rule ccontr)
  assume "0 < k" "k_safe (set (rows_of rows l)) k c" and "l \<notin> Label ` set rows"
  then have "rows_of rows l = []" by (auto simp: rows_of_def filter_empty_conv)
  then show False using \<open>k_safe _ _ _\<close> k_safe_empty [OF \<open>0 < k\<close>] by simp
qed

lemma folded_pairs_closed:
  assumes "inj_on keya (devs_of ar)" and "inj_on keyb (devs_of br)" and "0 < k"
  shows "folded_pairs k (map (\<lambda>l. (l, part (input_of keya ca ar) (labels_of ar) l,
        part (input_of keyb cb br) (labels_of br) l)) ls) =
    (map (pair_of ar br) (filter (pair_ok ar br k ca cb) ls),
     map (input_of keya ca ar) (filter (\<lambda>l. l \<in> Label ` set ar \<and> \<not> pair_ok ar br k ca cb l) ls),
     map (input_of keyb cb br) (filter (\<lambda>l. l \<in> Label ` set br \<and> \<not> pair_ok ar br k ca cb l) ls))"
proof (induction ls)
  case (Cons l ls)
  have ok: "l \<noteq> OtherCohort \<and> l \<noteq> [] \<and>
      clears (foldedCensus (part (input_of keya ca ar) (labels_of ar) l)) k \<and>
      clears (foldedCensus (part (input_of keyb cb br) (labels_of br) l)) k \<longleftrightarrow> pair_ok ar br k ca cb l"
    by (auto simp: clears_part assms pair_ok_def named_ok_def nameable_def)
  show ?case
  proof (cases "pair_ok ar br k ca cb l")
    case True
    then have "l \<in> Label ` set ar" "l \<in> Label ` set br"
      using k_safe_rows [OF assms(3)] by (auto simp: pair_ok_def named_ok_def)
    with True show ?thesis
      using Cons.IH ok by (simp add: part_def pair_of_def rollup_sums)
  next
    case False
    with ok show ?thesis using Cons.IH by (auto simp: part_def)
  qed
qed simp

text \<open>Two comparisons agree on the named rows, on the names of all rows and on the suppression.\<close>

definition same_compared :: "team_comparison list \<times> suppression \<Rightarrow> team_comparison list \<times> suppression \<Rightarrow> bool" where
  "same_compared x y \<longleftrightarrow> filter (\<lambda>t. tc_Team t \<noteq> OtherCohort) (fst x) = filter (\<lambda>t. tc_Team t \<noteq> OtherCohort) (fst y) \<and>
     map tc_Team (fst x) = map tc_Team (fst y) \<and> snd x = snd y"

lemma compared_rest:
  assumes "Label ` set rows \<subseteq> L" and "finite L"
    and "R = filter (\<lambda>l. l \<in> Label ` set rows \<and> \<not> P l) (sorted_list_of_set L)"
  shows "scores_in rows (set R) = set (rows_without (filter P (sorted_list_of_set L)) rows)"
    and "R = [] \<longleftrightarrow> rows_without (filter P (sorted_list_of_set L)) rows = []"
  using assms by (auto simp: scores_in_def set_rows_without rows_without_def filter_empty_conv)

lemma compare_folded_same:
  assumes "inj_on keya (devs_of ar)" and "inj_on keyb (devs_of br)" and "0 < k" and "map_order ord"
  shows "same_compared
    (compare_folded (map (input_of keya ca ar) (labels_of ar)) (map (input_of keyb cb br) (labels_of br)) k)
    (compare_windows ord ar br k ca cb)"
proof -
  let ?L = "Label ` (set ar \<union> set br)" and ?P = "pair_ok ar br k ca cb"
  define A where "A = filter (\<lambda>l. l \<in> Label ` set ar \<and> \<not> ?P l) (sorted_list_of_set ?L)"
  define B where "B = filter (\<lambda>l. l \<in> Label ` set br \<and> \<not> ?P l) (sorted_list_of_set ?L)"
  have L: "set (labels_of ar) \<union> set (labels_of br) = ?L" by auto
  have "Label ` set ar \<subseteq> ?L" "Label ` set br \<subseteq> ?L" "finite ?L" by auto
  note rest = compared_rest [OF this(1) this(3) A_def] compared_rest [OF this(2) this(3) B_def]
  have merged: "folded_pairs k (merge_windows (map (input_of keya ca ar) (labels_of ar))
        (map (input_of keyb cb br) (labels_of br))) =
      (map (pair_of ar br) (filter ?P (sorted_list_of_set ?L)), map (input_of keya ca ar) A,
       map (input_of keyb cb br) B)"
    by (subst merge_windows_closed)
      (simp_all add: folded_pairs_closed [OF assms(1-3)] A_def B_def image_Un)
  show ?thesis
    unfolding compare_closed [OF assms(4)] compared_labels_def compare_folded_def merged
    by (simp add: same_compared_def rest foldedResidualUnsafe_inputs [OF assms(1)]
        foldedResidualUnsafe_inputs [OF assms(2)] residual_safe_set Let_def)
qed

text \<open>The same for two windows: comparing the stored inputs names the same labels as comparing
  the rows, with the same figures on both sides bit for bit, and suppresses the same residual; the
  merge of the two sorted input lists pairs every label of either window exactly once.\<close>

theorem CompareFolded_refines:
  assumes "PreFold ar cnsA keya = Inr ia" and "PreFold br cnsB keyb = Inr ib"
    and "inj_on keya (devs_of ar)" and "inj_on keyb (devs_of br)"
    and "mset sa = mset ia" and "mset sb = mset ib" and "map_order ord"
  shows "\<exists>x y. CompareFolded sa sb k = Inr x \<and> CompareLabeledKAnon ord ar br k cnsA cnsB = Inr y \<and>
    same_compared x y"
proof -
  obtain ca cb where c: "mustHaveCensus cnsA = Inr ca" "mustHaveCensus cnsB = Inr cb"
    and i: "ia = map (input_of keya ca ar) (labels_of ar)" "ib = map (input_of keyb cb br) (labels_of br)"
    using assms(1,2) by (auto simp: PreFold_closed bind_res_Inr_iff)
  have "sortedInputs sa = Inr (map (input_of keya ca ar) (labels_of ar))"
    by (rule sortedInputs_distinct) (use assms(5) i in simp_all)
  moreover have "sortedInputs sb = Inr (map (input_of keyb cb br) (labels_of br))"
    by (rule sortedInputs_distinct) (use assms(6) i in simp_all)
  moreover have "0 < clamp_k k" using MinK_clamp [of k] by (simp add: MinKAnonymity_def)
  ultimately show ?thesis
    using compare_folded_same [OF assms(3,4) _ assms(7), of "clamp_k k" ca cb] c
    by (simp add: CompareFolded_def CompareLabeledKAnon_def)
qed

theorem CompareFolded_refines_witness:
  "\<exists>x y. CompareFolded ex_inputs (rev ex_inputs) 3 = Inr x \<and>
    CompareLabeledKAnon rev ex_rows ex_rows 3 ex_census ex_census = Inr y \<and> same_compared x y"
  by (rule CompareFolded_refines [OF ex_inputs ex_inputs ex_key_inj ex_key_inj refl mset_rev map_order_rev])

end
