(* ===== verification/Keyed_Clock.thy ===== *)
theory Keyed_Clock
  imports Go_Prelude
begin

text \<open>
  The interface of a clocked machine that keeps a separate state per key, used for the
  authentication limiter: what a key sees of a run is the run of its own events on its own view,
  whatever the events of the other keys.
\<close>

section \<open>Machines seen from one key\<close>

text \<open>
  A clocked machine with a view per key: an event acts on the view of its own key, leaves the views
  of the others alone, and time ages a view. \<open>ok K t s\<close> says that \<open>s\<close> is a state at time \<open>t\<close> that
  knows only keys in \<open>K\<close>, and \<open>admits K e\<close> that the laws cover the event \<open>e\<close>.
\<close>

locale keyed_clock =
  fixes step :: "'e \<Rightarrow> 's \<Rightarrow> 's" and key :: "'e \<Rightarrow> 'k" and clock :: "'e \<Rightarrow> time"
    and view :: "time \<Rightarrow> 's \<Rightarrow> 'k \<Rightarrow> 'v" and local :: "'e \<Rightarrow> 'v \<Rightarrow> 'v" and age :: "time \<Rightarrow> 'v \<Rightarrow> 'v"
    and ok :: "'k set \<Rightarrow> time \<Rightarrow> 's \<Rightarrow> bool" and admits :: "'k set \<Rightarrow> 'e \<Rightarrow> bool"
  assumes ok_step: "ok K t s \<Longrightarrow> admits K e \<Longrightarrow> t \<le> clock e \<Longrightarrow> ok K (clock e) (step e s)"
    and own: "ok K t s \<Longrightarrow> admits K e \<Longrightarrow> t \<le> clock e \<Longrightarrow> clock e \<le> u \<Longrightarrow>
      view u (step e s) (key e) = age u (local e (view (clock e) s (key e)))"
    and frame: "ok K t s \<Longrightarrow> admits K e \<Longrightarrow> t \<le> clock e \<Longrightarrow> clock e \<le> u \<Longrightarrow> k \<noteq> key e \<Longrightarrow>
      view u (step e s) k = view u s k"
    and aged: "ok K t s \<Longrightarrow> t \<le> u \<Longrightarrow> view u s k = age u (view t s k)"
    and age_age: "t \<le> u \<Longrightarrow> age u (age t v) = age u v"
begin

primrec in_time :: "time \<Rightarrow> 'e list \<Rightarrow> bool" where
  "in_time t [] = True"
| "in_time t (e # es) = (t \<le> clock e \<and> in_time (clock e) es)"

definition local_run :: "'e list \<Rightarrow> 'v \<Rightarrow> 'v" where
  "local_run es v = fold (\<lambda>e v. local e (age (clock e) v)) es v"

lemma in_time_le: "in_time t es \<Longrightarrow> s \<le> t \<Longrightarrow> in_time s es"
  by (cases es) auto

lemma in_time_filter: "in_time t es \<Longrightarrow> in_time t (filter P es)"
  by (induction es arbitrary: t) (auto intro: in_time_le)

lemma local_run_age:
  assumes "in_time t es" and "t \<le> u"
  shows "age u (local_run es (age t v)) = age u (local_run es v)"
  using assms by (cases es) (simp_all add: local_run_def age_age)

lemma run_ok:
  "ok K t s \<Longrightarrow> \<forall>e\<in>set es. admits K e \<Longrightarrow> in_time t es \<Longrightarrow> \<forall>e\<in>set es. clock e \<le> u \<Longrightarrow> t \<le> u \<Longrightarrow>
   \<exists>t'\<le>u. ok K t' (fold step es s)"
proof (induction es arbitrary: t s)
  case (Cons e es)
  then have "ok K (clock e) (step e s)" using ok_step [of K t s e] by simp
  then have "\<exists>t'\<le>u. ok K t' (fold step es (step e s))"
    by (rule Cons.IH) (use Cons.prems in auto)
  then show ?case by simp
qed auto

lemma run_view:
  assumes "ok K t s" and "\<forall>e\<in>set es. admits K e" and "in_time t es" and "\<forall>e\<in>set es. clock e \<le> u" and "t \<le> u"
  shows "view u (fold step es s) k = age u (local_run (filter (\<lambda>e. key e = k) es) (view t s k))"
  using assms
proof (induction es arbitrary: t s)
  case Nil
  then show ?case using aged [of K t s u k] by (simp add: local_run_def)
next
  case (Cons e es)
  let ?f = "filter (\<lambda>e. key e = k) es"
  have e: "admits K e" "t \<le> clock e" "clock e \<le> u" "in_time (clock e) es" using Cons.prems by auto
  have f: "in_time (clock e) ?f" using e(4) by (rule in_time_filter)
  have "view u (fold step (e # es) s) k = age u (local_run ?f (view (clock e) (step e s) k))"
    using Cons.IH [OF ok_step [OF Cons.prems(1) e(1,2)]] Cons.prems e by simp
  also have "\<dots> = age u (local_run (filter (\<lambda>e. key e = k) (e # es)) (view t s k))"
  proof (cases "key e = k")
    case True
    have "view (clock e) (step e s) k = age (clock e) (local e (view (clock e) s k))"
      using own [OF Cons.prems(1) e(1,2) order_refl] True by simp
    also have "\<dots> = age (clock e) (local e (age (clock e) (view t s k)))"
      by (subst aged [OF Cons.prems(1) e(2)]) (rule refl)
    finally show ?thesis
      using True local_run_age [OF f e(3)] by (simp add: local_run_def)
  next
    case False
    have "view (clock e) (step e s) k = view (clock e) s k"
      by (rule frame [OF Cons.prems(1) e(1,2) order_refl]) (use False in simp)
    also have "\<dots> = age (clock e) (view t s k)"
      by (rule aged [OF Cons.prems(1) e(2)])
    finally show ?thesis
      using False local_run_age [OF f e(3)] by simp
  qed
  finally show ?case .
qed

end

end
