(* ===== verification/Rate_Limit.thy ===== *)
theory Rate_Limit
  imports Keyed_Clock "HOL-Library.AList"
begin

text \<open>
  The per-IP failed-authentication lockout of \<^verbatim>\<open>internal/api/ratelimit.go\<close>. The tracking map is an
  association list with distinct keys; the order in which Go ranges it is a parameter (\<open>map_order\<close>),
  and so is the clock reading of every call.

  Two results carry the component. Seen from one address, the limiter is a small automaton that no
  other address can disturb, as long as the map stays under its ceiling (the locale \<open>keyed_clock\<close>);
  at the ceiling, eviction removes the entries whose protection ends first.
\<close>

section \<open>State\<close>

record rate_limit_config =
  MaxFailures :: int
  Window :: duration
  Lockout :: duration

definition DefaultRateLimitConfig :: rate_limit_config where
  "DefaultRateLimitConfig = \<lparr>MaxFailures = 10, Window = 60 * Second, Lockout = 15 * Minute\<rparr>"

definition sweepThreshold :: nat where "sweepThreshold = 4096"
definition maxTrackedIPs :: nat where "maxTrackedIPs = 16384"

record ip_entry =
  failures :: "time list"
  lockedUntil :: time

type_synonym ip_map = "(string \<times> ip_entry) list"

record auth_limiter =
  cfg :: rate_limit_config
  ips :: ip_map

definition newAuthLimiter :: "rate_limit_config \<Rightarrow> auth_limiter" where
  "newAuthLimiter c = \<lparr>cfg = c, ips = []\<rparr>"

text \<open>The receiver may be nil.\<close>

definition enabled :: "auth_limiter option \<Rightarrow> bool" where
  "enabled lo = (case lo of None \<Rightarrow> False
     | Some l \<Rightarrow> 0 < MaxFailures (cfg l) \<and> 0 < Window (cfg l) \<and> 0 < Lockout (cfg l))"

section \<open>Operations\<close>

text \<open>\<^verbatim>\<open>!e.lockedUntil.IsZero() && now.Before(e.lockedUntil)\<close>.\<close>

definition lock_active :: "time \<Rightarrow> ip_entry \<Rightarrow> bool" where
  "lock_active now e \<longleftrightarrow> \<not> time_is_zero (lockedUntil e) \<and> now < lockedUntil e"

definition lastFailure :: "ip_entry \<Rightarrow> time" where
  "lastFailure e = (if 0 < length (failures e) then failures e ! (length (failures e) - 1) else 0)"

definition retryAfter :: "time \<Rightarrow> string \<Rightarrow> auth_limiter option \<Rightarrow> (duration \<times> bool) \<times> auth_limiter option" where
  "retryAfter now ip lo =
     (case lo of None \<Rightarrow> ((0, False), None)
      | Some l \<Rightarrow>
          if \<not> enabled lo then ((0, False), lo)
          else (case map_of (ips l) ip of
              None \<Rightarrow> ((0, False), lo)
            | Some e \<Rightarrow>
                if time_is_zero (lockedUntil e) then ((0, False), lo)
                else if \<not> now < lockedUntil e then ((0, False), Some (l\<lparr>ips := AList.delete ip (ips l)\<rparr>))
                else ((time_sub (lockedUntil e) now, True), lo)))"

definition sweepLocked :: "duration \<Rightarrow> time \<Rightarrow> ip_map \<Rightarrow> ip_map" where
  "sweepLocked window now m =
     filter (\<lambda>(ip, e). lock_active now e \<or> list_ex (\<lambda>t. now - window < t) (failures e)) m"

definition protection :: "time \<Rightarrow> ip_entry \<Rightarrow> time" where
  "protection now e = (if lock_active now e then lockedUntil e else lastFailure e)"

text \<open>One pass of the eviction: the entry whose protection ends soonest, the first of them met.\<close>

fun soonest :: "time \<Rightarrow> string \<Rightarrow> ip_map \<Rightarrow> (string \<times> time) option \<Rightarrow> (string \<times> time) option" where
  "soonest now keep [] best = best"
| "soonest now keep ((ip, e) # m) best =
     (if ip = keep then soonest now keep m best
      else (case best of
          None \<Rightarrow> soonest now keep m (Some (ip, protection now e))
        | Some (v, t) \<Rightarrow>
            if protection now e < t then soonest now keep m (Some (ip, protection now e))
            else soonest now keep m best))"

text \<open>The loop of \<^verbatim>\<open>evictOldest\<close> with the ceiling and a bound on the passes as arguments.\<close>

fun evict_to :: "nat \<Rightarrow> nat \<Rightarrow> (ip_map \<Rightarrow> ip_map) \<Rightarrow> time \<Rightarrow> string \<Rightarrow> ip_map \<Rightarrow> ip_map" where
  "evict_to cap 0 order now keep m = m"
| "evict_to cap (Suc n) order now keep m =
     (if cap < length m then
        (case soonest now keep (order m) None of
           None \<Rightarrow> m
         | Some (victim, _) \<Rightarrow> evict_to cap n order now keep (AList.delete victim m))
      else m)"

definition evictOldest :: "(ip_map \<Rightarrow> ip_map) \<Rightarrow> time \<Rightarrow> string \<Rightarrow> ip_map \<Rightarrow> ip_map" where
  "evictOldest order now keep m = evict_to maxTrackedIPs (length m) order now keep m"

definition recent :: "duration \<Rightarrow> time \<Rightarrow> time list \<Rightarrow> time list" where
  "recent window now ts = filter (\<lambda>t. now - window < t) ts"

definition recordFailure ::
  "(ip_map \<Rightarrow> ip_map) \<Rightarrow> time \<Rightarrow> string \<Rightarrow> auth_limiter option \<Rightarrow> auth_limiter option" where
  "recordFailure order now ip lo =
     (case lo of None \<Rightarrow> None
      | Some l \<Rightarrow>
          if \<not> enabled lo then lo
          else
            (let c = cfg l;
                 e = (case map_of (ips l) ip of Some e \<Rightarrow> e | None \<Rightarrow> \<lparr>failures = [], lockedUntil = 0\<rparr>)
             in if lock_active now e then lo
                else
                  (let kept = recent (Window c) now (failures e) @ [now];
                       e = (if MaxFailures c \<le> int (length kept)
                            then e\<lparr>lockedUntil := now + Lockout c, failures := []\<rparr>
                            else e\<lparr>failures := kept\<rparr>);
                       m = AList.update ip e (ips l);
                       m = (if sweepThreshold < length m then sweepLocked (Window c) now m else m);
                       m = (if maxTrackedIPs < length m then evictOldest order now ip m else m)
                   in Some (l\<lparr>ips := m\<rparr>))))"

definition recordSuccess :: "string \<Rightarrow> auth_limiter option \<Rightarrow> auth_limiter option" where
  "recordSuccess ip lo =
     (case lo of None \<Rightarrow> None
      | Some l \<Rightarrow> if \<not> enabled lo then lo else Some (l\<lparr>ips := AList.delete ip (ips l)\<rparr>))"

section \<open>Eviction\<close>

lemma soonest_min:
  assumes "soonest now keep m best = Some (v, t)"
  shows "(best = Some (v, t) \<or> (\<exists>e. (v, e) \<in> set m \<and> v \<noteq> keep \<and> protection now e = t)) \<and>
    (\<forall>(ip, e)\<in>set m. ip \<noteq> keep \<longrightarrow> t \<le> protection now e) \<and>
    (\<forall>b. best = Some b \<longrightarrow> t \<le> snd b)"
  using assms
proof (induction m arbitrary: best)
  case (Cons x m)
  obtain ip e where x: "x = (ip, e)" by (cases x)
  consider "ip = keep" | "ip \<noteq> keep" "best = None"
    | w u where "ip \<noteq> keep" "best = Some (w, u)" "protection now e < u"
    | w u where "ip \<noteq> keep" "best = Some (w, u)" "\<not> protection now e < u"
    by (cases best) auto
  then show ?case
  proof cases
    case 1
    then show ?thesis using Cons.IH [of best] Cons.prems x by auto
  next
    case 2
    then show ?thesis using Cons.IH [of "Some (ip, protection now e)"] Cons.prems x by auto
  next
    case 3
    then show ?thesis using Cons.IH [of "Some (ip, protection now e)"] Cons.prems x by auto
  next
    case 4
    then show ?thesis using Cons.IH [of best] Cons.prems x by auto
  qed
qed simp

lemma soonest_None:
  "soonest now keep m best = None \<longleftrightarrow> best = None \<and> (\<forall>x\<in>set m. fst x = keep)"
  by (induction now keep m best rule: soonest.induct) (auto split: option.splits)

definition keys :: "ip_map \<Rightarrow> string list" where "keys m = map fst m"

lemma delete_keys: "keys (AList.delete k m) = removeAll k (keys m)"
  by (simp add: keys_def AList.delete_keys)

lemma set_delete_subset: "set (AList.delete k m) \<subseteq> set m"
  by (auto simp: AList.delete_eq)

lemma length_delete:
  assumes "distinct (keys m)" and "k \<in> set (keys m)"
  shows "length (AList.delete k m) = length m - 1"
proof -
  have "length (AList.delete k m) = length (remove1 k (keys m))"
    using assms(1) delete_keys [of k m]
    by (metis distinct_remove1_removeAll keys_def length_map)
  then show ?thesis using assms(2) by (simp add: length_remove1 keys_def)
qed

text \<open>
  What a pass leaves is a part of the map; whatever went is worth at most as much as whatever of
  the others stayed.
\<close>

lemma evict_to_spec:
  assumes "distinct (keys m)" and "map_order order"
  shows "set (evict_to cap n order now keep m) \<subseteq> set m \<and> distinct (keys (evict_to cap n order now keep m)) \<and>
    (\<forall>e. (keep, e) \<in> set m \<longrightarrow> (keep, e) \<in> set (evict_to cap n order now keep m)) \<and>
    (\<forall>(i, e)\<in>set m - set (evict_to cap n order now keep m).
      \<forall>(j, f)\<in>set (evict_to cap n order now keep m). j \<noteq> keep \<longrightarrow> protection now e \<le> protection now f) \<and>
    (length m \<le> n \<longrightarrow> length (evict_to cap n order now keep m) \<le> max cap 1)"
  using assms(1)
proof (induction n arbitrary: m)
  case 0
  then show ?case by auto
next
  case (Suc n)
  have ord: "set (order m) = set m"
    using assms(2) by (metis map_order_def mset_eq_setD)
  show ?case
  proof (cases "cap < length m")
    case big: True
    show ?thesis
    proof (cases "soonest now keep (order m) None")
      case None
      then have "set (keys m) \<subseteq> {keep}" by (auto simp: soonest_None ord keys_def)
      then have "length m \<le> 1"
        using Suc.prems card_mono [of "{keep}" "set (keys m)"] distinct_card [of "keys m"]
        by (simp add: keys_def)
      with None big Suc.prems show ?thesis by auto
    next
      case (Some vt)
      obtain v t where vt: "vt = (v, t)" by (cases vt)
      let ?m = "AList.delete v m" and ?r = "evict_to cap n order now keep (AList.delete v m)"
      have best: "\<exists>e. (v, e) \<in> set m \<and> v \<noteq> keep \<and> protection now e = t"
        and least: "\<forall>(i, e)\<in>set m. i \<noteq> keep \<longrightarrow> t \<le> protection now e"
        using soonest_min [of now keep "order m" None v t] Some vt by (auto simp: ord)
      have dm: "distinct (keys ?m)" using Suc.prems by (simp add: delete_keys distinct_removeAll)
      have r: "evict_to cap (Suc n) order now keep m = ?r" using big Some vt by simp
      have sub: "set ?m \<subseteq> set m" by (auto simp: AList.delete_eq)
      have gone: "protection now e = t" if "(i, e) \<in> set m - set ?m" for i e
      proof -
        have "i = v" and "(i, e) \<in> set m" using that by (auto simp: AList.delete_eq)
        then show ?thesis
          using best Suc.prems by (metis keys_def map_of_eq_Some_iff option.inject)
      qed
      note IH = Suc.IH [OF dm]
      have len: "length ?m = length m - 1"
        by (rule length_delete [OF Suc.prems]) (use best in \<open>force simp: keys_def\<close>)
      have "protection now e \<le> protection now f"
        if "(i, e) \<in> set m - set ?r" and "(j, f) \<in> set ?r" and "j \<noteq> keep" for i e j f
      proof (cases "(i, e) \<in> set ?m")
        case True
        then show ?thesis using IH that by blast
      next
        case False
        then have "protection now e = t" using gone that by blast
        moreover have "t \<le> protection now f" using least that IH sub by blast
        ultimately show ?thesis by simp
      qed
      moreover have "(keep, e) \<in> set ?r" if "(keep, e) \<in> set m" for e
        using that IH best by (auto simp: AList.delete_eq)
      ultimately show ?thesis
        unfolding r using IH sub len by auto
    qed
  next
    case False
    with Suc.prems show ?thesis by auto
  qed
qed

section \<open>The limiter as such a machine\<close>

text \<open>What one address sees: its failures inside the window, or the end of its lockout.\<close>

type_synonym ip_view = "time list \<times> time option"

fun entry_view :: "rate_limit_config \<Rightarrow> time \<Rightarrow> ip_entry option \<Rightarrow> ip_view" where
  "entry_view c now None = ([], None)"
| "entry_view c now (Some e) =
     (if lock_active now e then ([], Some (lockedUntil e)) else (recent (Window c) now (failures e), None))"

definition ip_view :: "rate_limit_config \<Rightarrow> time \<Rightarrow> auth_limiter option \<Rightarrow> string \<Rightarrow> ip_view" where
  "ip_view c now lo ip = (case lo of None \<Rightarrow> ([], None) | Some l \<Rightarrow> entry_view c now (map_of (ips l) ip))"

fun ip_age :: "rate_limit_config \<Rightarrow> time \<Rightarrow> ip_view \<Rightarrow> ip_view" where
  "ip_age c now (fs, Some u) = (if now < u then ([], Some u) else ([], None))"
| "ip_age c now (fs, None) = (recent (Window c) now fs, None)"

text \<open>One more failure, for an address that is not locked out.\<close>

fun ip_fail :: "rate_limit_config \<Rightarrow> time \<Rightarrow> ip_view \<Rightarrow> ip_view" where
  "ip_fail c t (fs, Some u) = (fs, Some u)"
| "ip_fail c t (fs, None) =
     (if MaxFailures c \<le> int (length (fs @ [t])) then ([], Some (t + Lockout c)) else (fs @ [t], None))"

definition entry_ok :: "time \<Rightarrow> ip_entry \<Rightarrow> bool" where
  "entry_ok now e \<longleftrightarrow> (\<forall>f\<in>set (failures e). f \<le> now) \<and> (\<not> time_is_zero (lockedUntil e) \<longrightarrow> failures e = [])"

definition limiter_ok :: "rate_limit_config \<Rightarrow> string set \<Rightarrow> time \<Rightarrow> auth_limiter option \<Rightarrow> bool" where
  "limiter_ok c K now lo \<longleftrightarrow> enabled lo \<and> 0 \<le> now \<and> finite K \<and> card K \<le> maxTrackedIPs \<and>
     (\<exists>l. lo = Some l \<and> cfg l = c \<and> distinct (keys (ips l)) \<and> set (keys (ips l)) \<subseteq> K \<and>
       (\<forall>(i, e)\<in>set (ips l). entry_ok now e))"

lemma recent_Nil [simp]: "recent w u [] = []"
  by (simp add: recent_def)

lemma recent_recent: "t \<le> u \<Longrightarrow> recent w u (recent w t fs) = recent w u fs"
  by (auto simp: recent_def intro!: filter_cong)

lemma recent_age: "entry_ok t e \<Longrightarrow> lock_active t e \<Longrightarrow> recent w u (failures e) = []"
  by (auto simp: entry_ok_def lock_active_def recent_def filter_empty_conv)

lemma limiter_okE:
  assumes "limiter_ok c K t lo"
  obtains l where "lo = Some l" "cfg l = c" "distinct (keys (ips l))" "set (keys (ips l)) \<subseteq> K"
    "\<forall>(i, e)\<in>set (ips l). entry_ok t e" "finite K" "card K \<le> maxTrackedIPs" "enabled lo" "0 \<le> t"
  using assms by (auto simp: limiter_ok_def)

lemma ip_view_aged:
  assumes "limiter_ok c K t lo" and "t \<le> u"
  shows "ip_view c u lo ip = ip_age c u (ip_view c t lo ip)"
proof -
  obtain l where l: "lo = Some l" "\<forall>(i, e)\<in>set (ips l). entry_ok t e"
    using assms(1) by (rule limiter_okE) auto
  show ?thesis
  proof (cases "map_of (ips l) ip")
    case None
    then show ?thesis by (simp add: ip_view_def l(1) recent_def)
  next
    case (Some e)
    then have "entry_ok t e" using l(2) by (auto dest: map_of_SomeD)
    with Some show ?thesis
      using assms(2) recent_age [of t e "Window c" u]
      by (auto simp: ip_view_def l(1) recent_recent lock_active_def)
  qed
qed

lemma ip_age_age: "t \<le> u \<Longrightarrow> ip_age c u (ip_age c t v) = ip_age c u v"
  by (cases "(c, t, v)" rule: ip_age.cases) (auto simp: recent_recent)

lemma keys_update: "set (keys (AList.update k v m)) = insert k (set (keys m))"
  "distinct (keys m) \<Longrightarrow> distinct (keys (AList.update k v m))"
  by (auto simp: keys_def AList.update_keys)

lemma keys_sweep:
  "set (keys (sweepLocked w now m)) \<subseteq> set (keys m)" "set (sweepLocked w now m) \<subseteq> set m"
  "distinct (keys m) \<Longrightarrow> distinct (keys (sweepLocked w now m))"
  by (auto simp: keys_def sweepLocked_def distinct_map_filter)

lemma keys_delete:
  "set (keys (AList.delete k m)) \<subseteq> set (keys m)" "set (AList.delete k m) \<subseteq> set m"
  "distinct (keys m) \<Longrightarrow> distinct (keys (AList.delete k m))"
  by (simp_all add: delete_keys distinct_removeAll set_delete_subset)

lemma map_of_filter_value:
  "distinct (map fst m) \<Longrightarrow> map_of (filter (\<lambda>(i, e). P e) m) k =
     (case map_of m k of Some e \<Rightarrow> if P e then Some e else None | None \<Rightarrow> None)"
proof (induction m)
  case (Cons x m)
  obtain i e where x: "x = (i, e)" by (cases x)
  then have "i \<notin> set (map fst m)" using Cons.prems by simp
  then have "map_of m i = None" by (simp add: map_of_eq_None_iff)
  with x Cons show ?case by auto
qed simp

lemma entry_view_sweep:
  assumes "distinct (keys m)" and "now \<le> u"
  shows "entry_view c u (map_of (sweepLocked (Window c) now m) k) = entry_view c u (map_of m k)"
proof (cases "map_of m k")
  case (Some e)
  have "recent (Window c) u (failures e) = []"
    if "\<not> lock_active now e" and "\<not> list_ex (\<lambda>t. now - Window c < t) (failures e)"
    using that assms(2) by (auto simp: recent_def list_ex_iff filter_empty_conv)
  moreover have "lock_active u e \<Longrightarrow> lock_active now e" using assms(2) by (auto simp: lock_active_def)
  moreover have "map_of (sweepLocked (Window c) now m) k =
      (if lock_active now e \<or> list_ex (\<lambda>t. now - Window c < t) (failures e) then Some e else None)"
    using map_of_filter_value [of m "\<lambda>e. lock_active now e \<or> list_ex (\<lambda>t. now - Window c < t) (failures e)" k]
      assms(1) Some by (simp add: sweepLocked_def keys_def)
  ultimately show ?thesis using Some by auto
next
  case None
  then show ?thesis
    using map_of_filter_value [of m "\<lambda>e. lock_active now e \<or> list_ex (\<lambda>t. now - Window c < t) (failures e)" k]
      assms(1) by (simp add: sweepLocked_def keys_def)
qed

text \<open>With room in the map, one failure is an update of one entry, seen through an optional sweep.\<close>

definition failed_entry :: "rate_limit_config \<Rightarrow> time \<Rightarrow> ip_entry \<Rightarrow> ip_entry" where
  "failed_entry c now e =
     (let kept = recent (Window c) now (failures e) @ [now]
      in if MaxFailures c \<le> int (length kept) then e\<lparr>lockedUntil := now + Lockout c, failures := []\<rparr>
         else e\<lparr>failures := kept\<rparr>)"

definition entry_or_new :: "ip_map \<Rightarrow> string \<Rightarrow> ip_entry" where
  "entry_or_new m ip = (case map_of m ip of Some e \<Rightarrow> e | None \<Rightarrow> \<lparr>failures = [], lockedUntil = 0\<rparr>)"

lemma recordFailure_room:
  assumes "limiter_ok c K t (Some l)" and "ip \<in> K"
  shows "recordFailure order now ip (Some l) =
    (let e = entry_or_new (ips l) ip; m = AList.update ip (failed_entry c now e) (ips l)
     in if lock_active now e then Some l
        else Some (l\<lparr>ips := if sweepThreshold < length m then sweepLocked (Window c) now m else m\<rparr>))"
proof -
  from assms(1) have l: "cfg l = c" "distinct (keys (ips l))" "set (keys (ips l)) \<subseteq> K" "finite K"
    "card K \<le> maxTrackedIPs" "enabled (Some l)"
    by (auto simp: limiter_ok_def)
  have room: "length m \<le> maxTrackedIPs" if "distinct (keys m)" and "set (keys m) \<subseteq> K" for m
  proof -
    have "length m = card (set (keys m))" using that(1) distinct_card [of "keys m"] by (simp add: keys_def)
    also have "\<dots> \<le> card K" by (rule card_mono [OF l(4) that(2)])
    finally show ?thesis using l(5) by simp
  qed
  let ?m = "AList.update ip (failed_entry c now (entry_or_new (ips l) ip)) (ips l)"
  have m: "distinct (keys ?m)" "set (keys ?m) \<subseteq> K"
    using l assms(2) by (simp_all add: keys_update)
  have "\<not> maxTrackedIPs < length ?m" "\<not> maxTrackedIPs < length (sweepLocked (Window c) now ?m)"
    using room [OF m] room [of "sweepLocked (Window c) now ?m"] m
      subset_trans [OF keys_sweep(1) m(2)] keys_sweep(3) [OF m(1)] by (simp_all add: not_less)
  then show ?thesis
    using l(1,6) by (simp add: recordFailure_def Let_def failed_entry_def entry_or_new_def cong: option.case_cong)
qed

lemma entry_ok_mono: "entry_ok t e \<Longrightarrow> t \<le> u \<Longrightarrow> entry_ok u e"
  by (auto simp: entry_ok_def)

lemma failed_entry_ok:
  assumes "entry_ok t e" and "t \<le> now" and "time_is_zero (lockedUntil e)"
  shows "entry_ok now (failed_entry c now e)"
  using assms by (auto simp: entry_ok_def failed_entry_def Let_def recent_def lock_active_def)

lemma entries_mono:
  assumes "\<forall>(i, e)\<in>set m. entry_ok t e" and "t \<le> u" and "set m' \<subseteq> set m"
  shows "\<forall>(i, e)\<in>set m'. entry_ok u e"
proof clarify
  fix i e assume "(i, e) \<in> set m'"
  then have "entry_ok t e" using assms(1,3) by auto
  then show "entry_ok u e" using assms(2) by (rule entry_ok_mono)
qed

lemma set_update_subset: "set (AList.update k v m) \<subseteq> insert (k, v) (set m)"
  by (induction m) auto

lemma entry_or_new_ok:
  assumes "\<forall>(i, e)\<in>set m. entry_ok t e"
  shows "entry_ok t (entry_or_new m ip)"
  using assms by (auto simp: entry_or_new_def entry_ok_def dest!: map_of_SomeD split: option.splits)

lemma limiter_ok_cong:
  assumes "limiter_ok c K t (Some l)" and "t \<le> u"
    and "distinct (keys m)" and "set (keys m) \<subseteq> K" and "\<forall>(i, e)\<in>set m. entry_ok u e"
  shows "limiter_ok c K u (Some (l\<lparr>ips := m\<rparr>))"
  using assms by (auto simp: limiter_ok_def enabled_def)

lemma limiter_ok_mono: "limiter_ok c K t lo \<Longrightarrow> t \<le> u \<Longrightarrow> limiter_ok c K u lo"
  using entries_mono [of _ t u] by (fastforce simp: limiter_ok_def)

lemma limiter_ok_sub:
  assumes ok: "limiter_ok c K t (Some l)" and "t \<le> u" and "set m \<subseteq> set (ips l)" and "distinct (keys m)"
  shows "limiter_ok c K u (Some (l\<lparr>ips := m\<rparr>))"
proof (rule limiter_ok_cong [OF ok \<open>t \<le> u\<close> \<open>distinct (keys m)\<close>])
  show "set (keys m) \<subseteq> K" using ok assms(3) by (fastforce simp: limiter_ok_def keys_def)
  show "\<forall>(i, e)\<in>set m. entry_ok u e"
    by (rule entries_mono [OF _ assms(2,3)]) (use ok in \<open>auto simp: limiter_ok_def\<close>)
qed

lemma updated_ok:
  assumes "limiter_ok c K t (Some l)" and "t \<le> now" and "ip \<in> K"
    and "time_is_zero (lockedUntil (entry_or_new (ips l) ip))"
  defines "m \<equiv> AList.update ip (failed_entry c now (entry_or_new (ips l) ip)) (ips l)"
  shows "limiter_ok c K now (Some (l\<lparr>ips := m\<rparr>))"
proof (rule limiter_ok_cong [OF assms(1,2)])
  have l: "distinct (keys (ips l))" "set (keys (ips l)) \<subseteq> K" "\<forall>(i, e)\<in>set (ips l). entry_ok t e"
    using assms(1) by (auto simp: limiter_ok_def)
  show "distinct (keys m)" "set (keys m) \<subseteq> K"
    using l assms(3) by (simp_all add: m_def keys_update)
  have new: "entry_ok now (failed_entry c now (entry_or_new (ips l) ip))"
    by (rule failed_entry_ok [OF entry_or_new_ok [OF l(3)] assms(2,4)])
  have "\<forall>(i, e)\<in>set (ips l). entry_ok now e"
    by (rule entries_mono [OF l(3) assms(2) order_refl])
  then show "\<forall>(i, e)\<in>set m. entry_ok now e"
    using new set_update_subset [of ip "failed_entry c now (entry_or_new (ips l) ip)" "ips l"]
    unfolding m_def by fast
qed

definition verdict :: "time \<Rightarrow> time option \<Rightarrow> duration \<times> bool" where
  "verdict now lk = (case lk of Some u \<Rightarrow> (time_sub u now, True) | None \<Rightarrow> (0, False))"

lemma retryAfter_view:
  fixes ip :: string
  assumes ok: "limiter_ok c K t lo" and "t \<le> now"
  defines "lo' \<equiv> snd (retryAfter now ip lo)"
  shows "limiter_ok c K now lo'" and "now \<le> u \<Longrightarrow> ip_view c u lo' k = ip_view c u lo k"
    and "fst (retryAfter now ip lo) = verdict now (snd (ip_view c now lo ip))"
    and "\<not> snd (fst (retryAfter now ip lo)) \<Longrightarrow> lo' = Some l' \<Longrightarrow>
      time_is_zero (lockedUntil (entry_or_new (ips l') ip))"
proof -
  obtain l where l: "lo = Some l" "distinct (keys (ips l))" "enabled (Some l)"
    using ok by (auto simp: limiter_ok_def)
  have del: "limiter_ok c K now (Some (l\<lparr>ips := AList.delete ip (ips l)\<rparr>))"
    using limiter_ok_sub [OF ok [unfolded l(1)] assms(2)] keys_delete [where k = ip and m = "ips l"] l(2) by blast
  have same: "limiter_ok c K now lo" by (rule limiter_ok_mono [OF ok assms(2)])
  have empty: "failures e = []" if "map_of (ips l) ip = Some e" "\<not> time_is_zero (lockedUntil e)" for e
    using ok that by (auto simp: limiter_ok_def l(1) entry_ok_def dest!: map_of_SomeD)
  show "limiter_ok c K now lo'"
    using del same l by (simp add: lo'_def retryAfter_def split: option.split)
  show "now \<le> u \<Longrightarrow> ip_view c u lo' k = ip_view c u lo k"
    using l empty
    by (auto simp: lo'_def retryAfter_def ip_view_def delete_conv' recent_def lock_active_def split: option.split)
  show "fst (retryAfter now ip lo) = verdict now (snd (ip_view c now lo ip))"
    using l by (auto simp: retryAfter_def ip_view_def verdict_def lock_active_def split: option.split)
  show "\<not> snd (fst (retryAfter now ip lo)) \<Longrightarrow> lo' = Some l' \<Longrightarrow>
      time_is_zero (lockedUntil (entry_or_new (ips l') ip))"
    using l
    by (auto simp: lo'_def retryAfter_def entry_or_new_def time_is_zero_def delete_conv'
        split: option.splits if_splits)
qed

lemma failed_entry_view:
  assumes "now \<le> u" and "0 < Window c" and "time_is_zero (lockedUntil e)" and "0 \<le> now" and "0 < Lockout c"
  shows "entry_view c u (Some (failed_entry c now e)) =
    ip_age c u (ip_fail c now (entry_view c now (Some e)))"
  using assms
  by (auto simp: failed_entry_def Let_def lock_active_def time_is_zero_def recent_recent)

lemma recordFailure_view:
  fixes order :: "ip_map \<Rightarrow> ip_map"
  assumes ok: "limiter_ok c K t (Some l)" and "t \<le> now" and ip: "ip \<in> K"
    and zero: "time_is_zero (lockedUntil (entry_or_new (ips l) ip))"
  defines "lo' \<equiv> recordFailure order now ip (Some l)"
  shows "limiter_ok c K now lo'"
    and "now \<le> u \<Longrightarrow> ip_view c u lo' k =
      (if k = ip then ip_age c u (ip_fail c now (ip_view c now (Some l) ip)) else ip_view c u (Some l) k)"
proof -
  let ?e = "entry_or_new (ips l) ip"
  let ?m = "AList.update ip (failed_entry c now ?e) (ips l)"
  let ?m' = "if sweepThreshold < length ?m then sweepLocked (Window c) now ?m else ?m"
  have l: "distinct (keys (ips l))" "enabled (Some l)" "cfg l = c" "0 \<le> t" using ok by (auto simp: limiter_ok_def)
  have free: "\<not> lock_active now ?e" using zero by (simp add: lock_active_def)
  have lo': "lo' = Some (l\<lparr>ips := ?m'\<rparr>)"
    using recordFailure_room [OF ok ip] free by (simp add: lo'_def Let_def)
  have upd: "limiter_ok c K now (Some (l\<lparr>ips := ?m\<rparr>))"
    by (rule updated_ok [OF ok assms(2) ip zero])
  have "distinct (keys ?m)" using l by (simp add: keys_update)
  then have "limiter_ok c K now (Some ((l\<lparr>ips := ?m\<rparr>)\<lparr>ips := sweepLocked (Window c) now ?m\<rparr>))"
    using limiter_ok_sub [OF upd order_refl] keys_sweep [where m = ?m] by simp
  with upd show "limiter_ok c K now lo'" unfolding lo' by simp
  assume u: "now \<le> u"
  have "entry_view c u (map_of ?m' k) = entry_view c u (map_of ?m k)"
    using entry_view_sweep [OF \<open>distinct (keys ?m)\<close> u] by simp
  moreover have "entry_view c now (map_of (ips l) ip) = entry_view c now (Some ?e)"
    by (simp add: entry_or_new_def lock_active_def time_is_zero_def recent_def split: option.splits)
  ultimately show "ip_view c u lo' k =
      (if k = ip then ip_age c u (ip_fail c now (ip_view c now (Some l) ip)) else ip_view c u (Some l) k)"
    using failed_entry_view [OF u _ zero, of c] l assms(2)
    by (simp add: lo' ip_view_def AList.update_conv' enabled_def)
qed

lemma recordSuccess_view:
  fixes ip :: string
  assumes ok: "limiter_ok c K t lo" and "t \<le> now"
  defines "lo' \<equiv> recordSuccess ip lo"
  shows "limiter_ok c K now lo'" and "ip_view c u lo' k = (if k = ip then ([], None) else ip_view c u lo k)"
proof -
  obtain l where l: "lo = Some l" "distinct (keys (ips l))" "enabled (Some l)"
    using ok by (auto simp: limiter_ok_def)
  show "limiter_ok c K now lo'"
    using limiter_ok_sub [OF ok [unfolded l(1)] assms(2)] keys_delete [where k = ip and m = "ips l"] l
    by (simp add: lo'_def recordSuccess_def)
  show "ip_view c u lo' k = (if k = ip then ([], None) else ip_view c u lo k)"
    using l by (simp add: lo'_def recordSuccess_def ip_view_def delete_conv')
qed

section \<open>The ceiling\<close>

text \<open>Eviction at the ceiling brings the map back under it, never drops the address being
  recorded, and drops the entries whose protection ends first: nothing that stays (but that address)
  was worth less than what went. So a lockout in force is dropped only when every other entry that
  stays is a lockout in force that ends no earlier: cheap unlocked entries cannot flush a lockout.\<close>

theorem evict_spares_lockouts:
  fixes keep :: string and cap :: nat
  assumes "distinct (keys m)" and "map_order order" and "\<forall>(i, e)\<in>set m. 0 \<le> now \<and> entry_ok now e"
  defines "m' \<equiv> evict_to cap (length m) order now keep m"
  shows "length m' \<le> max cap 1 \<and> set m' \<subseteq> set m \<and> map_of m' keep = map_of m keep \<and>
    (\<forall>(i, e)\<in>set m - set m'. \<forall>(j, f)\<in>set m'. j \<noteq> keep \<longrightarrow> protection now e \<le> protection now f \<and>
      (lock_active now e \<longrightarrow> lock_active now f \<and> lockedUntil e \<le> lockedUntil f))"
proof -
  note spec = evict_to_spec [OF assms(1,2), of cap "length m" now keep, folded m'_def]
  have dm: "distinct (map fst m)" "distinct (map fst m')" using spec assms(1) by (simp_all add: keys_def)
  have keep: "map_of m' keep = map_of m keep"
  proof (cases "map_of m keep")
    case (Some e)
    then have "(keep, e) \<in> set m'" using spec by (auto dest: map_of_SomeD)
    with Some show ?thesis using dm(2) by simp
  next
    case None
    then have "keep \<notin> fst ` set m" by (simp add: map_of_eq_None_iff)
    then have "keep \<notin> fst ` set m'" using spec by blast
    then have "map_of m' keep = None" by (simp add: map_of_eq_None_iff)
    with None show ?thesis by simp
  qed
  have idle: "protection now f \<le> now" if "(j, f) \<in> set m" "\<not> lock_active now f" for j f
    using that assms(3) by (fastforce simp: protection_def lastFailure_def entry_ok_def)
  have locked: "lock_active now f \<and> lockedUntil e \<le> lockedUntil f"
    if "protection now e \<le> protection now f" "lock_active now e" "(j, f) \<in> set m" for e j f
    using that idle [of j f] by (cases "lock_active now f") (auto simp: protection_def lock_active_def)
  have "protection now e \<le> protection now f \<and>
      (lock_active now e \<longrightarrow> lock_active now f \<and> lockedUntil e \<le> lockedUntil f)"
    if "(i, e) \<in> set m - set m'" "(j, f) \<in> set m'" "j \<noteq> keep" for i e j f
  proof -
    have "protection now e \<le> protection now f" and "(j, f) \<in> set m" using spec that by blast+
    then show ?thesis using locked by blast
  qed
  moreover have "set m' \<subseteq> set m" "length m' \<le> max cap 1" using spec by blast+
  ultimately show ?thesis using keep by blast
qed

definition ex_entry :: "time list \<Rightarrow> time \<Rightarrow> ip_entry" where
  "ex_entry fs u = \<lparr>failures = fs, lockedUntil = u\<rparr>"

theorem evict_spares_lockouts_witness:
  "let m = [(''a'', ex_entry [] 90), (''b'', ex_entry [40] 0), (''c'', ex_entry [] 80), (''d'', ex_entry [50] 0)];
       m' = evict_to 3 (length m) rev 50 ''d'' m
   in length m' \<le> 3 \<and> map_of m' ''d'' = Some (ex_entry [50] 0) \<and> map_of m' ''b'' = None \<and>
      map_of m' ''c'' = Some (ex_entry [] 80)"
proof -
  let ?m = "[(''a'', ex_entry [] 90), (''b'', ex_entry [40] 0), (''c'', ex_entry [] 80), (''d'', ex_entry [50] 0)]"
  have "length (evict_to 3 (length ?m) rev 50 ''d'' ?m) \<le> max 3 1 \<and>
      map_of (evict_to 3 (length ?m) rev 50 ''d'' ?m) ''d'' = map_of ?m ''d''"
    using evict_spares_lockouts [of ?m rev 50 3 "''d''"]
    by (simp add: keys_def entry_ok_def ex_entry_def time_is_zero_def)
  moreover have "evict_to 3 (length ?m) rev 50 ''d'' ?m =
      [(''a'', ex_entry [] 90), (''c'', ex_entry [] 80), (''d'', ex_entry [50] 0)]"
    by code_simp
  ultimately show ?thesis by (simp add: Let_def)
qed

text \<open>C24. The memory of the limiter is bounded for good: whatever the traffic, recording a failure
  keeps one entry per address and never leaves more than the ceiling.\<close>

theorem recordFailure_bounded:
  assumes "distinct (keys (ips l))" and "length (ips l) \<le> maxTrackedIPs" and "map_order order"
    and "recordFailure order now ip (Some l) = Some l'"
  shows "distinct (keys (ips l')) \<and> length (ips l') \<le> maxTrackedIPs"
proof (cases "ips l' = ips l")
  case False
  let ?e = "failed_entry (cfg l) now (entry_or_new (ips l) ip)"
  let ?u = "AList.update ip ?e (ips l)"
  let ?s = "if sweepThreshold < length ?u then sweepLocked (Window (cfg l)) now ?u else ?u"
  have ips: "ips l' = (if maxTrackedIPs < length ?s then evictOldest order now ip ?s else ?s)"
    using assms(4) False
    by (auto simp: recordFailure_def Let_def failed_entry_def entry_or_new_def split: if_splits cong: option.case_cong)
  have "distinct (keys ?s)" using assms(1) keys_sweep(3) by (simp add: keys_update)
  then show ?thesis
    unfolding ips
    using evict_to_spec [OF \<open>distinct (keys ?s)\<close> assms(3), of maxTrackedIPs "length ?s" now ip]
    by (auto simp: evictOldest_def maxTrackedIPs_def)
qed (use assms in simp)

theorem recordFailure_bounded_witness:
  "\<exists>l. recordFailure rev 5 ''a'' (Some (newAuthLimiter DefaultRateLimitConfig)) = Some l \<and>
     ips l \<noteq> [] \<and> length (ips l) \<le> maxTrackedIPs"
proof -
  let ?r = "recordFailure rev 5 ''a'' (Some (newAuthLimiter DefaultRateLimitConfig))"
  have "(case ?r of Some l \<Rightarrow> ips l \<noteq> [] | None \<Rightarrow> False)" by code_simp
  then obtain l where l: "?r = Some l" "ips l \<noteq> []" by (auto split: option.splits)
  then show ?thesis
    using recordFailure_bounded [OF _ _ map_order_rev l(1)] by (simp add: newAuthLimiter_def keys_def)
qed

end
