(* ===== verification/Authorize.thy ===== *)
theory Authorize
  imports Rate_Limit Scoring "HOL-Library.Word"
begin

unbundle bit_operations_syntax

text \<open>
  The bearer-token gate of \<^verbatim>\<open>internal/api/handler.go\<close>: the scopes of the four secrets, the
  middlewares that name the scopes of a route, and \<^verbatim>\<open>authorize\<close>, which runs them behind the lockout
  of \<open>Rate_Limit\<close>. A request takes the mutex of the limiter twice: \<open>retryAfter\<close> before the credential
  is compared, and \<open>recordFailure\<close> or \<open>recordSuccess\<close> after it. \<open>authorize\<close> is a request running alone;
  the gate under load is a run of the two sections of many requests in any interleaving, each
  with its own clock reading (\<open>auth_step\<close>).
\<close>

section \<open>Scopes\<close>

datatype auth_scope = scopeNone | scopeIngest | scopeMetrics | scopeRead | scopeWrite

fun scope_index :: "auth_scope \<Rightarrow> nat" where
  "scope_index scopeNone = 0"
| "scope_index scopeIngest = 1"
| "scope_index scopeMetrics = 2"
| "scope_index scopeRead = 3"
| "scope_index scopeWrite = 4"

type_synonym scope_set = "8 word"

definition scopes :: "auth_scope list \<Rightarrow> scope_set" where
  "scopes ss = foldl (\<lambda>s a. s OR push_bit (scope_index a) 1) 0 ss"

definition has :: "scope_set \<Rightarrow> auth_scope \<Rightarrow> bool" where
  "has ss a \<longleftrightarrow> ss AND push_bit (scope_index a) 1 \<noteq> 0"

definition writeScopes :: scope_set where "writeScopes = scopes [scopeWrite]"
definition ingestScopes :: scope_set where "ingestScopes = scopes [scopeIngest, scopeWrite]"
definition readScopes :: scope_set where "readScopes = scopes [scopeRead, scopeWrite]"
definition metricsScopes :: scope_set where "metricsScopes = scopes [scopeMetrics, scopeRead, scopeWrite]"
definition anonymisedMetricsScopes :: scope_set where
  "anonymisedMetricsScopes = scopes [scopeMetrics, scopeWrite]"

section \<open>Classifying a credential\<close>

record handler =
  apiToken :: string
  readToken :: string
  ingestToken :: string
  metricsToken :: string
  aggregation :: aggregation_mode

text \<open>\<^verbatim>\<open>subtle.ConstantTimeCompare\<close> on slices of one length is 1 exactly when they are equal.\<close>

definition constantTimeTokenCheck :: "string \<Rightarrow> string \<Rightarrow> bool" where
  "constantTimeTokenCheck expected candidate =
     (if length candidate = length expected then candidate = expected else False)"

definition classify :: "handler \<Rightarrow> string \<Rightarrow> auth_scope" where
  "classify h candidate =
     (let writeMatch = constantTimeTokenCheck (apiToken h) candidate;
          readMatch = readToken h \<noteq> [] \<and> constantTimeTokenCheck (readToken h) candidate;
          ingestMatch = ingestToken h \<noteq> [] \<and> constantTimeTokenCheck (ingestToken h) candidate;
          metricsMatch = metricsToken h \<noteq> [] \<and> constantTimeTokenCheck (metricsToken h) candidate
      in if writeMatch then scopeWrite
         else if readMatch then scopeRead
         else if metricsMatch then scopeMetrics
         else if ingestMatch then scopeIngest
         else scopeNone)"

definition authBearerPrefix :: string where "authBearerPrefix = ''bearer ''"

text \<open>\<^verbatim>\<open>strings.EqualFold\<close> against a lower-case ASCII string without the letters k and s.\<close>

definition bearerCandidate :: "string \<Rightarrow> string" where
  "bearerCandidate got =
     (if length authBearerPrefix \<le> length got \<and>
         map ascii_lower (take (length authBearerPrefix) got) = authBearerPrefix
      then drop (length authBearerPrefix) got else [])"

section \<open>The gate\<close>

datatype auth_response =
    TooManyRequests duration
  | Unauthorized string
  | Forbidden string
  | Granted

definition errIngestTokenForbidden :: string where
  "errIngestTokenForbidden = ''ingest token is not authorized for this endpoint: it opens POST /api/v1/events only''"
definition errReadTokenForbidden :: string where
  "errReadTokenForbidden = ''read-only token is not authorized for this endpoint''"
definition errMetricsTokenForbidden :: string where
  "errMetricsTokenForbidden = ''metrics token is not authorized for this endpoint: it opens GET /metrics only''"
definition errReadTokenMetrics :: string where
  "errReadTokenMetrics = ''the read token cannot scrape /metrics in team or division aggregation mode (#944): scrape with the token set by --metrics-token (TIER_METRICS_TOKEN)''"

text \<open>The response carries the remaining lockout that the \<^verbatim>\<open>Retry-After\<close> header is computed from.\<close>

text \<open>The second half of a request: what the credential decides, once the address was found free.\<close>

definition settle ::
  "handler \<Rightarrow> (ip_map \<Rightarrow> ip_map) \<Rightarrow> time \<Rightarrow> string \<Rightarrow> string \<Rightarrow> scope_set \<Rightarrow> string \<Rightarrow> auth_limiter option
    \<Rightarrow> auth_response \<times> auth_limiter option" where
  "settle h order now ip candidate accepted unauthMsg limiter =
     (let got = classify h candidate
      in if got = scopeNone then (Unauthorized unauthMsg, recordFailure order now ip limiter)
         else if has accepted got then
           (Granted, if got \<noteq> scopeIngest then recordSuccess ip limiter else limiter)
         else if got = scopeIngest then (Forbidden errIngestTokenForbidden, limiter)
         else if got = scopeMetrics then (Forbidden errMetricsTokenForbidden, limiter)
         else if has accepted scopeMetrics then (Forbidden errReadTokenMetrics, limiter)
         else (Forbidden errReadTokenForbidden, limiter))"

definition authorize ::
  "handler \<Rightarrow> (ip_map \<Rightarrow> ip_map) \<Rightarrow> time \<Rightarrow> string \<Rightarrow> string \<Rightarrow> scope_set \<Rightarrow> string \<Rightarrow> auth_limiter option
    \<Rightarrow> auth_response \<times> auth_limiter option" where
  "authorize h order now ip candidate accepted unauthMsg limiter =
     (case retryAfter now ip limiter of ((d, locked), limiter) \<Rightarrow>
        if locked then (TooManyRequests d, limiter)
        else settle h order now ip candidate accepted unauthMsg limiter)"

text \<open>The middlewares: whether a request passes, and the limiter after it.\<close>

definition requireWriteScopes ::
  "scope_set \<Rightarrow> handler \<Rightarrow> (ip_map \<Rightarrow> ip_map) \<Rightarrow> time \<Rightarrow> string \<Rightarrow> string \<Rightarrow> auth_limiter option
    \<Rightarrow> auth_response \<times> auth_limiter option" where
  "requireWriteScopes accepted h order now ip header limiter =
     (if apiToken h = [] then (Granted, limiter)
      else authorize h order now ip (bearerCandidate header) accepted ''invalid token'' limiter)"

definition requireAuth ::
  "handler \<Rightarrow> (ip_map \<Rightarrow> ip_map) \<Rightarrow> time \<Rightarrow> string \<Rightarrow> string \<Rightarrow> auth_limiter option
    \<Rightarrow> auth_response \<times> auth_limiter option" where
  "requireAuth = requireWriteScopes writeScopes"

definition requireIngest ::
  "handler \<Rightarrow> (ip_map \<Rightarrow> ip_map) \<Rightarrow> time \<Rightarrow> string \<Rightarrow> string \<Rightarrow> auth_limiter option
    \<Rightarrow> auth_response \<times> auth_limiter option" where
  "requireIngest = requireWriteScopes ingestScopes"

definition requireRead ::
  "handler \<Rightarrow> (ip_map \<Rightarrow> ip_map) \<Rightarrow> time \<Rightarrow> string \<Rightarrow> string \<Rightarrow> auth_limiter option
    \<Rightarrow> auth_response \<times> auth_limiter option" where
  "requireRead h order now ip header limiter =
     (if apiToken h \<noteq> [] then
        authorize h order now ip (bearerCandidate header) readScopes ''invalid token'' limiter
      else (Granted, limiter))"

definition requireMetrics ::
  "handler \<Rightarrow> (ip_map \<Rightarrow> ip_map) \<Rightarrow> time \<Rightarrow> string \<Rightarrow> string \<Rightarrow> auth_limiter option
    \<Rightarrow> auth_response \<times> auth_limiter option" where
  "requireMetrics h order now ip header limiter =
     (if apiToken h = [] then (Granted, limiter)
      else authorize h order now ip (bearerCandidate header)
        (if Anonymized (aggregation h) then anonymisedMetricsScopes else metricsScopes)
        ''invalid token'' limiter)"

definition ProxyAuth ::
  "handler \<Rightarrow> (ip_map \<Rightarrow> ip_map) \<Rightarrow> time \<Rightarrow> string \<Rightarrow> string \<Rightarrow> auth_limiter option
    \<Rightarrow> auth_response \<times> auth_limiter option" where
  "ProxyAuth h order now ip header limiter =
     (if apiToken h = [] then (Granted, limiter)
      else authorize h order now ip header writeScopes
        ''invalid or missing X-Tier-Token header'' limiter)"

section \<open>Which token opens which route\<close>

lemma has_scopes:
  "has writeScopes a \<longleftrightarrow> a = scopeWrite"
  "has ingestScopes a \<longleftrightarrow> a = scopeIngest \<or> a = scopeWrite"
  "has readScopes a \<longleftrightarrow> a = scopeRead \<or> a = scopeWrite"
  "has metricsScopes a \<longleftrightarrow> a = scopeMetrics \<or> a = scopeRead \<or> a = scopeWrite"
  "has anonymisedMetricsScopes a \<longleftrightarrow> a = scopeMetrics \<or> a = scopeWrite"
  by (cases a; simp add: has_def scopes_def writeScopes_def ingestScopes_def readScopes_def
      metricsScopes_def anonymisedMetricsScopes_def)+

lemma tokenCheck_iff [simp]: "constantTimeTokenCheck expected cand \<longleftrightarrow> cand = expected"
  by (auto simp: constantTimeTokenCheck_def)

text \<open>The secret of a scope.\<close>

fun secret :: "handler \<Rightarrow> auth_scope \<Rightarrow> string" where
  "secret h scopeNone = []"
| "secret h scopeIngest = ingestToken h"
| "secret h scopeMetrics = metricsToken h"
| "secret h scopeRead = readToken h"
| "secret h scopeWrite = apiToken h"

text \<open>All configured tokens differ, as \<^verbatim>\<open>cmd/tierd\<close> enforces at start-up.\<close>

definition tokens_distinct :: "handler \<Rightarrow> bool" where
  "tokens_distinct h \<longleftrightarrow> apiToken h \<noteq> [] \<and> apiToken h \<notin> {readToken h, ingestToken h, metricsToken h} \<and>
     (readToken h \<noteq> [] \<longrightarrow> readToken h \<notin> {ingestToken h, metricsToken h}) \<and>
     (ingestToken h \<noteq> [] \<longrightarrow> ingestToken h \<noteq> metricsToken h)"

lemma classify_iff:
  assumes "tokens_distinct h" and "s \<noteq> scopeNone"
  shows "classify h cand = s \<longleftrightarrow> cand \<noteq> [] \<and> cand = secret h s"
proof -
  have d: "apiToken h \<noteq> []" "readToken h \<noteq> apiToken h" "ingestToken h \<noteq> apiToken h"
    "metricsToken h \<noteq> apiToken h" "readToken h = ingestToken h \<Longrightarrow> readToken h = []"
    "readToken h = metricsToken h \<Longrightarrow> readToken h = []" "ingestToken h = metricsToken h \<Longrightarrow> ingestToken h = []"
    using assms(1) by (auto simp: tokens_distinct_def)
  show ?thesis
    using assms(2) d by (cases s) (auto simp: classify_def Let_def)
qed

lemma classify_in:
  assumes "tokens_distinct h"
  shows "classify h cand \<noteq> scopeNone \<and> has S (classify h cand) \<longleftrightarrow>
    cand \<noteq> [] \<and> (\<exists>s\<in>{scopeIngest, scopeMetrics, scopeRead, scopeWrite}. has S s \<and> cand = secret h s)"
proof -
  have "classify h cand \<noteq> scopeNone \<and> has S (classify h cand) \<longleftrightarrow>
      (\<exists>s\<in>{scopeIngest, scopeMetrics, scopeRead, scopeWrite}. has S s \<and> classify h cand = s)"
    by (cases "classify h cand") auto
  also have "\<dots> \<longleftrightarrow> cand \<noteq> [] \<and> (\<exists>s\<in>{scopeIngest, scopeMetrics, scopeRead, scopeWrite}. has S s \<and> cand = secret h s)"
    using classify_iff [OF assms, of _ cand] by auto
  finally show ?thesis .
qed

lemma authorize_Granted:
  "fst (authorize h order now ip cand accepted msg st) = Granted \<longleftrightarrow>
     \<not> snd (fst (retryAfter now ip st)) \<and> classify h cand \<noteq> scopeNone \<and> has accepted (classify h cand)"
  by (auto simp: authorize_def settle_def Let_def split: prod.splits if_splits)

text \<open>C21. With distinct tokens and an address that is not locked out, a route is opened by exactly
  the tokens of its scope set: the write routes and the proxy by the write token alone, the event
  upload also by the ingest token, the read routes by the read and write tokens, and the metrics
  route by the metrics and write tokens, and by the read token only while nobody is anonymised.\<close>

theorem routes_open_by:
  assumes "tokens_distinct h" and "\<not> snd (fst (retryAfter now ip st))"
  shows "(fst (requireAuth h order now ip hdr st) = Granted \<longleftrightarrow> bearerCandidate hdr = apiToken h) \<and>
    (fst (ProxyAuth h order now ip hdr st) = Granted \<longleftrightarrow> hdr = apiToken h) \<and>
    (fst (requireIngest h order now ip hdr st) = Granted \<longleftrightarrow>
      bearerCandidate hdr \<noteq> [] \<and> bearerCandidate hdr \<in> {apiToken h, ingestToken h}) \<and>
    (fst (requireRead h order now ip hdr st) = Granted \<longleftrightarrow>
      bearerCandidate hdr \<noteq> [] \<and> bearerCandidate hdr \<in> {apiToken h, readToken h}) \<and>
    (fst (requireMetrics h order now ip hdr st) = Granted \<longleftrightarrow>
      bearerCandidate hdr \<noteq> [] \<and> (bearerCandidate hdr \<in> {apiToken h, metricsToken h} \<or>
        \<not> Anonymized (aggregation h) \<and> bearerCandidate hdr = readToken h))"
proof -
  have api: "apiToken h \<noteq> []" using assms(1) by (simp add: tokens_distinct_def)
  have granted: "fst (authorize h order now ip cand S msg st) = Granted \<longleftrightarrow>
      cand \<noteq> [] \<and> (\<exists>s\<in>{scopeIngest, scopeMetrics, scopeRead, scopeWrite}. has S s \<and> cand = secret h s)"
    for cand S msg
    using assms(2) unfolding authorize_Granted classify_in [OF assms(1)] by simp
  show ?thesis
    using api unfolding requireAuth_def requireIngest_def requireWriteScopes_def requireRead_def
      requireMetrics_def ProxyAuth_def
    by (auto simp: granted has_scopes)
qed

definition ex_handler :: handler where
  "ex_handler = \<lparr>apiToken = ''w'', readToken = ''r'', ingestToken = ''i'', metricsToken = ''m'',
     aggregation = AggregationTeam\<rparr>"

theorem routes_open_by_witness:
  "fst (requireMetrics ex_handler id 7 ''a'' ''Bearer m'' None) = Granted \<and>
   fst (requireMetrics ex_handler id 7 ''a'' ''Bearer r'' None) \<noteq> Granted"
proof -
  have d: "tokens_distinct ex_handler" by (simp add: tokens_distinct_def ex_handler_def)
  have n: "\<not> snd (fst (retryAfter 7 ''a'' None))" by (simp add: retryAfter_def)
  have m: "bearerCandidate ''Bearer m'' = ''m''" by code_simp
  have r: "bearerCandidate ''Bearer r'' = ''r''" by code_simp
  show ?thesis
    using routes_open_by [OF d n, of id "''Bearer m''"] routes_open_by [OF d n, of id "''Bearer r''"]
    by (simp add: m r) (simp add: ex_handler_def Anonymized_def)
qed

text \<open>While an address is locked out the answer says nothing about the secrets: whatever
  credential is presented on whatever route of whatever configuration, the response and the limiter
  after it are the same.\<close>

theorem locked_out_is_blind:
  assumes "snd (fst (retryAfter now ip st))"
  shows "authorize h order now ip cand accepted msg st = authorize h' order' now ip cand' accepted' msg' st"
  using assms by (auto simp: authorize_def split: prod.splits)

theorem locked_out_is_blind_witness:
  "let st = Some \<lparr>cfg = DefaultRateLimitConfig, ips = [(''a'', ex_entry [] 90)]\<rparr>
   in authorize ex_handler id 7 ''a'' ''w'' writeScopes [] st =
      authorize ex_handler rev 7 ''a'' ''guess'' readScopes ''invalid token'' st"
  unfolding Let_def by (rule locked_out_is_blind) code_simp

section \<open>Requests in flight\<close>

text \<open>
  The requests whose first section found the address free and whose second has not run yet, each
  with the clock reading of its check. Two requests with the same content checked at the same
  instant are interchangeable, so a request needs no identity.
\<close>

datatype auth_request = Request (req_ip: string) (req_candidate: string) (req_accepted: scope_set)

record gate_state =
  limiter_of :: "auth_limiter option"
  inflight :: "(auth_request \<times> time) list"

text \<open>A section of a request: its check, or (with the clock reading of the check) its outcome.\<close>

datatype auth_event =
    Check (ev_time: time) (ev_req: auth_request)
  | Settle (ev_time: time) (ev_checked: time) (ev_req: auth_request)

definition ev_ip :: "auth_event \<Rightarrow> string" where "ev_ip e = req_ip (ev_req e)"


fun auth_step :: "handler \<Rightarrow> (ip_map \<Rightarrow> ip_map) \<Rightarrow> auth_event \<Rightarrow> gate_state \<Rightarrow> gate_state" where
  "auth_step h order (Check t r) g =
     (case retryAfter t (req_ip r) (limiter_of g) of ((d, locked), l) \<Rightarrow>
        if locked then g\<lparr>limiter_of := l\<rparr> else g\<lparr>limiter_of := l, inflight := (r, t) # inflight g\<rparr>)"
| "auth_step h order (Settle t t0 r) g =
     (if (r, t0) \<in> set (inflight g) then
        \<lparr>limiter_of = snd (settle h order t (req_ip r) (req_candidate r) (req_accepted r) ''invalid token'' (limiter_of g)),
         inflight = remove1 (r, t0) (inflight g)\<rparr>
      else g)"

text \<open>A request running alone is its check and, when that finds the address free, its outcome.\<close>

lemma authorize_alone:
  assumes "inflight g = []"
  shows "auth_step h order (Settle t t (Request ip cand acc)) (auth_step h order (Check t (Request ip cand acc)) g) =
    \<lparr>limiter_of = snd (authorize h order t ip cand acc ''invalid token'' (limiter_of g)), inflight = []\<rparr>"
  using assms by (cases g) (auto simp: authorize_def split: prod.split)

section \<open>The gate as a machine seen from one address\<close>

text \<open>What an address sees: its own view of the limiter and its own requests in flight.\<close>

type_synonym gate_view = "ip_view \<times> (auth_request \<times> time) list"

definition gate_view :: "rate_limit_config \<Rightarrow> time \<Rightarrow> gate_state \<Rightarrow> string \<Rightarrow> gate_view" where
  "gate_view c now g ip = (ip_view c now (limiter_of g) ip, filter (\<lambda>x. req_ip (fst x) = ip) (inflight g))"

fun gate_age :: "rate_limit_config \<Rightarrow> time \<Rightarrow> gate_view \<Rightarrow> gate_view" where
  "gate_age c now (w, q) = (ip_age c now w, q)"

fun gate_local :: "rate_limit_config \<Rightarrow> handler \<Rightarrow> auth_event \<Rightarrow> gate_view \<Rightarrow> gate_view" where
  "gate_local c h (Check t r) (w, q) = (w, if snd w \<noteq> None then q else (r, t) # q)"
| "gate_local c h (Settle t t0 r) (w, q) =
     (if (r, t0) \<in> set q then
        (let got = classify h (req_candidate r)
         in if got = scopeNone then ip_fail c t w
            else if has (req_accepted r) got \<and> got \<noteq> scopeIngest then ([], None) else w,
         remove1 (r, t0) q)
      else (w, q))"

text \<open>
  The laws cover a request whose outcome is recorded within one lockout of its check. A failure
  recorded later than that can find an expired lockout which the next check erases together with
  the failure, unless a sweep for another address removed the entry first.
\<close>

fun admits :: "rate_limit_config \<Rightarrow> string set \<Rightarrow> auth_event \<Rightarrow> bool" where
  "admits c K (Check t r) = (req_ip r \<in> K)"
| "admits c K (Settle t t0 r) = (req_ip r \<in> K \<and> t < t0 + Lockout c)"

text \<open>A lockout set since \<open>t0\<close> ends no sooner than one lockout after it.\<close>

definition locked_since :: "rate_limit_config \<Rightarrow> time \<Rightarrow> string \<Rightarrow> auth_limiter option \<Rightarrow> bool" where
  "locked_since c t0 ip lo = (case lo of None \<Rightarrow> True
     | Some l \<Rightarrow> (let u = lockedUntil (entry_or_new (ips l) ip) in time_is_zero u \<or> t0 + Lockout c \<le> u))"

definition gate_ok :: "rate_limit_config \<Rightarrow> string set \<Rightarrow> time \<Rightarrow> gate_state \<Rightarrow> bool" where
  "gate_ok c K t g \<longleftrightarrow> limiter_ok c K t (limiter_of g) \<and>
     (\<forall>(r, t0)\<in>set (inflight g). t0 \<le> t \<and> locked_since c t0 (req_ip r) (limiter_of g))"

lemma entry_or_new_delete:
  "entry_or_new (AList.delete k m) ip = (if ip = k then \<lparr>failures = [], lockedUntil = 0\<rparr> else entry_or_new m ip)"
  by (simp add: entry_or_new_def delete_conv')

lemma entry_or_new_sweep:
  "distinct (keys m) \<Longrightarrow>
   entry_or_new (sweepLocked w now m) ip \<in> {entry_or_new m ip, \<lparr>failures = [], lockedUntil = 0\<rparr>}"
  by (auto simp: entry_or_new_def sweepLocked_def keys_def map_of_filter_value split: option.splits)

lemma locked_since_retryAfter: "locked_since c t0 ip lo \<Longrightarrow> locked_since c t0 ip (snd (retryAfter now k lo))"
  by (auto simp: locked_since_def retryAfter_def entry_or_new_delete time_is_zero_def Let_def split: option.splits)

lemma locked_since_recordSuccess: "locked_since c t0 ip lo \<Longrightarrow> locked_since c t0 ip (recordSuccess k lo)"
  by (auto simp: locked_since_def recordSuccess_def entry_or_new_delete time_is_zero_def Let_def split: option.splits)

lemma failed_entry_until: "lockedUntil (failed_entry c now e) \<in> {lockedUntil e, now + Lockout c}"
  by (simp add: failed_entry_def Let_def)

lemma locked_since_recordFailure:
  assumes "limiter_ok c K t lo" and "k \<in> K" and "t0 \<le> now" and "locked_since c t0 ip lo"
  shows "locked_since c t0 ip (recordFailure order now k lo)"
proof -
  obtain l where l: "lo = Some l" "distinct (keys (ips l))" using assms(1) by (rule limiter_okE)
  let ?u = "AList.update k (failed_entry c now (entry_or_new (ips l) k)) (ips l)"
  have "lockedUntil (entry_or_new ?u ip) \<in> {lockedUntil (entry_or_new (ips l) ip), now + Lockout c}"
    using failed_entry_until [of c now] by (simp add: entry_or_new_def AList.update_conv')
  moreover have "entry_or_new (sweepLocked (Window c) now ?u) ip \<in> {entry_or_new ?u ip, \<lparr>failures = [], lockedUntil = 0\<rparr>}"
    using l(2) by (intro entry_or_new_sweep) (simp add: keys_update)
  ultimately show ?thesis
    using assms(3,4) recordFailure_room [OF assms(1)[unfolded l(1)] assms(2), of order now]
    by (auto simp: locked_since_def l(1) Let_def time_is_zero_def)
qed

text \<open>Recording a failure within one lockout of the check: the entry carries no lockout, or one in
  force, which it leaves alone.\<close>

lemma recordFailure_timely:
  assumes ok: "limiter_ok c K t (Some l)" and "t \<le> now" and ip: "ip \<in> K"
    and "locked_since c t0 ip (Some l)" and "now < t0 + Lockout c"
  shows "limiter_ok c K now (recordFailure order now ip (Some l))"
    and "now \<le> u \<Longrightarrow> ip_view c u (recordFailure order now ip (Some l)) k =
      (if k = ip then ip_age c u (ip_fail c now (ip_view c now (Some l) ip)) else ip_view c u (Some l) k)"
proof -
  let ?e = "entry_or_new (ips l) ip"
  show "limiter_ok c K now (recordFailure order now ip (Some l))"
    and "now \<le> u \<Longrightarrow> ip_view c u (recordFailure order now ip (Some l)) k =
      (if k = ip then ip_age c u (ip_fail c now (ip_view c now (Some l) ip)) else ip_view c u (Some l) k)"
  proof (atomize (full), cases "time_is_zero (lockedUntil ?e)")
    case True
    then show "limiter_ok c K now (recordFailure order now ip (Some l)) \<and>
      (now \<le> u \<longrightarrow> ip_view c u (recordFailure order now ip (Some l)) k =
      (if k = ip then ip_age c u (ip_fail c now (ip_view c now (Some l) ip)) else ip_view c u (Some l) k))"
      using recordFailure_view [OF ok assms(2) ip True, where order = order] by simp
  next
    case False
    then have active: "lock_active now ?e"
      using assms(4,5) by (simp add: locked_since_def lock_active_def Let_def)
    then have same: "recordFailure order now ip (Some l) = Some l"
      using recordFailure_room [OF ok ip, of order now] by (simp add: Let_def)
    obtain e where e: "map_of (ips l) ip = Some e" "?e = e"
      using False by (auto simp: entry_or_new_def time_is_zero_def split: option.splits)
    have view: "ip_view c now (Some l) ip = ([], Some (lockedUntil e))"
      using active e by (simp add: ip_view_def)
    have "now \<le> u \<Longrightarrow> ip_view c u (Some l) ip = ip_age c u (ip_view c now (Some l) ip)"
      by (rule ip_view_aged [OF limiter_ok_mono [OF ok assms(2)]])
    then show "limiter_ok c K now (recordFailure order now ip (Some l)) \<and>
      (now \<le> u \<longrightarrow> ip_view c u (recordFailure order now ip (Some l)) k =
      (if k = ip then ip_age c u (ip_fail c now (ip_view c now (Some l) ip)) else ip_view c u (Some l) k))"
      using limiter_ok_mono [OF ok assms(2)] by (simp add: same view)
  qed
qed

lemma verdict_locked [simp]: "snd (verdict now lk) \<longleftrightarrow> lk \<noteq> None"
  by (simp add: verdict_def split: option.split)

lemma gate_step_Check:
  assumes ok: "gate_ok c K t g" and ip: "req_ip r \<in> K" and t: "t \<le> now"
  shows "gate_ok c K now (auth_step h order (Check now r) g)"
    and "now \<le> u \<Longrightarrow> gate_view c u (auth_step h order (Check now r) g) k =
      (if k = req_ip r then gate_age c u (gate_local c h (Check now r) (gate_view c now g k)) else gate_view c u g k)"
proof -
  let ?ip = "req_ip r"
  obtain d locked lo where r: "retryAfter now ?ip (limiter_of g) = ((d, locked), lo)"
    by (metis prod.exhaust)
  have free: "limiter_ok c K t (limiter_of g)" and q: "\<forall>(r, t0)\<in>set (inflight g). t0 \<le> t \<and> locked_since c t0 (req_ip r) (limiter_of g)"
    using ok by (simp_all add: gate_ok_def)
  note R = retryAfter_view [OF free t, where ip = ?ip, unfolded r, simplified]
  have locked: "locked \<longleftrightarrow> snd (ip_view c now (limiter_of g) ?ip) \<noteq> None"
    using R(3) by (metis snd_conv verdict_locked)
  obtain l where l: "lo = Some l" using R(1) by (auto simp: limiter_ok_def)
  have q': "\<forall>(r, t0)\<in>set (inflight g). t0 \<le> now \<and> locked_since c t0 (req_ip r) lo"
    using q t locked_since_retryAfter [of c _ _ "limiter_of g" now ?ip] by (fastforce simp: r)
  have "\<not> locked \<Longrightarrow> locked_since c now ?ip lo"
    using R(4) [OF _ l] by (simp add: locked_since_def l Let_def)
  then show "gate_ok c K now (auth_step h order (Check now r) g)"
    using R(1) q' by (auto simp: r gate_ok_def)
  assume u: "now \<le> u"
  have view: "ip_view c u lo k = ip_view c u (limiter_of g) k" by (rule R(2) [OF u])
  have "ip_view c u (limiter_of g) k = ip_age c u (ip_view c now (limiter_of g) k)"
    by (rule ip_view_aged [OF limiter_ok_mono [OF free t] u])
  then show "gate_view c u (auth_step h order (Check now r) g) k =
      (if k = ?ip then gate_age c u (gate_local c h (Check now r) (gate_view c now g k)) else gate_view c u g k)"
    using view locked by (auto simp: r gate_view_def)
qed

lemma settle_limiter:
  "snd (settle h order now ip cand acc msg lo) =
    (let got = classify h cand
     in if got = scopeNone then recordFailure order now ip lo
        else if has acc got \<and> got \<noteq> scopeIngest then recordSuccess ip lo else lo)"
  by (simp add: settle_def Let_def)

lemma gate_step_Settle:
  assumes ok: "gate_ok c K t g" and ip: "req_ip r \<in> K" and t: "t \<le> now" and timely: "now < t0 + Lockout c"
  shows "gate_ok c K now (auth_step h order (Settle now t0 r) g)"
    and "now \<le> u \<Longrightarrow> gate_view c u (auth_step h order (Settle now t0 r) g) k =
      (if k = req_ip r then gate_age c u (gate_local c h (Settle now t0 r) (gate_view c now g k)) else gate_view c u g k)"
proof -
  let ?ip = "req_ip r" and ?got = "classify h (req_candidate r)"
  let ?lo = "snd (settle h order now ?ip (req_candidate r) (req_accepted r) ''invalid token'' (limiter_of g))"
  have free: "limiter_ok c K t (limiter_of g)" and q: "\<forall>(r, t0)\<in>set (inflight g). t0 \<le> t \<and> locked_since c t0 (req_ip r) (limiter_of g)"
    using ok by (simp_all add: gate_ok_def)
  obtain l where l: "limiter_of g = Some l" using free by (auto simp: limiter_ok_def)
  have free': "limiter_ok c K now (limiter_of g)" by (rule limiter_ok_mono [OF free t])
  have mine: "(r, t0) \<in> set (inflight g) \<Longrightarrow> locked_since c t0 ?ip (limiter_of g)" using q by auto
  note F = recordFailure_timely [OF free [unfolded l] t ip, folded l, OF mine timely]
  note S = recordSuccess_view [OF free t, where ip = ?ip]
  have since: "locked_since c t1 i ?lo" if "t1 \<le> t" and "locked_since c t1 i (limiter_of g)" for t1 i
    using that t locked_since_recordFailure [OF free ip, of t1 now i order] locked_since_recordSuccess [of c t1 i "limiter_of g" ?ip]
    by (simp add: settle_limiter Let_def)
  have "\<forall>(r, t0)\<in>set (remove1 (r, t0) (inflight g)). t0 \<le> now \<and> locked_since c t0 (req_ip r) ?lo"
  proof clarify
    fix r1 t1 assume "(r1, t1) \<in> set (remove1 (r, t0) (inflight g))"
    then have "(r1, t1) \<in> set (inflight g)" using set_remove1_subset by fast
    then have "t1 \<le> t" "locked_since c t1 (req_ip r1) (limiter_of g)" using q by auto
    then show "t1 \<le> now \<and> locked_since c t1 (req_ip r1) ?lo" using since t by simp
  qed
  moreover have "(r, t0) \<in> set (inflight g) \<Longrightarrow> limiter_ok c K now ?lo"
    using F(1) S(1) free' by (simp add: settle_limiter Let_def)
  moreover have "gate_ok c K now g"
    using free' q t by (fastforce simp: gate_ok_def)
  ultimately show "gate_ok c K now (auth_step h order (Settle now t0 r) g)"
    by (simp add: gate_ok_def)
  assume u: "now \<le> u"
  have aged: "ip_view c u (limiter_of g) ?ip = ip_age c u (ip_view c now (limiter_of g) ?ip)"
    by (rule ip_view_aged [OF free' u])
  have "(r, t0) \<in> set (inflight g) \<Longrightarrow> ip_view c u ?lo k =
      (if k = ?ip then ip_age c u (fst (gate_local c h (Settle now t0 r) (gate_view c now g k))) else ip_view c u (limiter_of g) k)"
    using F(2) [OF _ u, of order k] S(2) [of u k] aged
    by (auto simp: settle_limiter Let_def gate_view_def)
  then show "gate_view c u (auth_step h order (Settle now t0 r) g) k =
      (if k = ?ip then gate_age c u (gate_local c h (Settle now t0 r) (gate_view c now g k)) else gate_view c u g k)"
    using aged by (auto simp: gate_view_def filter_remove1 remove1_filter_not)
qed

lemma auth_step_laws:
  assumes "gate_ok c K t g" and "admits c K e" and "t \<le> ev_time e"
  shows "gate_ok c K (ev_time e) (auth_step h order e g)"
    and "ev_time e \<le> u \<Longrightarrow> gate_view c u (auth_step h order e g) k =
      (if k = ev_ip e then gate_age c u (gate_local c h e (gate_view c (ev_time e) g k)) else gate_view c u g k)"
proof (atomize (full), cases e)
  case (Check now r)
  then show "gate_ok c K (ev_time e) (auth_step h order e g) \<and> (ev_time e \<le> u \<longrightarrow>
      gate_view c u (auth_step h order e g) k =
      (if k = ev_ip e then gate_age c u (gate_local c h e (gate_view c (ev_time e) g k)) else gate_view c u g k))"
    using assms gate_step_Check(1) [OF assms(1), where r = r and now = now and h = h and order = order]
      gate_step_Check(2) [OF assms(1), where r = r and now = now and h = h and order = order and u = u and k = k] by (simp only: ev_ip_def admits.simps auth_event.sel) simp
next
  case (Settle now t0 r)
  then show "gate_ok c K (ev_time e) (auth_step h order e g) \<and> (ev_time e \<le> u \<longrightarrow>
      gate_view c u (auth_step h order e g) k =
      (if k = ev_ip e then gate_age c u (gate_local c h e (gate_view c (ev_time e) g k)) else gate_view c u g k))"
    using assms gate_step_Settle(1) [OF assms(1), where r = r and now = now and ?t0.0 = t0 and h = h and order = order]
      gate_step_Settle(2) [OF assms(1), where r = r and now = now and ?t0.0 = t0 and h = h and order = order and u = u and k = k] by (simp only: ev_ip_def admits.simps auth_event.sel) simp
qed

interpretation gate: keyed_clock "auth_step h order" ev_ip ev_time "gate_view c" "gate_local c h" "gate_age c"
    "gate_ok c" "admits c" for h order c
proof
  fix K t g e
  assume "gate_ok c K t g" "admits c K e" "t \<le> ev_time e"
  then show "gate_ok c K (ev_time e) (auth_step h order e g)"
    by (rule auth_step_laws(1))
next
  fix K t g e u
  assume "gate_ok c K t g" "admits c K e" "t \<le> ev_time e" "ev_time e \<le> u"
  then show "gate_view c u (auth_step h order e g) (ev_ip e) =
      gate_age c u (gate_local c h e (gate_view c (ev_time e) g (ev_ip e)))"
    by (simp add: auth_step_laws(2))
next
  fix K t g e u k
  assume "gate_ok c K t g" "admits c K e" "t \<le> ev_time e" "ev_time e \<le> u" "k \<noteq> ev_ip e"
  then show "gate_view c u (auth_step h order e g) k = gate_view c u g k"
    by (simp add: auth_step_laws(2))
next
  fix K t g u k
  assume "gate_ok c K t g" "t \<le> u"
  then show "gate_view c u g k = gate_age c u (gate_view c t g k)"
    using ip_view_aged [of c K t "limiter_of g" u k] by (simp add: gate_view_def gate_ok_def)
next
  fix t u v
  assume "(t :: time) \<le> u"
  then show "gate_age c u (gate_age c t v) = gate_age c u v"
    by (cases v) (simp add: ip_age_age)
qed

definition run_gate ::
  "handler \<Rightarrow> (ip_map \<Rightarrow> ip_map) \<Rightarrow> auth_event list \<Rightarrow> gate_state \<Rightarrow> gate_state" where
  "run_gate h order es g = fold (auth_step h order) es g"

text \<open>Sections in clock order, none before \<open>t\<close>.\<close>

fun clocked :: "time \<Rightarrow> auth_event list \<Rightarrow> bool" where
  "clocked t [] = True"
| "clocked t (e # es) = (t \<le> ev_time e \<and> clocked (ev_time e) es)"

lemma clocked_in_time: "clocked t es = gate.in_time t es"
  by (induction es arbitrary: t) simp_all

definition own_run :: "rate_limit_config \<Rightarrow> handler \<Rightarrow> auth_event list \<Rightarrow> gate_view \<Rightarrow> gate_view" where
  "own_run c h es v = fold (\<lambda>e v. gate_local c h e (gate_age c (ev_time e) v)) es v"

lemma run_gate_view:
  assumes "gate_ok c K t g" and "\<forall>e\<in>set es. admits c K e" and "clocked t es"
    and "\<forall>e\<in>set es. ev_time e \<le> u" and "t \<le> u"
  shows "gate_view c u (run_gate h order es g) k =
      gate_age c u (own_run c h (filter (\<lambda>e. ev_ip e = k) es) (gate_view c t g k))"
    and "\<exists>t'\<le>u. gate_ok c K t' (run_gate h order es g)"
  using gate.run_view [OF assms(1,2) assms(3)[unfolded clocked_in_time] assms(4,5), where h = h and order = order and k = k]
    gate.run_ok [OF assms(1,2) assms(3)[unfolded clocked_in_time] assms(4,5), where h = h and order = order]
  by (simp_all add: run_gate_def own_run_def gate.local_run_def)

lemma gate_age_fst: "fst (gate_age c u v) = ip_age c u (fst v)"
  by (cases v) simp

lemma run_gate_verdict:
  assumes "gate_ok c K t g" and "\<forall>e\<in>set es. admits c K e" and "clocked t es"
    and "\<forall>e\<in>set es. ev_time e \<le> u" and "t \<le> u"
  shows "fst (retryAfter u ip (limiter_of (run_gate h order es g))) =
    verdict u (snd (ip_age c u (fst (own_run c h (filter (\<lambda>e. ev_ip e = ip) es) (gate_view c t g ip)))))"
proof -
  obtain t' where "t' \<le> u" "limiter_ok c K t' (limiter_of (run_gate h order es g))"
    using run_gate_view(2) [OF assms, of h order] by (auto simp: gate_ok_def)
  then have "fst (retryAfter u ip (limiter_of (run_gate h order es g))) =
      verdict u (snd (fst (gate_view c u (run_gate h order es g) ip)))"
    by (metis retryAfter_view(3) gate_view_def fst_conv)
  then show ?thesis by (simp add: run_gate_view(1) [OF assms] gate_age_fst)
qed

text \<open>C20. Addresses do not interfere: as long as the addresses seen fit the ceiling of the
  map and every outcome is recorded within one lockout of its check, whether and for how long an
  address is locked out after any interleaving of the sections of concurrent requests is what the
  sections of its own requests alone decide, replayed on its own state in their order.\<close>

theorem addresses_isolated:
  assumes "gate_ok c K t g" and "\<forall>e\<in>set es. admits c K e" and "clocked t es"
    and "\<forall>e\<in>set es. ev_time e \<le> u" and "t \<le> u"
  shows "fst (retryAfter u ip (limiter_of (run_gate h order es g))) =
    verdict u (snd (ip_age c u (fst (own_run c h (filter (\<lambda>e. ev_ip e = ip) es) (gate_view c t g ip)))))"
  using assms by (rule run_gate_verdict)

definition ex_guess :: "string \<Rightarrow> auth_request" where
  "ex_guess ip = Request ip ''guess'' writeScopes"

definition ex_limits :: rate_limit_config where
  "ex_limits = \<lparr>MaxFailures = 2, Window = 10, Lockout = 100\<rparr>"

definition ex_gate :: gate_state where
  "ex_gate = \<lparr>limiter_of = Some (newAuthLimiter ex_limits), inflight = []\<rparr>"

text \<open>Two addresses guess at once, each with two requests in flight before the first is answered.\<close>

definition ex_race :: "auth_event list" where
  "ex_race = [Check 1 (ex_guess ''a''), Check 2 (ex_guess ''b''), Check 3 (ex_guess ''a''), Settle 4 1 (ex_guess ''a''),
     Check 5 (ex_guess ''b''), Settle 6 3 (ex_guess ''a''), Settle 7 5 (ex_guess ''b'')]"

lemma ex_gate_ok: "gate_ok ex_limits {''a'', ''b''} 0 ex_gate"
  by (simp add: gate_ok_def ex_gate_def limiter_ok_def newAuthLimiter_def enabled_def ex_limits_def keys_def maxTrackedIPs_def)

lemma ex_race_ok:
  "\<forall>e\<in>set ex_race. admits ex_limits {''a'', ''b''} e" "clocked 0 ex_race" "\<forall>e\<in>set ex_race. ev_time e \<le> 20"
  by (simp_all add: ex_race_def ex_guess_def ex_limits_def)

lemma ex_gate_view: "gate_view ex_limits 0 ex_gate ip = (([], None), [])"
  by (simp add: gate_view_def ip_view_def ex_gate_def newAuthLimiter_def)

theorem addresses_isolated_witness:
  "fst (retryAfter 20 ''a'' (limiter_of (run_gate ex_handler id ex_race ex_gate))) = (86, True) \<and>
   fst (retryAfter 20 ''b'' (limiter_of (run_gate ex_handler id ex_race ex_gate))) = (0, False)"
proof -
  have "verdict 20 (snd (ip_age ex_limits 20 (fst (own_run ex_limits ex_handler
      (filter (\<lambda>e. ev_ip e = ''a'') ex_race) (([], None), []))))) = (86, True)"
    and "verdict 20 (snd (ip_age ex_limits 20 (fst (own_run ex_limits ex_handler
      (filter (\<lambda>e. ev_ip e = ''b'') ex_race) (([], None), []))))) = (0, False)"
    by code_simp+
  then show ?thesis
    using addresses_isolated [OF ex_gate_ok ex_race_ok, where h = ex_handler and order = id] by (simp add: ex_gate_view)
qed

section \<open>The lockout trips\<close>











end
