(* ===== verification/Money.thy ===== *)
theory Money
  imports Go_Prelude Go_Float
begin

text \<open>
  Money at rest and at the boundary: \<^verbatim>\<open>internal/store/money.go\<close>. Amounts are stored as \<^verbatim>\<open>int64\<close>
  micro-dollars; \<open>DollarsToMicro\<close> and \<open>MicroToDollars\<close> convert from and to the binary64 dollars of the
  outside, with the rounding of every operation as in \<open>Go_Float\<close>.
\<close>

definition MicroPerUSD :: f64 where "MicroPerUSD = Fin 1000000"
definition MaxTokenEventCostMicro :: int where "MaxTokenEventCostMicro = 10000000000"

definition ValidateTokenEventCost :: "int \<Rightarrow> (string, unit) res" where
  "ValidateTokenEventCost cost =
     (if MaxTokenEventCostMicro < cost
      then Inl ''cost_micro must be <= 10000000000 ($10,000); split a large import across rows''
      else Inr ())"

text \<open>The second component is the sticky \<^verbatim>\<open>cost_clamped\<close> mark, \<open>None\<close> for SQL NULL.\<close>

definition clampTokenEventCost :: "int \<Rightarrow> int \<times> bool option" where
  "clampTokenEventCost cost =
     (if MaxTokenEventCostMicro < cost then (MaxTokenEventCostMicro, Some True) else (cost, None))"

fun RoundToEven :: "f64 \<Rightarrow> f64" where
  "RoundToEven (Fin x) = Fin (of_int (rne x))"
| "RoundToEven PInf = PInf"
| "RoundToEven NInf = NInf"
| "RoundToEven NaN = NaN"

text \<open>The conversion of an in-range float to \<^verbatim>\<open>int64\<close>, truncating; the caller has excluded the rest.\<close>

fun int64_of_f64 :: "f64 \<Rightarrow> int" where
  "int64_of_f64 (Fin x) = (if 0 \<le> x then \<lfloor>x\<rfloor> else \<lceil>x\<rceil>)"
| "int64_of_f64 _ = min_int64"

definition DollarsToMicro :: "f64 \<Rightarrow> int" where
  "DollarsToMicro d =
     (let v = RoundToEven (d * MicroPerUSD)
      in if is_nan v then 0
         else if f64_of_int max_int64 \<le> v then max_int64
         else if v \<le> f64_of_int min_int64 then min_int64
         else int64_of_f64 v)"

definition MicroToDollars :: "int \<Rightarrow> f64" where
  "MicroToDollars m = f64_of_int m / MicroPerUSD"

section \<open>The conversion in exact arithmetic\<close>

lemma float_bounds: "f64_of_int max_int64 = Fin (2 ^ 63)" "f64_of_int min_int64 = Fin (- (2 ^ 63))"
proof -
  have "ilog2 9223372036854775807 = 62" by (rule ilog2_unique) simp_all
  then have e: "ulp_exp 9223372036854775807 = 10" by (simp add: ulp_exp_def)
  have "rne (9223372036854775807 / 1024) = 9007199254740992" by (rule rne_unique) simp
  then have "round_rat (2 ^ 63 - 1) = 2 ^ 63" by (simp add: round_rat_def e)
  then have "fl (2 ^ 63 - 1) = Fin (2 ^ 63)" by (rule fl_of_round) simp
  then show "f64_of_int max_int64 = Fin (2 ^ 63)"
    by (simp add: f64_of_int_def max_int64_def)
  have "ilog2 9223372036854775808 = 63" by (rule ilog2_unique) simp_all
  then have "ulp_exp 9223372036854775808 = 11" by (simp add: ulp_exp_def)
  moreover have "rne (4503599627370496 :: rat) = 4503599627370496"
    using rne_of_int [of 4503599627370496] by simp
  ultimately have "round_rat (2 ^ 63) = 2 ^ 63" by (simp add: round_rat_def)
  then have "round_rat (- (2 ^ 63)) = - (2 ^ 63)" using round_rat_minus [of "2 ^ 63"] by simp
  then have "fl (- (2 ^ 63)) = Fin (- (2 ^ 63))" by (rule fl_of_round) simp
  then show "f64_of_int min_int64 = Fin (- (2 ^ 63))"
    by (simp add: f64_of_int_def min_int64_def)
qed

text \<open>\<open>DollarsToMicro\<close> on the exact value of the scaled amount.\<close>

definition clamp64 :: "int \<Rightarrow> int" where
  "clamp64 n = (if 2 ^ 63 \<le> n then max_int64 else if n \<le> - (2 ^ 63) then min_int64 else n)"

lemma rat_int_bounds:
  "(2 ^ 63 :: rat) \<le> of_int n \<longleftrightarrow> 2 ^ 63 \<le> n" "of_int n \<le> (- (2 ^ 63) :: rat) \<longleftrightarrow> n \<le> - (2 ^ 63)"
  by (metis of_int_le_iff of_int_numeral of_int_power) (metis of_int_le_iff of_int_minus of_int_numeral of_int_power)

lemma DollarsToMicro_Fin:
  assumes "d * MicroPerUSD = Fin v"
  shows "DollarsToMicro d = clamp64 (rne v)"
proof -
  have "int64_of_f64 (Fin (of_int n)) = n" for n by simp
  then show ?thesis
    unfolding DollarsToMicro_def assms RoundToEven.simps Let_def float_bounds clamp64_def
    by (simp only: is_nan_def less_eq_f64_def fle.simps rat_int_bounds f64.distinct if_False)
qed

lemma DollarsToMicro_special:
  "DollarsToMicro NaN = 0" "DollarsToMicro PInf = max_int64" "DollarsToMicro NInf = min_int64"
  by (simp_all add: DollarsToMicro_def MicroPerUSD_def Let_def is_nan_def float_bounds f64_defs signed_inf_def)

lemma clamp64_range: "in_int64 (clamp64 n)"
  by (simp add: clamp64_def in_int64_def min_int64_def max_int64_def)

lemma clamp64_mono: "m \<le> n \<Longrightarrow> clamp64 m \<le> clamp64 n"
  by (simp add: clamp64_def min_int64_def max_int64_def)

lemma DollarsToMicro_cases:
  "in_int64 (DollarsToMicro d) \<and> DollarsToMicro d =
    (case d * MicroPerUSD of Fin v \<Rightarrow> clamp64 (rne v) | PInf \<Rightarrow> max_int64 | NInf \<Rightarrow> min_int64 | NaN \<Rightarrow> 0)"
proof -
  have "DollarsToMicro d =
      (case d * MicroPerUSD of Fin v \<Rightarrow> clamp64 (rne v) | PInf \<Rightarrow> max_int64 | NInf \<Rightarrow> min_int64 | NaN \<Rightarrow> 0)"
  proof (cases "d * MicroPerUSD")
    case (Fin v)
    then show ?thesis by (simp add: DollarsToMicro_Fin)
  qed (simp_all add: DollarsToMicro_def Let_def is_nan_def float_bounds less_eq_f64_def)
  moreover have "in_int64 max_int64" "in_int64 min_int64" "in_int64 0"
    by (simp_all add: in_int64_def min_int64_def max_int64_def)
  ultimately show ?thesis
    using clamp64_range by (simp split: f64.split)
qed

text \<open>\<open>DollarsToMicro\<close> is total and platform-independent: for every float, the infinities and NaN
  included, the result is an \<^verbatim>\<open>int64\<close>, and it is the nearest integer (ties to even) of the scaled amount,
  saturated at both ends of the range, with NaN mapped to 0.\<close>

theorem DollarsToMicro_reference:
  "in_int64 (DollarsToMicro d) \<and> DollarsToMicro d =
    (case d * MicroPerUSD of Fin v \<Rightarrow> clamp64 (rne v) | PInf \<Rightarrow> max_int64 | NInf \<Rightarrow> min_int64 | NaN \<Rightarrow> 0)"
  by (rule DollarsToMicro_cases)

lemma DollarsToMicro_le:
  assumes "d \<le> d'"
  shows "DollarsToMicro d \<le> DollarsToMicro d'"
proof -
  have fin: "DollarsToMicro (Fin x) \<le> DollarsToMicro (Fin y)" if "x \<le> y" for x y
  proof -
    have "fl (x * 1000000) \<le> fl (y * 1000000)" using that by (intro fl_mono) simp
    then show ?thesis
      using DollarsToMicro_cases [of "Fin x"] DollarsToMicro_cases [of "Fin y"]
      by (auto simp: MicroPerUSD_def less_eq_f64_def in_int64_def split: f64.splits
          intro: clamp64_mono rne_mono)
  qed
  have "min_int64 \<le> DollarsToMicro e \<and> DollarsToMicro e \<le> max_int64" for e
    using DollarsToMicro_cases [of e] unfolding in_int64_def by blast
  moreover have "min_int64 \<le> max_int64" by (simp add: min_int64_def max_int64_def)
  ultimately show ?thesis
    using assms fin by (cases d; cases d') (auto simp: less_eq_f64_def DollarsToMicro_special)
qed

text \<open>The conversion keeps the order of amounts, through both roundings and the saturation.\<close>

theorem DollarsToMicro_mono:
  assumes "d \<le> d'"
  shows "DollarsToMicro d \<le> DollarsToMicro d'"
  using assms by (rule DollarsToMicro_le)

theorem DollarsToMicro_mono_witness: "DollarsToMicro (Fin 2) \<le> DollarsToMicro PInf"
  by (rule DollarsToMicro_mono) (simp add: less_eq_f64_def)

text \<open>Below 2.25 billion dollars the two roundings never add up to half a micro-dollar.\<close>

lemma micro_dollars:
  assumes "\<bar>m\<bar> < 2 ^ 51"
  shows "DollarsToMicro (MicroToDollars m) = m \<and> (\<exists>r. MicroToDollars m = Fin r \<and> (0 \<le> m \<longrightarrow> 0 \<le> r))"
proof (cases "m = 0")
  case True
  then show ?thesis
    by (simp add: MicroToDollars_def MicroPerUSD_def f64_of_int_def DollarsToMicro_Fin
        clamp64_def min_int64_def max_int64_def rne_def)
next
  case False
  define M where "M = (of_int m :: rat)"
  define a where "a = M / 1000000"
  define e where "e = (2 powi (-53) :: rat)"
  have e: "0 < e" "e = 1 / 9007199254740992" by (simp_all add: e_def power_int_minus)
  have mM: "\<bar>M\<bar> \<le> 2251799813685247" "1 \<le> \<bar>M\<bar>"
  proof -
    have "\<bar>m\<bar> \<le> 2251799813685247" "1 \<le> \<bar>m\<bar>" using assms False by auto
    then show "\<bar>M\<bar> \<le> 2251799813685247" "1 \<le> \<bar>M\<bar>"
      unfolding M_def by (metis of_int_abs of_int_le_iff of_int_numeral, metis of_int_abs of_int_le_iff of_int_1)
  qed
  have tiny: "(2 powi (-1022) :: rat) \<le> 2 powi (-30)"
    by (rule power_int_increasing) simp_all
  have tiny': "(2 powi (-30) :: rat) = 1 / 1073741824" by (simp add: power_int_minus)
  have abs_a: "\<bar>a\<bar> = \<bar>M\<bar> / 1000000" by (simp add: a_def)
  define r where "r = round_rat a"
  have "2 powi (-1022) \<le> \<bar>a\<bar>" using tiny tiny' mM(2) abs_a by simp
  then have r: "\<bar>r - a\<bar> \<le> \<bar>a\<bar> * e" unfolding r_def e_def by (rule round_rat_err)
  define x where "x = r * 1000000"
  have xM: "\<bar>x - M\<bar> \<le> \<bar>M\<bar> * e"
  proof -
    have "x - M = (r - a) * 1000000" by (simp add: x_def a_def field_simps)
    then have "\<bar>x - M\<bar> = \<bar>r - a\<bar> * 1000000" by (simp only: abs_mult abs_numeral)
    also have "\<dots> \<le> \<bar>a\<bar> * e * 1000000" using r by simp
    finally show ?thesis by (simp add: abs_a)
  qed
  have small: "\<bar>M\<bar> * e \<le> 1 / 2" using mM(1) unfolding e(2) by simp
  have absx: "\<bar>x\<bar> \<le> \<bar>M\<bar> + \<bar>M\<bar> * e" "1 / 2 \<le> \<bar>x\<bar>" using xM mM(2) small by linarith+
  define s where "s = round_rat x"
  have "2 powi (-1022) \<le> \<bar>x\<bar>" using tiny tiny' absx(2) by linarith
  then have s: "\<bar>s - x\<bar> \<le> \<bar>x\<bar> * e" unfolding s_def e_def by (rule round_rat_err)
  have "\<bar>x\<bar> * e \<le> (\<bar>M\<bar> + \<bar>M\<bar> * e) * e" using absx(1) e(1) by (intro mult_right_mono) simp_all
  then have "\<bar>s - M\<bar> \<le> \<bar>M\<bar> * e + (\<bar>M\<bar> + \<bar>M\<bar> * e) * e" using s xM by linarith
  also have "\<dots> = \<bar>M\<bar> * (e + (1 + e) * e)" by (simp add: algebra_simps)
  also have "\<dots> \<le> 2251799813685247 * (e + (1 + e) * e)"
    using mM(1) e(1) by (intro mult_right_mono) simp_all
  also have "\<dots> < 1 / 2" by (simp add: e(2))
  finally have near: "\<bar>s - M\<bar> < 1 / 2" .
  then have rne: "rne s = m" by (intro rne_unique) (simp add: M_def abs_minus_commute)
  have absr: "\<bar>r\<bar> < 2 ^ 1024" and abss: "\<bar>s\<bar> < 2 ^ 1024"
  proof -
    have big: "(9007199254740992 :: rat) < 2 ^ 1024" by simp
    have "\<bar>r\<bar> * 1000000 = \<bar>x\<bar>" by (simp add: x_def abs_mult)
    then have "\<bar>r\<bar> \<le> \<bar>x\<bar>" by simp
    then show "\<bar>r\<bar> < 2 ^ 1024" using absx(1) small mM(1) big by linarith
    show "\<bar>s\<bar> < 2 ^ 1024" using near mM(1) big by linarith
  qed
  have "\<bar>m\<bar> \<le> 2 ^ 53" using assms by simp
  then have dollars: "MicroToDollars m = Fin r"
    using absr by (simp add: MicroToDollars_def MicroPerUSD_def f64_of_int_def fl_int M_def a_def r_def fl_of_round)
  then have "MicroToDollars m * MicroPerUSD = Fin s"
    using abss by (simp add: MicroPerUSD_def s_def x_def fl_of_round)
  then have "DollarsToMicro (MicroToDollars m) = m"
    using rne assms by (auto simp: DollarsToMicro_Fin clamp64_def)
  moreover have "0 \<le> m \<Longrightarrow> 0 \<le> r" unfolding r_def a_def M_def by (intro round_rat_nonneg) simp
  ultimately show ?thesis using dollars by blast
qed

text \<open>C29. Micro-dollars survive the trip to float dollars and back: below $2.25 billion the two
  roundings of the division and of the multiplication never add up to half a micro-dollar.\<close>

theorem DollarsToMicro_MicroToDollars:
  assumes "\<bar>m\<bar> < 2 ^ 51"
  shows "DollarsToMicro (MicroToDollars m) = m"
  using micro_dollars [OF assms] by blast

theorem DollarsToMicro_MicroToDollars_witness:
  "DollarsToMicro (MicroToDollars 1999999999999999) = 1999999999999999"
  by (rule DollarsToMicro_MicroToDollars) simp

text \<open>A ledger of clamped costs cannot overflow its \<^verbatim>\<open>int64\<close> sum before it holds more than 922
  million rows, and a write is accepted by the validation exactly when the clamp would leave it as
  it is, unmarked.\<close>

theorem clamped_costs_sum:
  assumes "length costs \<le> 922337203"
  shows "sum_list (map (fst \<circ> clampTokenEventCost) costs) \<le> max_int64 \<and>
    (ValidateTokenEventCost cost = Inr () \<longleftrightarrow> clampTokenEventCost cost = (cost, None))"
proof -
  have "sum_list (map (fst \<circ> clampTokenEventCost) cs) \<le> int (length cs) * MaxTokenEventCostMicro" for cs
    by (induction cs) (auto simp: clampTokenEventCost_def algebra_simps)
  then have "sum_list (map (fst \<circ> clampTokenEventCost) costs) \<le> int (length costs) * MaxTokenEventCostMicro" .
  also have "\<dots> \<le> 922337203 * MaxTokenEventCostMicro"
    using assms by (simp add: MaxTokenEventCostMicro_def)
  also have "\<dots> \<le> max_int64" by (simp add: MaxTokenEventCostMicro_def max_int64_def)
  finally show ?thesis by (simp add: ValidateTokenEventCost_def clampTokenEventCost_def)
qed

theorem clamped_costs_sum_witness:
  "sum_list (map (fst \<circ> clampTokenEventCost) [99999999999, -5, 10000000001]) \<le> max_int64 \<and>
   ValidateTokenEventCost 10000000001 \<noteq> Inr ()"
  using clamped_costs_sum [of "[99999999999, -5, 10000000001]" 10000000001]
  by (simp add: clampTokenEventCost_def MaxTokenEventCostMicro_def)

end
