(* ===== verification/Pricing.thy ===== *)
theory Pricing
  imports Money
begin

text \<open>
  The reference price table of \<^verbatim>\<open>internal/store/prices.go\<close>: the validation of a decoded table, the
  normalization of model and host names, and \<open>ComputeCostHost\<close>, which prices one call in micro-dollars
  with the binary64 arithmetic of the code. The active table is an argument; the YAML decoding before
  the validation and the logging are not modelled. Model names are ASCII: on them \<^verbatim>\<open>strings.ToLower\<close> is
  the ASCII lower case.
\<close>

section \<open>The table\<close>

record model_price =
  inputPerM :: f64
  outputPerM :: f64
  combined :: bool
  provider :: string
  cacheReadMult :: f64
  cacheWrite5mMult :: f64
  cacheWrite1hMult :: f64
  contextThreshold :: int
  inputPerMOver :: f64
  outputPerMOver :: f64
  billingMode :: string

record price_entry =
  e_InputPerM :: f64
  e_OutputPerM :: f64
  e_Combined :: bool
  e_Provider :: string
  e_CacheReadMult :: f64
  e_CacheWrite5mMult :: f64
  e_CacheWrite1hMult :: f64
  e_ContextThreshold :: int
  e_InputPerMOver :: f64
  e_OutputPerMOver :: f64
  e_BillingMode :: string

definition BillingPerToken :: string where "BillingPerToken = ''per_token''"
definition BillingSubscription :: string where "BillingSubscription = ''subscription''"
definition BillingSelfHostedAmortized :: string where
  "BillingSelfHostedAmortized = ''self_hosted_amortized''"
definition providerSelfHosted :: string where "providerSelfHosted = ''self-hosted''"
definition HostUnknown :: string where "HostUnknown = ''unknown''"
definition MaxCostUSD :: f64 where "MaxCostUSD = Fin 1000000000000"

definition validProviders :: "string list" where
  "validProviders = [''anthropic'', ''openai'', ''google'', ''xai'', ''deepseek'', ''zai'', ''meta'', ''self-hosted'']"

definition validBillingModes :: "string list" where
  "validBillingModes = [BillingPerToken, BillingSubscription, BillingSelfHostedAmortized]"

definition requiredSelfHostedKeys :: "string list" where
  "requiredSelfHostedKeys = [''self-hosted-large'', ''self-hosted-medium'', ''self-hosted-small'']"

definition usableRate :: "f64 \<Rightarrow> bool" where "usableRate f \<longleftrightarrow> Fin 0 < f \<and> f \<le> MaxCostUSD"
definition usableMult :: "f64 \<Rightarrow> bool" where "usableMult f \<longleftrightarrow> Fin 0 \<le> f \<and> f \<le> MaxCostUSD"

definition providerDefaultMults :: "string \<Rightarrow> f64 \<times> f64 \<times> f64" where
  "providerDefaultMults p =
     (if p = ''anthropic'' then (fl (1 / 10), Fin (5 / 4), Fin 2)
      else if p = ''openai'' then (Fin (1 / 2), Fin 1, Fin 1)
      else (Fin 1, Fin 1, Fin 1))"

datatype price_error =
    BadVersion int
  | BadEffectiveDate string
  | NoModels
  | BadProvider string string
  | BadRate string string
  | BadOverTier string string
  | BadMultiplier string string
  | BadBillingMode string string
  | MissingFallback string

text \<open>The body of the loop of \<^verbatim>\<open>parsePriceTable\<close> over the models.\<close>

definition parse_entry :: "string \<Rightarrow> price_entry \<Rightarrow> (price_error, model_price) res" where
  "parse_entry name e =
     (if e_Provider e \<notin> set validProviders then Inl (BadProvider name (e_Provider e))
      else if \<not> usableRate (e_InputPerM e) then Inl (BadRate name ''input_per_m'')
      else if \<not> e_Combined e \<and> \<not> usableRate (e_OutputPerM e) then Inl (BadRate name ''output_per_m'')
      else
        (let over = e_ContextThreshold e \<noteq> 0 \<or> e_InputPerMOver e \<noteq> Fin 0 \<or> e_OutputPerMOver e \<noteq> Fin 0
         in if over \<and> e_Combined e then Inl (BadOverTier name ''combined'')
            else if over \<and> e_ContextThreshold e \<le> 0 then Inl (BadOverTier name ''context_threshold'')
            else if over \<and> \<not> usableRate (e_InputPerMOver e) then Inl (BadOverTier name ''input_per_m_over'')
            else if over \<and> \<not> usableRate (e_OutputPerMOver e) then Inl (BadOverTier name ''output_per_m_over'')
            else if \<not> usableMult (e_CacheReadMult e) then Inl (BadMultiplier name ''cache_read_mult'')
            else if \<not> usableMult (e_CacheWrite5mMult e) then Inl (BadMultiplier name ''cache_write_5m_mult'')
            else if \<not> usableMult (e_CacheWrite1hMult e) then Inl (BadMultiplier name ''cache_write_1h_mult'')
            else if e_Combined e \<and> (e_CacheReadMult e \<noteq> Fin 0 \<or> e_CacheWrite5mMult e \<noteq> Fin 0 \<or>
              e_CacheWrite1hMult e \<noteq> Fin 0) then Inl (BadMultiplier name ''combined'')
            else
              (let (r, w5, w1) = providerDefaultMults (e_Provider e);
                   mode = (if e_BillingMode e = [] then
                       (if e_Provider e = providerSelfHosted then BillingSelfHostedAmortized else BillingPerToken)
                     else e_BillingMode e)
               in if e_BillingMode e \<noteq> [] \<and> mode \<notin> set validBillingModes
                  then Inl (BadBillingMode name mode)
                  else Inr \<lparr>inputPerM = e_InputPerM e, outputPerM = e_OutputPerM e, combined = e_Combined e,
                    provider = e_Provider e,
                    cacheReadMult = (if e_CacheReadMult e \<noteq> Fin 0 then e_CacheReadMult e else r),
                    cacheWrite5mMult = (if e_CacheWrite5mMult e \<noteq> Fin 0 then e_CacheWrite5mMult e else w5),
                    cacheWrite1hMult = (if e_CacheWrite1hMult e \<noteq> Fin 0 then e_CacheWrite1hMult e else w1),
                    contextThreshold = e_ContextThreshold e, inputPerMOver = e_InputPerMOver e,
                    outputPerMOver = e_OutputPerMOver e, billingMode = mode\<rparr>)))"

fun parse_entries :: "(string \<times> price_entry) list \<Rightarrow> (price_error, (string \<times> model_price) list) res" where
  "parse_entries [] = Inr []"
| "parse_entries ((name, e) # es) =
     bind_res (parse_entry name e) (\<lambda>p. bind_res (parse_entries es) (\<lambda>tbl. Inr ((name, p) # tbl)))"

text \<open>\<^verbatim>\<open>yyyymmddRE\<close>.\<close>

definition yyyymmdd :: "string \<Rightarrow> bool" where
  "yyyymmdd s \<longleftrightarrow> length s = 10 \<and> s ! 4 = CHR ''-'' \<and> s ! 7 = CHR ''-'' \<and>
     list_all is_digit (take 4 s @ take 2 (drop 5 s) @ drop 8 s)"

record price_doc =
  pd_Version :: int
  pd_EffectiveDate :: string
  pd_Models :: "(string \<times> price_entry) list"

definition parsePriceTable ::
  "((string \<times> price_entry) list \<Rightarrow> (string \<times> price_entry) list) \<Rightarrow> price_doc
    \<Rightarrow> (price_error, (string \<times> model_price) list) res" where
  "parsePriceTable order doc =
     (if pd_Version doc < 1 then Inl (BadVersion (pd_Version doc))
      else if \<not> yyyymmdd (TrimSpace (pd_EffectiveDate doc)) then Inl (BadEffectiveDate (pd_EffectiveDate doc))
      else if pd_Models doc = [] then Inl NoModels
      else bind_res (parse_entries (order (pd_Models doc))) (\<lambda>tbl.
        case find (\<lambda>k. map_of tbl k = None) requiredSelfHostedKeys of
          Some k \<Rightarrow> Inl (MissingFallback k)
        | None \<Rightarrow> Inr tbl))"

section \<open>Names\<close>

definition providerModelPrefixes :: "string list" where "providerModelPrefixes = [''zai-coding-plan/'']"

definition trim_prefix :: "string \<Rightarrow> string \<Rightarrow> string" where
  "trim_prefix p s = (if has_prefix p s then drop (length p) s else s)"

text \<open>The alternatives of \<^verbatim>\<open>dateVersionRE\<close>, all anchored at the end of the text.\<close>

definition date_version :: "string \<Rightarrow> bool" where
  "date_version s \<longleftrightarrow>
     (\<exists>n\<in>{8, 6, 4}. length s = Suc n \<and> hd s = CHR ''-'' \<and> list_all is_digit (tl s)) \<or>
     has_prefix ''-preview'' s \<and> list_all is_digit (drop 8 s) \<or> s = ''-latest''"

fun strip_date_version :: "string \<Rightarrow> string" where
  "strip_date_version [] = []"
| "strip_date_version (c # s) = (if date_version (c # s) then [] else c # strip_date_version s)"

definition NormalizeModel :: "string \<Rightarrow> string" where
  "NormalizeModel raw =
     (let m = map ascii_lower (TrimSpace raw);
          m = foldl (\<lambda>m p. trim_prefix p m) m providerModelPrefixes;
          m = strip_date_version m;
          parts = split_on (CHR ''-'') m
      in if 3 \<le> length parts \<and> length (last parts) \<in> {2, 4} \<and>
           yyyymmdd (join_with (CHR ''-'') (drop (length parts - 3) parts))
         then join_with (CHR ''-'') (take (length parts - 3) parts) else m)"

definition normalizeHost :: "string \<Rightarrow> string" where
  "normalizeHost raw = (let h = map ascii_lower (TrimSpace raw) in if h = [] then HostUnknown else h)"

definition hostQualifiedKey :: "string \<Rightarrow> string \<Rightarrow> string" where
  "hostQualifiedKey normModel normHost = normModel @ ''@'' @ normHost"

text \<open>\<^verbatim>\<open>paramCountRE\<close>: digits, an optional fraction, a \<^verbatim>\<open>b\<close> and no letter or digit after it; the digits
  stand at the start or after a character that is none. The number is unique for a start, so the
  leftmost match is the first start that has one.\<close>

definition param_count_here :: "string \<Rightarrow> (nat \<times> string) option" where
  "param_count_here s =
     (let whole = takeWhile is_digit s; r = dropWhile is_digit s;
          (fr, r) = (case r of
              c # r' \<Rightarrow> if c = CHR ''.'' \<and> takeWhile is_digit r' \<noteq> []
                then (takeWhile is_digit r', dropWhile is_digit r') else ([], r)
            | [] \<Rightarrow> ([], r))
      in if whole = [] then None
         else (case r of
             c # r' \<Rightarrow> if ascii_lower c = CHR ''b'' \<and>
                 (r' = [] \<or> \<not> (is_digit (hd r') \<or> is_lower (ascii_lower (hd r'))))
               then Some (digits_val whole, fr) else None
           | [] \<Rightarrow> None))"

fun param_count_from :: "bool \<Rightarrow> string \<Rightarrow> (nat \<times> string) option" where
  "param_count_from start [] = None"
| "param_count_from start (c # s) =
     (case (if start then param_count_here (c # s) else None) of
        Some n \<Rightarrow> Some n
      | None \<Rightarrow> param_count_from (\<not> is_digit c) s)"

text \<open>\<^verbatim>\<open>ParseFloat\<close> of the captured number, correctly rounded; out of range is an error.\<close>

definition param_count :: "string \<Rightarrow> f64 option" where
  "param_count s =
     (case param_count_from True s of
        None \<Rightarrow> None
      | Some (w, fr) \<Rightarrow>
          (let f = fl (of_nat w + of_nat (digits_val fr) / 10 ^ length fr) in if is_inf f then None else Some f))"

definition selfHostedClass :: "string \<Rightarrow> string" where
  "selfHostedClass model =
     (let model = map ascii_lower model
      in if contains ''nemotron-ultra'' model \<or> contains ''deepseek-r1-full'' model then ''self-hosted-large''
         else if contains ''phi-4-mini'' model \<or> contains ''embeddings'' model \<or> contains ''reranker'' model
         then ''self-hosted-small''
         else (case param_count model of
             None \<Rightarrow> []
           | Some n \<Rightarrow> if Fin 70 \<le> n then ''self-hosted-large'' else if Fin 7 \<le> n then ''self-hosted-medium''
               else ''self-hosted-small''))"

section \<open>Pricing a call\<close>

record cost_usage =
  cu_Input :: int
  cu_Output :: int
  cu_CacheRead :: int
  cu_CacheWrite5m :: int
  cu_CacheWrite1h :: int

definition perM :: f64 where "perM = Fin 1000000"

definition priceCallDollarsV1 :: "model_price \<Rightarrow> cost_usage \<Rightarrow> f64" where
  "priceCallDollarsV1 p u =
     (let i = f64_of_int (cu_Input u); q = f64_of_int (cu_Output u); r = f64_of_int (cu_CacheRead u);
          w5 = f64_of_int (cu_CacheWrite5m u); w1 = f64_of_int (cu_CacheWrite1h u)
      in if combined p then (i + q + r + w5 + w1) / perM * inputPerM p
         else
           (let over = 0 < contextThreshold p \<and> f64_of_int (contextThreshold p) < i + r + w5 + w1;
                inputRate = (if over then inputPerMOver p else inputPerM p);
                outputRate = (if over then outputPerMOver p else outputPerM p)
            in i / perM * inputRate + r / perM * inputRate * cacheReadMult p +
               w5 / perM * inputRate * cacheWrite5mMult p + w1 / perM * inputRate * cacheWrite1hMult p +
               q / perM * outputRate))"

definition priceCall :: "model_price \<Rightarrow> cost_usage \<Rightarrow> int" where
  "priceCall p u = DollarsToMicro (priceCallDollarsV1 p u)"

text \<open>The path of a guess, for the counters; \<open>None\<close> when the rate is an audited table entry.\<close>

datatype guess_path = GuessSizeClass | GuessFlat

type_synonym price_table = "(string \<times> model_price) list"

text \<open>An absent key reads as the zero entry.\<close>

definition zero_price :: model_price where
  "zero_price = \<lparr>inputPerM = Fin 0, outputPerM = Fin 0, combined = False, provider = [], cacheReadMult = Fin 0,
     cacheWrite5mMult = Fin 0, cacheWrite1hMult = Fin 0, contextThreshold = 0, inputPerMOver = Fin 0,
     outputPerMOver = Fin 0, billingMode = []\<rparr>"

definition table_get :: "price_table \<Rightarrow> string \<Rightarrow> model_price" where
  "table_get tbl k = (case map_of tbl k of Some p \<Rightarrow> p | None \<Rightarrow> zero_price)"

definition ComputeCostHost ::
  "price_table \<Rightarrow> string \<Rightarrow> string \<Rightarrow> cost_usage \<Rightarrow> (int \<times> string) \<times> guess_path option" where
  "ComputeCostHost tbl host model u =
     (let norm = NormalizeModel model; nh = normalizeHost host
      in case (if nh \<noteq> HostUnknown then map_of tbl (hostQualifiedKey norm nh) else None) of
           Some p \<Rightarrow> ((priceCall p u, billingMode p), None)
         | None \<Rightarrow>
             (case (if CHR ''@'' \<notin> set norm then map_of tbl norm else None) of
                Some p \<Rightarrow> ((priceCall p u, billingMode p), None)
              | None \<Rightarrow>
                  (let cls = selfHostedClass norm
                   in if cls \<noteq> [] then
                        (let p = table_get tbl cls in ((priceCall p u, billingMode p), Some GuessSizeClass))
                      else
                        (let p = table_get tbl ''self-hosted-medium''
                         in ((priceCall p u, billingMode p), Some GuessFlat)))))"

definition ComputeCost :: "price_table \<Rightarrow> string \<Rightarrow> cost_usage \<Rightarrow> int" where
  "ComputeCost tbl model u = fst (fst (ComputeCostHost tbl [] model u))"

definition premiumLookup :: "price_table \<Rightarrow> string \<Rightarrow> string \<Rightarrow> model_price option" where
  "premiumLookup tbl host model =
     (let norm = NormalizeModel model; nh = normalizeHost host
      in case (if nh \<noteq> HostUnknown then map_of tbl (hostQualifiedKey norm nh) else None) of
           Some p \<Rightarrow> Some p
         | None \<Rightarrow> (if CHR ''@'' \<in> set norm then None else map_of tbl norm))"

definition modelIsExactHost :: "price_table \<Rightarrow> string \<Rightarrow> string \<Rightarrow> bool" where
  "modelIsExactHost tbl host model \<longleftrightarrow> premiumLookup tbl host model \<noteq> None"

definition PremiumInputRateThresholdPerM :: f64 where "PremiumInputRateThresholdPerM = Fin 4"

definition IsPremiumModel :: "price_table \<Rightarrow> string \<Rightarrow> string \<Rightarrow> bool" where
  "IsPremiumModel tbl host model =
     (case premiumLookup tbl host model of
        None \<Rightarrow> False
      | Some p \<Rightarrow> PremiumInputRateThresholdPerM \<le> inputPerM p)"

definition ProviderOf :: "price_table \<Rightarrow> string \<Rightarrow> string" where
  "ProviderOf tbl nm = (case map_of tbl nm of Some p \<Rightarrow> provider p | None \<Rightarrow> [])"

section \<open>Order of the float arithmetic\<close>

lemma f64_nonneg_cases: "Fin 0 \<le> a \<Longrightarrow> (\<exists>v\<ge>0. a = Fin v) \<or> a = PInf"
  by (cases a) (auto simp: less_eq_f64_def)

lemma usable_cases: "usableRate c \<Longrightarrow> \<exists>v>0. c = Fin v"
  by (cases c) (auto simp: usableRate_def MaxCostUSD_def less_eq_f64_def less_f64_def)

lemma f64_le_simps [simp]:
  "(Fin x \<le> Fin y) = (x \<le> y)" "a \<noteq> NaN \<Longrightarrow> a \<le> PInf" "(PInf \<le> a) = (a = PInf)"
  by (simp_all add: less_eq_f64_def) (cases a; simp)+

text \<open>The non-negative values: a finite one or \<open>PInf\<close>.\<close>

lemma nonneg_le_trans: "Fin 0 \<le> a \<Longrightarrow> a \<le> b \<Longrightarrow> Fin 0 \<le> b"
  by (cases a; cases b) (auto simp: less_eq_f64_def)

lemma fl_le_PInf [simp]: "fl x \<le> PInf"
  by simp

lemma plus_PInf: "Fin 0 \<le> a \<Longrightarrow> a + PInf = PInf" "Fin 0 \<le> a \<Longrightarrow> PInf + a = PInf"
  by (cases a; simp add: f64_defs less_eq_f64_def)+

lemma fadd_nonneg: "Fin 0 \<le> a \<Longrightarrow> Fin 0 \<le> c \<Longrightarrow> Fin 0 \<le> a + c"
  using f64_nonneg_cases [of a] f64_nonneg_cases [of c] by (auto simp: plus_PInf fl_nonneg)

lemma not_NaN_nonneg: "Fin 0 \<le> a \<Longrightarrow> a \<noteq> NaN"
  by (auto simp: less_eq_f64_def)

lemma fadd_mono:
  assumes "Fin 0 \<le> a" "Fin 0 \<le> c" "a \<le> b" "c \<le> d"
  shows "a + c \<le> b + d"
proof -
  have b: "Fin 0 \<le> b" and d: "Fin 0 \<le> d" using assms nonneg_le_trans by blast+
  consider "b = PInf" | "d = PInf" | x y where "b = Fin x" "d = Fin y"
    using f64_nonneg_cases [OF b] f64_nonneg_cases [OF d] by auto
  then show ?thesis
  proof cases
    case 3
    then obtain v w where "a = Fin v" "c = Fin w"
      using assms f64_nonneg_cases [of a] f64_nonneg_cases [of c] by (auto simp: less_eq_f64_def)
    with 3 assms show ?thesis by (simp add: fl_mono)
  qed (use b d not_NaN_nonneg [OF fadd_nonneg [OF assms(1,2)]] in \<open>simp_all add: plus_PInf\<close>)
qed

lemma times_PInf: "usableRate c \<Longrightarrow> PInf * c = PInf"
  using usable_cases [of c] by (auto simp: f64_defs signed_inf_def)

lemma fmul_nonneg: "Fin 0 \<le> a \<Longrightarrow> usableRate c \<Longrightarrow> Fin 0 \<le> a * c"
  using f64_nonneg_cases [of a] usable_cases [of c] by (auto simp: times_PInf fl_nonneg)

lemma fmul_mono:
  assumes "Fin 0 \<le> a" "a \<le> b" "usableRate c" "usableRate d" "c \<le> d"
  shows "a * c \<le> b * d"
proof -
  have b: "Fin 0 \<le> b" using assms nonneg_le_trans by blast
  obtain x y where c: "c = Fin x" "0 < x" and d: "d = Fin y" "0 < y"
    using usable_cases assms(3,4) by blast
  show ?thesis
  proof (cases "b = PInf")
    case True
    then show ?thesis
      using not_NaN_nonneg [OF fmul_nonneg [OF assms(1,3)]] by (simp add: times_PInf [OF assms(4)])
  next
    case False
    then obtain w where w: "b = Fin w" using f64_nonneg_cases [OF b] by auto
    then obtain v where v: "a = Fin v" "0 \<le> v"
      using assms(1,2) f64_nonneg_cases [of a] by (auto simp: less_eq_f64_def)
    have "v * x \<le> w * y"
      using assms(2,5) v w c d by (intro mult_mono) (auto simp: less_eq_f64_def)
    then show ?thesis using v w c d by (simp add: fl_mono)
  qed
qed

lemma perM_div [simp]: "Fin v / perM = fl (v / 1000000)" "PInf / perM = PInf"
  by (simp_all add: perM_def divide_f64_def signed_inf_def)

lemma fdiv_perM_nonneg: "Fin 0 \<le> a \<Longrightarrow> Fin 0 \<le> a / perM"
  using f64_nonneg_cases [of a] by (auto simp: fl_nonneg)

lemma fdiv_perM_mono: "Fin 0 \<le> a \<Longrightarrow> a \<le> b \<Longrightarrow> a / perM \<le> b / perM"
  using f64_nonneg_cases [of a] f64_nonneg_cases [OF nonneg_le_trans [of a b]] by (auto simp: fl_mono)

lemma f64_of_int_mono: "m \<le> n \<Longrightarrow> f64_of_int m \<le> f64_of_int n"
  by (simp add: f64_of_int_def fl_mono)

lemma f64_of_int_nonneg: "0 \<le> n \<Longrightarrow> Fin 0 \<le> f64_of_int n"
  by (simp add: f64_of_int_def fl_nonneg)

section \<open>What a validated table guarantees\<close>

text \<open>An entry whose rates are money-shaped, multipliers and over-tier included.\<close>

definition valid_price :: "model_price \<Rightarrow> bool" where
  "valid_price p \<longleftrightarrow> usableRate (inputPerM p) \<and> (\<not> combined p \<longrightarrow> usableRate (outputPerM p)) \<and>
     usableRate (cacheReadMult p) \<and> usableRate (cacheWrite5mMult p) \<and> usableRate (cacheWrite1hMult p) \<and>
     (contextThreshold p \<noteq> 0 \<longrightarrow> 0 < contextThreshold p \<and> \<not> combined p \<and> usableRate (inputPerMOver p) \<and>
        usableRate (outputPerMOver p)) \<and>
     billingMode p \<in> set validBillingModes"

lemma default_mults:
  "providerDefaultMults q = (r, w5, w1) \<Longrightarrow> usableRate r \<and> usableRate w5 \<and> usableRate w1"
proof -
  have "usableRate (fl (1 / 10))" "usableRate (Fin (5 / 4))" "usableRate (Fin 2)" "usableRate (Fin (1 / 2))"
    "usableRate (Fin 1)"
    by code_simp+
  then show "providerDefaultMults q = (r, w5, w1) \<Longrightarrow> usableRate r \<and> usableRate w5 \<and> usableRate w1"
    by (auto simp: providerDefaultMults_def split: if_splits)
qed

lemma usableMult_rate: "usableMult f \<Longrightarrow> f \<noteq> Fin 0 \<Longrightarrow> usableRate f"
  by (cases f) (auto simp: usableMult_def usableRate_def less_f64_def less_eq_f64_def)

lemma if_Inl: "((if c then Inl e else x) = Inr p) = (\<not> c \<and> x = Inr p)"
  by auto

lemma parse_entry_valid:
  assumes "parse_entry name e = Inr p"
  shows "valid_price p"
proof -
  obtain r w5 w1 where d: "providerDefaultMults (e_Provider e) = (r, w5, w1)" by (metis prod.exhaust)
  note * = assms [unfolded parse_entry_def d Let_def prod.case if_Inl]
  then have p: "p = \<lparr>inputPerM = e_InputPerM e, outputPerM = e_OutputPerM e, combined = e_Combined e,
      provider = e_Provider e,
      cacheReadMult = (if e_CacheReadMult e \<noteq> Fin 0 then e_CacheReadMult e else r),
      cacheWrite5mMult = (if e_CacheWrite5mMult e \<noteq> Fin 0 then e_CacheWrite5mMult e else w5),
      cacheWrite1hMult = (if e_CacheWrite1hMult e \<noteq> Fin 0 then e_CacheWrite1hMult e else w1),
      contextThreshold = e_ContextThreshold e, inputPerMOver = e_InputPerMOver e,
      outputPerMOver = e_OutputPerMOver e,
      billingMode = (if e_BillingMode e = [] then
          (if e_Provider e = providerSelfHosted then BillingSelfHostedAmortized else BillingPerToken)
        else e_BillingMode e)\<rparr>" by simp
  have rates: "usableRate (e_InputPerM e)" "\<not> e_Combined e \<longrightarrow> usableRate (e_OutputPerM e)"
    "usableMult (e_CacheReadMult e)" "usableMult (e_CacheWrite5mMult e)" "usableMult (e_CacheWrite1hMult e)"
    "e_ContextThreshold e \<noteq> 0 \<longrightarrow> 0 < e_ContextThreshold e \<and> \<not> e_Combined e \<and>
       usableRate (e_InputPerMOver e) \<and> usableRate (e_OutputPerMOver e)"
    using * by linarith+
  have mode: "e_BillingMode e \<noteq> [] \<longrightarrow> e_BillingMode e \<in> set validBillingModes"
    using * by (metis (full_types))
  show ?thesis
    unfolding valid_price_def p
    using rates mode default_mults [OF d] by (simp add: usableMult_rate validBillingModes_def)
qed

lemma parse_entries_valid:
  "parse_entries es = Inr tbl \<Longrightarrow> map fst tbl = map fst es \<and> (\<forall>(k, p)\<in>set tbl. valid_price p)"
  by (induction es arbitrary: tbl rule: parse_entries.induct)
    (auto simp: bind_res_Inr_iff parse_entry_valid)

definition valid_table :: "price_table \<Rightarrow> bool" where
  "valid_table tbl \<longleftrightarrow> (\<forall>(k, p)\<in>set tbl. valid_price p) \<and>
     (\<forall>k\<in>set requiredSelfHostedKeys. map_of tbl k \<noteq> None)"

lemma parsePriceTable_valid: "parsePriceTable order doc = Inr tbl \<Longrightarrow> valid_table tbl"
  using parse_entries_valid [of "order (pd_Models doc)" tbl]
  by (auto simp: parsePriceTable_def bind_res_Inr_iff valid_table_def find_None_iff split: if_splits option.splits)

text \<open>The entry a call is priced with.\<close>

definition priced_entry :: "price_table \<Rightarrow> string \<Rightarrow> string \<Rightarrow> model_price" where
  "priced_entry tbl host model =
     (case premiumLookup tbl host model of
        Some p \<Rightarrow> p
      | None \<Rightarrow> table_get tbl (if selfHostedClass (NormalizeModel model) \<noteq> []
          then selfHostedClass (NormalizeModel model) else ''self-hosted-medium''))"

lemma ComputeCostHost_entry:
  "fst (ComputeCostHost tbl host model u) =
     (priceCall (priced_entry tbl host model) u, billingMode (priced_entry tbl host model))"
  "snd (ComputeCostHost tbl host model u) = None \<longleftrightarrow> premiumLookup tbl host model \<noteq> None"
  by (auto simp: ComputeCostHost_def priced_entry_def premiumLookup_def Let_def split: option.splits)

lemma selfHostedClass_required:
  "selfHostedClass m \<noteq> [] \<Longrightarrow> selfHostedClass m \<in> set requiredSelfHostedKeys"
  by (auto simp: selfHostedClass_def requiredSelfHostedKeys_def Let_def split: option.splits if_splits)

lemma table_get_valid: "valid_table tbl \<Longrightarrow> k \<in> set requiredSelfHostedKeys \<Longrightarrow> valid_price (table_get tbl k)"
  by (fastforce simp: valid_table_def table_get_def dest: map_of_SomeD split: option.splits)

lemma priced_entry_valid:
  assumes "valid_table tbl"
  shows "valid_price (priced_entry tbl host model)"
proof (cases "premiumLookup tbl host model")
  case (Some p)
  then have "\<exists>k. map_of tbl k = Some p"
    by (auto simp: premiumLookup_def Let_def split: option.splits if_splits)
  then have "valid_price p" using assms by (auto simp: valid_table_def dest!: map_of_SomeD)
  with Some show ?thesis by (simp add: priced_entry_def)
next
  case None
  have "''self-hosted-medium'' \<in> set requiredSelfHostedKeys" by (simp add: requiredSelfHostedKeys_def)
  with None show ?thesis
    using assms selfHostedClass_required table_get_valid by (simp add: priced_entry_def)
qed

text \<open>C22. Nothing is priced at zero by accident: with a table that passed the validation, every call on
  every host and model, the guessed ones included, is priced with an entry whose rates are positive,
  finite and below the magnitude bound, and carries one of the three billing modes.\<close>

theorem every_call_has_a_rate:
  assumes "parsePriceTable order doc = Inr tbl"
  shows "\<exists>p. valid_price p \<and> fst (ComputeCostHost tbl host model u) = (priceCall p u, billingMode p)"
  using priced_entry_valid [OF parsePriceTable_valid [OF assms]] ComputeCostHost_entry(1) by blast

definition ex_entry :: "rat \<Rightarrow> string \<Rightarrow> price_entry" where
  "ex_entry rate prov = \<lparr>e_InputPerM = Fin rate, e_OutputPerM = Fin rate, e_Combined = False, e_Provider = prov,
     e_CacheReadMult = Fin 0, e_CacheWrite5mMult = Fin 0, e_CacheWrite1hMult = Fin 0, e_ContextThreshold = 0,
     e_InputPerMOver = Fin 0, e_OutputPerMOver = Fin 0, e_BillingMode = []\<rparr>"

definition ex_doc :: price_doc where
  "ex_doc = \<lparr>pd_Version = 1, pd_EffectiveDate = ''2026-01-31'', pd_Models =
     [(''claude-x'', ex_entry 3 ''anthropic''), (''self-hosted-large'', ex_entry 2 ''self-hosted''),
      (''self-hosted-medium'', ex_entry 1 ''self-hosted''), (''self-hosted-small'', ex_entry 1 ''self-hosted''),
      (''llama@openrouter.ai'', ex_entry 1 ''meta'')]\<rparr>"

definition ex_price :: "rat \<Rightarrow> string \<Rightarrow> model_price" where
  "ex_price rate prov = \<lparr>inputPerM = Fin rate, outputPerM = Fin rate, combined = False, provider = prov,
     cacheReadMult = fst (providerDefaultMults prov), cacheWrite5mMult = fst (snd (providerDefaultMults prov)),
     cacheWrite1hMult = snd (snd (providerDefaultMults prov)), contextThreshold = 0, inputPerMOver = Fin 0,
     outputPerMOver = Fin 0,
     billingMode = (if prov = providerSelfHosted then BillingSelfHostedAmortized else BillingPerToken)\<rparr>"

definition ex_table :: price_table where
  "ex_table = [(''claude-x'', ex_price 3 ''anthropic''), (''self-hosted-large'', ex_price 2 ''self-hosted''),
     (''self-hosted-medium'', ex_price 1 ''self-hosted''), (''self-hosted-small'', ex_price 1 ''self-hosted''),
     (''llama@openrouter.ai'', ex_price 1 ''meta'')]"

lemma parse_ex_entry:
  "0 < r \<Longrightarrow> r \<le> 1000 \<Longrightarrow> q \<in> set validProviders \<Longrightarrow> parse_entry n (ex_entry r q) = Inr (ex_price r q)"
  by (simp add: parse_entry_def ex_entry_def ex_price_def usableRate_def usableMult_def MaxCostUSD_def
      less_f64_def less_eq_f64_def split: prod.split)

lemma ex_table: "parsePriceTable id ex_doc = Inr ex_table"
proof -
  have "yyyymmdd (TrimSpace ''2026-01-31'')" by code_simp
  then show ?thesis
    by (simp add: parsePriceTable_def ex_doc_def parse_ex_entry validProviders_def ex_table_def
        requiredSelfHostedKeys_def)
qed

definition ex_usage :: cost_usage where
  "ex_usage = \<lparr>cu_Input = 100, cu_Output = 5, cu_CacheRead = 0, cu_CacheWrite5m = 0, cu_CacheWrite1h = 0\<rparr>"

theorem every_call_has_a_rate_witness:
  "\<exists>p. valid_price p \<and> fst (ComputeCostHost ex_table ''h'' ''mystery'' ex_usage) = (priceCall p ex_usage, billingMode p)"
  by (rule every_call_has_a_rate [OF ex_table])

section \<open>Audited rates and forged names\<close>

text \<open>A rate is reported as audited exactly when the guess counters stay silent, an audited rate
  is the table's row for this host or for the bare model, and a guess is never premium.\<close>

theorem audited_iff_not_guessed:
  "(modelIsExactHost tbl host model \<longleftrightarrow> snd (ComputeCostHost tbl host model u) = None) \<and>
   (case snd (ComputeCostHost tbl host model u) of
      None \<Rightarrow> (normalizeHost host \<noteq> HostUnknown \<and>
          map_of tbl (hostQualifiedKey (NormalizeModel model) (normalizeHost host)) = Some (priced_entry tbl host model)) \<or>
        CHR ''@'' \<notin> set (NormalizeModel model) \<and> map_of tbl (NormalizeModel model) = Some (priced_entry tbl host model)
    | Some _ \<Rightarrow> \<not> IsPremiumModel tbl host model)"
  by (auto simp: modelIsExactHost_def ComputeCostHost_entry(2) ComputeCostHost_def premiumLookup_def
      priced_entry_def IsPremiumModel_def Let_def split: option.splits)

text \<open>An upstream cannot forge a host rate: a response that claims a model name with the host
  separator in it is always priced, and counted, as a guess, whatever the table holds, as long as the
  table's keys name at most one host.\<close>

theorem forged_host_is_guessed:
  assumes "\<And>k p. map_of tbl k = Some p \<Longrightarrow> count_list k (CHR ''@'') \<le> 1"
    and "CHR ''@'' \<in> set (NormalizeModel model)"
  shows "snd (ComputeCostHost tbl host model u) \<noteq> None"
proof -
  have "map_of tbl (hostQualifiedKey (NormalizeModel model) h) = None" for h
  proof (rule ccontr)
    assume "map_of tbl (hostQualifiedKey (NormalizeModel model) h) \<noteq> None"
    then have "count_list (hostQualifiedKey (NormalizeModel model) h) (CHR ''@'') \<le> 1" using assms(1) by blast
    moreover have "1 \<le> count_list (NormalizeModel model) (CHR ''@'')"
      using assms(2) count_list_0_iff [of "NormalizeModel model" "CHR ''@''"] by (simp add: Suc_le_eq)
    ultimately show False by (simp add: hostQualifiedKey_def)
  qed
  then show ?thesis
    using assms(2) by (simp add: ComputeCostHost_entry(2) premiumLookup_def Let_def split: option.split)
qed

theorem forged_host_is_guessed_witness:
  "snd (ComputeCostHost ex_table ''evil.example'' ''llama@openrouter.ai'' ex_usage) \<noteq> None"
proof (rule forged_host_is_guessed)
  have "list_all (\<lambda>(k, p). count_list k (CHR ''@'') \<le> 1) ex_table" by (simp add: ex_table_def)
  then show "count_list k (CHR ''@'') \<le> 1" if "map_of ex_table k = Some p" for k p
    using that by (auto simp: list_all_iff dest: map_of_SomeD)
  show "CHR ''@'' \<in> set (NormalizeModel ''llama@openrouter.ai'')" by code_simp
qed

section \<open>More tokens never cost less\<close>

definition usage_le :: "cost_usage \<Rightarrow> cost_usage \<Rightarrow> bool" where
  "usage_le u v \<longleftrightarrow> 0 \<le> cu_Input u \<and> 0 \<le> cu_Output u \<and> 0 \<le> cu_CacheRead u \<and> 0 \<le> cu_CacheWrite5m u \<and>
     0 \<le> cu_CacheWrite1h u \<and> cu_Input u \<le> cu_Input v \<and> cu_Output u \<le> cu_Output v \<and>
     cu_CacheRead u \<le> cu_CacheRead v \<and> cu_CacheWrite5m u \<le> cu_CacheWrite5m v \<and>
     cu_CacheWrite1h u \<le> cu_CacheWrite1h v"

lemmas f64_mono = fadd_mono fadd_nonneg fmul_mono fmul_nonneg fdiv_perM_mono fdiv_perM_nonneg
  f64_of_int_mono f64_of_int_nonneg

lemma f64_less_le_trans: "(a::f64) < b \<Longrightarrow> b \<le> c \<Longrightarrow> a < c"
  by (cases a; cases b; cases c) (auto simp: less_f64_def less_eq_f64_def)

lemma usable_refl: "usableRate c \<Longrightarrow> c \<le> c"
  using usable_cases by fastforce

lemma class_cost_mono:
  assumes "0 \<le> m" "m \<le> n" "usableRate a" "usableRate b" "a \<le> b" "usableRate c"
  shows "f64_of_int m / perM * a * c \<le> f64_of_int n / perM * b * c"
    and "Fin 0 \<le> f64_of_int m / perM * a * c"
    and "f64_of_int m / perM * a \<le> f64_of_int n / perM * b"
    and "Fin 0 \<le> f64_of_int m / perM * a"
  using assms by (auto intro!: f64_mono usable_refl)

lemma priceCallDollars_mono:
  assumes "valid_price p" and "usage_le u v"
    and "0 < contextThreshold p \<Longrightarrow> inputPerM p \<le> inputPerMOver p \<and> outputPerM p \<le> outputPerMOver p"
  shows "priceCallDollarsV1 p u \<le> priceCallDollarsV1 p v"
proof (cases "combined p")
  case True
  have "usableRate (inputPerM p)" using assms(1) by (simp add: valid_price_def)
  with True assms(2) show ?thesis
    by (auto simp: priceCallDollarsV1_def Let_def usage_le_def intro!: f64_mono usable_refl)
next
  case False
  let ?ctx = "\<lambda>u. f64_of_int (cu_Input u) + f64_of_int (cu_CacheRead u) + f64_of_int (cu_CacheWrite5m u) +
    f64_of_int (cu_CacheWrite1h u)"
  let ?over = "\<lambda>u. 0 < contextThreshold p \<and> f64_of_int (contextThreshold p) < ?ctx u"
  let ?in = "\<lambda>u. if ?over u then inputPerMOver p else inputPerM p"
  let ?out = "\<lambda>u. if ?over u then outputPerMOver p else outputPerM p"
  have ctx: "?ctx u \<le> ?ctx v" using assms(2) by (auto simp: usage_le_def intro!: f64_mono)
  have over: "?over u \<Longrightarrow> ?over v" using f64_less_le_trans ctx by blast
  have rates: "usableRate (inputPerM p)" "usableRate (outputPerM p)"
    "0 < contextThreshold p \<Longrightarrow> usableRate (inputPerMOver p) \<and> usableRate (outputPerMOver p)"
    and mults: "usableRate (cacheReadMult p)" "usableRate (cacheWrite5mMult p)" "usableRate (cacheWrite1hMult p)"
    using assms(1) False by (auto simp: valid_price_def)
  have r: "usableRate (?in u)" "usableRate (?in v)" "usableRate (?out u)" "usableRate (?out v)"
    "?in u \<le> ?in v" "?out u \<le> ?out v"
    using rates assms(3) over usable_refl by auto
  have price: "priceCallDollarsV1 p w =
      f64_of_int (cu_Input w) / perM * ?in w + f64_of_int (cu_CacheRead w) / perM * ?in w * cacheReadMult p +
      f64_of_int (cu_CacheWrite5m w) / perM * ?in w * cacheWrite5mMult p +
      f64_of_int (cu_CacheWrite1h w) / perM * ?in w * cacheWrite1hMult p +
      f64_of_int (cu_Output w) / perM * ?out w" for w
    using False by (simp add: priceCallDollarsV1_def Let_def)
  show ?thesis
    unfolding price using assms(2) r mults
    by (intro fadd_mono fadd_nonneg class_cost_mono) (auto simp: usage_le_def)
qed

text \<open>Pricing is monotone: with a validated entry whose long-context rates are not below its base
  rates, a call with at least as many tokens in every class never costs less, through every rounding of
  the float arithmetic, the change of tier and the saturation of the conversion to micro-dollars.\<close>

theorem priceCall_mono:
  assumes "valid_price p" and "usage_le u v"
    and "0 < contextThreshold p \<Longrightarrow> inputPerM p \<le> inputPerMOver p \<and> outputPerM p \<le> outputPerMOver p"
  shows "priceCall p u \<le> priceCall p v"
  unfolding priceCall_def using priceCallDollars_mono [OF assms] by (rule DollarsToMicro_le)

theorem priceCall_mono_witness:
  "priceCall (table_get ex_table ''claude-x'') \<lparr>cu_Input = 100, cu_Output = 5, cu_CacheRead = 0, cu_CacheWrite5m = 0, cu_CacheWrite1h = 0\<rparr>
    \<le> priceCall (table_get ex_table ''claude-x'') \<lparr>cu_Input = 200, cu_Output = 5, cu_CacheRead = 9, cu_CacheWrite5m = 0, cu_CacheWrite1h = 0\<rparr>"
proof (rule priceCall_mono)
  obtain p where p: "map_of ex_table ''claude-x'' = Some p" "contextThreshold p = 0"
    by (simp add: ex_table_def ex_price_def)
  then show "valid_price (table_get ex_table ''claude-x'')"
    using parsePriceTable_valid [OF ex_table] by (auto simp: table_get_def valid_table_def dest!: map_of_SomeD)
  show "0 < contextThreshold (table_get ex_table ''claude-x'') \<Longrightarrow>
      inputPerM (table_get ex_table ''claude-x'') \<le> inputPerMOver (table_get ex_table ''claude-x'') \<and>
      outputPerM (table_get ex_table ''claude-x'') \<le> outputPerMOver (table_get ex_table ''claude-x'')"
    using p by (simp add: table_get_def)
qed (simp add: usage_le_def)

end
