(* ===== verification/Token_Acct.thy ===== *)
theory Token_Acct
  imports Go_Prelude
begin

text \<open>
  The accounting of raw engine usage into disjoint billable counts: \<^verbatim>\<open>internal/tokenacct\<close>, the Codex
  rule and the Opencode rule. A nil count is \<open>None\<close>; the counts are \<^verbatim>\<open>int64\<close> values, their sums wrap, and
  the narrowing to Go's \<^verbatim>\<open>int\<close> is to the \<open>bits\<close> (32 or 64) of the platform.
\<close>

record raw_usage =
  ru_Input :: "int option"
  ru_Output :: "int option"
  ru_Reasoning :: "int option"
  ru_CacheRead :: "int option"
  ru_CacheWrite :: "int option"
  ru_Total :: "int option"

record usage =
  u_Input :: int
  u_CacheRead :: int
  u_CacheWrite :: int
  u_Output :: int

text \<open>The refusals, with the numbers their messages print.\<close>

datatype usage_error =
    ErrUnmeasured
  | Negative
  | OverCeiling int
  | TotalMismatch int int
  | CachedExceedsInput int int
  | ReasoningExceedsOutput int int
  | OverIntRange int

definition maxCumulativeTokens :: int where "maxCumulativeTokens = 1000000000000"
definition maxMessageTokens :: int where "maxMessageTokens = 2 ^ 29"

fun count_of :: "int option \<Rightarrow> int" where
  "count_of None = 0"
| "count_of (Some n) = n"

text \<open>\<^verbatim>\<open>int(x)\<close> of an \<^verbatim>\<open>int64\<close>, and the largest \<^verbatim>\<open>int\<close>.\<close>

definition narrow :: "nat \<Rightarrow> int \<Rightarrow> int" where
  "narrow bits n = (n + 2 ^ (bits - 1)) mod 2 ^ bits - 2 ^ (bits - 1)"

definition max_int :: "nat \<Rightarrow> int" where "max_int bits = 2 ^ (bits - 1) - 1"

definition Codex :: "nat \<Rightarrow> raw_usage \<Rightarrow> (usage_error, usage) res" where
  "Codex bits raw =
     (if ru_Input raw = None \<or> ru_Output raw = None then Inl ErrUnmeasured
      else
        (let input = count_of (ru_Input raw); cached = count_of (ru_CacheRead raw);
             outp = count_of (ru_Output raw); reasoning = count_of (ru_Reasoning raw);
             total = count_of (ru_Total raw); cacheWrite = count_of (ru_CacheWrite raw)
         in if input < 0 \<or> outp < 0 \<or> cached < 0 \<or> reasoning < 0 \<or> total < 0 \<or> cacheWrite < 0
            then Inl Negative
            else if maxCumulativeTokens < input \<or> maxCumulativeTokens < outp \<or>
              maxCumulativeTokens < cached \<or> maxCumulativeTokens < total
            then Inl (OverCeiling maxCumulativeTokens)
            else if total \<noteq> 0 \<and> total \<noteq> wrap64 (input + outp)
            then Inl (TotalMismatch total (wrap64 (input + outp)))
            else if input < cached then Inl (CachedExceedsInput cached input)
            else if outp < reasoning then Inl (ReasoningExceedsOutput reasoning outp)
            else if max_int bits < wrap64 (input - cached) \<or> max_int bits < cached \<or> max_int bits < outp
            then Inl (OverIntRange (max_int bits))
            else Inr \<lparr>u_Input = narrow bits (wrap64 (input - cached)), u_CacheRead = narrow bits cached,
              u_CacheWrite = 0, u_Output = narrow bits outp\<rparr>))"

definition Opencode :: "nat \<Rightarrow> raw_usage \<Rightarrow> (usage_error, usage) res" where
  "Opencode bits raw =
     (if ru_Input raw = None \<or> ru_Output raw = None \<or> (ru_Reasoning raw = None \<and> ru_Total raw = None)
      then Inl ErrUnmeasured
      else
        (let input = count_of (ru_Input raw); outp = count_of (ru_Output raw);
             reasoning = count_of (ru_Reasoning raw); cacheRead = count_of (ru_CacheRead raw);
             cacheWrite = count_of (ru_CacheWrite raw); total = count_of (ru_Total raw);
             got = wrap64 (wrap64 (wrap64 (wrap64 (input + outp) + reasoning) + cacheRead) + cacheWrite)
         in if input < 0 \<or> outp < 0 \<or> reasoning < 0 \<or> cacheRead < 0 \<or> cacheWrite < 0 \<or> total < 0
            then Inl Negative
            else if maxMessageTokens < input \<or> maxMessageTokens < outp \<or> maxMessageTokens < reasoning \<or>
              maxMessageTokens < cacheRead \<or> maxMessageTokens < cacheWrite \<or> maxMessageTokens < total
            then Inl (OverCeiling maxMessageTokens)
            else if ru_Total raw \<noteq> None \<and> total \<noteq> got then Inl (TotalMismatch total got)
            else Inr \<lparr>u_Input = narrow bits input, u_CacheRead = narrow bits cacheRead,
              u_CacheWrite = narrow bits cacheWrite, u_Output = narrow bits (wrap64 (outp + reasoning))\<rparr>))"

section \<open>No count is lost or invented\<close>

lemma narrow_id: "0 \<le> n \<Longrightarrow> n \<le> max_int bits \<Longrightarrow> 0 < bits \<Longrightarrow> narrow bits n = n"
proof -
  assume n: "0 \<le> n" "n \<le> max_int bits" "0 < bits"
  then have "(2 :: int) ^ bits = 2 * 2 ^ (bits - 1)" by (metis power_Suc Suc_diff_1)
  with n show ?thesis by (simp add: narrow_def max_int_def)
qed

lemma wrap64_small: "\<bar>n\<bar> \<le> 4000000000000 \<Longrightarrow> wrap64 n = n"
  by (rule wrap64_id) (auto simp: in_int64_def min_int64_def max_int64_def)

text \<open>What the code calls plausible Codex usage.\<close>

definition codex_plausible :: "raw_usage \<Rightarrow> bool" where
  "codex_plausible raw \<longleftrightarrow> ru_Input raw \<noteq> None \<and> ru_Output raw \<noteq> None \<and>
     0 \<le> count_of (ru_CacheRead raw) \<and> 0 \<le> count_of (ru_Reasoning raw) \<and> 0 \<le> count_of (ru_CacheWrite raw) \<and>
     count_of (ru_CacheRead raw) \<le> count_of (ru_Input raw) \<and>
     count_of (ru_Reasoning raw) \<le> count_of (ru_Output raw) \<and>
     count_of (ru_Input raw) \<le> maxCumulativeTokens \<and> count_of (ru_Output raw) \<le> maxCumulativeTokens \<and>
     (count_of (ru_Total raw) = 0 \<or>
      count_of (ru_Total raw) = count_of (ru_Input raw) + count_of (ru_Output raw) \<and>
      count_of (ru_Total raw) \<le> maxCumulativeTokens)"

text \<open>On a 64-bit platform the Codex rule accepts exactly the plausible usage, and then bills
  every input token once, as fresh input or as cache read, and every output token once; no sum it
  computes wraps. On a 32-bit platform it accepts the same usage or refuses it, never a truncated
  count.\<close>

theorem Codex_accounts:
  assumes "bits = 64 \<or> bits = 32"
  shows "(bits = 64 \<longrightarrow> ((\<exists>u. Codex bits raw = Inr u) \<longleftrightarrow> codex_plausible raw)) \<and>
    (\<forall>u. Codex bits raw = Inr u \<longrightarrow> codex_plausible raw \<and>
       u_Input u + u_CacheRead u = count_of (ru_Input raw) \<and> u_CacheRead u = count_of (ru_CacheRead raw) \<and>
       u_Output u = count_of (ru_Output raw) \<and> u_CacheWrite u = 0 \<and> 0 \<le> u_Input u)"
proof -
  have m: "max_int 64 = 9223372036854775807" by (simp add: max_int_def)
  have b: "0 < bits" using assms by auto
  obtain i h q r t w where c: "count_of (ru_Input raw) = i" "count_of (ru_CacheRead raw) = h"
    "count_of (ru_Output raw) = q" "count_of (ru_Reasoning raw) = r" "count_of (ru_Total raw) = t"
    "count_of (ru_CacheWrite raw) = w" by blast
  show ?thesis
    using b m narrow_id [of "i - h" bits] narrow_id [of h bits] narrow_id [of q bits]
      wrap64_small [of "i + q"] wrap64_small [of "i - h"]
    by (auto simp: Codex_def codex_plausible_def c Let_def maxCumulativeTokens_def)
qed

theorem Codex_accounts_witness:
  "\<exists>u. Codex 64 \<lparr>ru_Input = Some 1000, ru_Output = Some 100, ru_Reasoning = Some 40, ru_CacheRead = Some 400,
      ru_CacheWrite = None, ru_Total = Some 1100\<rparr> = Inr u \<and> u_Input u + u_CacheRead u = 1000"
proof -
  let ?raw = "\<lparr>ru_Input = Some 1000, ru_Output = Some 100, ru_Reasoning = Some 40, ru_CacheRead = Some 400,
      ru_CacheWrite = None, ru_Total = Some (1100::int)\<rparr>"
  have "codex_plausible ?raw" by (simp add: codex_plausible_def maxCumulativeTokens_def)
  then obtain u where "Codex 64 ?raw = Inr u" using Codex_accounts [of 64 ?raw] by auto
  then show ?thesis using Codex_accounts [of 64 ?raw] by auto
qed

text \<open>The Opencode rule loses nothing either: what it bills adds up to the raw counts with the
  reasoning beside the output, to the total whenever one is reported, and every billed count fits the
  \<^verbatim>\<open>int\<close> of every platform, so the acceptance does not depend on the platform.\<close>

theorem Opencode_accounts:
  assumes "bits = 64 \<or> bits = 32"
  shows "Opencode bits raw = Opencode 32 raw \<and>
    (\<forall>u. Opencode bits raw = Inr u \<longrightarrow>
       u_Input u = count_of (ru_Input raw) \<and> u_CacheRead u = count_of (ru_CacheRead raw) \<and>
       u_CacheWrite u = count_of (ru_CacheWrite raw) \<and>
       u_Output u = count_of (ru_Output raw) + count_of (ru_Reasoning raw) \<and>
       (\<forall>t. ru_Total raw = Some t \<longrightarrow> u_Input u + u_CacheRead u + u_CacheWrite u + u_Output u = t) \<and>
       0 \<le> u_Input u \<and> 0 \<le> u_CacheRead u \<and> 0 \<le> u_CacheWrite u \<and> 0 \<le> u_Output u \<and>
       u_Output u \<le> 2 ^ 30)"
proof -
  have m: "max_int 64 = 9223372036854775807" "max_int 32 = 2147483647" by (simp_all add: max_int_def)
  obtain i h q r t w where c: "count_of (ru_Input raw) = i" "count_of (ru_CacheRead raw) = h"
    "count_of (ru_Output raw) = q" "count_of (ru_Reasoning raw) = r" "count_of (ru_Total raw) = t"
    "count_of (ru_CacheWrite raw) = w" by blast
  have n: "narrow b x = x" if "0 \<le> x" "x \<le> 1073741824" "b = 64 \<or> b = 32" for b x
    using that m by (auto intro: narrow_id)
  have tot: "ru_Total raw = Some s \<Longrightarrow> s = t" for s using c(5) by auto
  show ?thesis
  proof (cases "0 \<le> i \<and> 0 \<le> q \<and> 0 \<le> r \<and> 0 \<le> h \<and> 0 \<le> w \<and> i \<le> maxMessageTokens \<and> q \<le> maxMessageTokens \<and>
      r \<le> maxMessageTokens \<and> h \<le> maxMessageTokens \<and> w \<le> maxMessageTokens")
    case True
    then have w: "wrap64 (i + q) = i + q" "wrap64 (i + q + r) = i + q + r" "wrap64 (i + q + r + h) = i + q + r + h"
      "wrap64 (i + q + r + h + w) = i + q + r + h + w" "wrap64 (q + r) = q + r"
      by (auto intro!: wrap64_small simp: maxMessageTokens_def)
    show ?thesis
      using True assms tot n [of _ bits] n [of _ 32]
      by (auto simp: Opencode_def c Let_def w maxMessageTokens_def)
  next
    case False
    then show ?thesis by (auto simp: Opencode_def c Let_def not_le not_less)
  qed
qed

theorem Opencode_accounts_witness:
  "\<exists>u. Opencode 32 \<lparr>ru_Input = Some 1000, ru_Output = Some 100, ru_Reasoning = Some 400, ru_CacheRead = None,
      ru_CacheWrite = Some 7, ru_Total = Some 1507\<rparr> = Inr u \<and> u_Output u = 500"
proof -
  let ?raw = "\<lparr>ru_Input = Some 1000, ru_Output = Some 100, ru_Reasoning = Some 400, ru_CacheRead = None,
      ru_CacheWrite = Some 7, ru_Total = Some (1507 :: int)\<rparr>"
  obtain u where u: "Opencode 32 ?raw = Inr u"
    by (simp add: Opencode_def maxMessageTokens_def in_int64_def min_int64_def max_int64_def)
  then have "u_Output u = 500" using Opencode_accounts [of 32 ?raw] by simp
  with u show ?thesis by blast
qed

end
