(* ===== verification/Health.thy ===== *)
theory Health
  imports Go_Prelude "HOL-Library.AList"
begin

text \<open>
  Liveness of the long-running subsystems, \<^verbatim>\<open>internal/health\<close>: the state of the watcher, the registry
  behind \<^verbatim>\<open>/healthz\<close>, and the supervisor that restarts a failing subsystem with backoff and gives up
  when too many failures fall in one window.

  The environment of the supervisor is a script: one \<open>attempt\<close> per iteration with the clock readings,
  what \<^verbatim>\<open>Run\<close> returned and when the context was cancelled. The state sink is the interface
  \<^verbatim>\<open>StateReporter\<close>, a record of functions whose contract is the locale \<open>state_reporter\<close>.
\<close>

section \<open>The state of the watcher\<close>

datatype watcher_status = StatusNotConfigured | StatusRunning | StatusRestarting | StatusStopped

record watcher_state =
  ws_status :: watcher_status
  ws_lastError :: string
  ws_lastEventTS :: time
  ws_startedAt :: time
  ws_restartCount :: int
  ws_nextRetryAt :: time
  ws_watchAddFailures :: int
  ws_lastWatchAddError :: string

definition NewWatcherState :: watcher_state where
  "NewWatcherState = \<lparr>ws_status = StatusNotConfigured, ws_lastError = [], ws_lastEventTS = 0,
     ws_startedAt = 0, ws_restartCount = 0, ws_nextRetryAt = 0, ws_watchAddFailures = 0,
     ws_lastWatchAddError = []\<rparr>"

definition SetRunning :: "time \<Rightarrow> watcher_state \<Rightarrow> watcher_state" where
  "SetRunning now w = w\<lparr>ws_status := StatusRunning, ws_lastError := [], ws_startedAt := now,
     ws_nextRetryAt := 0\<rparr>"

definition err_text :: "string option \<Rightarrow> string" where
  "err_text e = (case e of Some m \<Rightarrow> m | None \<Rightarrow> [])"

definition SetRestarting :: "time \<Rightarrow> string option \<Rightarrow> duration \<Rightarrow> watcher_state \<Rightarrow> watcher_state" where
  "SetRestarting now err backoff w = w\<lparr>ws_status := StatusRestarting, ws_lastError := err_text err,
     ws_restartCount := ws_restartCount w + 1, ws_nextRetryAt := now + backoff\<rparr>"

definition SetStopped :: "string option \<Rightarrow> watcher_state \<Rightarrow> watcher_state" where
  "SetStopped err w = w\<lparr>ws_status := StatusStopped, ws_lastError := err_text err, ws_nextRetryAt := 0\<rparr>"

definition RecordEvent :: "time \<Rightarrow> watcher_state \<Rightarrow> watcher_state" where
  "RecordEvent now w = w\<lparr>ws_lastEventTS := now\<rparr>"

definition RecordWatchAddFailure :: "string option \<Rightarrow> watcher_state \<Rightarrow> watcher_state" where
  "RecordWatchAddFailure err w = w\<lparr>ws_watchAddFailures := ws_watchAddFailures w + 1,
     ws_lastWatchAddError := (case err of Some m \<Rightarrow> m | None \<Rightarrow> ws_lastWatchAddError w)\<rparr>"

record watcher_snapshot =
  sn_Status :: watcher_status
  sn_LastError :: string
  sn_LastEventTS :: "time option"
  sn_StartedAt :: "time option"
  sn_RestartCount :: int
  sn_NextRetryAt :: "time option"
  sn_WatchAddFailures :: int
  sn_LastWatchAddError :: string

definition opt_time :: "time \<Rightarrow> time option" where
  "opt_time t = (if \<not> time_is_zero t then Some t else None)"

definition Snapshot :: "watcher_state \<Rightarrow> watcher_snapshot" where
  "Snapshot w = \<lparr>sn_Status = ws_status w, sn_LastError = ws_lastError w,
     sn_LastEventTS = opt_time (ws_lastEventTS w), sn_StartedAt = opt_time (ws_startedAt w),
     sn_RestartCount = ws_restartCount w, sn_NextRetryAt = opt_time (ws_nextRetryAt w),
     sn_WatchAddFailures = ws_watchAddFailures w, sn_LastWatchAddError = ws_lastWatchAddError w\<rparr>"

definition Healthy :: "watcher_snapshot \<Rightarrow> bool" where
  "Healthy s \<longleftrightarrow> sn_Status s = StatusRunning \<or> sn_Status s = StatusNotConfigured"

text \<open>The generic view; \<^verbatim>\<open>Detail\<close> is of any type.\<close>

record 'd subsystem_snapshot =
  sub_Healthy :: bool
  sub_Detail :: 'd

definition HealthSnapshot :: "watcher_state \<Rightarrow> watcher_snapshot subsystem_snapshot" where
  "HealthSnapshot w = (let snap = Snapshot w in \<lparr>sub_Healthy = Healthy snap, sub_Detail = snap\<rparr>)"

section \<open>The registry\<close>

text \<open>A subsystem is what its snapshot method returns, so a registry maps names to such values.\<close>

type_synonym 's registry = "(string \<times> 's) list"

definition NewRegistry :: "'s registry" where "NewRegistry = []"

definition Register :: "string \<Rightarrow> 's option \<Rightarrow> 's registry \<Rightarrow> (string, 's registry) res" where
  "Register name s r =
     (if name = [] then Inl ''health: Register called with empty name''
      else (case s of
          None \<Rightarrow> Inl (''health: Register('' @ name @ '') called with nil Snapshotter'')
        | Some x \<Rightarrow>
            if map_of r name \<noteq> None
            then Inl (''health: subsystem '' @ name @ '' already registered'')
            else Inr (AList.update name x r)))"

definition Registry_Snapshot ::
  "('s \<Rightarrow> 'd subsystem_snapshot) \<Rightarrow> 's registry \<Rightarrow> (string \<times> 'd subsystem_snapshot) list" where
  "Registry_Snapshot health r = map (\<lambda>(name, s). (name, health s)) r"

fun AllHealthy :: "(string \<times> 'd subsystem_snapshot) list \<Rightarrow> bool" where
  "AllHealthy [] = True"
| "AllHealthy ((_, s) # m) = (if \<not> sub_Healthy s then False else AllHealthy m)"

definition Names :: "'s registry \<Rightarrow> string list" where
  "Names r = sort (map fst r)"

section \<open>The supervisor\<close>

record supervisor_config =
  BackoffBase :: duration
  BackoffMax :: duration
  sv_MaxFailures :: int
  FailureWindow :: duration
  ResetThreshold :: duration

definition with_defaults :: "supervisor_config \<Rightarrow> supervisor_config" where
  "with_defaults s =
     (let window = (if FailureWindow s \<le> 0 then Minute else FailureWindow s)
      in \<lparr>BackoffBase = (if BackoffBase s \<le> 0 then Second else BackoffBase s),
          BackoffMax = (if BackoffMax s \<le> 0 then 32 * Second else BackoffMax s),
          sv_MaxFailures = (if sv_MaxFailures s \<le> 0 then 5 else sv_MaxFailures s),
          FailureWindow = window,
          ResetThreshold = (if ResetThreshold s \<le> 0 then window else ResetThreshold s)\<rparr>)"

text \<open>One iteration of the environment.\<close>

record attempt =
  at_start :: time
  at_end :: time
  at_err :: "string option"
  at_cancelled :: bool
  at_failed :: time
  at_restart :: time
  at_cancelled_waiting :: bool

text \<open>The interface \<^verbatim>\<open>StateReporter\<close>; the clock a method reads is an argument.\<close>

record 's reporter =
  r_SetRunning :: "time \<Rightarrow> 's \<Rightarrow> 's"
  r_SetRestarting :: "time \<Rightarrow> string option \<Rightarrow> duration \<Rightarrow> 's \<Rightarrow> 's"
  r_SetStopped :: "string option \<Rightarrow> 's \<Rightarrow> 's"

definition watcher_reporter :: "watcher_state reporter" where
  "watcher_reporter = \<lparr>r_SetRunning = SetRunning, r_SetRestarting = SetRestarting, r_SetStopped = SetStopped\<rparr>"

text \<open>How far a call of \<^verbatim>\<open>Supervise\<close> has come: still looping, or returned with an error or nil.\<close>

datatype supervision = Looping | Returned "string option"

text \<open>The loop that counts the expired prefix, then the compaction.\<close>

fun trim :: "time \<Rightarrow> time list \<Rightarrow> time list" where
  "trim cutoff [] = []"
| "trim cutoff (t # ts) = (if t < cutoff then trim cutoff ts else t # ts)"

definition next_backoff :: "duration \<Rightarrow> duration \<Rightarrow> duration" where
  "next_backoff limit b = (let b = wrap64 (b * 2) in if limit < b then limit else b)"

definition terminal_error :: "supervisor_config \<Rightarrow> string \<Rightarrow> string" where
  "terminal_error c err = ''supervisor: '' @ itoa (sv_MaxFailures c) @ '' failures in '' @
     dur_string (FailureWindow c) @ '', last: '' @ err"

text \<open>The loop; it also returns the backoffs it waited, for the theorems.\<close>

fun supervise_loop ::
  "'s reporter \<Rightarrow> supervisor_config \<Rightarrow> duration \<Rightarrow> time list \<Rightarrow> attempt list \<Rightarrow> 's
    \<Rightarrow> supervision \<times> duration list \<times> 's" where
  "supervise_loop rep c backoff window [] s = (Looping, [], s)"
| "supervise_loop rep c backoff window (a # as) s =
     (let s = r_SetRunning rep (at_start a) s
      in if at_cancelled a then (Returned None, [], r_SetStopped rep None s)
         else (case at_err a of
             None \<Rightarrow> (Returned None, [], r_SetStopped rep None s)
           | Some err \<Rightarrow>
               (let backoff = (if ResetThreshold c \<le> time_sub (at_end a) (at_start a)
                               then BackoffBase c else backoff);
                    window = trim (at_failed a - FailureWindow c) (window @ [at_failed a])
                in if sv_MaxFailures c \<le> int (length window) then
                     (Returned (Some (terminal_error c err)), [],
                      r_SetStopped rep (Some (terminal_error c err)) s)
                   else
                     (let s = r_SetRestarting rep (at_restart a) (Some err) backoff s
                      in if at_cancelled_waiting a then (Returned None, [backoff], r_SetStopped rep None s)
                         else (case supervise_loop rep c (next_backoff (BackoffMax c) backoff) window as s of
                             (r, bs, s) \<Rightarrow> (r, backoff # bs, s))))))"

definition Supervise ::
  "bool \<Rightarrow> 's reporter option \<Rightarrow> supervisor_config \<Rightarrow> attempt list \<Rightarrow> 's \<Rightarrow> supervision \<times> duration list \<times> 's" where
  "Supervise has_run rep c as s =
     (if \<not> has_run then (Returned (Some ''supervisor: Run is required''), [], s)
      else (case rep of
          None \<Rightarrow> (Returned (Some ''supervisor: State is required''), [], s)
        | Some rep \<Rightarrow>
            (let c = with_defaults c in supervise_loop rep c (BackoffBase c) [] as s)))"

section \<open>The contract of a state sink\<close>

text \<open>What the supervisor expects of its sink: a status and an error text that follow the calls.\<close>

locale state_reporter =
  fixes rep :: "'s reporter" and status :: "'s \<Rightarrow> watcher_status" and last_error :: "'s \<Rightarrow> string"
  assumes running: "status (r_SetRunning rep t s) = StatusRunning"
    and restarting: "status (r_SetRestarting rep t e b s) = StatusRestarting"
      "last_error (r_SetRestarting rep t e b s) = err_text e"
    and stopped: "status (r_SetStopped rep e s) = StatusStopped"
      "last_error (r_SetStopped rep e s) = err_text e"
begin

lemma loop_result:
  assumes "supervise_loop rep c b w as s = (r, bs, s')"
  shows "case r of Returned e \<Rightarrow> status s' = StatusStopped \<and> last_error s' = err_text e
    | Looping \<Rightarrow> as = [] \<and> s' = s \<or> status s' = StatusRestarting"
  using assms
proof (induction as arbitrary: b w s r bs s')
  case (Cons a as)
  show ?case
  proof (cases "supervise_loop rep c b w (a # as) s")
    case (fields r0 bs0 s0)
    then show ?thesis
      using Cons.prems
      by (auto simp: Let_def stopped restarting running err_text_def split: if_splits option.splits prod.splits
          supervision.splits dest!: Cons.IH)
  qed
qed auto

end

interpretation watcher: state_reporter watcher_reporter ws_status ws_lastError
  by unfold_locales (simp_all add: watcher_reporter_def SetRunning_def SetRestarting_def SetStopped_def)

section \<open>Giving up\<close>

text \<open>The failures of the script that lie in the window of its \<open>n\<close>-th failure.\<close>

definition in_window :: "supervisor_config \<Rightarrow> attempt list \<Rightarrow> nat \<Rightarrow> nat" where
  "in_window c as n = length (filter (\<lambda>t. \<not> t < at_failed (as ! n) - FailureWindow c)
     (map at_failed (take (Suc n) as)))"

definition failing :: "attempt \<Rightarrow> bool" where
  "failing a \<longleftrightarrow> \<not> at_cancelled a \<and> at_err a \<noteq> None \<and> \<not> at_cancelled_waiting a"

lemma trim_sorted: "sorted ts \<Longrightarrow> trim cutoff ts = filter (\<lambda>t. \<not> t < cutoff) ts"
  by (induction ts) (auto simp: filter_empty_conv intro!: filter_True [symmetric])

lemma filter_later: "b \<le> (d::int) \<Longrightarrow> filter (\<lambda>t. \<not> t < d) (filter (\<lambda>t. \<not> t < b) ts) = filter (\<lambda>t. \<not> t < d) ts"
  by (auto intro!: filter_cong)

text \<open>The same count with the failures \<open>old\<close> of earlier iterations.\<close>

definition in_window_after :: "supervisor_config \<Rightarrow> time list \<Rightarrow> attempt list \<Rightarrow> nat \<Rightarrow> nat" where
  "in_window_after c old as n = length (filter (\<lambda>t. \<not> t < at_failed (as ! n) - FailureWindow c)
     (old @ map at_failed (take (Suc n) as)))"

lemma in_window_after_Suc:
  "in_window_after c old (a # as) (Suc n) = in_window_after c (old @ [at_failed a]) as n"
  by (simp add: in_window_after_def)

lemma loop_gives_up:
  assumes "list_all failing as" and "sorted (old @ map at_failed as)"
    and "window = filter (\<lambda>t. \<not> t < lo) old" and "\<forall>a\<in>set as. lo \<le> at_failed a - FailureWindow c"
    and "supervise_loop rep c b window as s = (r, bs, s')"
  shows "case r of Looping \<Rightarrow> (\<forall>n<length as. int (in_window_after c old as n) < sv_MaxFailures c) \<and> length bs = length as
    | Returned e \<Rightarrow> (\<exists>n<length as. (\<forall>m<n. int (in_window_after c old as m) < sv_MaxFailures c) \<and>
        sv_MaxFailures c \<le> int (in_window_after c old as n) \<and>
        e = Some (terminal_error c (the (at_err (as ! n)))) \<and> length bs = n)"
  using assms
proof (induction as arbitrary: old window lo b s r bs s')
  case (Cons a as)
  obtain err where a: "\<not> at_cancelled a" "at_err a = Some err" "\<not> at_cancelled_waiting a"
    using Cons.prems(1) by (auto simp: failing_def)
  let ?cut = "at_failed a - FailureWindow c" and ?old = "old @ [at_failed a]"
  let ?b = "if ResetThreshold c \<le> time_sub (at_end a) (at_start a) then BackoffBase c else b"
  let ?w = "trim ?cut (window @ [at_failed a])"
  have so: "sorted ?old" using Cons.prems(2) by (auto simp: sorted_append)
  have lo: "lo \<le> ?cut" using Cons.prems(4) by simp
  have "sorted (window @ [at_failed a])"
    using so by (auto simp: Cons.prems(3) sorted_append sorted_wrt_filter)
  then have w: "?w = filter (\<lambda>t. \<not> t < ?cut) ?old"
    using lo by (simp only: trim_sorted Cons.prems(3) filter_append filter_later)
  then have len: "length ?w = in_window_after c old (a # as) 0"
    by (simp add: in_window_after_def)
  show ?case
  proof (cases "sv_MaxFailures c \<le> int (length ?w)")
    case True
    then have "r = Returned (Some (terminal_error c err))" "bs = []"
      using Cons.prems(5) a by (auto simp: Let_def)
    with True len a show ?thesis by (auto intro!: exI [of _ 0])
  next
    case False
    obtain r1 bs1 s1 where rec: "supervise_loop rep c (next_backoff (BackoffMax c) ?b) ?w as
        (r_SetRestarting rep (at_restart a) (Some err) ?b (r_SetRunning rep (at_start a) s)) = (r1, bs1, s1)"
      by (metis prod.exhaust)
    then have eq: "r = r1" "bs = ?b # bs1"
      using False Cons.prems(5) a by (auto simp: Let_def)
    have later: "\<forall>a'\<in>set as. ?cut \<le> at_failed a' - FailureWindow c"
      using Cons.prems(2) by (auto simp: sorted_append)
    have IH: "case r1 of Looping \<Rightarrow> (\<forall>n<length as. int (in_window_after c ?old as n) < sv_MaxFailures c) \<and> length bs1 = length as
        | Returned e \<Rightarrow> (\<exists>n<length as. (\<forall>m<n. int (in_window_after c ?old as m) < sv_MaxFailures c) \<and>
            sv_MaxFailures c \<le> int (in_window_after c ?old as n) \<and>
            e = Some (terminal_error c (the (at_err (as ! n)))) \<and> length bs1 = n)"
      by (rule Cons.IH [OF _ _ w later rec]) (use Cons.prems(1,2) in simp_all)
    have zero: "int (in_window_after c old (a # as) 0) < sv_MaxFailures c" using False len by simp
    show ?thesis
    proof (cases r1)
      case Looping
      with IH zero eq show ?thesis
        by (auto simp: less_Suc_eq_0_disj in_window_after_Suc)
    next
      case (Returned e)
      with IH obtain n where n: "n < length as" "\<forall>m<n. int (in_window_after c ?old as m) < sv_MaxFailures c"
        "sv_MaxFailures c \<le> int (in_window_after c ?old as n)"
        "e = Some (terminal_error c (the (at_err (as ! n))))" "length bs1 = n" by auto
      then have "\<forall>m<Suc n. int (in_window_after c old (a # as) m) < sv_MaxFailures c"
        using zero by (auto simp: less_Suc_eq_0_disj in_window_after_Suc)
      with n Returned eq show ?thesis
        by (auto simp: in_window_after_Suc intro!: exI [of _ "Suc n"])
    qed
  qed
qed simp

text \<open>The supervisor gives up exactly at the first failure whose window holds \<open>MaxFailures\<close>
  failures, however long the runs in between were (a flapping subsystem is not forgiven), with the
  error of that failure; before it, every failure is followed by one backoff and a restart.\<close>

theorem Supervise_gives_up:
  assumes "list_all failing as" and "sorted (map at_failed as)"
    and "Supervise True (Some rep) cfg as s = (r, waits, s')"
  defines "c \<equiv> with_defaults cfg"
  shows "case r of Looping \<Rightarrow> (\<forall>n<length as. int (in_window c as n) < sv_MaxFailures c) \<and> length waits = length as
    | Returned e \<Rightarrow> (\<exists>n<length as. (\<forall>m<n. int (in_window c as m) < sv_MaxFailures c) \<and>
        sv_MaxFailures c \<le> int (in_window c as n) \<and>
        e = Some (terminal_error c (the (at_err (as ! n)))) \<and> length waits = n)"
proof (cases as)
  case Nil
  then show ?thesis using assms(3) by (auto simp: Supervise_def Let_def)
next
  case (Cons a as')
  let ?cut = "at_failed a - FailureWindow c"
  have "\<forall>a\<in>set as. ?cut \<le> at_failed a - FailureWindow c"
    using assms(2) Cons by auto
  from loop_gives_up [OF assms(1) _ _ this, of "[]" "[]" rep "BackoffBase c" s r waits s']
  have res: "case r of Looping \<Rightarrow> (\<forall>n<length as. int (in_window_after c [] as n) < sv_MaxFailures c) \<and> length waits = length as
    | Returned e \<Rightarrow> (\<exists>n<length as. (\<forall>m<n. int (in_window_after c [] as m) < sv_MaxFailures c) \<and>
        sv_MaxFailures c \<le> int (in_window_after c [] as n) \<and>
        e = Some (terminal_error c (the (at_err (as ! n)))) \<and> length waits = n)"
    using assms(2,3) by (simp add: Supervise_def Let_def c_def)
  have same: "in_window_after c [] as = in_window c as"
    by (simp add: fun_eq_iff in_window_def in_window_after_def)
  show ?thesis using res unfolding same .
qed

definition ex_attempt :: "time \<Rightarrow> attempt" where
  "ex_attempt t = \<lparr>at_start = t * Second, at_end = t * Second, at_err = Some ''boom'', at_cancelled = False,
     at_failed = t * Second, at_restart = t * Second, at_cancelled_waiting = False\<rparr>"

definition ex_supervisor :: supervisor_config where
  "ex_supervisor = \<lparr>BackoffBase = 0, BackoffMax = 0, sv_MaxFailures = 3, FailureWindow = 0, ResetThreshold = 0\<rparr>"

definition ex_script :: "attempt list" where
  "ex_script = map ex_attempt [0, 50, 70, 100, 105, 300]"

lemma ex_script_failing: "list_all failing ex_script" "sorted (map at_failed ex_script)"
  by (simp_all add: ex_script_def failing_def ex_attempt_def Second_def)

theorem Supervise_gives_up_witness:
  "\<exists>e waits w. Supervise True (Some watcher_reporter) ex_supervisor ex_script NewWatcherState = (Returned e, waits, w) \<and>
     length waits \<le> 3"
proof -
  obtain r waits w where run: "Supervise True (Some watcher_reporter) ex_supervisor ex_script NewWatcherState = (r, waits, w)"
    by (metis prod.exhaust)
  have m: "sv_MaxFailures (with_defaults ex_supervisor) = 3"
    by (simp add: with_defaults_def ex_supervisor_def Let_def)
  have "\<not> int (in_window (with_defaults ex_supervisor) ex_script 3) < 3"
    by (simp add: in_window_def ex_script_def ex_attempt_def with_defaults_def ex_supervisor_def Let_def
        Minute_def Second_def)
  then have full: "\<not> (\<forall>n<length ex_script. int (in_window (with_defaults ex_supervisor) ex_script n) < 3)"
    by (simp add: ex_script_def) (rule exI [of _ 3], simp)
  note up = Supervise_gives_up [OF ex_script_failing run, unfolded m]
  show ?thesis
  proof (cases r)
    case Looping
    then show ?thesis using up full by simp
  next
    case (Returned e)
    then obtain n where "\<forall>j<n. int (in_window (with_defaults ex_supervisor) ex_script j) < 3" "length waits = n"
      using up by auto
    then have "length waits \<le> 3"
      using \<open>\<not> int (in_window _ _ 3) < 3\<close> by (metis linorder_not_less)
    then show ?thesis using run Returned by simp
  qed
qed

section \<open>Backing off\<close>

lemma next_backoff_min:
  assumes "0 < b" and "b \<le> limit" and "limit < 2 ^ 62"
  shows "next_backoff limit b = min limit (2 * b)"
proof -
  have "wrap64 (b * 2) = 2 * b"
    using assms by (intro trans [OF wrap64_id]) (auto simp: in_int64_def min_int64_def max_int64_def)
  then show ?thesis by (simp add: next_backoff_def Let_def min_def)
qed

lemma loop_backoff:
  assumes "supervise_loop rep c b w as s = (r, bs, s')" and "0 < b" and "b \<le> BackoffMax c"
    and "BackoffMax c < 2 ^ 62" and "\<forall>a\<in>set as. time_sub (at_end a) (at_start a) < ResetThreshold c"
    and "i < length bs"
  shows "bs ! i = min (BackoffMax c) (b * 2 ^ i)"
  using assms
proof (induction as arbitrary: b w s r bs s' i)
  case (Cons a as)
  let ?nb = "next_backoff (BackoffMax c) b"
  have nb: "?nb = min (BackoffMax c) (2 * b)" by (rule next_backoff_min) (use Cons.prems in auto)
  have short: "\<not> ResetThreshold c \<le> time_sub (at_end a) (at_start a)" using Cons.prems(5) by auto
  show ?case
  proof (cases i)
    case 0
    then show ?thesis
      using Cons.prems short by (auto simp: Let_def split: if_splits option.splits prod.splits)
  next
    case (Suc j)
    obtain w1 s1 bs1 where rec: "supervise_loop rep c ?nb w1 as s1 = (r, bs1, s')" "bs = b # bs1"
      using Cons.prems(1,6) short Suc by (auto simp: Let_def split: if_splits option.splits prod.splits)
    then have "bs1 ! j = min (BackoffMax c) (?nb * 2 ^ j)"
      using Cons.prems Suc nb by (intro Cons.IH [OF rec(1)]) auto
    also have "\<dots> = min (BackoffMax c) (b * 2 ^ i)"
    proof (cases "2 * b \<le> BackoffMax c")
      case True
      then show ?thesis by (simp add: nb Suc min_absorb2 mult.assoc)
    next
      case False
      have "BackoffMax c * 1 \<le> BackoffMax c * 2 ^ j" using Cons.prems(2,3) by (intro mult_left_mono) auto
      moreover have "2 * b * 1 \<le> 2 * b * 2 ^ j" using Cons.prems(2) by (intro mult_left_mono) auto
      ultimately show ?thesis using False by (simp add: nb Suc min_def)
    qed
    finally show ?thesis by (simp add: rec(2) Suc)
  qed
qed simp

text \<open>While no run reaches the reset threshold, the waits are the doubling sequence capped at
  \<open>BackoffMax\<close>, starting from \<open>BackoffBase\<close>; the doubling never wraps, for any cap below 146 years.\<close>

theorem Supervise_backoff:
  assumes "Supervise True (Some rep) cfg as s = (r, waits, s')"
    and "\<forall>a\<in>set as. time_sub (at_end a) (at_start a) < ResetThreshold (with_defaults cfg)"
    and "BackoffBase (with_defaults cfg) \<le> BackoffMax (with_defaults cfg)"
    and "BackoffMax (with_defaults cfg) < 2 ^ 62" and "i < length waits"
  shows "waits ! i = min (BackoffMax (with_defaults cfg)) (BackoffBase (with_defaults cfg) * 2 ^ i)"
proof (rule loop_backoff)
  show "supervise_loop rep (with_defaults cfg) (BackoffBase (with_defaults cfg)) [] as s = (r, waits, s')"
    using assms(1) by (simp add: Supervise_def Let_def)
  show "0 < BackoffBase (with_defaults cfg)"
    by (simp add: with_defaults_def Let_def Second_def)
qed (use assms in auto)

lemma ex_waits:
  "fst (snd (Supervise True (Some watcher_reporter) ex_supervisor [ex_attempt 0, ex_attempt 50] NewWatcherState)) =
    [Second, 2 * Second]"
  by (simp add: Supervise_def with_defaults_def ex_supervisor_def ex_attempt_def Let_def next_backoff_def
      Second_def Minute_def time_sub_def min_int64_def max_int64_def wrap64_def)

theorem Supervise_backoff_witness:
  "fst (snd (Supervise True (Some watcher_reporter) ex_supervisor [ex_attempt 0, ex_attempt 50] NewWatcherState)) ! 1 =
    min (32 * Second) (Second * 2 ^ 1)"
proof -
  let ?run = "Supervise True (Some watcher_reporter) ex_supervisor [ex_attempt 0, ex_attempt 50] NewWatcherState"
  obtain r waits w where run: "?run = (r, waits, w)" by (metis prod.exhaust)
  have d: "with_defaults ex_supervisor = \<lparr>BackoffBase = Second, BackoffMax = 32 * Second, sv_MaxFailures = 3,
      FailureWindow = Minute, ResetThreshold = Minute\<rparr>"
    by (simp add: with_defaults_def ex_supervisor_def Let_def)
  show ?thesis
    using Supervise_backoff [OF run, of 1] ex_waits run
    by (simp add: d ex_attempt_def Minute_def Second_def time_sub_def min_int64_def max_int64_def)
qed

section \<open>What healthz reports\<close>

lemma AllHealthy_iff: "AllHealthy m \<longleftrightarrow> (\<forall>(n, s)\<in>set m. sub_Healthy s)"
  by (induction m rule: AllHealthy.induct) auto

lemma Register_Inr:
  "Register name (Some x) r = Inr r' \<longleftrightarrow> name \<noteq> [] \<and> map_of r name = None \<and> r' = AList.update name x r"
  by (auto simp: Register_def)

text \<open>Once the supervisor of the watcher has returned, for whatever reason, the probe fails and
  says why: the watcher's entry is unhealthy and stopped with the error the supervisor returned (none
  for a clean stop), so the aggregate is unhealthy whatever the other subsystems report.\<close>

theorem healthz_after_supervision:
  assumes "Supervise True (Some watcher_reporter) cfg as w = (Returned e, waits, w')"
    and "Register name (Some w') r = Inr r'"
  shows "\<not> AllHealthy (Registry_Snapshot HealthSnapshot r') \<and>
    (\<exists>snap. map_of (Registry_Snapshot HealthSnapshot r') name = Some snap \<and> \<not> sub_Healthy snap \<and>
      sn_Status (sub_Detail snap) = StatusStopped \<and> sn_LastError (sub_Detail snap) = err_text e)"
proof -
  have st: "ws_status w' = StatusStopped \<and> ws_lastError w' = err_text e"
    using watcher.loop_result [of "with_defaults cfg" "BackoffBase (with_defaults cfg)" "[]" as w "Returned e" waits w']
      assms(1) by (simp add: Supervise_def Let_def)
  have r': "map_of r' name = Some w'" using assms(2) by (simp add: Register_Inr AList.update_conv')
  then have "map_of (Registry_Snapshot HealthSnapshot r') name = Some (HealthSnapshot w')"
    by (simp add: Registry_Snapshot_def map_of_map)
  moreover have "\<not> sub_Healthy (HealthSnapshot w')"
    using st by (simp add: HealthSnapshot_def Healthy_def Snapshot_def Let_def)
  moreover have "(name, HealthSnapshot w') \<in> set (Registry_Snapshot HealthSnapshot r')"
    using calculation(1) by (rule map_of_SomeD)
  moreover from calculation(2,3) have "\<not> AllHealthy (Registry_Snapshot HealthSnapshot r')"
    unfolding AllHealthy_iff by fast
  moreover have "sn_Status (sub_Detail (HealthSnapshot w')) = StatusStopped"
    "sn_LastError (sub_Detail (HealthSnapshot w')) = err_text e"
    using st by (simp_all add: HealthSnapshot_def Snapshot_def Let_def)
  ultimately show ?thesis by blast
qed

theorem healthz_after_supervision_witness:
  "\<exists>w r. Register ''watcher'' (Some w) NewRegistry = Inr r \<and> \<not> AllHealthy (Registry_Snapshot HealthSnapshot r)"
proof -
  obtain e waits w where run: "Supervise True (Some watcher_reporter) ex_supervisor
      [(ex_attempt 0)\<lparr>at_cancelled := True\<rparr>] NewWatcherState = (Returned e, waits, w)"
    by (simp add: Supervise_def Let_def)
  moreover obtain r where "Register ''watcher'' (Some w) NewRegistry = Inr r"
    by (simp add: Register_def NewRegistry_def)
  ultimately show ?thesis using healthz_after_supervision [OF run] by blast
qed

text \<open>Everything that touches the state of the watcher.\<close>

datatype watcher_op =
    OpRunning time
  | OpRestarting time "string option" duration
  | OpStopped "string option"
  | OpEvent time
  | OpWatchAddFailure "string option"

fun apply_op :: "watcher_op \<Rightarrow> watcher_state \<Rightarrow> watcher_state" where
  "apply_op (OpRunning t) w = SetRunning t w"
| "apply_op (OpRestarting t e b) w = SetRestarting t e b w"
| "apply_op (OpStopped e) w = SetStopped e w"
| "apply_op (OpEvent t) w = RecordEvent t w"
| "apply_op (OpWatchAddFailure e) w = RecordWatchAddFailure e w"

text \<open>Degradation is never forgotten: over any sequence of transitions, restarts included, the
  probe shows the number of failed watch registrations so far, the text of the last one that had one,
  and the number of restarts.\<close>

theorem watch_failures_cumulative:
  "let snap = Snapshot (fold apply_op ops NewWatcherState);
       failed = List.map_filter (\<lambda>x. case x of OpWatchAddFailure e \<Rightarrow> Some e | _ \<Rightarrow> None) ops;
       texts = List.map_filter id failed
   in sn_WatchAddFailures snap = int (length failed) \<and>
      sn_LastWatchAddError snap = (if texts = [] then [] else last texts) \<and>
      sn_RestartCount snap = int (length (filter (\<lambda>x. case x of OpRestarting _ _ _ \<Rightarrow> True | _ \<Rightarrow> False) ops))"
proof (induction ops rule: rev_induct)
  case Nil
  then show ?case by (simp add: NewWatcherState_def Snapshot_def List.map_filter_simps)
next
  case (snoc x ops)
  have mf: "List.map_filter f (xs @ [y]) = List.map_filter f xs @ (case f y of None \<Rightarrow> [] | Some z \<Rightarrow> [z])"
    for f :: "'x \<Rightarrow> 'y option" and xs y
    by (simp add: List.map_filter_def split: option.split)
  have mf': "List.map_filter id (xs @ [y]) = List.map_filter id xs @ (case y of None \<Rightarrow> [] | Some z \<Rightarrow> [z])"
    for xs and y :: "string option"
    by (simp add: List.map_filter_def split: option.split)
  show ?case
    using snoc
    by (cases x) (auto simp: Let_def mf mf' Snapshot_def SetRunning_def SetRestarting_def SetStopped_def
        RecordEvent_def RecordWatchAddFailure_def split: option.split if_splits)
qed

end
