(* ===== verification/Repo_Id.thy ===== *)
theory Repo_Id
  imports Go_Prelude
begin

text \<open>
  Repository identity, \<^verbatim>\<open>internal/repoid/repoid.go\<close>: the canonical slug that cost rows and outcome rows are
  joined on, and the slug of a git remote. \<open>Canonical\<close> returns an option for the pair of a string and a
  bool. The parse of a URL with a scheme (\<^verbatim>\<open>net/url\<close>) is the argument \<open>url_parse\<close>, which returns the scheme,
  the host and the path.
\<close>

section \<open>Lower case\<close>

text \<open>
  \<^verbatim>\<open>strings.ToLower\<close> as far as a slug can tell: the two characters outside ASCII whose lower case is
  ASCII, the Kelvin sign and the dotted capital I, are mapped, every other byte outside ASCII stays a
  byte outside ASCII, which no slug contains.
\<close>

definition kelvin :: string where "kelvin = bytes_of [226, 132, 170]"
definition dotted_I :: string where "dotted_I = bytes_of [196, 176]"

function ToLower :: "string \<Rightarrow> string" where
  "ToLower [] = []"
| "ToLower (c # s) =
     (if has_prefix kelvin (c # s) then CHR ''k'' # ToLower (drop 3 (c # s))
      else if has_prefix dotted_I (c # s) then CHR ''i'' # ToLower (drop 2 (c # s))
      else ascii_lower c # ToLower s)"
  by pat_completeness auto
termination by (relation "measure length") auto

section \<open>Canonical slugs\<close>

definition Unqualified :: string where "Unqualified = ''unqualified''"
definition MaxLen :: nat where "MaxLen = 256"

definition IsReal :: "string \<Rightarrow> bool" where "IsReal s \<longleftrightarrow> s \<noteq> [] \<and> s \<noteq> Unqualified"

text \<open>\<^verbatim>\<open>strings.Trim\<close> with a one-byte cutset and \<^verbatim>\<open>strings.TrimSuffix\<close>.\<close>

definition trim_byte :: "char \<Rightarrow> string \<Rightarrow> string" where
  "trim_byte c s = rev (dropWhile (\<lambda>x. x = c) (rev (dropWhile (\<lambda>x. x = c) s)))"

definition trim_suffix :: "string \<Rightarrow> string \<Rightarrow> string" where
  "trim_suffix p s = (if has_prefix (rev p) (rev s) then take (length s - length p) s else s)"

text \<open>The loop to a fixed point.\<close>

lemma dropWhile_length: "length (dropWhile P s) \<le> length s"
  by (induction s) auto

lemma trim_byte_length: "length (trim_byte c s) \<le> length s"
  unfolding trim_byte_def using dropWhile_length [of _ "rev (dropWhile (\<lambda>x. x = c) s)"] dropWhile_length [of _ s]
  by (metis length_rev order_trans)

lemma dropWhile_same: "length (dropWhile P s) = length s \<Longrightarrow> dropWhile P s = s"
proof (cases s)
  case (Cons x xs)
  then show "length (dropWhile P s) = length s \<Longrightarrow> dropWhile P s = s"
    using dropWhile_length [of P xs] by auto
qed simp

lemma trim_byte_same: "length (trim_byte c s) = length s \<Longrightarrow> trim_byte c s = s"
proof -
  let ?P = "\<lambda>x. x = c"
  assume "length (trim_byte c s) = length s"
  then have l: "length (dropWhile ?P (rev (dropWhile ?P s))) = length s" by (simp add: trim_byte_def)
  then have "length (dropWhile ?P s) = length s"
    using dropWhile_length [of ?P s] dropWhile_length [of ?P "rev (dropWhile ?P s)"] by simp
  then have d: "dropWhile ?P s = s" by (rule dropWhile_same)
  then have "dropWhile ?P (rev s) = rev s" using l by (intro dropWhile_same) simp
  with d show ?thesis by (simp add: trim_byte_def)
qed

function trim_slug :: "string \<Rightarrow> string" where
  "trim_slug s =
     (let t = trim_suffix ''.git'' (trim_byte CHR ''/'' s) in if t = s then s else trim_slug t)"
  by pat_completeness auto
termination
proof (relation "measure length")
  fix s t :: string
  assume t: "t = trim_suffix ''.git'' (trim_byte CHR ''/'' s)" "t \<noteq> s"
  then show "(t, s) \<in> measure length"
    using trim_byte_length [of "CHR ''/''" s] trim_byte_same [of "CHR ''/''" s]
    by (auto simp: trim_suffix_def has_prefix_iff le_less split: if_splits)
qed simp

declare trim_slug.simps [simp del]

definition valid_byte :: "char \<Rightarrow> bool" where
  "valid_byte c \<longleftrightarrow> is_lower c \<or> is_digit c \<or> c = CHR ''.'' \<or> c = CHR ''_'' \<or> c = CHR ''-''"

definition validSegment :: "string \<Rightarrow> bool" where "validSegment seg \<longleftrightarrow> list_all valid_byte seg"

definition good_segment :: "string \<Rightarrow> bool" where
  "good_segment seg \<longleftrightarrow> seg \<noteq> [] \<and> seg \<noteq> ''.'' \<and> seg \<noteq> ''..'' \<and> validSegment seg"

definition Canonical :: "string \<Rightarrow> string option" where
  "Canonical s =
     (let s = TrimSpace s
      in if s = [] \<or> MaxLen < length s then None
         else
           (let s = trim_slug (ToLower s)
            in if s = [] \<or> s = Unqualified then None
               else
                 (let segs = split_on CHR ''/'' s
                  in if length segs < 2 then None
                     else if list_all good_segment segs then Some s else None)))"

text \<open>\<^verbatim>\<open>strings.Cut\<close> at one byte.\<close>

definition cut_at :: "char \<Rightarrow> string \<Rightarrow> (string \<times> string) option" where
  "cut_at c s = map_option (\<lambda>i. (take i s, drop (Suc i) s)) (index_byte c s)"

definition slug_or_empty :: "string \<Rightarrow> string" where
  "slug_or_empty s = (case Canonical s of Some t \<Rightarrow> t | None \<Rightarrow> [])"

definition FromRemoteURL :: "(string \<Rightarrow> (string \<times> string \<times> string) option) \<Rightarrow> string \<Rightarrow> string" where
  "FromRemoteURL url_parse raw =
     (let raw = TrimSpace raw
      in if raw = [] then []
         else if \<not> contains ''//'' raw then
           (case cut_at CHR '':'' raw of
              None \<Rightarrow> []
            | Some (host, path) \<Rightarrow>
                (let host = (case cut_at CHR ''@'' host of Some (_, h) \<Rightarrow> h | None \<Rightarrow> host)
                 in if CHR ''.'' \<in> set host \<and> path \<noteq> [] \<and> hd path \<noteq> CHR ''/'' \<and> hd path \<noteq> CHR 0x5C
                    then slug_or_empty path else []))
         else
           (case url_parse raw of
              None \<Rightarrow> []
            | Some (scheme, host, path) \<Rightarrow>
                if host = [] then []
                else if scheme \<notin> {''ssh'', ''git'', ''http'', ''https''} then []
                else slug_or_empty path))"

section \<open>Trimming\<close>

lemma trim_byte_nil [simp]: "trim_byte c [] = []"
  by (simp add: trim_byte_def)

lemma trim_byte_left: "trim_byte c (dropWhile (\<lambda>x. x = c) s) = trim_byte c s"
  by (simp add: trim_byte_def)

lemma set_trim_byte: "set (trim_byte c s) \<subseteq> set s"
  unfolding trim_byte_def by (auto dest!: set_dropWhileD)

lemma trim_slug_fixed:
  "trim_suffix ''.git'' (trim_byte CHR ''/'' (trim_slug s)) = trim_slug s"
proof (induction s rule: trim_slug.induct)
  case (1 s)
  let ?t = "trim_suffix ''.git'' (trim_byte CHR ''/'' s)"
  have "trim_slug s = (if ?t = s then s else trim_slug ?t)" by (subst trim_slug.simps) (simp only: Let_def)
  with 1 [OF refl] show ?case by (cases "?t = s") simp_all
qed

lemma trim_slug_of_fixed: "trim_suffix ''.git'' (trim_byte CHR ''/'' s) = s \<Longrightarrow> trim_slug s = s"
  by (subst trim_slug.simps) simp

lemma trim_slug_absorb: "trim_slug (trim_suffix ''.git'' (trim_byte CHR ''/'' s)) = trim_slug s"
proof -
  let ?t = "trim_suffix ''.git'' (trim_byte CHR ''/'' s)"
  have *: "trim_slug s = (if ?t = s then s else trim_slug ?t)" by (subst trim_slug.simps) (simp only: Let_def)
  show ?thesis
  proof (cases "?t = s")
    case True
    then show ?thesis by (rule arg_cong)
  qed (simp only: * if_False)
qed

lemma trim_suffix_length: "length (trim_suffix p s) \<le> length s"
  by (simp add: trim_suffix_def)

lemma trim_slug_length: "length (trim_slug s) \<le> length s"
proof (induction s rule: trim_slug.induct)
  case (1 s)
  let ?t = "trim_suffix ''.git'' (trim_byte CHR ''/'' s)"
  have "length ?t \<le> length s" using trim_suffix_length trim_byte_length by (rule order_trans)
  then show ?case using 1 [OF refl] trim_slug_absorb [of s] trim_slug_of_fixed [of s] by (cases "?t = s") simp_all
qed

lemma dropWhile_snoc: "\<not> P a \<Longrightarrow> dropWhile P (s @ [a]) = dropWhile P s @ [a]"
  by (induction s) auto

lemma dropWhile_rev_idem:
  assumes "t = [] \<or> \<not> P (hd t)"
  shows "dropWhile P (rev (dropWhile P (rev t))) = rev (dropWhile P (rev t))"
  using assms by (cases t) (auto simp: dropWhile_snoc)

lemma trim_byte_idem: "trim_byte c (trim_byte c s) = trim_byte c s"
proof -
  let ?P = "\<lambda>x. x = c"
  have "dropWhile ?P s = [] \<or> \<not> ?P (hd (dropWhile ?P s))" using hd_dropWhile [of ?P s] by auto
  then have "dropWhile ?P (rev (dropWhile ?P (rev (dropWhile ?P s)))) = rev (dropWhile ?P (rev (dropWhile ?P s)))"
    by (rule dropWhile_rev_idem)
  then have d: "dropWhile ?P (trim_byte c s) = trim_byte c s" by (simp add: trim_byte_def)
  have "dropWhile ?P (rev (trim_byte c s)) = rev (trim_byte c s)" by (simp add: trim_byte_def)
  with d show ?thesis unfolding trim_byte_def [of c "trim_byte c s"] by simp
qed

lemma trim_slug_trimmed: "trim_slug (trim_byte CHR ''/'' s) = trim_slug s"
  using trim_slug_absorb [of s] trim_slug_absorb [of "trim_byte CHR ''/'' s"] by (simp add: trim_byte_idem)


section \<open>Slugs are fixed points\<close>

lemma go_spaces_ends:
  "p \<in> set go_spaces \<Longrightarrow> p \<noteq> [] \<and> \<not> valid_byte (hd p) \<and> \<not> valid_byte (last p) \<and> hd p \<noteq> CHR ''/'' \<and> last p \<noteq> CHR ''/''"
proof -
  have "list_all (\<lambda>p. p \<noteq> [] \<and> \<not> valid_byte (hd p) \<and> \<not> valid_byte (last p) \<and> hd p \<noteq> CHR ''/'' \<and> last p \<noteq> CHR ''/'')
    go_spaces" by code_simp
  then show "p \<in> set go_spaces \<Longrightarrow> ?thesis" by (simp add: list_all_iff)
qed

lemma leading_space_none: "\<forall>p\<in>set sp. p \<noteq> [] \<and> hd p \<notin> set s \<Longrightarrow> leading_space sp s = 0"
proof (induction sp)
  case (Cons p sp)
  then have "\<not> has_prefix p s" by (cases p) (auto simp: has_prefix_iff)
  with Cons show ?case by simp
qed simp

lemma TrimSpace_none:
  assumes "\<forall>c\<in>set s. valid_byte c \<or> c = CHR ''/''"
  shows "TrimSpace s = s"
proof -
  have "leading_space go_spaces s = 0" "leading_space (map rev go_spaces) (rev s) = 0"
    using assms go_spaces_ends by (intro leading_space_none; fastforce simp: hd_rev)+
  then show ?thesis by (simp add: TrimSpace_def trim_left.simps)
qed

lemma valid_byte_lower: "valid_byte c \<or> c = CHR ''/'' \<Longrightarrow> ascii_lower c = c \<and> (of_char c :: nat) < 128"
  by (auto simp: valid_byte_def is_lower_def is_digit_def ascii_lower_def)

lemma ToLower_ascii: "\<forall>c\<in>set s. (of_char c :: nat) < 128 \<Longrightarrow> ToLower s = map ascii_lower s"
  by (induction s rule: ToLower.induct) (auto simp: kelvin_def dotted_I_def bytes_of_def)

lemma ToLower_none: "\<forall>c\<in>set s. valid_byte c \<or> c = CHR ''/'' \<Longrightarrow> ToLower s = s"
  using valid_byte_lower by (simp add: ToLower_ascii) (induction s; simp)

lemma ToLower_length: "length (ToLower s) \<le> length s"
  by (induction s rule: ToLower.induct) auto

lemma split_on_bytes: "c \<in> set s \<Longrightarrow> c = x \<or> (\<exists>seg\<in>set (split_on x s). c \<in> set seg)"
  by (induction s) (auto split: list.splits)

lemma good_bytes: "list_all good_segment (split_on CHR ''/'' s) \<Longrightarrow> \<forall>c\<in>set s. valid_byte c \<or> c = CHR ''/''"
  using split_on_bytes [of _ s "CHR ''/''"] by (fastforce simp: list_all_iff good_segment_def validSegment_def)

lemma Canonical_fixed:
  assumes "Canonical s = Some t"
  shows "Canonical t = Some t" and "length t \<le> length (TrimSpace s)" and "length t \<le> MaxLen"
    and "t \<noteq> []" and "t \<noteq> Unqualified" and "2 \<le> length (split_on CHR ''/'' t)"
    and "list_all good_segment (split_on CHR ''/'' t)"
proof -
  let ?s = "TrimSpace s"
  have t: "t = trim_slug (ToLower ?s)" "length ?s \<le> MaxLen" "t \<noteq> []" "t \<noteq> Unqualified"
      "\<not> length (split_on CHR ''/'' t) < 2" "list_all good_segment (split_on CHR ''/'' t)"
    using assms by (auto simp: Canonical_def Let_def split: if_splits)
  show len: "length t \<le> length ?s"
    unfolding t(1) using trim_slug_length ToLower_length by (rule order_trans)
  have "TrimSpace t = t" "ToLower t = t"
    using good_bytes [OF t(6)] TrimSpace_none ToLower_none by blast+
  moreover have "trim_slug t = t"
    using trim_slug_fixed [of "ToLower ?s"] t(1) by (simp add: trim_slug_of_fixed)
  ultimately show "Canonical t = Some t" using t len by (simp add: Canonical_def)
  show "length t \<le> MaxLen" "2 \<le> length (split_on CHR ''/'' t)" using len t by simp_all
qed (use assms in \<open>auto simp: Canonical_def Let_def split: if_splits\<close>)

text \<open>C40. A canonical slug is a fixed point, so a stored join key is its own canonical form; it is never the
  sentinel, and it names an owner and a repository: at least two segments, none empty, relative or with a
  byte outside the slug alphabet.\<close>

theorem Canonical_idempotent:
  assumes "Canonical s = Some t"
  shows "Canonical t = Some t \<and> IsReal t \<and> length t \<le> MaxLen \<and> 2 \<le> length (split_on CHR ''/'' t) \<and>
    (\<forall>seg\<in>set (split_on CHR ''/'' t). seg \<noteq> [] \<and> seg \<noteq> ''.'' \<and> seg \<noteq> ''..'' \<and> list_all valid_byte seg)"
  using Canonical_fixed [OF assms]
  by (simp add: IsReal_def list_all_iff good_segment_def validSegment_def)

theorem Canonical_idempotent_witness:
  "Canonical ''tiermetric/tier'' = Some ''tiermetric/tier''"
proof -
  have "Canonical '' Tiermetric/Tier.git//'' = Some ''tiermetric/tier''" by code_simp
  from Canonical_idempotent [OF this] show ?thesis by blast
qed

section \<open>The remote and the webhook name one repository\<close>

lemma TrimSpace_ends:
  assumes "s \<noteq> []" and "valid_byte (hd s)" and "valid_byte (last s)"
  shows "TrimSpace s = s"
proof -
  have *: "leading_space sp u = 0" if "u \<noteq> []" "\<forall>p\<in>set sp. p \<noteq> [] \<and> hd p \<noteq> hd u" for sp and u :: string
    using that
  proof (induction sp)
    case (Cons p sp)
    then have "\<not> has_prefix p u" by (cases p; cases u) (auto simp: has_prefix_iff)
    with Cons show ?case by simp
  qed simp
  have "leading_space go_spaces s = 0" "leading_space (map rev go_spaces) (rev s) = 0"
    using assms go_spaces_ends by (intro *; fastforce simp: hd_rev)+
  then show ?thesis by (simp add: TrimSpace_def trim_left.simps)
qed

lemma trim_slug_git: "trim_slug (s @ ''.git'') = trim_slug s"
proof -
  let ?P = "\<lambda>x. x = CHR ''/''" and ?x = "dropWhile (\<lambda>x. x = CHR ''/'') s"
  have "dropWhile ?P (s @ ''.git'') = ?x @ ''.git''"
    by (cases "\<forall>x\<in>set s. ?P x") (auto simp: dropWhile_append)
  then have "trim_byte CHR ''/'' (s @ ''.git'') = ?x @ ''.git''" by (simp add: trim_byte_def)
  then have "trim_suffix ''.git'' (trim_byte CHR ''/'' (s @ ''.git'')) = ?x"
    by (simp add: trim_suffix_def)
  then have "trim_slug (s @ ''.git'') = trim_slug ?x" by (metis trim_slug_absorb)
  also have "\<dots> = trim_slug s" by (metis trim_slug_trimmed trim_byte_left)
  finally show ?thesis .
qed

lemma Canonical_git:
  assumes "TrimSpace s = s" and "s \<noteq> []" and "valid_byte (hd s)" and "\<forall>c\<in>set s. (of_char c :: nat) < 128"
    and "length s + 4 \<le> MaxLen"
  shows "Canonical (s @ ''.git'') = Canonical s"
proof -
  have "TrimSpace (s @ ''.git'') = s @ ''.git''"
    by (rule TrimSpace_ends) (use assms in \<open>auto simp: valid_byte_def is_lower_def\<close>)
  moreover have "ToLower (s @ ''.git'') = ToLower s @ ''.git''"
    using assms(4) by (simp add: ToLower_ascii ascii_lower_def)
  ultimately show ?thesis using assms by (simp add: Canonical_def trim_slug_git)
qed

lemma cut_at_append: "c \<notin> set a \<Longrightarrow> cut_at c (a @ c # b) = Some (a, b)"
proof -
  assume "c \<notin> set a"
  then have "index_byte c (a @ c # b) = Some (length a)" by (induction a) auto
  then show ?thesis by (simp add: cut_at_def)
qed

text \<open>The two producers agree: the slug the collector reads off an scp-like remote of a repository is the
  canonical form of the full name the webhook delivers for it, so cost and outcome rows meet.\<close>

theorem remote_meets_webhook:
  assumes "CHR ''.'' \<in> set host" and "set host \<inter> {CHR '':'', CHR ''@''} = {}"
    and "\<not> contains ''//'' (''git@'' @ host @ '':'' @ full @ ''.git'')"
    and "full \<noteq> []" and "valid_byte (hd full)" and "TrimSpace full = full"
    and "\<forall>c\<in>set full. (of_char c :: nat) < 128" and "length full + 4 \<le> MaxLen"
  shows "FromRemoteURL url_parse (''git@'' @ host @ '':'' @ full @ ''.git'') =
    (case Canonical full of Some slug \<Rightarrow> slug | None \<Rightarrow> [])"
proof -
  let ?raw = "''git@'' @ host @ '':'' @ full @ ''.git''"
  have raw: "TrimSpace ?raw = ?raw" "?raw \<noteq> []"
    by (rule TrimSpace_ends) (simp_all add: valid_byte_def is_lower_def)
  have "cut_at CHR '':'' (''git@'' @ host @ CHR '':'' # full @ ''.git'') = Some (''git@'' @ host, full @ ''.git'')"
    using cut_at_append [of "CHR '':''" "''git@'' @ host" "full @ ''.git''"] assms(2) by simp
  moreover have "cut_at CHR ''@'' (''git@'' @ host) = Some (''git'', host)"
    using cut_at_append [of "CHR ''@''" "''git''" host] by simp
  moreover have "hd full \<noteq> CHR ''/''" "hd full \<noteq> CHR 0x5C"
    using assms(5) by (auto simp: valid_byte_def is_lower_def is_digit_def)
  ultimately show ?thesis
    using assms raw Canonical_git [of full]
    by (simp add: FromRemoteURL_def slug_or_empty_def)
qed

theorem remote_meets_webhook_witness:
  "FromRemoteURL (\<lambda>_. None) (''git@'' @ ''github.com'' @ '':'' @ ''tiermetric/Tier'' @ ''.git'') =
    (case Canonical ''tiermetric/Tier'' of Some slug \<Rightarrow> slug | None \<Rightarrow> [])"
proof (rule remote_meets_webhook)
  show "TrimSpace ''tiermetric/Tier'' = ''tiermetric/Tier''"
    by (rule TrimSpace_ends) (simp_all add: valid_byte_def is_lower_def)
qed (simp_all add: contains_def valid_byte_def is_lower_def MaxLen_def)

end
