(* ===== verification/Collector_Event.thy ===== *)
theory Collector_Event
  imports Repo_Id Health
begin

text \<open>
  The event every collector emits and the sinks it goes to: the sources and keys of
  \<^verbatim>\<open>internal/collector/collector.go\<close>, the clamp of \<^verbatim>\<open>clamp.go\<close>, the closed sets of rules of
  \<^verbatim>\<open>store/attributionrule.go\<close> and \<^verbatim>\<open>issueref/rule.go\<close>, and the ingesters of \<^verbatim>\<open>internal/ingester\<close>. A sink is a
  function on its state that returns an error or nil; SHA-256 is the argument \<open>digest\<close>.
\<close>

section \<open>Sources\<close>

definition SourceJSONL :: string where "SourceJSONL = ''jsonl''"
definition SourceProxy :: string where "SourceProxy = ''proxy''"
definition SourceAnthropicAdmin :: string where "SourceAnthropicAdmin = ''anthropic-admin''"
definition SourceOpenAIUsage :: string where "SourceOpenAIUsage = ''openai-usage''"
definition SourceCopilotBilling :: string where "SourceCopilotBilling = ''copilot-billing''"
definition SourceCursorAdmin :: string where "SourceCursorAdmin = ''cursor-admin''"
definition SourceCodexRollout :: string where "SourceCodexRollout = ''codex-rollout''"
definition SourceOpencode :: string where "SourceOpencode = ''opencode''"
definition SourceMuse :: string where "SourceMuse = ''muse''"

lemmas source_names = SourceJSONL_def SourceProxy_def SourceAnthropicAdmin_def SourceOpenAIUsage_def
  SourceCopilotBilling_def SourceCursorAdmin_def SourceCodexRollout_def SourceOpencode_def SourceMuse_def

definition allSources :: "string list" where
  "allSources = [SourceJSONL, SourceProxy, SourceAnthropicAdmin, SourceOpenAIUsage, SourceCopilotBilling,
     SourceCursorAdmin, SourceCodexRollout, SourceOpencode, SourceMuse]"

definition ShippableSource :: "string \<Rightarrow> bool" where
  "ShippableSource s \<longleftrightarrow> s \<in> {SourceJSONL, SourceCodexRollout, SourceOpencode, SourceMuse}"

definition ShippableSources :: "string list" where
  "ShippableSources = filter ShippableSource allSources"

definition FidelityRealtime :: string where "FidelityRealtime = ''realtime''"
definition FidelityDaily :: string where "FidelityDaily = ''daily''"
definition FidelityEstimated :: string where "FidelityEstimated = ''estimated''"

definition UnattributedIssueID :: string where "UnattributedIssueID = ''unattributed''"
definition UnattributedMain :: string where "UnattributedMain = UnattributedIssueID @ '':main''"
definition UnattributedDetachedHEAD :: string where
  "UnattributedDetachedHEAD = UnattributedIssueID @ '':detached-head''"
definition UnattributedNoIssue :: string where
  "UnattributedNoIssue = UnattributedIssueID @ '':branch-without-issue''"
definition UnattributedForeignRepo :: string where
  "UnattributedForeignRepo = UnattributedIssueID @ '':foreign-repo''"

text \<open>The exact matcher of the read side, and the wider one of the trust boundary.\<close>

definition IsUnattributed :: "string \<Rightarrow> bool" where
  "IsUnattributed i \<longleftrightarrow> i = UnattributedIssueID \<or> has_prefix (UnattributedIssueID @ '':'') i"

definition equal_fold :: "string \<Rightarrow> string \<Rightarrow> bool" where
  "equal_fold a b \<longleftrightarrow> map ascii_lower a = map ascii_lower b"

definition ResemblesUnattributed :: "string \<Rightarrow> bool" where
  "ResemblesUnattributed s =
     (let t = TrimSpace s; prefix = UnattributedIssueID @ '':''
      in equal_fold t UnattributedIssueID \<or>
         length prefix \<le> length t \<and> equal_fold (take (length prefix) t) prefix)"

section \<open>The event\<close>

record token_event =
  RevertBranch :: bool
  CacheWriteEvidence :: string
  PricingBasis :: string
  Developer :: string
  IssueID :: string
  Model :: string
  InputTok :: int
  OutputTok :: int
  CacheRead :: int
  CacheWrite5m :: int
  CacheWrite1h :: int
  CostMicro :: int
  Source :: string
  Fidelity :: string
  IdempotencyKey :: string
  Repo :: string
  PRNumber :: "int option"
  BranchHash :: "string option"
  SessionID :: string
  Host :: string
  BillingMode :: string
  AttributionRule :: string
  IssueRule :: string
  Timestamp :: time

definition zero_event :: token_event where
  "zero_event = \<lparr>RevertBranch = False, CacheWriteEvidence = [], PricingBasis = [], Developer = [], IssueID = [],
     Model = [], InputTok = 0, OutputTok = 0, CacheRead = 0, CacheWrite5m = 0, CacheWrite1h = 0, CostMicro = 0,
     Source = [], Fidelity = [], IdempotencyKey = [], Repo = [], PRNumber = None, BranchHash = None,
     SessionID = [], Host = [], BillingMode = [], AttributionRule = [], IssueRule = [], Timestamp = 0\<rparr>"

definition CacheWriteProvenance :: "bool \<Rightarrow> string" where
  "CacheWriteProvenance nested = (if nested then ''nested'' else ''legacy'')"

section \<open>Idempotency keys\<close>

text \<open>\<^verbatim>\<open>binary.BigEndian.PutUint64\<close> of a length, then the component.\<close>

fun big_endian :: "nat \<Rightarrow> nat \<Rightarrow> string" where
  "big_endian 0 n = []"
| "big_endian (Suc k) n = big_endian k (n div 256) @ [char_of (n mod 256)]"

definition write_lp :: "string \<Rightarrow> string" where
  "write_lp s = big_endian 8 (length s mod 2 ^ 64) @ s"

definition key_preimage :: "string \<Rightarrow> string list \<Rightarrow> string" where
  "key_preimage source parts = concat (map write_lp (source # parts))"

definition IdempotencyKey_of :: "(string \<Rightarrow> string) \<Rightarrow> string \<Rightarrow> string list \<Rightarrow> string" where
  "IdempotencyKey_of digest source parts =
     (if source = [] \<or> parts = [] then [] else digest (key_preimage source parts))"

definition MessageIdempotencyKey :: "(string \<Rightarrow> string) \<Rightarrow> string \<Rightarrow> string \<Rightarrow> string" where
  "MessageIdempotencyKey digest prov upstreamID =
     (if upstreamID = [] then [] else IdempotencyKey_of digest ''msg'' [prov, upstreamID])"

lemma big_endian_length [simp]: "length (big_endian k n) = k"
  by (induction k arbitrary: n) auto

lemma big_endian_inj: "big_endian k m = big_endian k n \<Longrightarrow> m < 256 ^ k \<Longrightarrow> n < 256 ^ k \<Longrightarrow> m = n"
proof (induction k arbitrary: m n)
  case (Suc k)
  have "m div 256 = n div 256"
    by (rule Suc.IH) (use Suc.prems in \<open>simp_all add: less_mult_imp_div_less mult.commute\<close>)
  moreover have "m mod 256 = n mod 256"
  proof -
    have "(char_of (m mod 256) :: char) = char_of (n mod 256)" using Suc.prems(1) by simp
    then have "(of_char (char_of (m mod 256) :: char) :: nat) = of_char (char_of (n mod 256) :: char)" by simp
    then show ?thesis by simp
  qed
  ultimately show ?case by (metis div_mult_mod_eq)
qed simp

lemma write_lp_cancel:
  assumes "write_lp a @ x = write_lp b @ y" and "length a < 2 ^ 64" and "length b < 2 ^ 64"
  shows "a = b \<and> x = y"
proof -
  have "big_endian 8 (length a) = big_endian 8 (length b)" and *: "a @ x = b @ y"
    using assms by (auto simp: write_lp_def append_eq_append_conv)
  then have "length a = length b" using assms(2,3) by (intro big_endian_inj [of 8]) simp_all
  with * show ?thesis by simp
qed

lemma preimage_cancel:
  assumes "concat (map write_lp as) = concat (map write_lp bs)"
    and "\<forall>a\<in>set as. length a < 2 ^ 64" and "\<forall>b\<in>set bs. length b < 2 ^ 64"
  shows "as = bs"
  using assms
proof (induction as arbitrary: bs)
  case Nil
  then show ?case by (cases bs) (auto simp: write_lp_def dest: arg_cong [of _ _ length])
next
  case (Cons a as)
  show ?case
  proof (cases bs)
    case Nil
    then show ?thesis using Cons.prems(1) by (auto simp: write_lp_def dest: arg_cong [of _ _ length])
  next
    case (Cons b bs')
    then have "a = b \<and> concat (map write_lp as) = concat (map write_lp bs')"
      using Cons.prems by (intro write_lp_cancel) auto
    then show ?thesis using Cons Cons.IH [of bs'] Cons.prems by simp
  qed
qed

text \<open>C39. Keys collide only on the same call: unless the digest itself collides on the two inputs, equal
  non-empty keys come from the same source and the same parts, wherever a delimiter could have moved.\<close>

theorem IdempotencyKey_injective:
  assumes "IdempotencyKey_of digest s ps = IdempotencyKey_of digest s' ps'"
    and "s \<noteq> []" and "ps \<noteq> []" and "s' \<noteq> []" and "ps' \<noteq> []"
    and "digest (key_preimage s ps) = digest (key_preimage s' ps') \<Longrightarrow> key_preimage s ps = key_preimage s' ps'"
    and "\<forall>x\<in>set (s # ps @ s' # ps'). length x < 2 ^ 64"
  shows "s = s' \<and> ps = ps'"
proof -
  have "key_preimage s ps = key_preimage s' ps'"
    using assms(1-6) by (simp add: IdempotencyKey_of_def)
  then have "s # ps = s' # ps'"
    unfolding key_preimage_def by (rule preimage_cancel) (use assms(7) in auto)
  then show ?thesis by simp
qed

theorem IdempotencyKey_injective_witness:
  "IdempotencyKey_of id ''p'' [''a'', ''b''] \<noteq> IdempotencyKey_of id ''p'' [''a:b'']"
  using IdempotencyKey_injective [of id "''p''" "[''a'', ''b'']" "''p''" "[''a:b'']"] by auto

section \<open>The clamp of negative counts\<close>

definition ClampNegativeTokens :: "int list \<Rightarrow> int list \<times> bool" where
  "ClampNegativeTokens vs = (map (\<lambda>f. if f < 0 then 0 else f) vs, list_ex (\<lambda>f. f < 0) vs)"

text \<open>The counter by source and the warnings, one per source and model for the life of the process.\<close>

record clamp_state =
  clamp_counts :: "string \<Rightarrow> nat"
  clampWarnSeen :: "string list"

definition RecordClamp :: "bool \<Rightarrow> string \<Rightarrow> clamp_state \<Rightarrow> clamp_state" where
  "RecordClamp installed source st =
     (if installed then st\<lparr>clamp_counts := (clamp_counts st)(source := Suc (clamp_counts st source))\<rparr> else st)"

definition WarnClamp :: "string \<Rightarrow> string \<Rightarrow> clamp_state \<Rightarrow> bool \<times> clamp_state" where
  "WarnClamp source model st =
     (let k = source @ char_of (0 :: nat) # model
      in if k \<in> set (clampWarnSeen st) then (False, st)
         else (True, st\<lparr>clampWarnSeen := k # clampWarnSeen st\<rparr>))"

lemma clamp_nonneg: "f \<in> set (fst (ClampNegativeTokens fs)) \<Longrightarrow> 0 \<le> f"
  by (auto simp: ClampNegativeTokens_def)

lemma clamp_in_int64: "in_int64 f \<Longrightarrow> in_int64 (if f < 0 then 0 else f)"
  by (simp add: in_int64_def min_int64_def max_int64_def)

section \<open>The closed sets of rules\<close>

definition AttributionRuleBranch :: string where "AttributionRuleBranch = ''branch''"
definition AttributionRuleWorktreeCWD :: string where "AttributionRuleWorktreeCWD = ''worktree-cwd''"
definition AttributionRuleWorktreeToolPath :: string where "AttributionRuleWorktreeToolPath = ''worktree-toolpath''"
definition AttributionRuleCarry :: string where "AttributionRuleCarry = ''carry''"

definition AttributionRules :: "string list" where
  "AttributionRules = [AttributionRuleBranch, AttributionRuleWorktreeCWD, AttributionRuleWorktreeToolPath,
     AttributionRuleCarry]"

definition ValidateAttributionRule :: "string \<Rightarrow> bool" where
  "ValidateAttributionRule r \<longleftrightarrow> r = [] \<or> r \<in> set AttributionRules"

definition Rules :: "string list" where
  "Rules = [''branch_first_numeric'', ''branch_tracker_shape'', ''body_close_directive'', ''body_tracker_shape'',
     ''body_bare_hash'', ''commit_close_directive'', ''commit_tracker_shape'', ''branch_first_slot'',
     ''branch_configured_key'', ''body_configured_key'', ''body_relation_ref'', ''commit_configured_key'']"

definition Validate_issue_rule :: "string \<Rightarrow> bool" where
  "Validate_issue_rule r \<longleftrightarrow> r = [] \<or> r \<in> set Rules"

record sink_rules =
  warned :: bool
  issueWarned :: bool

definition fresh_rules :: sink_rules where "fresh_rules = \<lparr>warned = False, issueWarned = False\<rparr>"

definition Apply :: "sink_rules \<Rightarrow> token_event \<Rightarrow> token_event \<times> sink_rules" where
  "Apply r ev =
     (let ev = (if IssueID ev = UnattributedForeignRepo then ev\<lparr>Repo := Unqualified\<rparr> else ev);
          (ev, r) = (if \<not> ValidateAttributionRule (AttributionRule ev)
            then (ev\<lparr>AttributionRule := []\<rparr>, r\<lparr>warned := True\<rparr>) else (ev, r));
          (ev, r) = (if \<not> Validate_issue_rule (IssueRule ev)
            then (ev\<lparr>IssueRule := []\<rparr>, r\<lparr>issueWarned := True\<rparr>) else (ev, r))
      in (ev, r))"

text \<open>The event the rules leave, without the memory of the warnings.\<close>

definition applied :: "token_event \<Rightarrow> token_event" where
  "applied ev = ev\<lparr>Repo := (if IssueID ev = UnattributedForeignRepo then Unqualified else Repo ev),
     AttributionRule := (if ValidateAttributionRule (AttributionRule ev) then AttributionRule ev else []),
     IssueRule := (if Validate_issue_rule (IssueRule ev) then IssueRule ev else [])\<rparr>"

lemma Apply_applied: "fst (Apply r ev) = applied ev"
  by (cases ev) (auto simp: Apply_def applied_def Let_def split: if_splits prod.splits)

section \<open>The ingesters\<close>

text \<open>A sink takes an event and its state to an error or nil and its next state.\<close>

type_synonym ('ev, 's) sink = "'ev \<Rightarrow> 's \<Rightarrow> string option \<times> 's"

text \<open>The row the adapter hands to the store; the columns it leaves at zero are filled by the store.\<close>

record store_event =
  TokenDerived :: bool
  st_event :: token_event

definition store_row :: "token_event \<Rightarrow> store_event" where
  "store_row ev = \<lparr>TokenDerived = True, st_event = ev\<lparr>RevertBranch := False\<rparr>\<rparr>"

definition storeAdapter_Ingest ::
  "(store_event, 's) sink \<Rightarrow> (token_event, sink_rules \<times> 's) sink" where
  "storeAdapter_Ingest ins ev st =
     (let (ev, r) = Apply (fst st) ev; (e, s) = ins (store_row ev) (snd st) in (e, (r, s)))"

definition SourceTagger :: "string \<Rightarrow> (token_event, 's) sink \<Rightarrow> (token_event, 's) sink" where
  "SourceTagger name next_sink ev s = next_sink (ev\<lparr>Source := name\<rparr>) s"

definition RecordingIngester ::
  "('s \<Rightarrow> 's) option \<Rightarrow> (token_event, 's) sink \<Rightarrow> (token_event, 's) sink" where
  "RecordingIngester rec_event next_sink ev s =
     (case rec_event of
        None \<Rightarrow> next_sink ev s
      | Some f \<Rightarrow>
          (let (e, s) = next_sink ev s in if e \<noteq> None then (e, s) else (None, f s)))"

text \<open>The chain of a local collector: tag the source, write the store, and touch the watcher's state; \<open>now\<close>
  is the clock reading of \<^verbatim>\<open>RecordEvent\<close>.\<close>

definition watcher_chain ::
  "time \<Rightarrow> string \<Rightarrow> (store_event, 's) sink \<Rightarrow> (token_event, watcher_state \<times> sink_rules \<times> 's) sink" where
  "watcher_chain now name ins =
     RecordingIngester (Some (apfst (RecordEvent now)))
       (\<lambda>ev st. let (e, s) = SourceTagger name (storeAdapter_Ingest ins) ev (snd st) in (e, (fst st, s)))"

section \<open>The contract of a sink\<close>

text \<open>The loop of a collector: events in order, stopping at the first error.\<close>

fun ingest_all :: "('ev, 's) sink \<Rightarrow> 'ev list \<Rightarrow> 's \<Rightarrow> (string \<times> nat) option \<times> 's" where
  "ingest_all ingest [] s = (None, s)"
| "ingest_all ingest (ev # evs) s =
     (case ingest ev s of
        (None, s') \<Rightarrow> (let (e, t) = ingest_all ingest evs s' in (map_option (apsnd Suc) e, t))
      | (Some e, s') \<Rightarrow> (Some (e, 0), s'))"

text \<open>
  What a collector relies on: \<open>held s\<close> are the rows the sink answers for, \<open>row\<close> is the form an event takes
  in it, and a nil error means that exactly the event's row was added.
\<close>

locale event_sink =
  fixes ingest :: "('ev, 's) sink" and held :: "'s \<Rightarrow> 'row list" and row :: "'ev \<Rightarrow> 'row"
    and ok :: "'s \<Rightarrow> bool"
  assumes accept: "ok s \<Longrightarrow> ingest ev s = (None, s') \<Longrightarrow> held s' = held s @ [row ev]"
    and ok_ingest: "ok s \<Longrightarrow> ok (snd (ingest ev s))"
begin

lemma ingest_all_ok: "ok s \<Longrightarrow> ok (snd (ingest_all ingest evs s))"
proof (induction evs arbitrary: s)
  case (Cons ev evs)
  then show ?case
    using ok_ingest [of s ev] by (cases "ingest ev s"; cases "fst (ingest ev s)") (auto simp: split_beta)
qed simp

lemma ingest_all_held:
  "ok s \<Longrightarrow> ingest_all ingest evs s = (None, t) \<Longrightarrow> held t = held s @ map row evs"
proof (induction evs arbitrary: s)
  case (Cons ev evs)
  obtain e s' where i: "ingest ev s = (e, s')" by fastforce
  with Cons.prems(2) have "e = None" "ingest_all ingest evs s' = (None, t)"
    by (auto split: option.splits prod.splits)
  then show ?case
    using Cons.IH [of s'] accept [of s ev s'] ok_ingest [of s ev] Cons.prems(1) i by simp
qed simp

end

text \<open>The store adapter honours the contract over every store that does.\<close>

definition log_insert :: "(store_event, store_event list) sink" where
  "log_insert r s = (None, s @ [r])"

definition stored_row :: "string \<Rightarrow> token_event \<Rightarrow> store_event" where
  "stored_row name ev = store_row (applied (ev\<lparr>Source := name\<rparr>))"

lemma tagged_store:
  "SourceTagger name (storeAdapter_Ingest ins) ev st =
     (fst (ins (stored_row name ev) (snd st)),
      (snd (Apply (fst st) (ev\<lparr>Source := name\<rparr>)), snd (ins (stored_row name ev) (snd st))))"
  by (simp add: SourceTagger_def storeAdapter_Ingest_def split_beta Let_def Apply_applied stored_row_def)

lemma watcher_chain_eq:
  "watcher_chain now name ins ev (w, r, s) =
     (fst (ins (stored_row name ev) s),
      (if fst (ins (stored_row name ev) s) = None then RecordEvent now w else w,
       snd (Apply r (ev\<lparr>Source := name\<rparr>)), snd (ins (stored_row name ev) s)))"
  by (simp add: watcher_chain_def RecordingIngester_def tagged_store split_beta Let_def)

interpretation local_chain: event_sink "watcher_chain now name log_insert" "\<lambda>(w, r, s). s" "stored_row name" "\<lambda>_. True"
  for now name
  by unfold_locales (auto simp: watcher_chain_eq log_insert_def)

text \<open>What reaches the store from a local collector carries that collector's source, whatever the parser
  left in it, a rule of the closed sets or none, and never a foreign repository's slug; the activity of the
  watcher is recorded exactly when the store accepted the row.\<close>

theorem watcher_chain_stores:
  assumes "watcher_chain now name ins ev (w, r, s) = (e, (w', r', s'))"
  shows "\<exists>row. ins row s = (e, s') \<and> TokenDerived row \<and> Source (st_event row) = name \<and>
    CostMicro (st_event row) = CostMicro ev \<and> IssueID (st_event row) = IssueID ev \<and>
    ValidateAttributionRule (AttributionRule (st_event row)) \<and> Validate_issue_rule (IssueRule (st_event row)) \<and>
    (IssueID ev = UnattributedForeignRepo \<longrightarrow> Repo (st_event row) = Unqualified) \<and>
    w' = (if e = None then RecordEvent now w else w)"
  by (rule exI [of _ "stored_row name ev"])
    (use assms in \<open>auto simp: watcher_chain_eq stored_row_def store_row_def applied_def ValidateAttributionRule_def
      Validate_issue_rule_def prod_eq_iff\<close>)

definition ex_event :: token_event where
  "ex_event = zero_event\<lparr>Developer := ''dev'', IssueID := UnattributedForeignRepo, Repo := ''other/repo'',
     AttributionRule := ''free text'', CostMicro := 5\<rparr>"

theorem watcher_chain_stores_witness:
  "fst (watcher_chain 7 SourceJSONL log_insert ex_event (NewWatcherState, fresh_rules, [])) = None \<and>
   (\<exists>row. log_insert row [] = (None, snd (snd (snd (watcher_chain 7 SourceJSONL log_insert ex_event
      (NewWatcherState, fresh_rules, []))))) \<and> Source (st_event row) = SourceJSONL \<and> Repo (st_event row) = Unqualified)"
proof -
  obtain w r s where *: "watcher_chain 7 SourceJSONL log_insert ex_event (NewWatcherState, fresh_rules, []) = (None, (w, r, s))"
    by (simp add: watcher_chain_eq log_insert_def)
  then show ?thesis using watcher_chain_stores [OF *] by (auto simp: ex_event_def zero_event_def)
qed

end
