(* ===== verification/Proxy_Usage.thy ===== *)
theory Proxy_Usage
  imports Collector_Event Pricing
begin

text \<open>
  The usage parsers of \<^verbatim>\<open>internal/proxy/proxy.go\<close> and \<^verbatim>\<open>sse.go\<close>: Anthropic, the two OpenAI shapes and Gemini, each on
  a whole JSON body and on a stream of SSE events. The JSON decoder is an argument that returns the
  decoded struct, \<open>None\<close> when \<^verbatim>\<open>json.Unmarshal\<close> fails; an absent pointer is \<open>None\<close>. A parser returns the event
  or nil, and the model a clamp was counted for. Counts are \<^verbatim>\<open>int\<close>s: sums wrap, and the differences below
  are between representable values with the smaller one subtracted. The warning of a stream that
  carried both OpenAI shapes is not modelled.
\<close>

section \<open>Wire data\<close>

record cache_creation =
  Ephemeral5m :: int
  Ephemeral1h :: int

record anthropic_usage =
  au_InputTokens :: int
  au_OutputTokens :: int
  au_CacheCreationInputTokens :: int
  au_CacheReadInputTokens :: int
  au_CacheCreation :: "cache_creation option"

record anthropic_response =
  ar_ID :: string
  ar_Model :: string
  ar_Usage :: anthropic_usage

record openai_usage =
  ou_PromptTokens :: int
  ou_CompletionTokens :: int
  ou_CachedTokens :: "int option"

record openai_response =
  or_ID :: string
  or_Model :: string
  or_Usage :: openai_usage

text \<open>The chunk of a stream and the Responses body carry the usage behind a pointer.\<close>

record openai_chunk =
  ck_ID :: string
  ck_Model :: string
  ck_Usage :: "openai_usage option"

record gemini_usage =
  gu_PromptTokenCount :: int
  gu_CandidatesTokenCount :: int
  gu_ThoughtsTokenCount :: int
  gu_CachedContentTokenCount :: int

record gemini_response =
  gr_ResponseID :: string
  gr_ModelVersion :: string
  gr_Usage :: "gemini_usage option"

definition ProviderAnthropic :: string where "ProviderAnthropic = ''anthropic''"
definition ProviderOpenAI :: string where "ProviderOpenAI = ''openai''"
definition ProviderGemini :: string where "ProviderGemini = ''gemini''"

text \<open>What a parser takes from its surroundings: the digest of the keys, the price table and the clock.\<close>

record proxy_env =
  env_digest :: "string \<Rightarrow> string"
  env_prices :: price_table
  env_now :: time

definition idempotencyKeyForProxy :: "proxy_env \<Rightarrow> string \<Rightarrow> string \<Rightarrow> string" where
  "idempotencyKeyForProxy env prov responseID = MessageIdempotencyKey (env_digest env) prov responseID"

text \<open>Who and where a call is attributed to.\<close>

record call_site =
  site_developer :: string
  site_issue :: string
  site_host :: string

text \<open>The struct literal the constructors share.\<close>

definition proxy_event :: "proxy_env \<Rightarrow> call_site \<Rightarrow> string \<Rightarrow> string \<Rightarrow> cost_usage \<Rightarrow> token_event" where
  "proxy_event env site model key u =
     (let (cost, mode) = fst (ComputeCostHost (env_prices env) (site_host site) model u)
      in zero_event\<lparr>Developer := site_developer site, IssueID := site_issue site, Model := model,
        InputTok := cu_Input u, OutputTok := cu_Output u, CacheRead := cu_CacheRead u,
        CacheWrite5m := cu_CacheWrite5m u, CacheWrite1h := cu_CacheWrite1h u, CostMicro := cost,
        Fidelity := FidelityRealtime, IdempotencyKey := key, Host := site_host site, BillingMode := mode,
        Timestamp := env_now env\<rparr>)"

type_synonym parsed = "token_event option \<times> string option"

definition clamp_note :: "string \<Rightarrow> bool \<Rightarrow> string option" where
  "clamp_note model clamped = (if clamped then Some model else None)"

section \<open>Anthropic\<close>

text \<open>The split of the cache writes: the nested object wins, the rolled-up field is the 5-minute class.\<close>

definition parseAnthropic ::
  "proxy_env \<Rightarrow> (string \<Rightarrow> anthropic_response option) \<Rightarrow> string \<Rightarrow> call_site \<Rightarrow> parsed" where
  "parseAnthropic env decode body site =
     (case decode body of
        None \<Rightarrow> (None, None)
      | Some r \<Rightarrow>
          (let us = ar_Usage r
           in if ar_Model r = [] then (None, None)
              else if au_InputTokens us = 0 \<and> au_OutputTokens us = 0 then (None, None)
              else
                (let (w5m, w1h) = (case au_CacheCreation us of
                       Some c \<Rightarrow> (Ephemeral5m c, Ephemeral1h c)
                     | None \<Rightarrow> (au_CacheCreationInputTokens us, 0));
                     (v, clamped) = ClampNegativeTokens
                       [au_InputTokens us, au_OutputTokens us, au_CacheReadInputTokens us, w5m, w1h];
                     u = \<lparr>cu_Input = v ! 0, cu_Output = v ! 1, cu_CacheRead = v ! 2, cu_CacheWrite5m = v ! 3,
                       cu_CacheWrite1h = v ! 4\<rparr>
                 in (Some ((proxy_event env site (ar_Model r) (idempotencyKeyForProxy env ProviderAnthropic (ar_ID r)) u)
                       \<lparr>CacheWriteEvidence := CacheWriteProvenance (au_CacheCreation us \<noteq> None)\<rparr>),
                     clamp_note (ar_Model r) clamped))))"

record anthropicStreamParser =
  as_nestedTTL :: bool
  as_id :: string
  as_model :: string
  as_input :: int
  as_output :: int
  as_cacheRead :: int
  as_cacheWrite5m :: int
  as_cacheWrite1h :: int

definition new_anthropic :: anthropicStreamParser where
  "new_anthropic = \<lparr>as_nestedTTL = False, as_id = [], as_model = [], as_input = 0, as_output = 0, as_cacheRead = 0,
     as_cacheWrite5m = 0, as_cacheWrite1h = 0\<rparr>"

text \<open>\<open>decode_start\<close> reads the struct under \<^verbatim>\<open>message\<close>, \<open>decode_delta\<close> the output count of a delta.\<close>

definition anthropic_OnEvent ::
  "(string \<Rightarrow> anthropic_response option) \<Rightarrow> (string \<Rightarrow> int option) \<Rightarrow> anthropicStreamParser
    \<Rightarrow> string \<times> string \<Rightarrow> anthropicStreamParser" where
  "anthropic_OnEvent decode_start decode_delta a ev =
     (let (eventType, data) = ev
      in if eventType = ''message_start'' then
           (case decode_start data of
              None \<Rightarrow> a
            | Some ms \<Rightarrow>
                (let us = ar_Usage ms;
                     a = a\<lparr>as_id := ar_ID ms, as_model := ar_Model ms, as_input := au_InputTokens us,
                       as_output := au_OutputTokens us, as_cacheRead := au_CacheReadInputTokens us,
                       as_nestedTTL := au_CacheCreation us \<noteq> None\<rparr>
                 in (case au_CacheCreation us of
                       Some c \<Rightarrow> a\<lparr>as_cacheWrite5m := Ephemeral5m c, as_cacheWrite1h := Ephemeral1h c\<rparr>
                     | None \<Rightarrow> a\<lparr>as_cacheWrite5m := au_CacheCreationInputTokens us\<rparr>)))
         else if eventType = ''message_delta'' then
           (case decode_delta data of
              None \<Rightarrow> a
            | Some n \<Rightarrow> if 0 < n then a\<lparr>as_output := n\<rparr> else a)
         else a)"

definition anthropic_Finalise :: "proxy_env \<Rightarrow> call_site \<Rightarrow> anthropicStreamParser \<Rightarrow> parsed" where
  "anthropic_Finalise env site a =
     (if as_model a = [] then (None, None)
      else
        (let (v, clamped) = ClampNegativeTokens
               [as_input a, as_output a, as_cacheRead a, as_cacheWrite5m a, as_cacheWrite1h a];
             u = \<lparr>cu_Input = v ! 0, cu_Output = v ! 1, cu_CacheRead = v ! 2, cu_CacheWrite5m = v ! 3,
               cu_CacheWrite1h = v ! 4\<rparr>
         in (if list_all (\<lambda>n. n = 0) v then None
             else Some ((proxy_event env site (as_model a) (idempotencyKeyForProxy env ProviderAnthropic (as_id a)) u)
               \<lparr>CacheWriteEvidence := CacheWriteProvenance (as_nestedTTL a)\<rparr>),
             clamp_note (as_model a) clamped)))"

section \<open>OpenAI\<close>

definition openAITokenEvent ::
  "proxy_env \<Rightarrow> call_site \<Rightarrow> string \<Rightarrow> string \<Rightarrow> int \<Rightarrow> int \<Rightarrow> int \<Rightarrow> parsed" where
  "openAITokenEvent env site rid model inp out cached =
     (let (v, clamped) = ClampNegativeTokens [inp, out, cached];
          cached = (if v ! 0 < v ! 2 then v ! 0 else v ! 2);
          fresh = v ! 0 - cached;
          u = \<lparr>cu_Input = fresh, cu_Output = v ! 1, cu_CacheRead = cached, cu_CacheWrite5m = 0, cu_CacheWrite1h = 0\<rparr>
      in (Some (proxy_event env site model (idempotencyKeyForProxy env ProviderOpenAI rid) u), clamp_note model clamped))"

definition cached_tokens :: "openai_usage \<Rightarrow> int" where
  "cached_tokens us = (case ou_CachedTokens us of Some n \<Rightarrow> n | None \<Rightarrow> 0)"

definition parseOpenAIChat ::
  "proxy_env \<Rightarrow> (string \<Rightarrow> openai_response option) \<Rightarrow> string \<Rightarrow> call_site \<Rightarrow> parsed" where
  "parseOpenAIChat env decode body site =
     (case decode body of
        None \<Rightarrow> (None, None)
      | Some r \<Rightarrow>
          (let us = or_Usage r
           in if or_Model r = [] then (None, None)
              else if ou_PromptTokens us = 0 \<and> ou_CompletionTokens us = 0 then (None, None)
              else openAITokenEvent env site (or_ID r) (or_Model r) (ou_PromptTokens us) (ou_CompletionTokens us)
                (cached_tokens us)))"

definition parseOpenAIResponses ::
  "proxy_env \<Rightarrow> (string \<Rightarrow> openai_chunk option) \<Rightarrow> string \<Rightarrow> call_site \<Rightarrow> parsed" where
  "parseOpenAIResponses env decode body site =
     (case decode body of
        None \<Rightarrow> (None, None)
      | Some r \<Rightarrow>
          (if ck_Model r = [] then (None, None)
           else
             (case ck_Usage r of
                None \<Rightarrow> (None, None)
              | Some us \<Rightarrow>
                  if ou_PromptTokens us = 0 \<and> ou_CompletionTokens us = 0 then (None, None)
                  else openAITokenEvent env site (ck_ID r) (ck_Model r) (ou_PromptTokens us) (ou_CompletionTokens us)
                    (cached_tokens us))))"

text \<open>The shape of a body; the probe keeps which of the four count keys are present.\<close>

datatype openAIWireShape = shapeChatCompletions | shapeResponses

record usage_keys =
  has_input :: bool
  has_output :: bool
  has_prompt :: bool
  has_completion :: bool

record shape_probe =
  pr_Object :: string
  pr_Usage :: "usage_keys option"

definition quoted :: "string \<Rightarrow> string" where "quoted s = CHR 0x22 # s @ [CHR 0x22]"

definition openAIShape :: "(string \<Rightarrow> shape_probe option) \<Rightarrow> string \<Rightarrow> openAIWireShape" where
  "openAIShape probe body =
     (if \<not> contains (quoted ''input_tokens'') body \<and> \<not> contains (quoted ''output_tokens'') body
      then shapeChatCompletions
      else
        (case probe body of
           None \<Rightarrow> shapeChatCompletions
         | Some p \<Rightarrow>
             if pr_Object p = ''response'' then shapeResponses
             else if pr_Object p = ''chat.completion'' then shapeChatCompletions
             else
               (case pr_Usage p of
                  None \<Rightarrow> shapeChatCompletions
                | Some k \<Rightarrow>
                    if (has_input k \<or> has_output k) \<and> \<not> has_prompt k \<and> \<not> has_completion k
                    then shapeResponses else shapeChatCompletions)))"

record openai_decoders =
  dec_probe :: "string \<Rightarrow> shape_probe option"
  dec_chat :: "string \<Rightarrow> openai_response option"
  dec_responses :: "string \<Rightarrow> openai_chunk option"
  dec_chat_chunk :: "string \<Rightarrow> openai_chunk option"
  dec_responses_chunk :: "string \<Rightarrow> openai_chunk option option"

definition parseOpenAI :: "proxy_env \<Rightarrow> openai_decoders \<Rightarrow> string \<Rightarrow> call_site \<Rightarrow> parsed" where
  "parseOpenAI env d body site =
     (if openAIShape (dec_probe d) body = shapeResponses then parseOpenAIResponses env (dec_responses d) body site
      else parseOpenAIChat env (dec_chat d) body site)"

text \<open>Both sub-parsers of a stream keep the same state.\<close>

record openAIStreamState =
  os_id :: string
  os_model :: string
  os_input :: int
  os_output :: int
  os_cached :: int
  os_gotUsage :: bool

definition new_openai_state :: openAIStreamState where
  "new_openai_state = \<lparr>os_id = [], os_model = [], os_input = 0, os_output = 0, os_cached = 0, os_gotUsage = False\<rparr>"

definition populated :: "openai_usage \<Rightarrow> bool" where
  "populated us \<longleftrightarrow> 0 < wrap64 (ou_PromptTokens us + ou_CompletionTokens us)"

definition latch :: "openai_chunk \<Rightarrow> openAIStreamState \<Rightarrow> openAIStreamState" where
  "latch ck q =
     (let q = (if ck_ID ck \<noteq> [] then q\<lparr>os_id := ck_ID ck\<rparr> else q);
          q = (if ck_Model ck \<noteq> [] then q\<lparr>os_model := ck_Model ck\<rparr> else q)
      in (case ck_Usage ck of
            None \<Rightarrow> q
          | Some us \<Rightarrow>
              if populated us then q\<lparr>os_input := ou_PromptTokens us, os_output := ou_CompletionTokens us,
                os_cached := cached_tokens us, os_gotUsage := True\<rparr>
              else q))"

definition chat_OnEvent ::
  "(string \<Rightarrow> openai_chunk option) \<Rightarrow> openAIStreamState \<Rightarrow> string \<Rightarrow> openAIStreamState" where
  "chat_OnEvent decode q data =
     (if data = ''[DONE]'' then q else (case decode data of None \<Rightarrow> q | Some ck \<Rightarrow> latch ck q))"

text \<open>The outer option of the decoder is the error, the inner one the pointer to \<^verbatim>\<open>response\<close>.\<close>

definition responses_OnEvent ::
  "(string \<Rightarrow> openai_chunk option option) \<Rightarrow> openAIStreamState \<Rightarrow> string \<Rightarrow> openAIStreamState" where
  "responses_OnEvent decode q data =
     (if \<not> contains (quoted ''usage'') data then q
      else (case decode data of Some (Some ck) \<Rightarrow> latch ck q | _ \<Rightarrow> q))"

definition chat_Finalise :: "proxy_env \<Rightarrow> call_site \<Rightarrow> openAIStreamState \<Rightarrow> parsed" where
  "chat_Finalise env site q =
     (if \<not> os_gotUsage q \<or> os_model q = [] then (None, None)
      else openAITokenEvent env site (os_id q) (os_model q) (os_input q) (os_output q) (os_cached q))"

definition responses_Finalise :: "proxy_env \<Rightarrow> call_site \<Rightarrow> openAIStreamState \<Rightarrow> parsed" where
  "responses_Finalise env site q =
     (if \<not> os_gotUsage q \<or> os_model q = [] \<or> os_input q = 0 \<and> os_output q = 0 then (None, None)
      else openAITokenEvent env site (os_id q) (os_model q) (os_input q) (os_output q) (os_cached q))"

record openAIStreamParser =
  op_chat :: openAIStreamState
  op_responses :: openAIStreamState

definition new_openai :: openAIStreamParser where
  "new_openai = \<lparr>op_chat = new_openai_state, op_responses = new_openai_state\<rparr>"

definition responsesEventPrefix :: string where "responsesEventPrefix = ''response.''"

definition openai_OnEvent ::
  "openai_decoders \<Rightarrow> openAIStreamParser \<Rightarrow> string \<times> string \<Rightarrow> openAIStreamParser" where
  "openai_OnEvent d p ev =
     (let (eventType, data) = ev
      in if has_prefix responsesEventPrefix eventType
         then p\<lparr>op_responses := responses_OnEvent (dec_responses_chunk d) (op_responses p) data\<rparr>
         else p\<lparr>op_chat := chat_OnEvent (dec_chat_chunk d) (op_chat p) data\<rparr>)"

definition openai_Finalise :: "proxy_env \<Rightarrow> call_site \<Rightarrow> openAIStreamParser \<Rightarrow> parsed" where
  "openai_Finalise env site p =
     (case responses_Finalise env site (op_responses p) of
        (Some ev, note) \<Rightarrow> (Some ev, note)
      | (None, _) \<Rightarrow> chat_Finalise env site (op_chat p))"

section \<open>Gemini\<close>

definition gemini_event :: "proxy_env \<Rightarrow> call_site \<Rightarrow> string \<Rightarrow> string \<Rightarrow> gemini_usage \<Rightarrow> parsed" where
  "gemini_event env site rid model us =
     (if gu_PromptTokenCount us = 0 \<and> gu_CandidatesTokenCount us = 0 \<and> gu_ThoughtsTokenCount us = 0 then (None, None)
      else
        (let model = (if model = [] then ''gemini-unknown'' else model);
             (v, clamped) = ClampNegativeTokens [gu_PromptTokenCount us, gu_CandidatesTokenCount us,
               gu_ThoughtsTokenCount us, gu_CachedContentTokenCount us];
             cached = (if v ! 0 < v ! 3 then v ! 0 else v ! 3);
             u = \<lparr>cu_Input = v ! 0 - cached, cu_Output = wrap64 (v ! 1 + v ! 2), cu_CacheRead = cached,
               cu_CacheWrite5m = 0, cu_CacheWrite1h = 0\<rparr>
         in (Some (proxy_event env site model (idempotencyKeyForProxy env ProviderGemini rid) u), clamp_note model clamped)))"

definition zero_gemini :: gemini_usage where
  "zero_gemini = \<lparr>gu_PromptTokenCount = 0, gu_CandidatesTokenCount = 0, gu_ThoughtsTokenCount = 0,
     gu_CachedContentTokenCount = 0\<rparr>"

definition parseGemini ::
  "proxy_env \<Rightarrow> (string \<Rightarrow> gemini_response option) \<Rightarrow> string \<Rightarrow> call_site \<Rightarrow> parsed" where
  "parseGemini env decode body site =
     (case decode body of
        None \<Rightarrow> (None, None)
      | Some r \<Rightarrow> gemini_event env site (gr_ResponseID r) (gr_ModelVersion r)
          (case gr_Usage r of Some us \<Rightarrow> us | None \<Rightarrow> zero_gemini))"

record geminiStreamParser =
  gs_responseID :: string
  gs_model :: string
  gs_usage :: gemini_usage

definition new_gemini :: geminiStreamParser where
  "new_gemini = \<lparr>gs_responseID = [], gs_model = [], gs_usage = zero_gemini\<rparr>"

definition gemini_OnEvent ::
  "(string \<Rightarrow> gemini_response option) \<Rightarrow> geminiStreamParser \<Rightarrow> string \<times> string \<Rightarrow> geminiStreamParser" where
  "gemini_OnEvent decode g ev =
     (case decode (snd ev) of
        None \<Rightarrow> g
      | Some ck \<Rightarrow>
          (let g = (if gr_ResponseID ck \<noteq> [] then g\<lparr>gs_responseID := gr_ResponseID ck\<rparr> else g);
               g = (if gr_ModelVersion ck \<noteq> [] then g\<lparr>gs_model := gr_ModelVersion ck\<rparr> else g)
           in (case gr_Usage ck of Some us \<Rightarrow> g\<lparr>gs_usage := us\<rparr> | None \<Rightarrow> g)))"

definition gemini_Finalise :: "proxy_env \<Rightarrow> call_site \<Rightarrow> geminiStreamParser \<Rightarrow> parsed" where
  "gemini_Finalise env site g = gemini_event env site (gs_responseID g) (gs_model g) (gs_usage g)"

section \<open>What every parser promises\<close>

definition usage_of :: "token_event \<Rightarrow> cost_usage" where
  "usage_of ev = \<lparr>cu_Input = InputTok ev, cu_Output = OutputTok ev, cu_CacheRead = CacheRead ev,
     cu_CacheWrite5m = CacheWrite5m ev, cu_CacheWrite1h = CacheWrite1h ev\<rparr>"

text \<open>Attributed to the call site and priced, with its mode, at that host for the counts it carries.\<close>

definition attributed :: "proxy_env \<Rightarrow> call_site \<Rightarrow> token_event \<Rightarrow> bool" where
  "attributed env site ev \<longleftrightarrow> Developer ev = site_developer site \<and> IssueID ev = site_issue site \<and>
     Host ev = site_host site \<and> Source ev = [] \<and> Repo ev = [] \<and> Fidelity ev = FidelityRealtime \<and>
     Timestamp ev = env_now env \<and>
     (CostMicro ev, BillingMode ev) = fst (ComputeCostHost (env_prices env) (site_host site) (Model ev) (usage_of ev))"

definition nonneg_counts :: "token_event \<Rightarrow> bool" where
  "nonneg_counts ev \<longleftrightarrow> 0 \<le> InputTok ev \<and> 0 \<le> OutputTok ev \<and> 0 \<le> CacheRead ev \<and> 0 \<le> CacheWrite5m ev \<and>
     0 \<le> CacheWrite1h ev"

lemma proxy_event_fields [simp]:
  "Developer (proxy_event env site model k u) = site_developer site"
  "IssueID (proxy_event env site model k u) = site_issue site"
  "Model (proxy_event env site model k u) = model"
  "InputTok (proxy_event env site model k u) = cu_Input u"
  "OutputTok (proxy_event env site model k u) = cu_Output u"
  "CacheRead (proxy_event env site model k u) = cu_CacheRead u"
  "CacheWrite5m (proxy_event env site model k u) = cu_CacheWrite5m u"
  "CacheWrite1h (proxy_event env site model k u) = cu_CacheWrite1h u"
  "Fidelity (proxy_event env site model k u) = FidelityRealtime"
  "IdempotencyKey (proxy_event env site model k u) = k"
  "Host (proxy_event env site model k u) = site_host site"
  "Source (proxy_event env site model k u) = []" "Repo (proxy_event env site model k u) = []"
  "Timestamp (proxy_event env site model k u) = env_now env"
  "(CostMicro (proxy_event env site model k u), BillingMode (proxy_event env site model k u)) =
     fst (ComputeCostHost (env_prices env) (site_host site) model u)"
  by (simp_all add: proxy_event_def zero_event_def split_beta Let_def)

lemma proxy_event_attributed [simp]:
  "attributed env site (proxy_event env site model k u)"
  "attributed env site (proxy_event env site model k u\<lparr>CacheWriteEvidence := e\<rparr>)"
proof -
  have u: "usage_of (proxy_event env site model k u) = u"
    "usage_of (proxy_event env site model k u\<lparr>CacheWriteEvidence := e\<rparr>) = u"
    by (simp_all add: usage_of_def)
  have "CostMicro (x\<lparr>CacheWriteEvidence := e\<rparr>) = CostMicro x" "BillingMode (x\<lparr>CacheWriteEvidence := e\<rparr>) = BillingMode x"
    for x :: token_event by simp_all
  then show "attributed env site (proxy_event env site model k u)"
    "attributed env site (proxy_event env site model k u\<lparr>CacheWriteEvidence := e\<rparr>)"
    by (simp_all add: attributed_def u del: prod.collapse)
qed

lemma proxy_event_nonneg [simp]:
  "nonneg_counts (proxy_event env site model k u) = (0 \<le> cu_Input u \<and> 0 \<le> cu_Output u \<and> 0 \<le> cu_CacheRead u \<and>
     0 \<le> cu_CacheWrite5m u \<and> 0 \<le> cu_CacheWrite1h u)"
  by (simp add: nonneg_counts_def)

lemma nonneg_evidence [simp]: "nonneg_counts (ev\<lparr>CacheWriteEvidence := e\<rparr>) = nonneg_counts ev"
  by (simp add: nonneg_counts_def)

lemma clamp_list: "ClampNegativeTokens vs = (v, c) \<longleftrightarrow> v = map (max 0) vs \<and> c = list_ex (\<lambda>n. n < 0) vs"
  by (auto simp: ClampNegativeTokens_def max_def)

lemmas clamped = ClampNegativeTokens_def clamp_note_def Let_def split_beta

lemma openAITokenEvent_sound:
  "openAITokenEvent env site rid model inp out cached = (Some ev, n) \<Longrightarrow> attributed env site ev \<and> nonneg_counts ev"
  by (auto simp: openAITokenEvent_def clamped)

lemma chat_Finalise_sound: "chat_Finalise env site q = (Some ev, n) \<Longrightarrow> attributed env site ev \<and> nonneg_counts ev"
  by (auto simp: chat_Finalise_def openAITokenEvent_sound split: if_splits)

lemma responses_Finalise_sound:
  "responses_Finalise env site q = (Some ev, n) \<Longrightarrow> attributed env site ev \<and> nonneg_counts ev"
  by (auto simp: responses_Finalise_def openAITokenEvent_sound split: if_splits)

lemma anthropic_Finalise_sound:
  "anthropic_Finalise env site a = (Some ev, n) \<Longrightarrow> attributed env site ev \<and> nonneg_counts ev"
  by (auto simp: anthropic_Finalise_def clamped split: if_splits)

lemma openai_Finalise_sound:
  "openai_Finalise env site p = (Some ev, n) \<Longrightarrow> attributed env site ev \<and> nonneg_counts ev"
  using chat_Finalise_sound responses_Finalise_sound
  by (auto simp: openai_Finalise_def split: prod.splits option.splits)

lemma gemini_event_sound: "gemini_event env site rid model us = (Some ev, n) \<Longrightarrow> attributed env site ev"
  by (auto simp: gemini_event_def clamped split: if_splits)

text \<open>The OpenAI carve-out loses and doubles nothing: for every triple of wire counts, the fresh input and
  the cached input of the event are non-negative, do not overlap and add up to the clamped input, the
  output is the clamped output, the event is priced for exactly these counts, and a clamp is noted
  exactly when a count was negative.\<close>

theorem openAI_carve_out:
  assumes "openAITokenEvent env site rid model inp out cached = (Some ev, note)"
  shows "InputTok ev + CacheRead ev = max 0 inp \<and> OutputTok ev = max 0 out \<and>
    CacheRead ev = min (max 0 cached) (max 0 inp) \<and> CacheWrite5m ev = 0 \<and> CacheWrite1h ev = 0 \<and>
    nonneg_counts ev \<and> attributed env site ev \<and> (note = None \<longleftrightarrow> 0 \<le> inp \<and> 0 \<le> out \<and> 0 \<le> cached)"
  using assms openAITokenEvent_sound [OF assms] by (auto simp: openAITokenEvent_def clamped max_def min_def)

definition ex_env :: proxy_env where
  "ex_env = \<lparr>env_digest = id, env_prices = ex_table, env_now = 1\<rparr>"
definition ex_site :: call_site where
  "ex_site = \<lparr>site_developer = ''dev'', site_issue = ''T-1'', site_host = ''api.openai.com''\<rparr>"

theorem openAI_carve_out_witness:
  "\<exists>ev note. openAITokenEvent ex_env ex_site ''r'' ''m'' 100 (- 3) 250 = (Some ev, note) \<and>
     InputTok ev = 0 \<and> CacheRead ev = 100 \<and> OutputTok ev = 0 \<and> note \<noteq> None"
proof -
  obtain ev nt where *: "openAITokenEvent ex_env ex_site ''r'' ''m'' 100 (- 3) 250 = (Some ev, nt)"
    by (simp add: openAITokenEvent_def split_beta Let_def)
  show ?thesis using * openAI_carve_out [OF *] by auto
qed

section \<open>A stream and a body agree\<close>

text \<open>The last positive output count of the deltas that decode.\<close>

fun last_delta :: "(string \<Rightarrow> int option) \<Rightarrow> (string \<times> string) list \<Rightarrow> int \<Rightarrow> int" where
  "last_delta dd [] n = n"
| "last_delta dd ((t, d) # es) n =
     last_delta dd es (if t = ''message_delta'' then (case dd d of Some k \<Rightarrow> if 0 < k then k else n | None \<Rightarrow> n) else n)"

lemma anthropic_deltas:
  "\<forall>e\<in>set es. fst e \<noteq> ''message_start'' \<Longrightarrow>
   foldl (anthropic_OnEvent ds dd) a es = a\<lparr>as_output := last_delta dd es (as_output a)\<rparr>"
proof (induction es arbitrary: a)
  case (Cons e es)
  obtain t d where e: "e = (t, d)" by fastforce
  have "anthropic_OnEvent ds dd a e = a\<lparr>as_output := last_delta dd [e] (as_output a)\<rparr>"
    using Cons.prems e by (auto simp: anthropic_OnEvent_def split: option.splits)
  then show ?case using Cons e by simp
qed simp

lemma anthropic_agree:
  assumes "ds start = Some m" and "\<forall>e\<in>set es. fst e \<noteq> ''message_start''"
    and "decode body = Some (m\<lparr>ar_Usage := (ar_Usage m)
      \<lparr>au_OutputTokens := last_delta dd es (au_OutputTokens (ar_Usage m))\<rparr>\<rparr>)"
    and "0 < au_InputTokens (ar_Usage m) \<or> 0 < last_delta dd es (au_OutputTokens (ar_Usage m))"
  shows "anthropic_Finalise env site
      (foldl (anthropic_OnEvent ds dd) new_anthropic ((''message_start'', start) # es)) =
    parseAnthropic env decode body site"
proof -
  let ?a = "anthropic_OnEvent ds dd new_anthropic (''message_start'', start)"
  let ?out = "last_delta dd es (au_OutputTokens (ar_Usage m))"
  have o: "as_output ?a = au_OutputTokens (ar_Usage m)"
    using assms(1) by (auto simp: anthropic_OnEvent_def Let_def split: option.splits)
  have "foldl (anthropic_OnEvent ds dd) new_anthropic ((''message_start'', start) # es) = ?a\<lparr>as_output := ?out\<rparr>"
    using anthropic_deltas [OF assms(2), of ds dd ?a] by (simp add: o)
  moreover have "anthropic_Finalise env site (?a\<lparr>as_output := ?out\<rparr>) = parseAnthropic env decode body site"
    using assms(1,3,4)
    by (cases "au_CacheCreation (ar_Usage m)")
      (auto simp: anthropic_Finalise_def parseAnthropic_def anthropic_OnEvent_def new_anthropic_def clamped)
  ultimately show ?thesis by simp
qed

text \<open>One call, two transports, one row: an Anthropic stream that opens with a \<^verbatim>\<open>message_start\<close> finalises to
  exactly the event, key and price included, that the body with the same usage and the last positive
  output count would have been parsed to.\<close>

theorem anthropic_paths_agree:
  assumes "ds start = Some m" and "\<forall>e\<in>set es. fst e \<noteq> ''message_start''"
    and "decode body = Some (m\<lparr>ar_Usage := (ar_Usage m)
      \<lparr>au_OutputTokens := last_delta dd es (au_OutputTokens (ar_Usage m))\<rparr>\<rparr>)"
    and "0 < au_InputTokens (ar_Usage m) \<or> 0 < last_delta dd es (au_OutputTokens (ar_Usage m))"
  shows "anthropic_Finalise env site
      (foldl (anthropic_OnEvent ds dd) new_anthropic ((''message_start'', start) # es)) =
    parseAnthropic env decode body site"
  using assms by (rule anthropic_agree)

definition ex_message :: anthropic_response where
  "ex_message = \<lparr>ar_ID = ''msg_1'', ar_Model = ''claude-x'', ar_Usage = \<lparr>au_InputTokens = 10, au_OutputTokens = 1,
     au_CacheCreationInputTokens = 0, au_CacheReadInputTokens = 5, au_CacheCreation = None\<rparr>\<rparr>"

theorem anthropic_paths_agree_witness:
  "anthropic_Finalise ex_env ex_site (foldl (anthropic_OnEvent (\<lambda>_. Some ex_message) (\<lambda>_. Some 7)) new_anthropic
      [(''message_start'', ''s''), (''ping'', ''p''), (''message_delta'', ''d'')]) =
   parseAnthropic ex_env (\<lambda>_. Some (ex_message\<lparr>ar_Usage := (ar_Usage ex_message)\<lparr>au_OutputTokens := 7\<rparr>\<rparr>)) ''b'' ex_site"
  by (rule anthropic_paths_agree [where m = ex_message]) (simp_all add: ex_message_def)

text \<open>The chunks a run of chat events decodes to, and the last populated usage among them.\<close>

definition chat_chunks :: "openai_decoders \<Rightarrow> (string \<times> string) list \<Rightarrow> openai_chunk list" where
  "chat_chunks d es = List.map_filter (\<lambda>e. if snd e = ''[DONE]'' then None else dec_chat_chunk d (snd e)) es"

definition last_nonempty :: "string list \<Rightarrow> string" where
  "last_nonempty xs = (case find (\<lambda>x. x \<noteq> []) (rev xs) of Some x \<Rightarrow> x | None \<Rightarrow> [])"

definition last_usage :: "openai_chunk list \<Rightarrow> openai_usage option" where
  "last_usage cks = find populated (rev (List.map_filter ck_Usage cks))"

definition latched :: "openai_chunk list \<Rightarrow> openAIStreamState" where
  "latched cks = (case last_usage cks of
     None \<Rightarrow> new_openai_state
   | Some us \<Rightarrow> new_openai_state\<lparr>os_input := ou_PromptTokens us, os_output := ou_CompletionTokens us,
       os_cached := cached_tokens us, os_gotUsage := True\<rparr>)
     \<lparr>os_id := last_nonempty (map ck_ID cks), os_model := last_nonempty (map ck_Model cks)\<rparr>"

lemma map_filter_append: "List.map_filter f (xs @ ys) = List.map_filter f xs @ List.map_filter f ys"
  by (induction xs) (auto simp: map_filter_simps split: option.splits)

lemma last_snoc:
  "last_nonempty (xs @ [x]) = (if x \<noteq> [] then x else last_nonempty xs)"
  "last_usage (cks @ [ck]) = (case ck_Usage ck of
     Some us \<Rightarrow> if populated us then Some us else last_usage cks | None \<Rightarrow> last_usage cks)"
  by (auto simp: last_nonempty_def last_usage_def map_filter_append map_filter_simps split: option.splits)

lemma latch_run: "foldl (\<lambda>q ck. latch ck q) new_openai_state cks = latched cks"
proof (induction cks rule: rev_induct)
  case Nil
  then show ?case
    by (simp add: latched_def last_usage_def last_nonempty_def new_openai_state_def map_filter_simps)
next
  case (snoc ck cks)
  then show ?case
    by (cases "last_usage cks"; cases "ck_Usage ck")
      (auto simp: latched_def latch_def last_snoc new_openai_state_def)
qed

lemma chat_run:
  "\<forall>e\<in>set es. \<not> has_prefix responsesEventPrefix (fst e) \<Longrightarrow>
   foldl (openai_OnEvent d) p es = p\<lparr>op_chat := foldl (\<lambda>q ck. latch ck q) (op_chat p) (chat_chunks d es)\<rparr>"
proof (induction es arbitrary: p)
  case (Cons e es)
  then show ?case
    by (cases "snd e = ''[DONE]''"; cases "dec_chat_chunk d (snd e)")
      (auto simp: openai_OnEvent_def chat_OnEvent_def chat_chunks_def map_filter_simps split_beta Let_def)
qed (simp add: chat_chunks_def map_filter_simps)

text \<open>A later zeroed block never erases a count: an OpenAI chat stream finalises to what a body with the
  last populated usage block of the stream, the last id and the last model parses to, and to nothing when
  no block was populated or no chunk named a model.\<close>

theorem openai_stream_last_usage:
  assumes "\<forall>e\<in>set es. \<not> has_prefix responsesEventPrefix (fst e)"
  shows "openai_Finalise env site (foldl (openai_OnEvent d) new_openai es) =
    (case last_usage (chat_chunks d es) of
       None \<Rightarrow> (None, None)
     | Some us \<Rightarrow> parseOpenAIChat env (\<lambda>_. Some \<lparr>or_ID = last_nonempty (map ck_ID (chat_chunks d es)),
         or_Model = last_nonempty (map ck_Model (chat_chunks d es)), or_Usage = us\<rparr>) body site)"
proof -
  have run: "foldl (openai_OnEvent d) new_openai es = new_openai\<lparr>op_chat := latched (chat_chunks d es)\<rparr>"
    using chat_run [OF assms, of d new_openai] latch_run by (simp add: new_openai_def)
  show ?thesis
  proof (cases "last_usage (chat_chunks d es)")
    case None
    then show ?thesis
      unfolding run by (simp add: openai_Finalise_def responses_Finalise_def chat_Finalise_def new_openai_def latched_def
          new_openai_state_def)
  next
    case (Some us)
    then have "populated us" by (auto simp: last_usage_def find_Some_iff)
    then have "\<not> (ou_PromptTokens us = 0 \<and> ou_CompletionTokens us = 0)"
      by (auto simp: populated_def wrap64_def)
    with Some show ?thesis
      unfolding run by (auto simp: openai_Finalise_def responses_Finalise_def chat_Finalise_def new_openai_def latched_def
          new_openai_state_def parseOpenAIChat_def Let_def)
  qed
qed

definition ex_decoders :: openai_decoders where
  "ex_decoders = \<lparr>dec_probe = (\<lambda>_. None), dec_chat = (\<lambda>_. None), dec_responses = (\<lambda>_. None),
     dec_chat_chunk = (\<lambda>s. Some \<lparr>ck_ID = ''chatcmpl-1'', ck_Model = ''m'', ck_Usage = (if s = ''u'' then
       Some \<lparr>ou_PromptTokens = 12, ou_CompletionTokens = 3, ou_CachedTokens = Some 4\<rparr>
       else Some \<lparr>ou_PromptTokens = 0, ou_CompletionTokens = 0, ou_CachedTokens = None\<rparr>)\<rparr>),
     dec_responses_chunk = (\<lambda>_. None)\<rparr>"

theorem openai_stream_last_usage_witness:
  "openai_Finalise ex_env ex_site (foldl (openai_OnEvent ex_decoders) new_openai [([], ''a''), ([], ''u''), ([], ''z'')]) =
   openAITokenEvent ex_env ex_site ''chatcmpl-1'' ''m'' 12 3 4"
proof -
  have "last_usage (chat_chunks ex_decoders [([], ''a''), ([], ''u''), ([], ''z'')]) =
      Some \<lparr>ou_PromptTokens = 12, ou_CompletionTokens = 3, ou_CachedTokens = Some 4\<rparr>"
    by (simp add: chat_chunks_def ex_decoders_def map_filter_simps last_usage_def populated_def wrap64_def)
  then show ?thesis
    using openai_stream_last_usage [of "[([], ''a''), ([], ''u''), ([], ''z'')]" ex_env ex_site ex_decoders]
    by (simp add: responsesEventPrefix_def parseOpenAIChat_def cached_tokens_def chat_chunks_def ex_decoders_def
        map_filter_simps last_nonempty_def)
qed

section \<open>Where the code falls short\<close>

text \<open>The two Anthropic transports disagree on a call that is billed for its cache only: the stream stores
  the cached tokens, the body is dropped as if it carried no usage.\<close>

theorem cache_only_body_is_dropped:
  assumes "ar_Model m \<noteq> []" and "au_InputTokens (ar_Usage m) = 0" and "au_OutputTokens (ar_Usage m) = 0"
    and "0 < au_CacheReadInputTokens (ar_Usage m)" and "ds start = Some m"
  shows "parseAnthropic env (\<lambda>_. Some m) body site = (None, None) \<and>
    (\<exists>ev note. anthropic_Finalise env site (anthropic_OnEvent ds dd new_anthropic (''message_start'', start)) = (Some ev, note) \<and>
       CacheRead ev = au_CacheReadInputTokens (ar_Usage m))"
proof -
  have "\<exists>ev nt. anthropic_Finalise env site (anthropic_OnEvent ds dd new_anthropic (''message_start'', start)) = (Some ev, nt) \<and>
       CacheRead ev = au_CacheReadInputTokens (ar_Usage m)"
    using assms by (cases "au_CacheCreation (ar_Usage m)")
      (simp_all add: anthropic_Finalise_def anthropic_OnEvent_def clamped)
  then show ?thesis using assms by (simp add: parseAnthropic_def Let_def)
qed

theorem cache_only_body_is_dropped_witness:
  "parseAnthropic ex_env (\<lambda>_. Some (ex_message\<lparr>ar_Usage := \<lparr>au_InputTokens = 0, au_OutputTokens = 0,
     au_CacheCreationInputTokens = 0, au_CacheReadInputTokens = 5000, au_CacheCreation = None\<rparr>\<rparr>)) ''b'' ex_site = (None, None)"
proof -
  let ?m = "ex_message\<lparr>ar_Usage := \<lparr>au_InputTokens = 0, au_OutputTokens = 0, au_CacheCreationInputTokens = 0,
    au_CacheReadInputTokens = 5000, au_CacheCreation = None\<rparr>\<rparr>"
  show ?thesis
    using cache_only_body_is_dropped [of ?m "\<lambda>_. Some ?m" "[]" ex_env "''b''" ex_site] by (simp add: ex_message_def)
qed

text \<open>The clamp of Gemini's counters runs before their sum: the sum can still wrap below zero.\<close>

lemma gemini_output_wraps:
  "\<exists>ev. parseGemini ex_env (\<lambda>_. Some \<lparr>gr_ResponseID = [], gr_ModelVersion = ''g'', gr_Usage = Some
      \<lparr>gu_PromptTokenCount = 1, gu_CandidatesTokenCount = 2 ^ 62, gu_ThoughtsTokenCount = 2 ^ 62,
       gu_CachedContentTokenCount = 0\<rparr>\<rparr>) ''b'' ex_site = (Some ev, None) \<and> OutputTok ev = min_int64"
  by (simp add: parseGemini_def gemini_event_def clamped wrap64_def min_int64_def)

end
