(* ===== verification/Sse_Framer.thy ===== *)
theory Sse_Framer
  imports Go_Prelude
begin

text \<open>
  The SSE framer and the capturing reader of \<^verbatim>\<open>internal/proxy/sse.go\<close>: \<open>Feed\<close>, \<open>Flush\<close>, \<open>parseEvent\<close>
  and \<^verbatim>\<open>streamCapture\<close>. The callback \<^verbatim>\<open>onEvent\<close> is the list of dispatched events. A nil slice is the
  empty list: the code tells \<^verbatim>\<open>data == nil\<close> from a payload, and \<^verbatim>\<open>bytes.TrimSpace\<close> returns nil when nothing
  is left. The in-place appends of \<^verbatim>\<open>parseEvent\<close> write only to bytes of the line being read, so that
  values model them. The framer is shown to compute, for every way the stream is cut into reads, the
  line-by-line interpretation of the whole stream that the SSE specification gives.
\<close>

section \<open>The framer\<close>

definition LF :: char where "LF = CHR 0x0A"
definition CR :: char where "CR = CHR 0x0D"

definition maxSSEBuffer :: nat where "maxSSEBuffer = 10 * 2 ^ 20"

text \<open>\<^verbatim>\<open>bytes.ReplaceAll\<close> for a pattern that is not empty.\<close>

function replace_all :: "'a list \<Rightarrow> 'a list \<Rightarrow> 'a list \<Rightarrow> 'a list" where
  "replace_all p q [] = []"
| "replace_all p q (x # s) =
     (if p \<noteq> [] \<and> has_prefix p (x # s) then q @ replace_all p q (drop (length p) (x # s))
      else x # replace_all p q s)"
  by pat_completeness auto
termination by (relation "measure (\<lambda>(p, q, s). length s)") (auto simp: Suc_le_eq)

definition normalise :: "string \<Rightarrow> string" where
  "normalise p = replace_all [CR] [LF] (replace_all [CR, LF] [LF] p)"

record sseFramer =
  buf :: string
  afterCR :: bool

text \<open>An event is the pair of its type and its data.\<close>

type_synonym sse_event = "string \<times> string"

text \<open>One line of an event; the loop of \<^verbatim>\<open>parseEvent\<close> over the lines.\<close>

definition parse_line :: "sse_event \<Rightarrow> string \<Rightarrow> sse_event" where
  "parse_line st line =
     (let (eventType, payload) = st
      in if has_prefix ''event:'' line then (TrimSpace (drop 6 line), payload)
         else if has_prefix ''data:'' line then
           (let new = TrimSpace (drop 5 line)
            in (eventType, if payload = [] then new else payload @ [LF] @ new))
         else st)"

function parse_lines :: "string \<Rightarrow> sse_event \<Rightarrow> sse_event" where
  "parse_lines event st =
     (if event = [] then st
      else (case index_byte LF event of
          None \<Rightarrow> parse_line st event
        | Some i \<Rightarrow> parse_lines (drop (Suc i) event) (parse_line st (take i event))))"
  by pat_completeness auto
termination by (relation "measure (\<lambda>(event, st). length event)") auto

declare parse_lines.simps [simp del]

definition dispatch :: "sse_event \<Rightarrow> sse_event list" where
  "dispatch st = (if snd st \<noteq> [] then [st] else [])"

definition parseEvent :: "string \<Rightarrow> sse_event list" where
  "parseEvent event = dispatch (parse_lines event ([], []))"

text \<open>The loop of \<^verbatim>\<open>Feed\<close>: the complete frames and what stays pending.\<close>

function drain :: "string \<Rightarrow> string list \<times> string" where
  "drain b =
     (case index_sub [LF, LF] b of
        None \<Rightarrow> ([], b)
      | Some i \<Rightarrow> (let (events, rest) = drain (drop (i + 2) b) in (take i b # events, rest)))"
  by pat_completeness auto
termination
  by (relation "measure length") (auto dest!: index_sub_bound)

declare drain.simps [simp del]

definition Feed :: "sseFramer \<Rightarrow> string \<Rightarrow> sse_event list \<times> sseFramer" where
  "Feed f p =
     (if p = [] then ([], f)
      else
        (let p = (if afterCR f \<and> hd p = LF then tl p else p);
             cr = (p \<noteq> [] \<and> last p = CR);
             new = normalise p;
             new = (if maxSSEBuffer < length new then drop (length new - maxSSEBuffer) new else new);
             b = (if maxSSEBuffer < length (buf f) + length new then
                 (let excess = length (buf f) + length new - maxSSEBuffer
                  in if length (buf f) \<le> excess then [] else drop excess (buf f))
               else buf f);
             (events, rest) = drain (b @ new)
         in (concat (map parseEvent events), \<lparr>buf = rest, afterCR = cr\<rparr>)))"

definition Flush :: "sseFramer \<Rightarrow> sse_event list \<times> sseFramer" where
  "Flush f = (if buf f \<noteq> [] then (parseEvent (buf f), f\<lparr>buf := []\<rparr>) else ([], f))"

definition newFramer :: sseFramer where "newFramer = \<lparr>buf = [], afterCR = False\<rparr>"

section \<open>The capturing reader\<close>

text \<open>
  \<^verbatim>\<open>streamCapture\<close> over a provider's parser with state \<open>'p\<close>; \<open>on_event\<close> is its \<^verbatim>\<open>OnEvent\<close>. The upstream is
  the list of what its successive \<^verbatim>\<open>Read\<close>s return; \<open>emitted\<close> is the state \<^verbatim>\<open>emit\<close> was called with.
\<close>

record 'p streamCapture =
  upstream :: "string list"
  framer :: sseFramer
  parser :: 'p
  emit_armed :: bool

definition Read :: "('p \<Rightarrow> sse_event \<Rightarrow> 'p) \<Rightarrow> 'p streamCapture \<Rightarrow> string option \<times> 'p streamCapture" where
  "Read on_event s =
     (case upstream s of
        [] \<Rightarrow> (None, s)
      | p # ps \<Rightarrow>
          (let (events, f) = (if p \<noteq> [] then Feed (framer s) p else ([], framer s))
           in (Some p, s\<lparr>upstream := ps, framer := f, parser := foldl on_event (parser s) events\<rparr>)))"

definition Close :: "('p \<Rightarrow> sse_event \<Rightarrow> 'p) \<Rightarrow> 'p streamCapture \<Rightarrow> 'p option \<times> 'p streamCapture" where
  "Close on_event s =
     (let (events, f) = Flush (framer s); q = foldl on_event (parser s) events
      in (if emit_armed s then Some q else None, s\<lparr>framer := f, parser := q, emit_armed := False\<rparr>))"

section \<open>Normalisation of line ends\<close>

fun norm_eol :: "string \<Rightarrow> string" where
  "norm_eol [] = []"
| "norm_eol [c] = [if c = CR then LF else c]"
| "norm_eol (c # d # s) =
     (if c = CR then LF # (if d = LF then norm_eol s else norm_eol (d # s)) else c # norm_eol (d # s))"

lemma LF_CR [simp]: "LF \<noteq> CR" "CR \<noteq> LF"
  by (simp_all add: LF_def CR_def)

lemma normalise_eol: "normalise p = norm_eol p"
  unfolding normalise_def by (induction p rule: norm_eol.induct) auto

lemma norm_eol_append:
  "norm_eol (s @ p) = norm_eol s @
     norm_eol (if s \<noteq> [] \<and> last s = CR \<and> p \<noteq> [] \<and> hd p = LF then tl p else p)"
proof (induction s rule: norm_eol.induct)
  case (2 c)
  then show ?case by (cases p) auto
next
  case (3 c d s)
  then show ?case by (cases s) auto
qed simp

section \<open>Draining\<close>

lemma drain_None: "index_sub [LF, LF] b = None \<Longrightarrow> drain b = ([], b)"
  by (subst drain.simps) simp

lemma drain_Some:
  "index_sub [LF, LF] b = Some i \<Longrightarrow>
   drain b = (take i b # fst (drain (drop (i + 2) b)), snd (drain (drop (i + 2) b)))"
  by (subst drain.simps) (simp add: split_beta)

lemma index_two: "index_sub [LF, LF] b = Some i \<Longrightarrow> i + 2 \<le> length b \<and> b = take i b @ [LF, LF] @ drop (i + 2) b"
  using index_sub_bound [of "[LF, LF]" b i] index_sub_split [of "[LF, LF]" b i] by simp

lemma drain_append:
  "drain (a @ b) = (fst (drain a) @ fst (drain (snd (drain a) @ b)), snd (drain (snd (drain a) @ b)))"
proof (induction a rule: drain.induct)
  case (1 a)
  show ?case
  proof (cases "index_sub [LF, LF] a")
    case None
    then show ?thesis by (simp add: drain_None)
  next
    case (Some i)
    have "index_sub [LF, LF] (a @ b) = Some i" using Some by (rule index_sub_append)
    moreover have "take i (a @ b) = take i a" "drop (i + 2) (a @ b) = drop (i + 2) a @ b"
      using index_two [OF Some] by simp_all
    ultimately show ?thesis using 1 [OF Some] Some by (simp add: drain_Some)
  qed
qed

lemma drain_rest_length: "length (snd (drain b)) \<le> length b"
proof (induction b rule: drain.induct)
  case (1 b)
  show ?case
  proof (cases "index_sub [LF, LF] b")
    case (Some i)
    then show ?thesis using 1 [OF Some] by (simp add: drain_Some)
  qed (simp add: drain_None)
qed

lemma drain_rest_none: "index_sub [LF, LF] (snd (drain b)) = None"
proof (induction b rule: drain.induct)
  case (1 b)
  then show ?case by (cases "index_sub [LF, LF] b") (simp_all add: drain_None drain_Some)
qed


section \<open>The specification\<close>

text \<open>
  The interpretation of the event stream format: line by line, an empty line dispatches the event the
  fields before it describe and starts the next; what is pending at the end of the stream is dispatched.
\<close>

fun sse_lines :: "sse_event \<Rightarrow> string list \<Rightarrow> sse_event list" where
  "sse_lines st [] = dispatch st"
| "sse_lines st (line # ls) =
     (if line = [] then dispatch st @ sse_lines ([], []) ls else sse_lines (parse_line st line) ls)"

definition sse_events :: "string \<Rightarrow> sse_event list" where
  "sse_events s = sse_lines ([], []) (split_on LF (norm_eol s))"

lemma parse_line_nil [simp]: "parse_line st [] = st"
  by (simp add: parse_line_def split_beta)

lemma parse_lines_fold: "parse_lines e st = foldl parse_line st (split_on LF e)"
proof (induction e st rule: parse_lines.induct)
  case (1 e st)
  show ?case
  proof (cases "index_byte LF e")
    case None
    then have "split_on LF e = [e]" by (simp add: split_on_none index_byte_None)
    with None show ?thesis
      by (cases "e = []") (simp_all add: parse_lines.simps [of e st] parse_lines.simps [of "[]"])
  next
    case (Some i)
    have i: "e = take i e @ LF # drop (Suc i) e" "LF \<notin> set (take i e)" "e \<noteq> []"
      using index_byte_Some [OF Some] id_take_nth_drop [of i e] by auto
    then have "split_on LF e = take i e # split_on LF (drop (Suc i) e)"
      by (metis split_on_append split_on_none append_Cons append_Nil)
    with 1 [OF i(3) Some] Some i(3) show ?thesis by (simp add: parse_lines.simps [of e st])
  qed
qed

text \<open>Without a blank line inside, only the first and the last line can be empty.\<close>

lemma split_on_hd: "s \<noteq> [] \<Longrightarrow> hd s \<noteq> c \<Longrightarrow> hd (split_on c s) \<noteq> []"
  by (cases s) (auto split: list.splits)

lemma inner_lines:
  "index_sub [LF, LF] e = None \<Longrightarrow> l \<in> set (butlast (tl (split_on LF e))) \<Longrightarrow> l \<noteq> []"
proof (induction e)
  case (Cons x e)
  have ih: "index_sub [LF, LF] e = None" using Cons.prems by (auto split: if_splits)
  show ?case
  proof (cases "x = LF")
    case False
    then have "tl (split_on LF (x # e)) = tl (split_on LF e)" by (auto split: list.splits)
    then show ?thesis using Cons.IH ih Cons.prems by simp
  next
    case True
    show ?thesis
    proof (cases e)
      case (Cons y e')
      then have "hd (split_on LF e) \<noteq> []" using Cons.prems(1) True by (intro split_on_hd) (auto split: if_splits)
      moreover have "l \<in> set (butlast (split_on LF e))" using Cons.prems(2) True by simp
      ultimately show ?thesis
        using Cons.IH [OF ih] by (cases "split_on LF e") (auto split: if_splits)
    qed (use Cons.prems True in simp)
  qed
qed simp

lemma sse_lines_plain:
  "\<forall>l\<in>set ls. l \<noteq> [] \<Longrightarrow> sse_lines st (ls @ rest) = sse_lines (foldl parse_line st ls) rest"
  by (induction ls arbitrary: st) auto

lemma sse_lines_first:
  assumes "\<forall>l\<in>set (tl ls). l \<noteq> []" and "ls \<noteq> []"
  shows "sse_lines ([], []) (ls @ rest) = sse_lines (foldl parse_line ([], []) ls) rest"
  using assms sse_lines_plain by (cases ls) (auto simp: dispatch_def)

lemma dispatch_nil [simp]: "dispatch ([], []) = []"
  by (simp add: dispatch_def)

lemma frame_events: "index_sub [LF, LF] e = None \<Longrightarrow> sse_lines ([], []) (split_on LF e) = parseEvent e"
proof -
  assume e: "index_sub [LF, LF] e = None"
  let ?l = "split_on LF e"
  obtain ls l where l: "?l = ls @ [l]" by (metis append_butlast_last_id split_on_nonempty)
  show ?thesis
  proof (cases "ls = [] \<or> l \<noteq> []")
    case True
    then have "\<forall>l\<in>set (tl ?l). l \<noteq> []"
      using inner_lines [OF e] l by (cases ls) auto
    then show ?thesis
      using sse_lines_first [of ?l "[]"] by (simp add: parseEvent_def parse_lines_fold)
  next
    case False
    then have "\<forall>l\<in>set (tl ls). l \<noteq> []" using inner_lines [OF e] l by (cases ls) auto
    then have "sse_lines ([], []) ?l = sse_lines (foldl parse_line ([], []) ls) [[]]"
      using sse_lines_first [of ls "[[]]"] False l by simp
    then show ?thesis using l False by (simp add: parseEvent_def parse_lines_fold)
  qed
qed

lemma first_frame_clean: "index_sub [LF, LF] b = Some i \<Longrightarrow> index_sub [LF, LF] (take i b @ [LF]) = None"
proof (induction b arbitrary: i)
  case (Cons x b)
  then show ?case
    by (cases b; cases i) (auto split: if_splits)
qed simp

lemma drain_events:
  "sse_lines ([], []) (split_on LF b) = concat (map parseEvent (fst (drain b))) @ parseEvent (snd (drain b))"
proof (induction b rule: drain.induct)
  case (1 b)
  show ?case
  proof (cases "index_sub [LF, LF] b")
    case None
    then show ?thesis by (simp add: drain_None frame_events)
  next
    case (Some i)
    let ?e = "take i b" and ?r = "drop (i + 2) b"
    have b: "split_on LF b = split_on LF ?e @ [] # split_on LF ?r"
      using index_two [OF Some] split_on_append [of LF "?e @ [LF]" ?r] by (metis append.assoc append_Cons append_Nil split_on_snoc)
    have "\<forall>l\<in>set (tl (split_on LF ?e)). l \<noteq> []"
      using inner_lines [OF first_frame_clean [OF Some]]
      by (simp add: split_on_snoc)
    then have "sse_lines ([], []) (split_on LF b) =
        sse_lines (foldl parse_line ([], []) (split_on LF ?e)) ([] # split_on LF ?r)"
      unfolding b by (rule sse_lines_first) simp
    then show ?thesis using 1 [OF Some] Some by (simp add: drain_Some parseEvent_def parse_lines_fold)
  qed
qed

section \<open>Every way of cutting the stream\<close>

fun feed_all :: "sseFramer \<Rightarrow> string list \<Rightarrow> sse_event list \<times> sseFramer" where
  "feed_all f [] = ([], f)"
| "feed_all f (p # ps) =
     (let (es, f) = Feed f p; (es', f) = feed_all f ps in (es @ es', f))"

text \<open>No read overflows the pending buffer.\<close>

fun roomy :: "sseFramer \<Rightarrow> string list \<Rightarrow> bool" where
  "roomy f [] = True"
| "roomy f (p # ps) = (length (buf f) + length p \<le> maxSSEBuffer \<and> roomy (snd (Feed f p)) ps)"

lemma norm_eol_length: "length (norm_eol p) \<le> length p"
  by (induction p rule: norm_eol.induct) auto

lemma Feed_length: "length (buf (snd (Feed f p))) \<le> length (buf f) + length p"
  using norm_eol_length [of p] norm_eol_length [of "tl p"]
  by (auto simp: Feed_def Let_def split_beta normalise_eol intro!: order_trans [OF drain_rest_length])

lemma roomy_total: "length (buf f) + length (concat ps) \<le> maxSSEBuffer \<Longrightarrow> roomy f ps"
proof (induction ps arbitrary: f)
  case (Cons p ps)
  then show ?case using Feed_length [of f p] by simp
qed simp

text \<open>The framer after the stream \<open>s\<close>.\<close>

definition framer_after :: "string \<Rightarrow> sseFramer" where
  "framer_after s = \<lparr>buf = snd (drain (norm_eol s)), afterCR = (s \<noteq> [] \<and> last s = CR)\<rparr>"

lemma framer_after_sel [simp]:
  "buf (framer_after s) = snd (drain (norm_eol s))"
  "afterCR (framer_after s) = (s \<noteq> [] \<and> last s = CR)"
  by (simp_all add: framer_after_def)

definition unpaired :: "sseFramer \<Rightarrow> string \<Rightarrow> string" where
  "unpaired f p = (if p \<noteq> [] \<and> afterCR f \<and> hd p = LF then tl p else p)"

lemma Feed_roomy:
  assumes "length (buf f) + length p \<le> maxSSEBuffer"
  shows "Feed f p =
    (if p = [] then ([], f)
     else (concat (map parseEvent (fst (drain (buf f @ norm_eol (unpaired f p))))),
       \<lparr>buf = snd (drain (buf f @ norm_eol (unpaired f p))),
        afterCR = (unpaired f p \<noteq> [] \<and> last (unpaired f p) = CR)\<rparr>))"
proof -
  have "length (norm_eol (unpaired f p)) \<le> length p"
    using norm_eol_length [of "unpaired f p"] by (auto simp: unpaired_def)
  then show ?thesis
    using assms by (auto simp: Feed_def Let_def unpaired_def normalise_eol split_beta)
qed

lemma Feed_after:
  assumes "length (buf (framer_after s)) + length p \<le> maxSSEBuffer"
  shows "snd (Feed (framer_after s) p) = framer_after (s @ p)"
    and "concat (map parseEvent (fst (drain (norm_eol (s @ p))))) =
      concat (map parseEvent (fst (drain (norm_eol s)))) @ fst (Feed (framer_after s) p)"
proof -
  let ?u = "unpaired (framer_after s) p"
  have n: "norm_eol (s @ p) = norm_eol s @ norm_eol ?u"
    by (auto simp: norm_eol_append unpaired_def framer_after_def)
  have c: "(?u \<noteq> [] \<and> last ?u = CR) = (last p = CR)" if "p \<noteq> []"
    using that by (cases p) (auto simp: unpaired_def)
  show "snd (Feed (framer_after s) p) = framer_after (s @ p)"
    unfolding Feed_roomy [OF assms] using c drain_append [of "norm_eol s" "norm_eol ?u"]
    by (cases "p = []") (auto simp: n intro: sseFramer.equality)
  show "concat (map parseEvent (fst (drain (norm_eol (s @ p))))) =
      concat (map parseEvent (fst (drain (norm_eol s)))) @ fst (Feed (framer_after s) p)"
    unfolding Feed_roomy [OF assms] using drain_append [of "norm_eol s" "norm_eol ?u"]
    by (cases "p = []") (simp_all add: n)
qed

lemma feed_all_after:
  assumes "roomy (framer_after s) ps"
  shows "snd (feed_all (framer_after s) ps) = framer_after (s @ concat ps)"
    and "concat (map parseEvent (fst (drain (norm_eol (s @ concat ps))))) =
      concat (map parseEvent (fst (drain (norm_eol s)))) @ fst (feed_all (framer_after s) ps)"
  using assms
proof (induction ps arbitrary: s)
  case (Cons p ps)
  {
    case 1
    then show ?case using Cons.IH(1) [of "s @ p"] Feed_after(1) [of s p] by (simp add: split_beta)
  next
    case 2
    then show ?case
      using Cons.IH(2) [of "s @ p"] Feed_after [of s p] by (simp add: split_beta)
  }
qed simp_all

lemma new_framer_after: "newFramer = framer_after []"
  by (simp add: newFramer_def framer_after_def drain_None)

lemma framer_events:
  assumes "roomy newFramer ps"
  shows "fst (feed_all newFramer ps) @ fst (Flush (snd (feed_all newFramer ps))) = sse_events (concat ps)"
proof -
  have "roomy (framer_after []) ps" using assms by (simp add: new_framer_after)
  note after = feed_all_after [OF this]
  have "fst (Flush (framer_after (concat ps))) = parseEvent (snd (drain (norm_eol (concat ps))))"
    by (simp add: Flush_def framer_after_def parseEvent_def parse_lines.simps [of "[]"])
  then show ?thesis
    using after by (simp add: new_framer_after sse_events_def drain_events drain_None)
qed

text \<open>The reads of a response body up to its end.\<close>

fun read_all :: "nat \<Rightarrow> ('p \<Rightarrow> sse_event \<Rightarrow> 'p) \<Rightarrow> 'p streamCapture \<Rightarrow> string list \<times> 'p streamCapture" where
  "read_all 0 g s = ([], s)"
| "read_all (Suc n) g s =
     (case Read g s of
        (None, s) \<Rightarrow> ([], s)
      | (Some p, s) \<Rightarrow> (let (ps, s) = read_all n g s in (p # ps, s)))"

definition new_capture :: "'p \<Rightarrow> string list \<Rightarrow> 'p streamCapture" where
  "new_capture p0 ps = \<lparr>upstream = ps, framer = newFramer, parser = p0, emit_armed = True\<rparr>"

lemma read_all_feeds:
  "read_all (length ps) g \<lparr>upstream = ps, framer = f, parser = q, emit_armed = e\<rparr> =
     (ps, \<lparr>upstream = [], framer = snd (feed_all f ps), parser = foldl g q (fst (feed_all f ps)), emit_armed = e\<rparr>)"
  by (induction ps arbitrary: f q) (auto simp: Read_def split_beta Feed_def [of _ "[]"])

lemma capture_run:
  assumes "roomy newFramer ps"
  shows "fst (read_all (length ps) g (new_capture p0 ps)) = ps"
    and "fst (Close g (snd (read_all (length ps) g (new_capture p0 ps)))) = Some (foldl g p0 (sse_events (concat ps)))"
    and "fst (Close g (snd (Close g (snd (read_all (length ps) g (new_capture p0 ps)))))) = None"
  using framer_events [OF assms]
  by (simp_all add: new_capture_def read_all_feeds Close_def split_beta Let_def flip: foldl_append)

text \<open>C38. The capture is transparent and exact: whatever chunks the upstream delivers, the client reads
  exactly those bytes, and as long as no read overflows the pending buffer the parser has consumed, when
  the body is closed, exactly the events that the line-by-line interpretation of the whole stream gives,
  wherever the chunk boundaries fall (inside a CRLF pair included); it is emitted once.\<close>

theorem capture_exact:
  assumes "roomy newFramer ps"
  shows "let (client, s) = read_all (length ps) on_event (new_capture p0 ps); (emitted, s') = Close on_event s
    in client = ps \<and> emitted = Some (foldl on_event p0 (sse_events (concat ps))) \<and>
       fst (Close on_event s') = None"
  using capture_run [OF assms, of on_event p0] by (simp add: Let_def split_beta)

theorem capture_exact_witness:
  "let ps = [''data:a'' @ [CR], LF # ''data:b'' @ [LF], [LF]]
   in fst (Close (\<lambda>es e. es @ [e]) (snd (read_all (length ps) (\<lambda>es e. es @ [e]) (new_capture [] ps)))) =
      Some [([], ''a'' @ [LF] @ ''b'')]"
proof -
  let ?ps = "[''data:a'' @ [CR], LF # ''data:b'' @ [LF], [LF]]"
  have roomy: "roomy newFramer ?ps" by (rule roomy_total) (simp add: newFramer_def maxSSEBuffer_def)
  have n: "split_on LF (norm_eol (concat ?ps)) = [''data:a'', ''data:b'', [], []]"
    by (simp add: CR_def LF_def)
  have "sse_lines ([], []) [''data:a'', ''data:b'', [], []] = [([], ''a'' @ [LF] @ ''b'')]" by code_simp
  then have e: "sse_events (concat ?ps) = [([], ''a'' @ [LF] @ ''b'')]"
    by (simp only: sse_events_def n)
  have f: "foldl (\<lambda>es e. es @ [e]) [] [([], ''a'' @ [LF] @ ''b'')] = [([], ''a'' @ [LF] @ ''b'')]"
    by simp
  show ?thesis
    using capture_exact [OF roomy, of "\<lambda>es e. es @ [e]" "[]"] unfolding e f
    by (simp only: Let_def split_beta fst_conv)
qed

section \<open>Bounded memory\<close>

lemma Feed_bounded:
  assumes "length (buf f) \<le> maxSSEBuffer"
  shows "length (buf (snd (Feed f p))) \<le> maxSSEBuffer"
  using assms
  by (auto simp: Feed_def Let_def split_beta intro!: order_trans [OF drain_rest_length])

text \<open>The pending buffer never exceeds its cap, whatever an upstream sends and however it cuts it.\<close>

theorem framer_memory_bounded: "length (buf (snd (feed_all newFramer ps))) \<le> maxSSEBuffer"
proof -
  have "length (buf f) \<le> maxSSEBuffer \<Longrightarrow> length (buf (snd (feed_all f ps))) \<le> maxSSEBuffer" for f
    by (induction ps arbitrary: f) (auto simp: split_beta Feed_bounded)
  then show ?thesis by (simp add: newFramer_def)
qed

section \<open>Recovery\<close>

text \<open>A frame as it stands between two blank lines.\<close>

definition frame_text :: "string \<Rightarrow> bool" where
  "frame_text ev \<longleftrightarrow> ev \<noteq> [] \<and> hd ev \<noteq> LF \<and> last ev \<noteq> LF \<and> CR \<notin> set ev \<and> index_sub [LF, LF] ev = None"

lemma index_first: "index_sub [LF, LF] (r @ [LF]) = None \<Longrightarrow> index_sub [LF, LF] (r @ [LF, LF] @ t) = Some (length r)"
proof (induction r)
  case (Cons x r)
  then have "\<not> has_prefix [LF, LF] (x # r @ [LF, LF] @ t)" by (cases r) (auto split: if_splits)
  with Cons show ?case by (auto split: if_splits)
qed simp

lemma no_blank_snoc: "index_sub [LF, LF] e = None \<Longrightarrow> e = [] \<or> last e \<noteq> LF \<Longrightarrow> index_sub [LF, LF] (e @ [LF]) = None"
proof (induction e)
  case (Cons x e)
  then show ?case by (cases e) (auto split: if_splits)
qed simp

lemma drain_frame:
  assumes "index_sub [LF, LF] (e @ [LF]) = None"
  shows "drain (e @ [LF, LF] @ t) = (e # fst (drain t), snd (drain t))"
  using drain_Some [OF index_first [OF assms, of t]] by simp

lemma parseEvent_blank: "parseEvent (LF # e) = parseEvent e"
  by (simp add: parseEvent_def parse_lines_fold)

lemma drain_recovers:
  assumes "frame_text ev" and "index_sub [LF, LF] r = None"
  shows "\<exists>e ev'. drain (r @ [LF, LF] @ ev @ [LF, LF]) = ([e, ev'], []) \<and> parseEvent ev' = parseEvent ev"
proof -
  have ev: "index_sub [LF, LF] (ev @ [LF]) = None" "index_sub [LF, LF] ((LF # ev) @ [LF]) = None"
    using assms(1) no_blank_snoc [of ev] by (auto simp: frame_text_def) (cases ev; auto)
  have d: "drain (ev @ [LF, LF]) = ([ev], [])" "drain (LF # ev @ [LF, LF]) = ([LF # ev], [])"
    using drain_frame [OF ev(1), of "[]"] drain_frame [OF ev(2), of "[]"] by (simp_all add: drain_None)
  show ?thesis
  proof (cases "r = [] \<or> last r \<noteq> LF")
    case True
    then show ?thesis
      using drain_frame [OF no_blank_snoc [OF assms(2)], of "ev @ [LF, LF]"] d(1) by auto
  next
    case False
    then obtain r' where r: "r = r' @ [LF]" by (metis append_butlast_last_id)
    then show ?thesis
      using drain_frame [of r' "LF # ev @ [LF, LF]"] assms(2) d(2) parseEvent_blank by auto
  qed
qed

lemma norm_eol_none: "CR \<notin> set p \<Longrightarrow> norm_eol p = p"
  by (induction p rule: norm_eol.induct) auto

lemma snd_drain_recovers:
  assumes "frame_text ev"
  shows "\<exists>es. concat (map parseEvent (fst (drain (b @ [LF, LF] @ ev @ [LF, LF])))) = es @ parseEvent ev \<and>
    snd (drain (b @ [LF, LF] @ ev @ [LF, LF])) = []"
proof -
  obtain e ev' where "drain (snd (drain b) @ [LF, LF] @ ev @ [LF, LF]) = ([e, ev'], [])"
      "parseEvent ev' = parseEvent ev"
    using drain_recovers [OF assms drain_rest_none] by blast
  then show ?thesis using drain_append [of b "[LF, LF] @ ev @ [LF, LF]"] by simp
qed

text \<open>The framer recovers: whatever it holds, an overflowed or truncated event included, a well-formed
  frame that arrives between two blank lines in one read is dispatched, after what was pending, and
  nothing is left over.\<close>

theorem framer_recovers:
  assumes "frame_text ev" and "length ev + 4 \<le> maxSSEBuffer" and "\<not> afterCR f"
  shows "\<exists>es. Feed f ([LF, LF] @ ev @ [LF, LF]) = (es @ parseEvent ev, newFramer)"
proof -
  have n: "normalise ([LF, LF] @ ev @ [LF, LF]) = [LF, LF] @ ev @ [LF, LF]"
    using assms(1) by (simp add: normalise_eol norm_eol_none frame_text_def)
  show ?thesis
    using assms(2,3) snd_drain_recovers [OF assms(1)]
    by (auto simp: Feed_def Let_def split_beta newFramer_def n [simplified])
qed

theorem framer_recovers_witness:
  "\<exists>es. Feed \<lparr>buf = ''data: gar'', afterCR = False\<rparr> ([LF, LF] @ ''data: ok'' @ [LF, LF]) =
     (es @ parseEvent ''data: ok'', newFramer)"
proof (rule framer_recovers)
  show "frame_text ''data: ok''" by code_simp
qed (simp_all add: maxSSEBuffer_def)

end
