(* ===== verification/Proxy.thy ===== *)
theory Proxy
  imports Proxy_Usage Sse_Framer
begin

text \<open>
  The response side of the reverse proxy, \<^verbatim>\<open>internal/proxy/proxy.go\<close> and \<open>newStreamCapture\<close> of \<^verbatim>\<open>sse.go\<close>: the
  header strip, the attribution of a response, the capture of a JSON body and of a stream, and their
  counters. The upstream response is a record; \<^verbatim>\<open>httputil.ReverseProxy\<close> is not modelled beyond what it is handed.
\<close>

section \<open>Headers and attribution\<close>

type_synonym header = "(string \<times> string list) list"

definition tierHeaderPrefix :: string where "tierHeaderPrefix = ''X-Tier-''"
definition headerDeveloper :: string where "headerDeveloper = ''X-Tier-Developer''"
definition headerIssue :: string where "headerIssue = ''X-Tier-Issue''"
definition headerRepo :: string where "headerRepo = ''X-Tier-Repo''"

definition tier_header :: "string \<Rightarrow> bool" where
  "tier_header k \<longleftrightarrow> length tierHeaderPrefix \<le> length k \<and>
     equal_fold (take (length tierHeaderPrefix) k) tierHeaderPrefix"

definition stripTierHeaders :: "header \<Rightarrow> header" where
  "stripTierHeaders h = filter (\<lambda>(k, v). \<not> tier_header k) h"

definition header_get :: "header \<Rightarrow> string \<Rightarrow> string" where
  "header_get h k = (case map_of h k of Some (v # vs) \<Rightarrow> v | _ \<Rightarrow> [])"

record attribution =
  at_developer :: string
  at_issue :: string
  at_repo :: string

text \<open>The \<^verbatim>\<open>Rewrite\<close> hook: attribution from the inbound headers, then the strip.\<close>

definition rewrite :: "header \<Rightarrow> attribution \<times> header" where
  "rewrite inbound =
     (\<lparr>at_developer = header_get inbound headerDeveloper, at_issue = header_get inbound headerIssue,
       at_repo = header_get inbound headerRepo\<rparr>,
      filter (\<lambda>(k, v). k \<noteq> ''Accept-Encoding'') (stripTierHeaders inbound))"

definition isReservedIdentifier :: "string \<Rightarrow> bool" where
  "isReservedIdentifier s = ResemblesUnattributed s"

text \<open>The counters; a recorder that is not installed records nothing.\<close>

record proxy_counters =
  writes :: "(string \<times> string) list"
  uncaptured :: "(string \<times> string) list"
  unattributed :: "string list"

record proxy =
  p_provider :: string
  p_host :: string
  has_writes :: bool
  has_uncaptured :: bool
  has_unattributed :: bool

definition recordUnattributed :: "proxy \<Rightarrow> string \<Rightarrow> proxy_counters \<Rightarrow> proxy_counters" where
  "recordUnattributed p h c = (if has_unattributed p then c\<lparr>unattributed := unattributed c @ [h]\<rparr> else c)"

definition recordUncaptured :: "proxy \<Rightarrow> string \<Rightarrow> proxy_counters \<Rightarrow> proxy_counters" where
  "recordUncaptured p reason c =
     (if has_uncaptured p then c\<lparr>uncaptured := uncaptured c @ [(p_provider p, reason)]\<rparr> else c)"

definition recordWrite :: "proxy \<Rightarrow> string option \<Rightarrow> proxy_counters \<Rightarrow> proxy_counters" where
  "recordWrite p err c =
     (if has_writes p then c\<lparr>writes := writes c @ [(p_provider p, if err = None then ''ok'' else ''error'')]\<rparr> else c)"

definition reasonEncoding :: string where "reasonEncoding = ''encoding''"
definition reasonParse :: string where "reasonParse = ''parse''"
definition reasonStreamNoUsage :: string where "reasonStreamNoUsage = ''stream_no_usage''"
definition reasonTooLarge :: string where "reasonTooLarge = ''too_large''"

text \<open>One identity of the two: what is stored and what is counted. The labels of a forged value differ.\<close>

definition screened :: "string \<Rightarrow> string \<Rightarrow> string \<times> string list" where
  "screened label value =
     (let forged = value \<noteq> [] \<and> isReservedIdentifier value; value = (if forged then [] else value)
      in if value = [] then (UnattributedIssueID, [if forged then label @ ''-forged'' else label]) else (value, []))"

definition resolve_repo :: "string \<Rightarrow> string \<times> string list" where
  "resolve_repo repo = (case Canonical repo of Some slug \<Rightarrow> (slug, []) | None \<Rightarrow> (Unqualified, [''repo'']))"

definition resolve_attribution ::
  "proxy \<Rightarrow> attribution \<Rightarrow> header \<Rightarrow> proxy_counters \<Rightarrow> attribution \<times> proxy_counters" where
  "resolve_attribution p a outbound c =
     (let developer = (if at_developer a = [] then header_get outbound headerDeveloper else at_developer a);
          issue = (if at_issue a = [] then header_get outbound headerIssue else at_issue a);
          repo = (if at_repo a = [] then header_get outbound headerRepo else at_repo a);
          (developer, ld) = screened ''developer'' developer;
          (issue, li) = screened ''issue'' issue;
          (repo, lr) = resolve_repo repo
      in (\<lparr>at_developer = developer, at_issue = issue, at_repo = repo\<rparr>,
          fold (recordUnattributed p) (ld @ li @ lr) c))"

section \<open>The JSON path\<close>

text \<open>What the client is served: the upstream's bytes as they come, or an error of the proxy.\<close>

datatype served = Served string | ProxyError string

definition maxBody :: nat where "maxBody = 10 * 2 ^ 20"

text \<open>\<open>read_err\<close> is the error of reading the first \<open>maxBody + 1\<close> bytes of \<open>content\<close>; an over-cap body is
  forwarded as the buffered prefix and the unread rest.\<close>

definition handleJSON ::
  "proxy \<Rightarrow> (string \<Rightarrow> call_site \<Rightarrow> parsed) \<Rightarrow> (token_event, 's) sink \<Rightarrow> attribution \<Rightarrow> string option \<Rightarrow> string
    \<Rightarrow> 's \<Rightarrow> proxy_counters \<Rightarrow> served \<times> 's \<times> proxy_counters" where
  "handleJSON p parse ingest a read_err content s c =
     (let body = take (maxBody + 1) content
      in case read_err of
           Some e \<Rightarrow> (ProxyError (''proxy: read upstream response body: '' @ e), s, c)
         | None \<Rightarrow>
             if maxBody < length body then
               (Served (body @ drop (length body) content), s, recordUncaptured p reasonTooLarge c)
             else
               (let site = \<lparr>site_developer = at_developer a, site_issue = at_issue a, site_host = p_host p\<rparr>
                in case fst (parse body site) of
                     None \<Rightarrow> (Served body, s, if body \<noteq> [] then recordUncaptured p reasonParse c else c)
                   | Some ev \<Rightarrow>
                       (let (e, s) = ingest (ev\<lparr>Repo := at_repo a\<rparr>) s in (Served body, s, recordWrite p e c))))"

section \<open>The streaming path\<close>

text \<open>The closure \<^verbatim>\<open>emit\<close> of \<^verbatim>\<open>newStreamCapture\<close>, with the parser's \<open>finalise\<close>.\<close>

definition emit_stream ::
  "proxy \<Rightarrow> (call_site \<Rightarrow> 'p \<Rightarrow> parsed) \<Rightarrow> (token_event, 's) sink \<Rightarrow> attribution \<Rightarrow> 'p \<Rightarrow> 's \<Rightarrow> proxy_counters
    \<Rightarrow> 's \<times> proxy_counters" where
  "emit_stream p finalise ingest a q s c =
     (case fst (finalise \<lparr>site_developer = at_developer a, site_issue = at_issue a, site_host = p_host p\<rparr> q) of
        None \<Rightarrow> (s, recordUncaptured p reasonStreamNoUsage c)
      | Some ev \<Rightarrow> (let (e, s) = ingest (ev\<lparr>Repo := at_repo a\<rparr>) s in (s, recordWrite p e c)))"

text \<open>A streamed response read to its end and closed: what the client got, and the effects of \<^verbatim>\<open>Close\<close>.\<close>

definition serve_stream ::
  "proxy \<Rightarrow> 'p \<Rightarrow> ('p \<Rightarrow> sse_event \<Rightarrow> 'p) \<Rightarrow> (call_site \<Rightarrow> 'p \<Rightarrow> parsed) \<Rightarrow> (token_event, 's) sink \<Rightarrow> attribution
    \<Rightarrow> string list \<Rightarrow> 's \<Rightarrow> proxy_counters \<Rightarrow> string list \<times> 's \<times> proxy_counters" where
  "serve_stream p p0 on_event finalise ingest a chunks s c =
     (let (client, cap) = read_all (length chunks) on_event (new_capture p0 chunks);
          (emitted, _) = Close on_event cap;
          (s, c) = (case emitted of Some q \<Rightarrow> emit_stream p finalise ingest a q s c | None \<Rightarrow> (s, c))
      in (client, s, c))"

section \<open>The response hook\<close>

record response =
  StatusCode :: int
  ContentEncoding :: string
  ContentType :: string
  Attr :: attribution
  ReqHeader :: header
  ReadErr :: "string option"
  Chunks :: "string list"

definition modifyResponse ::
  "proxy \<Rightarrow> (string \<Rightarrow> call_site \<Rightarrow> parsed) \<Rightarrow> 'p \<Rightarrow> ('p \<Rightarrow> sse_event \<Rightarrow> 'p) \<Rightarrow> (call_site \<Rightarrow> 'p \<Rightarrow> parsed)
    \<Rightarrow> (token_event, 's) sink \<Rightarrow> response \<Rightarrow> 's \<Rightarrow> proxy_counters \<Rightarrow> served \<times> 's \<times> proxy_counters" where
  "modifyResponse p parse p0 on_event finalise ingest r s c =
     (let content = concat (Chunks r)
      in if StatusCode r < 200 \<or> 300 \<le> StatusCode r then (Served content, s, c)
         else if ContentEncoding r \<noteq> [] \<and> \<not> equal_fold (ContentEncoding r) ''identity''
         then (Served content, s, recordUncaptured p reasonEncoding c)
         else
           (let (a, c) = resolve_attribution p (Attr r) (ReqHeader r) c
            in if contains ''text/event-stream'' (ContentType r) then
                 (let (client, s, c) = serve_stream p p0 on_event finalise ingest a (Chunks r) s c
                  in (Served (concat client), s, c))
               else if contains ''application/json'' (ContentType r)
               then handleJSON p parse ingest a (ReadErr r) content s c
               else (Served content, s, c)))"

lemma serve_stream_exact:
  assumes "roomy newFramer chunks"
  shows "serve_stream p p0 on_event finalise ingest a chunks s c =
    (chunks, emit_stream p finalise ingest a (foldl on_event p0 (sse_events (concat chunks))) s c)"
  by (simp only: serve_stream_def Let_def split_beta capture_run [OF assms] option.case fst_conv snd_conv prod.collapse)

text \<open>Even when reads overflow the pending buffer, the client gets every chunk and the closure runs once.\<close>

lemma serve_stream_any:
  "\<exists>q. serve_stream p p0 on_event finalise ingest a chunks s c = (chunks, emit_stream p finalise ingest a q s c)"
  by (simp add: serve_stream_def Let_def split_beta new_capture_def read_all_feeds Close_def) (metis prod.collapse)

section \<open>The contract of a stream parser\<close>

text \<open>
  \<^verbatim>\<open>streamParser\<close>: a parser that saw no event yields nothing, and what it yields is attributed to the call
  site and priced there, with the source left to the sink.
\<close>

locale stream_parser =
  fixes p0 :: 'p and on_event :: "'p \<Rightarrow> sse_event \<Rightarrow> 'p" and finalise :: "call_site \<Rightarrow> 'p \<Rightarrow> parsed"
    and env :: proxy_env
  assumes silent: "fst (finalise site p0) = None"
    and attributes: "finalise site q = (Some ev, n) \<Longrightarrow> attributed env site ev"
begin

lemma emits:
  "fst (finalise site (foldl on_event p0 es)) = Some ev \<Longrightarrow> attributed env site ev \<and> es \<noteq> []"
  using attributes [of site "foldl on_event p0 es"] silent [of site] by (cases es) (auto simp: prod_eq_iff)

text \<open>With a sink that keeps a log, a stream stores at most one row, attributed to the call site.\<close>

lemma stores_attributed:
  assumes "roomy newFramer chunks"
  shows "fst (snd (serve_stream p p0 on_event finalise (\<lambda>ev s. (None, s @ [ev])) a chunks [] c)) = [] \<or>
    (\<exists>ev. fst (snd (serve_stream p p0 on_event finalise (\<lambda>ev s. (None, s @ [ev])) a chunks [] c)) = [ev\<lparr>Repo := at_repo a\<rparr>] \<and>
      attributed env \<lparr>site_developer = at_developer a, site_issue = at_issue a, site_host = p_host p\<rparr> ev \<and>
      sse_events (concat chunks) \<noteq> [])"
  using emits [of "\<lparr>site_developer = at_developer a, site_issue = at_issue a, site_host = p_host p\<rparr>" "sse_events (concat chunks)"]
  by (auto simp: serve_stream_exact [OF assms] emit_stream_def split: option.splits)

end

interpretation anthropic_stream: stream_parser new_anthropic "anthropic_OnEvent ds dd" "anthropic_Finalise env" env
  for ds dd env
  by unfold_locales (simp add: anthropic_Finalise_def new_anthropic_def, blast dest: anthropic_Finalise_sound)

interpretation openai_stream: stream_parser new_openai "openai_OnEvent d" "openai_Finalise env" env for d env
  by unfold_locales (simp add: openai_Finalise_def responses_Finalise_def chat_Finalise_def new_openai_def
      new_openai_state_def, blast dest: openai_Finalise_sound)

interpretation gemini_stream: stream_parser new_gemini "gemini_OnEvent d" "gemini_Finalise env" env for d env
  by unfold_locales (simp add: gemini_Finalise_def new_gemini_def zero_gemini_def gemini_event_def,
      auto simp: gemini_Finalise_def dest: gemini_event_sound)

section \<open>Attribution cannot be forged\<close>

lemma sentinel_resembles: "ResemblesUnattributed UnattributedIssueID"
  by code_simp

lemma screened_cases:
  "screened label v =
     (if v = [] then (UnattributedIssueID, [label])
      else if isReservedIdentifier v then (UnattributedIssueID, [label @ ''-forged'']) else (v, []))"
  by (simp add: screened_def Let_def)

lemma screened_exact:
  assumes "screened label v = (x, ls)"
  shows "x = UnattributedIssueID \<or> x = v \<and> \<not> ResemblesUnattributed v" and "(x = UnattributedIssueID) = (ls \<noteq> [])"
    and "ls = [] \<or> ls = [label] \<or> ls = [label @ ''-forged'']"
    and "(ls = [label @ ''-forged'']) = (v \<noteq> [] \<and> ResemblesUnattributed v)"
  using assms sentinel_resembles by (auto simp: screened_cases isReservedIdentifier_def split: if_splits)

lemma resolve_repo_exact:
  assumes "resolve_repo v = (z, ls)"
  shows "z = Unqualified \<or> Canonical v = Some z \<and> Canonical z = Some z" and "ls = [] \<or> ls = [''repo'']"
    and "(z = Unqualified) = (ls \<noteq> [])"
  using assms Canonical_fixed by (auto simp: resolve_repo_def split: option.splits)

lemma fold_record:
  "fold (recordUnattributed p) ls c = (if has_unattributed p then c\<lparr>unattributed := unattributed c @ ls\<rparr> else c)"
  by (induction ls arbitrary: c) (auto simp: recordUnattributed_def)

text \<open>C36. A client cannot assert the server-assigned sentinel, nor a foreign form of a repository: whatever
  the headers say, what is stored for the developer and for the issue is the value that was sent, and then
  it does not even resemble the sentinel, or it is the sentinel itself; what is stored for the repository
  is the canonical form of what was sent, or its sentinel. With a recorder, a sentinel is stored exactly
  when the fallback was counted, under the label of the dimension, once, and under the forged label
  exactly when the value sent claimed the sentinel.\<close>

theorem attribution_not_forged:
  "let (a', c') = resolve_attribution p a out c;
       new = drop (length (unattributed c)) (unattributed c');
       dv = (if at_developer a = [] then header_get out headerDeveloper else at_developer a);
       iv = (if at_issue a = [] then header_get out headerIssue else at_issue a);
       rv = (if at_repo a = [] then header_get out headerRepo else at_repo a)
   in (at_developer a' = UnattributedIssueID \<or> at_developer a' = dv \<and> \<not> ResemblesUnattributed dv) \<and>
      (at_issue a' = UnattributedIssueID \<or> at_issue a' = iv \<and> \<not> ResemblesUnattributed iv) \<and>
      (at_repo a' = Unqualified \<or> Canonical rv = Some (at_repo a') \<and> Canonical (at_repo a') = Some (at_repo a')) \<and>
      writes c' = writes c \<and> uncaptured c' = uncaptured c \<and>
      (has_unattributed p \<longrightarrow> distinct new \<and>
        (at_developer a' = UnattributedIssueID) = (''developer'' \<in> set new \<or> ''developer-forged'' \<in> set new) \<and>
        (at_issue a' = UnattributedIssueID) = (''issue'' \<in> set new \<or> ''issue-forged'' \<in> set new) \<and>
        (at_repo a' = Unqualified) = (''repo'' \<in> set new) \<and>
        (''developer-forged'' \<in> set new) = (dv \<noteq> [] \<and> ResemblesUnattributed dv) \<and>
        (''issue-forged'' \<in> set new) = (iv \<noteq> [] \<and> ResemblesUnattributed iv))"
proof -
  let ?dv = "if at_developer a = [] then header_get out headerDeveloper else at_developer a"
  let ?iv = "if at_issue a = [] then header_get out headerIssue else at_issue a"
  let ?rv = "if at_repo a = [] then header_get out headerRepo else at_repo a"
  obtain x ld where d: "screened ''developer'' ?dv = (x, ld)" by fastforce
  obtain y li where i: "screened ''issue'' ?iv = (y, li)" by fastforce
  obtain z lr where r: "resolve_repo ?rv = (z, lr)" by fastforce
  obtain new where new: "new = ld @ li @ lr" by simp
  have res: "resolve_attribution p a out c =
      (\<lparr>at_developer = x, at_issue = y, at_repo = z\<rparr>,
       if has_unattributed p then c\<lparr>unattributed := unattributed c @ new\<rparr> else c)"
    unfolding resolve_attribution_def by (simp only: Let_def d i r prod.case fold_record new)
  note sd = screened_exact [OF d] and si = screened_exact [OF i] and sr = resolve_repo_exact [OF r]
  have "distinct new"
    using sd(3) si(3) sr(2) unfolding new by fastforce
  moreover have "(''developer'' \<in> set new \<or> ''developer-forged'' \<in> set new) = (ld \<noteq> [])"
    "(''issue'' \<in> set new \<or> ''issue-forged'' \<in> set new) = (li \<noteq> [])"
    "(''repo'' \<in> set new) = (lr \<noteq> [])"
    "(''developer-forged'' \<in> set new) = (ld = [''developer-forged''])"
    "(''issue-forged'' \<in> set new) = (li = [''issue-forged''])"
    using sd(3) si(3) sr(2) unfolding new by fastforce+
  ultimately show ?thesis
    using sd(1,2,4) si(1,2,4) sr(1,3) unfolding res Let_def prod.case by simp
qed

section \<open>Nothing is lost between the upstream, the client and the counters\<close>

definition counted :: "proxy_counters \<Rightarrow> nat" where
  "counted c = length (writes c) + length (uncaptured c)"

lemma counted_record [simp]:
  "has_writes p \<Longrightarrow> counted (recordWrite p e c) = Suc (counted c)"
  "has_uncaptured p \<Longrightarrow> counted (recordUncaptured p r c) = Suc (counted c)"
  by (simp_all add: counted_def recordWrite_def recordUncaptured_def)

lemma counted_attribution [simp]: "counted (snd (resolve_attribution p a out c)) = counted c"
  by (simp add: resolve_attribution_def split_beta Let_def fold_record counted_def)

lemma handleJSON_failed:
  "handleJSON p parse ingest a (Some e) content s c = (ProxyError (''proxy: read upstream response body: '' @ e), s, c)"
  by (simp add: handleJSON_def)

lemma handleJSON_served: "fst (handleJSON p parse ingest a None content s c) = Served content"
  by (auto simp: handleJSON_def Let_def split_beta split: option.splits)

lemma handleJSON_counted:
  "has_writes p \<Longrightarrow> has_uncaptured p \<Longrightarrow> content \<noteq> [] \<Longrightarrow>
   counted (snd (snd (handleJSON p parse ingest a None content s c))) = Suc (counted c)"
  by (auto simp: handleJSON_def Let_def split_beta split: option.splits)

lemma emit_counted:
  "has_writes p \<Longrightarrow> has_uncaptured p \<Longrightarrow> counted (snd (emit_stream p finalise ingest a q s c)) = Suc (counted c)"
  by (auto simp: emit_stream_def Let_def split_beta split: option.splits)

definition captured_type :: "response \<Rightarrow> bool" where
  "captured_type r \<longleftrightarrow> contains ''text/event-stream'' (ContentType r) \<or> contains ''application/json'' (ContentType r)"

text \<open>The read of a JSON body that is to be captured failed.\<close>

definition body_unreadable :: "response \<Rightarrow> bool" where
  "body_unreadable r \<longleftrightarrow> 200 \<le> StatusCode r \<and> StatusCode r < 300 \<and>
     (ContentEncoding r = [] \<or> equal_fold (ContentEncoding r) ''identity'') \<and>
     \<not> contains ''text/event-stream'' (ContentType r) \<and> contains ''application/json'' (ContentType r) \<and> ReadErr r \<noteq> None"

text \<open>C37. The proxy is transparent and accounts for what it sees: every response reaches the client byte for
  byte, bodies and streams over their caps included, unless reading a JSON body to capture failed, which
  is answered with the error and neither stored nor counted. A readable 2xx response of a captured type with
  a non-empty body adds, when both recorders are installed, exactly one entry to the write and
  capture-miss counters together; a response outside 2xx is neither stored nor counted.\<close>

theorem responses_accounted:
  "let (sv, s', c') = modifyResponse p parse p0 on_event finalise ingest r s c
   in (if body_unreadable r
       then (\<exists>e. sv = ProxyError e) \<and> s' = s \<and> counted c' = counted c
       else sv = Served (concat (Chunks r)) \<and>
         (200 \<le> StatusCode r \<and> StatusCode r < 300 \<and> captured_type r \<and> concat (Chunks r) \<noteq> [] \<and>
            has_writes p \<and> has_uncaptured p \<longrightarrow> counted c' = Suc (counted c))) \<and>
      (\<not> (200 \<le> StatusCode r \<and> StatusCode r < 300) \<longrightarrow> s' = s \<and> c' = c)"
proof (cases "200 \<le> StatusCode r \<and> StatusCode r < 300 \<and> (ContentEncoding r = [] \<or> equal_fold (ContentEncoding r) ''identity'')")
  case False
  then show ?thesis by (auto simp: modifyResponse_def body_unreadable_def Let_def)
next
  case True
  obtain a c1 where a: "resolve_attribution p (Attr r) (ReqHeader r) c = (a, c1)" by fastforce
  have c1: "counted c1 = counted c" using counted_attribution [of p "Attr r" "ReqHeader r" c] by (simp add: a)
  show ?thesis
  proof (cases "contains ''text/event-stream'' (ContentType r)")
    case stream: True
    obtain q where q: "serve_stream p p0 on_event finalise ingest a (Chunks r) s c1 =
        (Chunks r, emit_stream p finalise ingest a q s c1)"
      using serve_stream_any [of p p0 on_event finalise ingest a "Chunks r" s c1] by auto
    show ?thesis
      using True stream c1 emit_counted [of p finalise ingest a q s c1]
      by (auto simp: modifyResponse_def body_unreadable_def a q Let_def split_beta)
  next
    case plain: False
    then show ?thesis
      using True c1 handleJSON_served [of p parse ingest a] handleJSON_counted [of p _ parse ingest a]
      by (auto simp: modifyResponse_def body_unreadable_def captured_type_def a Let_def split_beta handleJSON_failed)
  qed
qed

definition ex_proxy :: proxy where
  "ex_proxy = \<lparr>p_provider = ProviderAnthropic, p_host = ''api.anthropic.com'', has_writes = True,
     has_uncaptured = True, has_unattributed = True\<rparr>"

definition ex_response :: response where
  "ex_response = \<lparr>StatusCode = 200, ContentEncoding = [], ContentType = ''application/json; charset=utf-8'',
     Attr = \<lparr>at_developer = ''Unattributed:x'', at_issue = ''T-1'', at_repo = ''Owner/Repo''\<rparr>, ReqHeader = [],
     ReadErr = None, Chunks = [''{}'']\<rparr>"

theorem responses_accounted_witness:
  "let (sv, s', c') = modifyResponse ex_proxy (\<lambda>_ _. (None, None)) new_anthropic (anthropic_OnEvent (\<lambda>_. None) (\<lambda>_. None))
      (anthropic_Finalise ex_env) (\<lambda>ev s. (None, s @ [ev])) ex_response [] \<lparr>writes = [], uncaptured = [], unattributed = []\<rparr>
   in sv = Served ''{}'' \<and> counted c' = 1"
proof -
  have "\<not> body_unreadable ex_response" "captured_type ex_response"
    by (simp_all add: ex_response_def body_unreadable_def captured_type_def contains_def)
  then show ?thesis
    using responses_accounted [of ex_proxy "\<lambda>_ _. (None, None)" new_anthropic
        "anthropic_OnEvent (\<lambda>_. None) (\<lambda>_. None)" "anthropic_Finalise ex_env" "\<lambda>ev s. (None, s @ [ev])" ex_response "[]"
        "\<lparr>writes = [], uncaptured = [], unattributed = []\<rparr>"]
    by (simp add: Let_def split_beta) (simp add: ex_response_def ex_proxy_def counted_def)
qed

section \<open>One call, one row\<close>

text \<open>An Anthropic call that used input or output tokens leaves the same row, the same sink and the same
  counters whether it was streamed or answered in one body within the cap, for every way the stream is cut into
  reads that do not overflow the pending buffer. A call with cache tokens alone is stored only when it is
  streamed (\<open>cache_only_body_is_dropped\<close>).\<close>

theorem transports_store_alike:
  assumes "roomy newFramer chunks" and "sse_events (concat chunks) = (''message_start'', start) # es"
    and "ds start = Some m" and "\<forall>e\<in>set es. fst e \<noteq> ''message_start''" and "ar_Model m \<noteq> []"
    and "decode body = Some (m\<lparr>ar_Usage := (ar_Usage m)
      \<lparr>au_OutputTokens := last_delta dd es (au_OutputTokens (ar_Usage m))\<rparr>\<rparr>)"
    and "0 < au_InputTokens (ar_Usage m) \<or> 0 < last_delta dd es (au_OutputTokens (ar_Usage m))"
    and "length body \<le> maxBody"
  shows "snd (serve_stream p new_anthropic (anthropic_OnEvent ds dd) (anthropic_Finalise env) ingest a chunks s c) =
    snd (handleJSON p (parseAnthropic env decode) ingest a None body s c)"
proof -
  let ?site = "\<lparr>site_developer = at_developer a, site_issue = at_issue a, site_host = p_host p\<rparr>"
  have eq: "anthropic_Finalise env ?site (foldl (anthropic_OnEvent ds dd) new_anthropic (sse_events (concat chunks))) =
      parseAnthropic env decode body ?site"
    unfolding assms(2) using assms by (intro anthropic_agree)
  have "fst (parseAnthropic env decode body ?site) \<noteq> None"
    using assms(5-7) by (auto simp: parseAnthropic_def split_beta Let_def)
  then obtain ev where ev: "fst (parseAnthropic env decode body ?site) = Some ev" by auto
  show ?thesis
    using assms(8) by (simp add: serve_stream_exact [OF assms(1)] emit_stream_def eq handleJSON_def ev split_beta Let_def)
qed

theorem transports_store_alike_witness:
  "snd (serve_stream ex_proxy new_anthropic (anthropic_OnEvent (\<lambda>_. Some ex_message) (\<lambda>_. Some 7))
      (anthropic_Finalise ex_env) (\<lambda>ev s. (None, s @ [ev])) \<lparr>at_developer = ''d'', at_issue = ''1'', at_repo = ''o/r''\<rparr>
      [''event: message_start'' @ [LF] @ ''da'', ''ta: s'' @ [LF, LF]] [] \<lparr>writes = [], uncaptured = [], unattributed = []\<rparr>) =
   snd (handleJSON ex_proxy (parseAnthropic ex_env (\<lambda>_. Some ex_message)) (\<lambda>ev s. (None, s @ [ev]))
      \<lparr>at_developer = ''d'', at_issue = ''1'', at_repo = ''o/r''\<rparr> None ''{}'' [] \<lparr>writes = [], uncaptured = [], unattributed = []\<rparr>)"
proof -
  let ?ps = "[''event: message_start'' @ [LF] @ ''da'', ''ta: s'' @ [LF, LF]]"
  have roomy: "roomy newFramer ?ps" by (rule roomy_total) (simp add: newFramer_def maxSSEBuffer_def)
  have n: "split_on LF (norm_eol (concat ?ps)) = [''event: message_start'', ''data: s'', [], []]"
    by (simp add: CR_def LF_def)
  have "sse_lines ([], []) [''event: message_start'', ''data: s'', [], []] = [(''message_start'', ''s'')]" by code_simp
  then have e: "sse_events (concat ?ps) = [(''message_start'', ''s'')]"
    by (simp only: sse_events_def n)
  show ?thesis
    by (rule transports_store_alike [where start = "''s''" and es = "[]" and m = ex_message, OF roomy e])
      (simp_all add: ex_message_def maxBody_def)
qed

theorem attribution_not_forged_witness:
  "let (a', c') = resolve_attribution ex_proxy (Attr ex_response) [] \<lparr>writes = [], uncaptured = [], unattributed = []\<rparr>
   in at_developer a' = UnattributedIssueID \<and> \<not> ResemblesUnattributed (at_issue a') \<and> at_repo a' = ''owner/repo'' \<and>
      unattributed c' = [''developer-forged''] \<and> ResemblesUnattributed ''Unattributed:x''"
proof -
  let ?c = "\<lparr>writes = [], uncaptured = [], unattributed = []\<rparr>"
  have d: "screened ''developer'' ''Unattributed:x'' = (UnattributedIssueID, [''developer-forged''])" by code_simp
  have i: "screened ''issue'' ''T-1'' = (''T-1'', [])" by code_simp
  have r: "resolve_repo ''Owner/Repo'' = (''owner/repo'', [])" by code_simp
  have f: "resolve_attribution ex_proxy (Attr ex_response) [] ?c =
      (\<lparr>at_developer = UnattributedIssueID, at_issue = ''T-1'', at_repo = ''owner/repo''\<rparr>,
       ?c\<lparr>unattributed := [''developer-forged'']\<rparr>)"
    by (simp add: resolve_attribution_def ex_response_def d i r fold_record) (simp add: ex_proxy_def)
  have "''T-1'' \<noteq> UnattributedIssueID" by (simp add: UnattributedIssueID_def)
  moreover have "has_unattributed ex_proxy" by (simp add: ex_proxy_def)
  ultimately show ?thesis
    using attribution_not_forged [of ex_proxy "Attr ex_response" "[]" ?c] unfolding Let_def split_beta f
    by (simp add: ex_response_def)
qed

end
