(* ===== verification/Shipper.thy ===== *)
theory Shipper
  imports Collector_Event Money
begin

text \<open>
  The thin shipper of a laptop (\<^verbatim>\<open>internal/shipper/shipper.go\<close>): a sink that buffers events, cuts the buffer into
  batches bounded by count and by serialized size, and posts them with retries. The server is a script: the
  reply to each attempt, and whether the context ended during the sleep that follows it, are given by the number
  of attempts made before. \<^verbatim>\<open>encoding/json\<close> and the time format are fields of the environment.
\<close>

section \<open>The wire\<close>

record wire_event =
  w_CacheWriteEvidence :: string
  w_Developer :: string
  w_IssueID :: string
  w_Model :: string
  w_InputTok :: int
  w_OutputTok :: int
  w_CacheRead :: int
  w_CacheWrite5m :: int
  w_CacheWrite1h :: int
  w_CostUSD :: f64
  w_Source :: string
  w_Fidelity :: string
  w_IdempotencyKey :: string
  w_Host :: string
  w_SessionID :: string
  w_Repo :: string
  w_PRNumber :: "int option"
  w_BranchHash :: "string option"
  w_Timestamp :: string
  w_AttributionRule :: string
  w_IssueRule :: string

definition wireRepo :: "string \<Rightarrow> string" where
  "wireRepo repo = (case Canonical repo of Some slug \<Rightarrow> slug | None \<Rightarrow> [])"

definition DefaultBatchSize :: nat where "DefaultBatchSize = 500"
definition maxBatchBody :: nat where "maxBatchBody = 2 ^ 20"
definition DefaultMaxAttempts :: int where "DefaultMaxAttempts = 3"
definition DefaultBackoffBase :: duration where "DefaultBackoffBase = Second"
definition maxBackoff :: duration where "maxBackoff = 30 * Second"
definition maxErrorBodyBytes :: nat where "maxErrorBodyBytes = 8 * 2 ^ 10"

text \<open>The fields an older server may not know, in the order the code tries them.\<close>

datatype pr_field = F_pr_number | F_branch_hash | F_cache_write_evidence | F_issue_rule

fun field_key :: "pr_field \<Rightarrow> string" where
  "field_key F_pr_number = ''pr_number''"
| "field_key F_branch_hash = ''branch_hash''"
| "field_key F_cache_write_evidence = ''cache_write_evidence''"
| "field_key F_issue_rule = ''issue_rule''"

definition prFields :: "pr_field list" where
  "prFields = [F_pr_number, F_branch_hash, F_cache_write_evidence, F_issue_rule]"

fun strip_field :: "pr_field \<Rightarrow> wire_event \<Rightarrow> wire_event" where
  "strip_field F_pr_number e = e\<lparr>w_PRNumber := None\<rparr>"
| "strip_field F_branch_hash e = e\<lparr>w_BranchHash := None\<rparr>"
| "strip_field F_issue_rule e = e\<lparr>w_IssueRule := []\<rparr>"
| "strip_field F_cache_write_evidence e = e\<lparr>w_CacheWriteEvidence := []\<rparr>"

section \<open>The client and its surroundings\<close>

record client =
  endpoint :: string
  apiToken :: string
  batchSize :: nat
  maxAttempts :: int
  backoffBase :: duration
  omitPRFields :: bool
  buffered :: "wire_event list"
  shipped :: int
  rejectedCrossDeveloper :: int
  rules :: sink_rules

record eventsReceipt =
  Accepted :: "int option"
  RejectedCrossDeveloper :: int

text \<open>What an attempt meets: a request that could not be built, a transport error, or a status and a body.\<close>

datatype http_result = NoRequest string | Transport string | Response int string

text \<open>
  The environment. Decoders of the receiver that invert \<open>marshal\<close> are hypotheses of the theorems that use them:
  \<^verbatim>\<open>encoding/json\<close> does so for fields in valid UTF-8, and replaces other bytes by U+FFFD.
\<close>

record ship_env =
  marshal :: "wire_event list \<Rightarrow> string option"
  dec_receipt :: "string \<Rightarrow> eventsReceipt option"
  dec_envelope :: "string \<Rightarrow> string option"
  fmt_time :: "time \<Rightarrow> string"
  replies :: "nat \<Rightarrow> http_result"
  ctx_done :: "nat \<Rightarrow> string option"

text \<open>The attempts made, the sleeps between them, and the process-wide memory of the fields the endpoint
  refused (\<^verbatim>\<open>unsupportedPRFields\<close> at this endpoint).\<close>

record net =
  posted :: "(string \<times> http_result) list"
  slept :: "duration list"
  unsupported :: "pr_field set"

datatype post_error = Retryable string | UnknownPRField pr_field string | Fatal string

fun err_text :: "post_error \<Rightarrow> string" where
  "err_text (Retryable e) = e"
| "err_text (UnknownPRField f e) = e"
| "err_text (Fatal e) = e"

section \<open>One attempt\<close>

definition unknown_field_msg :: "pr_field \<Rightarrow> string" where
  "unknown_field_msg f = ''json: unknown field '' @ [CHR 0x22] @ field_key f @ [CHR 0x22]"

definition rejected_field :: "ship_env \<Rightarrow> string \<Rightarrow> pr_field option" where
  "rejected_field env msg =
     (let message = (case dec_envelope env msg of Some e \<Rightarrow> if e \<noteq> [] then e else msg | None \<Rightarrow> msg)
      in find (\<lambda>f. contains (unknown_field_msg f) message) prFields)"

definition verdict :: "ship_env \<Rightarrow> http_result \<Rightarrow> (post_error, eventsReceipt) res" where
  "verdict env r =
     (case r of
        NoRequest e \<Rightarrow> Inl (Fatal (''build request: '' @ e))
      | Transport e \<Rightarrow> Inl (Retryable e)
      | Response status body \<Rightarrow>
          (let msg = take maxErrorBodyBytes body
           in if status = 201 then
                Inr (case dec_receipt env msg of
                       Some q \<Rightarrow> q | None \<Rightarrow> \<lparr>Accepted = None, RejectedCrossDeveloper = 0\<rparr>)
              else
                (let err = ''server returned '' @ itoa status @ '': '' @ TrimSpace msg
                 in case (if status = 400 then rejected_field env msg else None) of
                      Some f \<Rightarrow> Inl (UnknownPRField f err)
                    | None \<Rightarrow> if 500 \<le> status then Inl (Retryable err) else Inl (Fatal err))))"

definition postOnce :: "ship_env \<Rightarrow> string \<Rightarrow> net \<Rightarrow> (post_error, eventsReceipt) res \<times> net" where
  "postOnce env body n =
     (let r = replies env (length (posted n)) in (verdict env r, n\<lparr>posted := posted n @ [(body, r)]\<rparr>))"

section \<open>A batch, with retries\<close>

function post_loop ::
  "ship_env \<Rightarrow> int \<Rightarrow> string \<Rightarrow> duration \<Rightarrow> int \<Rightarrow> net \<Rightarrow> (post_error, eventsReceipt) res \<times> net" where
  "post_loop env limit body delay attempt n =
     (case postOnce env body n of
        (Inl (Retryable e), n) \<Rightarrow>
          if limit \<le> attempt then (Inl (Retryable e), n)
          else
            (let n' = n\<lparr>slept := slept n @ [delay]\<rparr>
             in case ctx_done env (length (posted n)) of
                  Some e \<Rightarrow> (Inl (Fatal e), n')
                | None \<Rightarrow>
                    (let delay = wrap64 (delay * 2)
                     in post_loop env limit body (if maxBackoff < delay then maxBackoff else delay) (attempt + 1) n'))
      | (r, n) \<Rightarrow> (r, n))"
  by pat_completeness auto
termination by (relation "measure (\<lambda>(env, limit, body, delay, attempt, n). nat (limit - attempt))") auto

declare post_loop.simps [simp del]

definition postBatch :: "ship_env \<Rightarrow> client \<Rightarrow> string \<Rightarrow> net \<Rightarrow> (post_error, eventsReceipt) res \<times> net" where
  "postBatch env c body n = post_loop env (maxAttempts c) body (backoffBase c) 1 n"

section \<open>Flushing\<close>

definition stripUnsupportedFields :: "net \<Rightarrow> client \<Rightarrow> client" where
  "stripUnsupportedFields n c =
     foldl (\<lambda>c f. if f \<in> unsupported n
                  then c\<lparr>omitPRFields := True, buffered := map (strip_field f) (buffered c)\<rparr> else c) c prFields"

text \<open>The halving of a batch whose serialization is over the cap; \<open>n\<close> is positive where it is called.\<close>

function cut_batch :: "ship_env \<Rightarrow> wire_event list \<Rightarrow> nat \<Rightarrow> (nat \<times> string) option" where
  "cut_batch env b n =
     (case marshal env (take n b) of
        None \<Rightarrow> None
      | Some body \<Rightarrow> if length body \<le> maxBatchBody \<or> n \<le> 1 then Some (n, body) else cut_batch env b (n div 2))"
  by pat_completeness auto
termination by (relation "measure (\<lambda>(env, b, n). n)") auto

declare cut_batch.simps [simp del]

lemma finite_pr_fields: "finite (A :: pr_field set)"
proof (rule finite_subset)
  show "A \<subseteq> set prFields" by (auto simp: prFields_def intro: pr_field.exhaust)
qed simp

text \<open>The loop on a recognised additive-field refusal: remember the field, strip, post again; once per field.\<close>

function retry_fields ::
  "ship_env \<Rightarrow> nat \<Rightarrow> pr_field list \<Rightarrow> (post_error, eventsReceipt) res \<Rightarrow> client \<Rightarrow> net
    \<Rightarrow> (post_error, eventsReceipt) res \<times> client \<times> net" where
  "retry_fields env k retried r c n =
     (case r of
        Inl (UnknownPRField f e) \<Rightarrow>
          (let n = n\<lparr>unsupported := insert f (unsupported n)\<rparr>
           in if f \<in> set retried then (r, c, n)
              else
                (let c = stripUnsupportedFields n c
                 in case marshal env (take k (buffered c)) of
                      None \<Rightarrow> (Inl (Fatal ''json''), c, n)
                    | Some body \<Rightarrow> (let (r, n) = postBatch env c body n in retry_fields env k (f # retried) r c n)))
      | _ \<Rightarrow> (r, c, n))"
  by pat_completeness auto
termination
proof (relation "measure (\<lambda>(env, k, retried, r, c, n). card (UNIV - set retried))", goal_cases)
  case 1 then show ?case by simp
next
  case (2 env k retried r c n ra f e)
  then show ?case
    by (auto intro!: psubset_card_mono simp: finite_pr_fields simp del: card_Diff_insert)
qed

declare retry_fields.simps [simp del]

definition flush_step :: "ship_env \<Rightarrow> client \<times> net \<Rightarrow> string option \<times> client \<times> net" where
  "flush_step env s =
     (let (c, n) = s;
          c = stripUnsupportedFields n c
      in case cut_batch env (buffered c) (min (length (buffered c)) (batchSize c)) of
           None \<Rightarrow> (Some ''marshal batch'', c, n)
         | Some (k, body) \<Rightarrow>
             (let (r, n) = postBatch env c body n;
                  (r, c, n) = retry_fields env k [] r c n
              in case r of
                   Inl e \<Rightarrow> (Some (''ship batch of '' @ itoa (int k) @ '' events: '' @ err_text e), c, n)
                 | Inr q \<Rightarrow>
                     (let accepted = (case Accepted q of Some a \<Rightarrow> a | None \<Rightarrow> int k - RejectedCrossDeveloper q)
                      in (None, c\<lparr>shipped := shipped c + accepted,
                            rejectedCrossDeveloper := rejectedCrossDeveloper c + RejectedCrossDeveloper q,
                            buffered := drop k (buffered c)\<rparr>, n))))"

text \<open>The loop of \<^verbatim>\<open>flushLocked\<close>; a client with a batch size of zero would never leave it.\<close>

partial_function (option) flushLocked ::
  "ship_env \<Rightarrow> client \<times> net \<Rightarrow> (string option \<times> client \<times> net) option" where
  "flushLocked env s =
     (if buffered (fst s) = [] then Some (None, s)
      else (case flush_step env s of (Some e, s') \<Rightarrow> Some (Some e, s') | (None, s') \<Rightarrow> flushLocked env s'))"

definition wire :: "ship_env \<Rightarrow> token_event \<Rightarrow> wire_event" where
  "wire env ev = \<lparr>w_CacheWriteEvidence = CacheWriteEvidence ev, w_Developer = Developer ev, w_IssueID = IssueID ev,
     w_Model = Model ev, w_InputTok = InputTok ev, w_OutputTok = OutputTok ev, w_CacheRead = CacheRead ev,
     w_CacheWrite5m = CacheWrite5m ev, w_CacheWrite1h = CacheWrite1h ev, w_CostUSD = MicroToDollars (CostMicro ev),
     w_Source = Source ev, w_Fidelity = Fidelity ev, w_IdempotencyKey = IdempotencyKey ev, w_Host = Host ev,
     w_SessionID = SessionID ev, w_Repo = wireRepo (Repo ev), w_PRNumber = PRNumber ev, w_BranchHash = BranchHash ev,
     w_Timestamp = fmt_time env (Timestamp ev), w_AttributionRule = AttributionRule ev, w_IssueRule = IssueRule ev\<rparr>"

definition Client_Ingest ::
  "ship_env \<Rightarrow> token_event \<Rightarrow> client \<times> net \<Rightarrow> (string option \<times> client \<times> net) option" where
  "Client_Ingest env ev s =
     (let (c, n) = s;
          (ev, r) = Apply (rules c) ev;
          c = c\<lparr>rules := r, buffered := buffered c @ [wire env ev]\<rparr>
      in if length (buffered c) < batchSize c then Some (None, c, n) else flushLocked env (c, n))"

definition Client_Flush :: "ship_env \<Rightarrow> client \<times> net \<Rightarrow> (string option \<times> client \<times> net) option" where
  "Client_Flush env s = (if buffered (fst s) = [] then Some (None, s) else flushLocked env s)"

section \<open>Construction\<close>

record config =
  ServerURL :: string
  cfg_APIToken :: string
  BatchSize :: int
  cfg_MaxAttempts :: int
  BackoffBase :: duration

text \<open>What \<^verbatim>\<open>url.Parse\<close> reads and \<^verbatim>\<open>String\<close> writes.\<close>

record url =
  url_Scheme :: string
  url_Host :: string
  url_Hostname :: string
  url_String :: string

definition isLoopbackHost :: "(string \<Rightarrow> bool) \<Rightarrow> string \<Rightarrow> bool" where
  "isLoopbackHost loopback_ip host \<longleftrightarrow> host = ''localhost'' \<or> loopback_ip host"

definition trim_right_byte :: "char \<Rightarrow> string \<Rightarrow> string" where
  "trim_right_byte ch s = rev (dropWhile (\<lambda>x. x = ch) (rev s))"

definition New_client ::
  "(string \<Rightarrow> url option) \<Rightarrow> (string \<Rightarrow> bool) \<Rightarrow> config \<Rightarrow> (string, client) res" where
  "New_client url_parse loopback_ip cfg =
     (case url_parse (ServerURL cfg) of
        None \<Rightarrow> Inl ''invalid server URL''
      | Some u \<Rightarrow>
          if url_Host u = [] \<or> (url_Scheme u \<noteq> ''http'' \<and> url_Scheme u \<noteq> ''https'') then Inl ''invalid server URL''
          else if url_Scheme u = ''http'' \<and> \<not> isLoopbackHost loopback_ip (url_Hostname u) \<and> cfg_APIToken cfg \<noteq> []
          then Inl ''refusing to ship: the API token would cross the network in cleartext''
          else
            (let batch = (if BatchSize cfg = 0 then int DefaultBatchSize else BatchSize cfg);
                 attempts = (if cfg_MaxAttempts cfg = 0 then DefaultMaxAttempts else cfg_MaxAttempts cfg);
                 backoff = (if BackoffBase cfg = 0 then DefaultBackoffBase else BackoffBase cfg)
             in if batch < 1 \<or> int DefaultBatchSize < batch then Inl ''batch size out of range''
                else if attempts < 1 then Inl ''max attempts must be >= 1''
                else Inr \<lparr>endpoint = trim_right_byte CHR ''/'' (url_String u) @ ''/api/v1/events'',
                  apiToken = cfg_APIToken cfg, batchSize = nat batch, maxAttempts = attempts, backoffBase = backoff,
                  omitPRFields = False, buffered = [], shipped = 0, rejectedCrossDeveloper = 0, rules = fresh_rules\<rparr>))"

section \<open>Attempts\<close>

definition created :: "http_result \<Rightarrow> bool" where
  "created r = (case r of Response status _ \<Rightarrow> status = 201 | _ \<Rightarrow> False)"

text \<open>The bodies the server took, in order.\<close>

definition accepted :: "net \<Rightarrow> string list" where
  "accepted n = map fst (filter (\<lambda>x. created (snd x)) (posted n))"

definition retryable :: "(post_error, eventsReceipt) res \<Rightarrow> bool" where
  "retryable r = (case r of Inl (Retryable _) \<Rightarrow> True | _ \<Rightarrow> False)"

definition next_delay :: "duration \<Rightarrow> duration" where
  "next_delay d = (let d = wrap64 (d * 2) in if maxBackoff < d then maxBackoff else d)"

lemma verdict_created: "created r \<longleftrightarrow> (\<exists>q. verdict env r = Inr q)"
  by (auto simp: created_def verdict_def Let_def split: http_result.split option.split)

lemma post_loop_unfold:
  "post_loop env limit body delay attempt n =
     (let r = replies env (length (posted n)); n1 = n\<lparr>posted := posted n @ [(body, r)]\<rparr>
      in if retryable (verdict env r) \<and> attempt < limit then
           (case ctx_done env (Suc (length (posted n))) of
              Some e \<Rightarrow> (Inl (Fatal e), n1\<lparr>slept := slept n @ [delay]\<rparr>)
            | None \<Rightarrow> post_loop env limit body (next_delay delay) (attempt + 1) (n1\<lparr>slept := slept n @ [delay]\<rparr>))
         else (verdict env r, n1))"
  by (subst post_loop.simps)
    (auto simp: postOnce_def retryable_def next_delay_def Let_def split: sum.split post_error.split option.split)

lemma post_loop_run:
  assumes "post_loop env limit body delay attempt n = (r, n')" and "attempt \<le> limit"
  shows "\<exists>k>0. int k \<le> limit - attempt + 1 \<and> unsupported n' = unsupported n \<and>
    posted n' = posted n @ map (\<lambda>i. (body, replies env (length (posted n) + i))) [0..<k] \<and>
    (\<forall>i<k - 1. retryable (verdict env (replies env (length (posted n) + i)))) \<and>
    (slept n' = slept n @ map (\<lambda>i. (next_delay ^^ i) delay) [0..<k - 1] \<and>
       r = verdict env (replies env (length (posted n) + (k - 1))) \<and> (retryable r \<longrightarrow> int k = limit - attempt + 1) \<or>
     slept n' = slept n @ map (\<lambda>i. (next_delay ^^ i) delay) [0..<k] \<and>
       retryable (verdict env (replies env (length (posted n) + (k - 1)))) \<and>
       (\<exists>e. r = Inl (Fatal e) \<and> ctx_done env (length (posted n) + k) = Some e))"
  using assms
proof (induction "nat (limit - attempt)" arbitrary: delay attempt n)
  case 0
  then show ?case
    by (subst (asm) post_loop_unfold) (auto simp: Let_def intro!: exI [of _ 1])
next
  case (Suc d)
  let ?r = "replies env (length (posted n))"
  let ?n = "n\<lparr>posted := posted n @ [(body, ?r)], slept := slept n @ [delay]\<rparr>"
  show ?case
  proof (cases "retryable (verdict env ?r) \<and> attempt < limit \<and> ctx_done env (Suc (length (posted n))) = None")
    case False
    then show ?thesis
      using Suc.prems Suc.hyps(2) by (subst (asm) post_loop_unfold)
        (auto simp: Let_def intro!: exI [of _ 1] split: if_splits option.splits)
  next
    case True
    then have "post_loop env limit body (next_delay delay) (attempt + 1) ?n = (r, n')"
      using Suc.prems by (subst (asm) post_loop_unfold) (auto simp: Let_def)
    moreover have "d = nat (limit - (attempt + 1))" "attempt + 1 \<le> limit" using Suc.hyps(2) True by auto
    ultimately obtain k where k: "k > 0" "int k \<le> limit - (attempt + 1) + 1" "unsupported n' = unsupported n"
      and sent: "posted n' = posted ?n @ map (\<lambda>i. (body, replies env (length (posted ?n) + i))) [0..<k]"
      and re: "\<forall>i<k - 1. retryable (verdict env (replies env (length (posted ?n) + i)))"
      and fin: "slept n' = slept ?n @ map (\<lambda>i. (next_delay ^^ i) (next_delay delay)) [0..<k - 1] \<and>
          r = verdict env (replies env (length (posted ?n) + (k - 1))) \<and> (retryable r \<longrightarrow> int k = limit - (attempt + 1) + 1) \<or>
        slept n' = slept ?n @ map (\<lambda>i. (next_delay ^^ i) (next_delay delay)) [0..<k] \<and>
          retryable (verdict env (replies env (length (posted ?n) + (k - 1)))) \<and>
          (\<exists>e. r = Inl (Fatal e) \<and> ctx_done env (length (posted ?n) + k) = Some e)"
      using Suc.hyps(1) [of "attempt + 1" "next_delay delay" ?n] by auto
    have up: "map f [0..<Suc m] = f 0 # map (\<lambda>i. f (Suc i)) [0..<m]" for f :: "nat \<Rightarrow> 'x" and m
      by (simp only: upt_conv_Cons zero_less_Suc if_True list.map map_Suc_upt [symmetric] map_map comp_def)
    have p: "posted n' = posted n @ map (\<lambda>i. (body, replies env (length (posted n) + i))) [0..<Suc k]"
      unfolding sent up by simp
    have s: "map (\<lambda>i. (next_delay ^^ i) delay) [0..<Suc m] = delay # map (\<lambda>i. (next_delay ^^ i) (next_delay delay)) [0..<m]" for m
      unfolding up by (simp add: funpow_swap1)
    have kk: "Suc (k - 1) = k" using k(1) by simp
    have re': "\<forall>i<k. retryable (verdict env (replies env (length (posted n) + i)))"
    proof (intro allI impI)
      fix i assume "i < k"
      then show "retryable (verdict env (replies env (length (posted n) + i)))"
        using True re by (cases i) auto
    qed
    show ?thesis
      using k(2,3) p re' fin s [of "k - 1"] s [of k] k(1)
      by (intro exI [of _ "Suc k"]) (auto simp: kk simp del: upt_Suc)
  qed
qed

text \<open>What a posted batch leaves: at most one acceptance, of this body, exactly on success.\<close>

lemma postBatch_accepted:
  assumes "postBatch env c body n = (r, n')" and "1 \<le> maxAttempts c"
  shows "unsupported n' = unsupported n \<and>
    accepted n' = accepted n @ (case r of Inl _ \<Rightarrow> [] | Inr _ \<Rightarrow> [body]) \<and>
    (\<forall>f e. r = Inl (UnknownPRField f e) \<longrightarrow> (\<exists>i. verdict env (replies env i) = Inl (UnknownPRField f e)))"
proof -
  let ?N = "length (posted n)"
  have nc: "\<not> created (replies env i)" if "retryable (verdict env (replies env i))" for i
    using that by (auto simp: verdict_created [of _ env] retryable_def)
  obtain k where k: "k > 0" "unsupported n' = unsupported n"
    and sent: "posted n' = posted n @ map (\<lambda>i. (body, replies env (?N + i))) [0..<k]"
    and re: "\<forall>i<k - 1. retryable (verdict env (replies env (?N + i)))"
    and fin: "r = verdict env (replies env (?N + (k - 1))) \<or>
      retryable (verdict env (replies env (?N + (k - 1)))) \<and> (\<exists>e. r = Inl (Fatal e))"
    using post_loop_run [of env "maxAttempts c" body "backoffBase c" 1 n r n'] assms by (auto simp: postBatch_def)
  have split: "[0..<k] = [0..<k - 1] @ [k - 1]" using k(1) by (cases k) simp_all
  have none: "filter (\<lambda>x. created (snd x)) (map (\<lambda>i. (body, replies env (?N + i))) [0..<k - 1]) = []"
    using re nc by (auto simp: filter_empty_conv)
  have acc: "accepted n' = accepted n @ (if created (replies env (?N + (k - 1))) then [body] else [])"
    unfolding accepted_def sent split using none by simp
  show ?thesis
    using fin nc k(2) acc by (auto simp: verdict_created [of _ env] split: sum.splits)
qed

section \<open>Batches\<close>

text \<open>An event without the fields of \<open>F\<close>.\<close>

definition hide :: "pr_field set \<Rightarrow> wire_event \<Rightarrow> wire_event" where
  "hide F e = e\<lparr>w_PRNumber := if F_pr_number \<in> F then None else w_PRNumber e,
     w_BranchHash := if F_branch_hash \<in> F then None else w_BranchHash e,
     w_IssueRule := if F_issue_rule \<in> F then [] else w_IssueRule e,
     w_CacheWriteEvidence := if F_cache_write_evidence \<in> F then [] else w_CacheWriteEvidence e\<rparr>"

lemma hide_strip: "f \<in> F \<Longrightarrow> hide F (strip_field f e) = hide F e"
  by (cases f; cases e) (simp_all add: hide_def)

lemma hide_none [simp]: "hide {} e = e" by (cases e) (simp add: hide_def)

text \<open>What a flush leaves as it was.\<close>

definition settings :: "client \<Rightarrow> nat \<times> int \<times> duration \<times> sink_rules \<times> string \<times> string" where
  "settings c = (batchSize c, maxAttempts c, backoffBase c, rules c, endpoint c, apiToken c)"

lemma strip_unsupported:
  assumes "unsupported n \<subseteq> F"
  shows "map (hide F) (buffered (stripUnsupportedFields n c)) = map (hide F) (buffered c) \<and>
    settings (stripUnsupportedFields n c) = settings c"
  using assms by (simp add: stripUnsupportedFields_def prFields_def settings_def hide_strip subset_iff
      del: strip_field.simps)

lemma strip_length [simp]: "length (buffered (stripUnsupportedFields n c)) = length (buffered c)"
  by (simp add: stripUnsupportedFields_def prFields_def)

lemma strip_nothing: "unsupported n = {} \<Longrightarrow> stripUnsupportedFields n c = c"
  by (simp add: stripUnsupportedFields_def prFields_def)

lemma cut_batch_Some:
  "cut_batch env b n = Some (k, body) \<Longrightarrow>
     k \<le> n \<and> (0 < n \<longrightarrow> 0 < k) \<and> marshal env (take k b) = Some body \<and> (length body \<le> maxBatchBody \<or> k \<le> 1)"
proof (induction env b n rule: cut_batch.induct)
  case (1 env b n)
  show ?case
  proof (cases "marshal env (take n b)")
    case None
    with 1 show ?thesis by (subst (asm) cut_batch.simps) simp
  next
    case (Some body')
    show ?thesis
    proof (cases "length body' \<le> maxBatchBody \<or> n \<le> 1")
      case True
      with 1 Some show ?thesis by (subst (asm) cut_batch.simps) auto
    next
      case False
      then have "cut_batch env b (n div 2) = Some (k, body)"
        using 1(2) Some by (subst (asm) cut_batch.simps) simp
      with 1(1) [OF Some False] False show ?thesis by (auto simp: div_greater_zero_iff)
    qed
  qed
qed

text \<open>The fields a server may refuse.\<close>

definition refuses_only :: "ship_env \<Rightarrow> pr_field set \<Rightarrow> bool" where
  "refuses_only env F \<longleftrightarrow> (\<forall>i f e. verdict env (replies env i) = Inl (UnknownPRField f e) \<longrightarrow> f \<in> F)"

lemma retry_fields_run:
  assumes "retry_fields env k retried r c n = (r', c', n')" and "refuses_only env F" and "unsupported n \<subseteq> F"
    and "1 \<le> maxAttempts c" and "\<forall>f e. r = Inl (UnknownPRField f e) \<longrightarrow> f \<in> F"
  shows "unsupported n' \<subseteq> F \<and> settings c' = settings c \<and>
    map (hide F) (buffered c') = map (hide F) (buffered c) \<and>
    (case r of Inr _ \<Rightarrow> r' = r \<and> c' = c \<and> n' = n
     | Inl _ \<Rightarrow> (case r' of Inl _ \<Rightarrow> accepted n' = accepted n
        | Inr _ \<Rightarrow> \<exists>body. marshal env (take k (buffered c')) = Some body \<and> accepted n' = accepted n @ [body] \<and> F \<noteq> {}))"
  using assms
proof (induction env k retried r c n rule: retry_fields.induct)
  case (1 env k retried r c n)
  show ?case
  proof (cases "\<exists>f e. r = Inl (UnknownPRField f e)")
    case False
    then have "(r', c', n') = (r, c, n)"
      using 1(2) by (subst (asm) retry_fields.simps) (auto split: sum.splits post_error.splits)
    then show ?thesis using 1(4) by (simp split: sum.split)
  next
    case True
    then obtain f e where r: "r = Inl (UnknownPRField f e)" by blast
    define n1 where "n1 = n\<lparr>unsupported := insert f (unsupported n)\<rparr>"
    have f: "f \<in> F" using 1(6) r by blast
    have n1: "unsupported n1 \<subseteq> F" "accepted n1 = accepted n" using 1(4) f by (simp_all add: n1_def accepted_def)
    define c1 where "c1 = stripUnsupportedFields n1 c"
    note c1 = strip_unsupported [OF n1(1), of c, folded c1_def]
    show ?thesis
    proof (cases "f \<in> set retried")
      case True
      then have "(r', c', n') = (r, c, n1)"
        using 1(2) by (subst (asm) retry_fields.simps) (simp add: r n1_def)
      then show ?thesis using n1 by (simp add: r)
    next
      case new: False
      show ?thesis
      proof (cases "marshal env (take k (buffered c1))")
        case None
        then have "(r', c', n') = (Inl (Fatal ''json''), c1, n1)"
          using 1(2) new by (subst (asm) retry_fields.simps) (auto simp: r n1_def c1_def Let_def)
        then show ?thesis using n1 c1 by (simp add: r)
      next
        case (Some body)
        obtain r2 n2 where post: "postBatch env c1 body n1 = (r2, n2)" by fastforce
        have rec: "retry_fields env k (f # retried) r2 c1 n2 = (r', c', n')"
          using 1(2) new Some post by (subst (asm) retry_fields.simps) (simp add: r n1_def c1_def Let_def)
        have m: "1 \<le> maxAttempts c1" using 1(5) c1 by (simp add: settings_def)
        note p = postBatch_accepted [OF post m]
        have "unsupported n2 \<subseteq> F" using p n1 by simp
        moreover have "\<forall>g d. r2 = Inl (UnknownPRField g d) \<longrightarrow> g \<in> F"
          using p 1(3) unfolding refuses_only_def by blast
        ultimately have IH: "unsupported n' \<subseteq> F \<and> settings c' = settings c1 \<and>
            map (hide F) (buffered c') = map (hide F) (buffered c1) \<and>
            (case r2 of Inr _ \<Rightarrow> r' = r2 \<and> c' = c1 \<and> n' = n2
             | Inl _ \<Rightarrow> (case r' of Inl _ \<Rightarrow> accepted n' = accepted n2
                | Inr _ \<Rightarrow> \<exists>body. marshal env (take k (buffered c')) = Some body \<and> accepted n' = accepted n2 @ [body] \<and> F \<noteq> {}))"
          using 1(1) [OF r refl n1_def new c1_def Some post [symmetric] refl, folded n1_def c1_def] rec 1(3) m by blast
        then show ?thesis
          using p n1 c1 Some f by (auto simp: r split: sum.splits)
      qed
    qed
  qed
qed

lemma flush_step_eq:
  assumes "cut_batch env (buffered (stripUnsupportedFields n c))
      (min (length (buffered (stripUnsupportedFields n c))) (batchSize (stripUnsupportedFields n c))) = Some (k, body)"
    and "postBatch env (stripUnsupportedFields n c) body n = (r, n1)"
    and "retry_fields env k [] r (stripUnsupportedFields n c) n1 = (r2, c2, n2)"
  shows "flush_step env (c, n) = (case r2 of
      Inl e \<Rightarrow> (Some (''ship batch of '' @ itoa (int k) @ '' events: '' @ err_text e), c2, n2)
    | Inr q \<Rightarrow> (None, c2\<lparr>shipped := shipped c2 + (case Accepted q of Some a \<Rightarrow> a | None \<Rightarrow> int k - RejectedCrossDeveloper q),
        rejectedCrossDeveloper := rejectedCrossDeveloper c2 + RejectedCrossDeveloper q,
        buffered := drop k (buffered c2)\<rparr>, n2))"
  by (simp only: flush_step_def Let_def prod.case option.case assms)

lemma flush_step_run:
  assumes "flush_step env (c, n) = (e, c', n')" and "refuses_only env F" and "unsupported n \<subseteq> F"
    and "1 \<le> maxAttempts c" and "1 \<le> batchSize c" and "buffered c \<noteq> []"
  shows "unsupported n' \<subseteq> F \<and> settings c' = settings c \<and>
    (case e of Some _ \<Rightarrow> accepted n' = accepted n \<and> map (hide F) (buffered c') = map (hide F) (buffered c)
     | None \<Rightarrow> \<exists>es body. marshal env es = Some body \<and> accepted n' = accepted n @ [body] \<and> es \<noteq> [] \<and>
         length es \<le> batchSize c \<and> (F = {} \<longrightarrow> length body \<le> maxBatchBody \<or> length es = 1) \<and>
         map (hide F) (es @ buffered c') = map (hide F) (buffered c))"
proof -
  define c1 where "c1 = stripUnsupportedFields n c"
  note s = strip_unsupported [OF assms(3), of c, folded c1_def]
  have len: "length (buffered c1) = length (buffered c)" by (simp add: c1_def)
  have set1: "batchSize c1 = batchSize c" "maxAttempts c1 = maxAttempts c" using s by (simp_all add: settings_def)
  show ?thesis
  proof (cases "cut_batch env (buffered c1) (min (length (buffered c1)) (batchSize c1))")
    case None
    then have "flush_step env (c, n) = (Some ''marshal batch'', c1, n)"
      by (simp only: flush_step_def Let_def prod.case option.case c1_def)
    then show ?thesis using assms(1,3) s by simp
  next
    case (Some kb)
    then obtain k body where cut: "cut_batch env (buffered c1) (min (length (buffered c1)) (batchSize c1)) = Some (k, body)"
      by (cases kb) auto
    then have k: "0 < k" "k \<le> length (buffered c)" "k \<le> batchSize c" "marshal env (take k (buffered c1)) = Some body"
        "length body \<le> maxBatchBody \<or> k \<le> 1"
      using cut_batch_Some [OF cut] assms(5,6) len set1 by auto
    obtain r n1 where post: "postBatch env c1 body n = (r, n1)" by fastforce
    note p = postBatch_accepted [OF post, unfolded set1, OF assms(4)]
    obtain r2 c2 n2 where ret: "retry_fields env k [] r c1 n1 = (r2, c2, n2)" by (metis prod_cases3)
    have "unsupported n1 \<subseteq> F" "\<forall>f e. r = Inl (UnknownPRField f e) \<longrightarrow> f \<in> F"
      using p assms(2,3) unfolding refuses_only_def by (simp, blast)
    note run = retry_fields_run [OF ret assms(2) this(1) _ this(2), unfolded set1, OF assms(4)]
    note q1 = run [THEN conjunct1] and q2 = run [THEN conjunct2, THEN conjunct1]
      and q3 = run [THEN conjunct2, THEN conjunct2, THEN conjunct1]
      and q4 = run [THEN conjunct2, THEN conjunct2, THEN conjunct2]
    have len2: "length (buffered c2) = length (buffered c)" using arg_cong [OF q3, where f = length] len by simp
    have kept: "map (hide F) (buffered c2) = map (hide F) (buffered c)" "settings c2 = settings c"
      using q2 q3 s by simp_all
    note step = flush_step_eq [OF cut [unfolded c1_def] post [unfolded c1_def] ret [unfolded c1_def], unfolded assms(1)]
    show ?thesis
    proof (cases r2)
      case (Inl d)
      then have out: "e = Some (''ship batch of '' @ itoa (int k) @ '' events: '' @ err_text d)" "c' = c2" "n' = n2"
        using step by simp_all
      have "accepted n2 = accepted n" using q4 p Inl by (cases r) simp_all
      then show ?thesis using q1 kept by (simp add: out)
    next
      case (Inr z)
      then have out: "e = None" "buffered c' = drop k (buffered c2)" "settings c' = settings c2" "n' = n2"
        using step by (simp_all add: settings_def)
      obtain body2 where b2: "marshal env (take k (buffered c2)) = Some body2" "accepted n2 = accepted n @ [body2]"
          "F = {} \<longrightarrow> body2 = body"
      proof (cases r)
        case (Inl x)
        then show thesis using that q4 p Inr by simp (meson)
      next
        case (Inr x)
        then show thesis using that q4 p k(4) by simp
      qed
      have ne: "take k (buffered c2) \<noteq> []" and lk: "length (take k (buffered c2)) = k" using k(1,2) len2 by auto
      have m: "map (hide F) (take k (buffered c2) @ buffered c') = map (hide F) (buffered c)"
        by (simp only: out append_take_drop_id kept)
      have z: "F = {} \<longrightarrow> length body2 \<le> maxBatchBody \<or> length (take k (buffered c2)) = 1"
        using b2(3) k(1,5) lk by auto
      have "\<exists>es body. marshal env es = Some body \<and> accepted n2 = accepted n @ [body] \<and> es \<noteq> [] \<and>
          length es \<le> batchSize c \<and> (F = {} \<longrightarrow> length body \<le> maxBatchBody \<or> length es = 1) \<and>
          map (hide F) (es @ buffered c') = map (hide F) (buffered c)"
        using b2(1,2) ne k(3) lk z m by (intro exI [of _ "take k (buffered c2)"] exI [of _ body2]) simp
      then show ?thesis using q1 kept(2) by (simp only: out option.case simp_thms)
    qed
  qed
qed

text \<open>The whole loop: it returns, and every event is either in an accepted batch, in order, or still buffered.\<close>

definition batches :: "ship_env \<Rightarrow> pr_field set \<Rightarrow> nat \<Rightarrow> wire_event list list \<Rightarrow> string list \<Rightarrow> bool" where
  "batches env F limit = list_all2 (\<lambda>es body. marshal env es = Some body \<and> es \<noteq> [] \<and> length es \<le> limit \<and>
     (F = {} \<longrightarrow> length body \<le> maxBatchBody \<or> length es = 1))"

lemma flushLocked_run:
  assumes "refuses_only env F" and "unsupported n \<subseteq> F" and "1 \<le> maxAttempts c" and "1 \<le> batchSize c"
  shows "\<exists>e c' n' ess bodies. flushLocked env (c, n) = Some (e, c', n') \<and> unsupported n' \<subseteq> F \<and> settings c' = settings c \<and>
    accepted n' = accepted n @ bodies \<and> batches env F (batchSize c) ess bodies \<and>
    map (hide F) (concat ess @ buffered c') = map (hide F) (buffered c) \<and> (e = None \<longrightarrow> buffered c' = [])"
  using assms
proof (induction "length (buffered c)" arbitrary: c n rule: less_induct)
  case less
  show ?case
  proof (cases "buffered c = []")
    case True
    then show ?thesis
      using less.prems by (subst flushLocked.simps) (auto simp: batches_def intro!: exI [of _ "[]"])
  next
    case False
    obtain e c1 n1 where step: "flush_step env (c, n) = (e, c1, n1)" by (metis prod_cases3)
    note f = flush_step_run [OF step less.prems False]
    show ?thesis
    proof (cases e)
      case (Some d)
      then show ?thesis
        using f step False by (subst flushLocked.simps) (auto simp: batches_def intro!: exI [of _ "[]"])
    next
      case None
      then obtain es body where es: "marshal env es = Some body" "accepted n1 = accepted n @ [body]" "es \<noteq> []"
          "length es \<le> batchSize c" "F = {} \<longrightarrow> length body \<le> maxBatchBody \<or> length es = 1"
          "map (hide F) (es @ buffered c1) = map (hide F) (buffered c)"
        using f by auto
      have set1: "batchSize c1 = batchSize c" "maxAttempts c1 = maxAttempts c" using f by (simp_all add: settings_def)
      have "length (es @ buffered c1) = length (buffered c)" using es(6) by (metis length_map)
      then have "length (buffered c1) < length (buffered c)" using es(3) by (cases es) simp_all
      then obtain e' c' n' ess bodies where IH: "flushLocked env (c1, n1) = Some (e', c', n')" "unsupported n' \<subseteq> F"
          "settings c' = settings c1" "accepted n' = accepted n1 @ bodies" "batches env F (batchSize c) ess bodies"
          "map (hide F) (concat ess @ buffered c') = map (hide F) (buffered c1)" "e' = None \<longrightarrow> buffered c' = []"
        using less.hyps [of c1 n1] less.prems f set1 by auto
      have "flushLocked env (c, n) = Some (e', c', n')"
        using step None False IH(1) by (subst flushLocked.simps) simp
      moreover have "map (hide F) (concat (es # ess) @ buffered c') = map (hide F) (buffered c)"
        using es(6) IH(6) by simp
      moreover have "batches env F (batchSize c) (es # ess) (body # bodies)" using IH(5) es by (simp add: batches_def)
      moreover have "accepted n' = accepted n @ body # bodies" using IH(4) es(2) by simp
      ultimately show ?thesis using IH(2,3,7) f by (metis (no_types, lifting))
    qed
  qed
qed

section \<open>The client as a sink\<close>

text \<open>The rows a client answers for, in the form left when the fields of \<open>F\<close> are hidden: those the server
  took, read back by \<open>dec\<close>, and those still buffered.\<close>

definition shipped_rows :: "pr_field set \<Rightarrow> (string \<Rightarrow> wire_event list) \<Rightarrow> client \<times> net \<Rightarrow> wire_event list" where
  "shipped_rows F dec s = map (hide F) (concat (map dec (accepted (snd s))) @ buffered (fst s))"

definition fits :: "pr_field set \<Rightarrow> (string \<Rightarrow> wire_event list) \<Rightarrow> nat \<Rightarrow> string \<Rightarrow> bool" where
  "fits F dec limit body \<longleftrightarrow> dec body \<noteq> [] \<and> length (dec body) \<le> limit \<and>
     (F = {} \<longrightarrow> length body \<le> maxBatchBody \<or> length (dec body) = 1)"

definition ship_ok :: "ship_env \<Rightarrow> (string \<Rightarrow> wire_event list) \<Rightarrow> pr_field set \<Rightarrow> client \<times> net \<Rightarrow> bool" where
  "ship_ok env dec F s \<longleftrightarrow> refuses_only env F \<and> unsupported (snd s) \<subseteq> F \<and> 1 \<le> maxAttempts (fst s) \<and>
     1 \<le> batchSize (fst s) \<and> (\<forall>es b. marshal env es = Some b \<longrightarrow> dec b = es) \<and>
     list_all (fits F dec (batchSize (fst s))) (accepted (snd s))"

lemma batches_dec:
  assumes "batches env F limit ess bodies" and "\<forall>es b. marshal env es = Some b \<longrightarrow> dec b = es"
  shows "map dec bodies = ess \<and> list_all (fits F dec limit) bodies"
  using assms(1) unfolding batches_def
  by (induction rule: list_all2_induct) (use assms(2) in \<open>auto simp: fits_def\<close>)

lemma flush_keeps:
  assumes "ship_ok env dec F s"
  shows "\<exists>e s'. flushLocked env s = Some (e, s') \<and> ship_ok env dec F s' \<and> shipped_rows F dec s' = shipped_rows F dec s \<and>
    settings (fst s') = settings (fst s) \<and> (e = None \<longrightarrow> buffered (fst s') = [])"
proof -
  obtain c n where s: "s = (c, n)" by fastforce
  from assms obtain e c' n' ess bodies where f: "flushLocked env (c, n) = Some (e, c', n')" "unsupported n' \<subseteq> F"
      "settings c' = settings c" "accepted n' = accepted n @ bodies" "batches env F (batchSize c) ess bodies"
      "map (hide F) (concat ess @ buffered c') = map (hide F) (buffered c)" "e = None \<longrightarrow> buffered c' = []"
    using flushLocked_run [of env F n c] by (auto simp: ship_ok_def s)
  have d: "map dec bodies = ess" "list_all (fits F dec (batchSize c)) bodies"
    using batches_dec [OF f(5), of dec] assms by (simp_all add: ship_ok_def s)
  have "ship_ok env dec F (c', n')"
    using assms f d by (simp add: ship_ok_def s settings_def)
  moreover have "shipped_rows F dec (c', n') = shipped_rows F dec (c, n)"
    using f d(1) by (simp add: shipped_rows_def)
  ultimately show ?thesis using f by (auto simp: s)
qed

lemma Ingest_keeps:
  assumes "ship_ok env dec F s"
  shows "\<exists>e s'. Client_Ingest env ev s = Some (e, s') \<and> ship_ok env dec F s' \<and>
    shipped_rows F dec s' = shipped_rows F dec s @ [hide F (wire env (applied ev))]"
proof -
  obtain c n where s: "s = (c, n)" by fastforce
  let ?c = "c\<lparr>rules := snd (Apply (rules c) ev), buffered := buffered c @ [wire env (applied ev)]\<rparr>"
  have i: "Client_Ingest env ev (c, n) =
      (if length (buffered ?c) < batchSize c then Some (None, ?c, n) else flushLocked env (?c, n))"
    by (simp add: Client_Ingest_def Let_def split_beta Apply_applied)
  have ok: "ship_ok env dec F (?c, n)" using assms by (simp add: ship_ok_def s)
  have r: "shipped_rows F dec (?c, n) = shipped_rows F dec (c, n) @ [hide F (wire env (applied ev))]"
    by (simp add: shipped_rows_def)
  show ?thesis
    using flush_keeps [OF ok] ok r unfolding s i by (cases "length (buffered ?c) < batchSize c") auto
qed

definition ship_sink :: "ship_env \<Rightarrow> (token_event, client \<times> net) sink" where
  "ship_sink env ev s = (case Client_Ingest env ev s of Some r \<Rightarrow> r | None \<Rightarrow> (Some ''did not return'', s))"

lemma ship_sink_Some: "Client_Ingest env ev s = Some r \<Longrightarrow> ship_sink env ev s = r" by (simp add: ship_sink_def)

interpretation remote: event_sink "ship_sink env" "shipped_rows F dec" "\<lambda>ev. hide F (wire env (applied ev))" "ship_ok env dec F"
  for env F dec
proof
  fix s ev s'
  assume "ship_ok env dec F s" "ship_sink env ev s = (None, s')"
  then show "shipped_rows F dec s' = shipped_rows F dec s @ [hide F (wire env (applied ev))]"
    using Ingest_keeps [of env dec F s ev] by (auto simp: ship_sink_def)
next
  fix s ev
  assume "ship_ok env dec F s"
  then show "ship_ok env dec F (snd (ship_sink env ev s))"
    using Ingest_keeps [of env dec F s ev] by (auto simp: ship_sink_def)
qed

text \<open>A client as \<^verbatim>\<open>New\<close> builds it.\<close>

lemma New_client_Inr:
  assumes "New_client url_parse lb cfg = Inr c"
  shows "1 \<le> batchSize c \<and> batchSize c \<le> DefaultBatchSize \<and> 1 \<le> maxAttempts c \<and> buffered c = [] \<and> apiToken c = cfg_APIToken cfg \<and>
    (\<exists>u. url_parse (ServerURL cfg) = Some u \<and> url_Host u \<noteq> [] \<and> url_Scheme u \<in> {''http'', ''https''} \<and>
       endpoint c = trim_right_byte CHR ''/'' (url_String u) @ ''/api/v1/events'' \<and>
       (apiToken c \<noteq> [] \<longrightarrow> url_Scheme u = ''https'' \<or> isLoopbackHost lb (url_Hostname u)))"
  using assms
  by (auto simp: New_client_def Let_def DefaultMaxAttempts_def split: option.splits if_splits)

definition fresh_net :: "pr_field set \<Rightarrow> net" where "fresh_net U = \<lparr>posted = [], slept = [], unsupported = U\<rparr>"

lemma fresh_client_ok:
  assumes "New_client url_parse lb cfg = Inr c" and "refuses_only env F" and "U \<subseteq> F"
    and "\<forall>es b. marshal env es = Some b \<longrightarrow> dec b = es"
  shows "ship_ok env dec F (c, fresh_net U)" and "shipped_rows F dec (c, fresh_net U) = []"
  using New_client_Inr [OF assms(1)] assms(2-4)
  by (simp_all add: ship_ok_def shipped_rows_def fresh_net_def accepted_def)

lemma Flush_keeps:
  assumes "ship_ok env dec F s"
  shows "\<exists>e s'. Client_Flush env s = Some (e, s') \<and> ship_ok env dec F s' \<and> shipped_rows F dec s' = shipped_rows F dec s \<and>
    settings (fst s') = settings (fst s) \<and> (e = None \<longrightarrow> buffered (fst s') = [])"
  using flush_keeps [OF assms] assms by (cases "buffered (fst s) = []") (auto simp: Client_Flush_def)

section \<open>Properties\<close>

lemma batchSize_kept: "ship_ok env dec F s \<Longrightarrow> batchSize (fst (snd (ingest_all (ship_sink env) evs s))) = batchSize (fst s)"
proof (induction evs arbitrary: s)
  case (Cons ev evs)
  obtain c n where s: "s = (c, n)" by fastforce
  have one: "batchSize (fst (snd (ship_sink env ev s))) = batchSize (fst s)"
  proof -
    let ?c = "c\<lparr>rules := snd (Apply (rules c) ev), buffered := buffered c @ [wire env (applied ev)]\<rparr>"
    have "ship_ok env dec F (?c, n)" using Cons.prems by (simp add: ship_ok_def s)
    from flush_keeps [OF this] show ?thesis
      by (auto simp: ship_sink_def Client_Ingest_def s Let_def split_beta Apply_applied settings_def)
  qed
  obtain e t where t: "ship_sink env ev s = (e, t)" by (metis surj_pair)
  have "ship_ok env dec F t" using remote.ok_ingest [OF Cons.prems, of ev] t by simp
  with Cons.IH [of t] one t show ?case by (auto simp: Let_def split_beta split: option.split)
qed simp

lemma ship_delivers:
  assumes "New_client url_parse lb cfg = Inr c" and "refuses_only env F" and "U \<subseteq> F"
    and "\<forall>es b. marshal env es = Some b \<longrightarrow> dec b = es"
    and "ingest_all (ship_sink env) evs (c, fresh_net U) = (None, s)" and "Client_Flush env s = Some (None, c', n')"
  shows "map (hide F) (concat (map dec (accepted n'))) = map (\<lambda>ev. hide F (wire env (applied ev))) evs \<and>
    list_all (fits F dec DefaultBatchSize) (accepted n')"
proof -
  note ok = fresh_client_ok [OF assms(1-4)]
  have "shipped_rows F dec s = map (\<lambda>ev. hide F (wire env (applied ev))) evs"
    using remote.ingest_all_held [OF ok(1) assms(5)] ok(2) by simp
  moreover have ok': "ship_ok env dec F s" using remote.ingest_all_ok [OF ok(1), of evs] assms(5) by simp
  ultimately have fin: "ship_ok env dec F (c', n')" "settings c' = settings (fst s)"
      "shipped_rows F dec (c', n') = map (\<lambda>ev. hide F (wire env (applied ev))) evs" "buffered c' = []"
    using Flush_keeps [OF ok'] assms(6) by auto
  have "batchSize (fst s) = batchSize c" using batchSize_kept [OF ok(1), of evs] assms(5) by simp
  then have "batchSize c' \<le> DefaultBatchSize" using fin(2) New_client_Inr [OF assms(1)] by (simp add: settings_def)
  then show ?thesis
    using fin by (auto simp: shipped_rows_def ship_ok_def list_all_iff fits_def)
qed

text \<open>A run that reports no error has delivered everything: the bodies the server took are, in order and without a
  repetition, the batches of exactly the events that were ingested, each as the rules of the sink leave it and
  as it goes on the wire, up to the additive fields this server refuses; no batch is empty or over the count cap,
  and, on a server that refuses none, none but a single event is over the byte cap.\<close>

theorem ship_run_delivers:
  assumes "New_client url_parse lb cfg = Inr c" and "refuses_only env F" and "U \<subseteq> F"
    and "\<forall>es b. marshal env es = Some b \<longrightarrow> dec b = es"
    and "ingest_all (ship_sink env) evs (c, fresh_net U) = (None, s)" and "Client_Flush env s = Some (None, c', n')"
  shows "map (hide F) (concat (map dec (accepted n'))) = map (\<lambda>ev. hide F (wire env (applied ev))) evs \<and>
    list_all (fits F dec DefaultBatchSize) (accepted n')"
  using assms by (rule ship_delivers)

definition ex_url :: "string \<Rightarrow> url option" where
  "ex_url raw = Some \<lparr>url_Scheme = ''https'', url_Host = ''tier.example'', url_Hostname = ''tier.example'', url_String = raw\<rparr>"

definition ex_config :: config where
  "ex_config = \<lparr>ServerURL = ''https://tier.example/'', cfg_APIToken = ''t'', BatchSize = 0, cfg_MaxAttempts = 0, BackoffBase = 0\<rparr>"

text \<open>A server that fails once and then takes the batch; the codec knows one batch, the one of event \<open>ev\<close>.\<close>

definition ex_codec :: ship_env where
  "ex_codec = \<lparr>marshal = \<lambda>_. None, dec_receipt = \<lambda>_. None, dec_envelope = \<lambda>_. None,
     fmt_time = \<lambda>_. ''t'', replies = \<lambda>i. if i = 0 then Response 503 [] else Response 201 [], ctx_done = \<lambda>_. None\<rparr>"

definition ex_wire :: "token_event \<Rightarrow> wire_event" where "ex_wire ev = wire ex_codec (applied ev)"

definition ex_ship :: "token_event \<Rightarrow> ship_env" where
  "ex_ship ev = ex_codec\<lparr>marshal := \<lambda>es. if es = [ex_wire ev] then Some ''[1]'' else None\<rparr>"

lemma ex_ship_facts:
  "refuses_only (ex_ship ev) {}" "\<forall>es b. marshal (ex_ship ev) es = Some b \<longrightarrow> (\<lambda>_. [ex_wire ev]) b = es"
  by (auto simp: refuses_only_def ex_ship_def ex_codec_def verdict_def split: if_splits)

definition ex_client :: client where
  "ex_client = \<lparr>endpoint = ''https://tier.example/api/v1/events'', apiToken = ''t'', batchSize = 500, maxAttempts = 3,
     backoffBase = Second, omitPRFields = False, buffered = [], shipped = 0, rejectedCrossDeveloper = 0, rules = fresh_rules\<rparr>"

lemma ex_client_new: "New_client ex_url (\<lambda>_. False) ex_config = Inr ex_client"
  by (simp add: New_client_def ex_url_def ex_config_def ex_client_def trim_right_byte_def DefaultBatchSize_def
      DefaultMaxAttempts_def DefaultBackoffBase_def)

definition ex_ship_event :: token_event where
  "ex_ship_event = zero_event\<lparr>Developer := ''dev'', IssueID := UnattributedForeignRepo, Repo := ''other/repo''\<rparr>"

lemma ex_wire_event: "wire (ex_ship ev) (applied ev) = ex_wire ev"
  by (simp add: ex_wire_def wire_def ex_ship_def)

lemma ex_run:
  "ingest_all (ship_sink (ex_ship ev)) [ev] (ex_client, fresh_net {}) =
     (None, ex_client\<lparr>rules := snd (Apply fresh_rules ev), buffered := [ex_wire ev]\<rparr>, fresh_net {})"
  by (simp add: ship_sink_def Client_Ingest_def split_beta Apply_applied ex_wire_event ex_client_def Let_def)

lemma ex_flush:
  "Client_Flush (ex_ship ev) (ex_client\<lparr>rules := r, buffered := [ex_wire ev]\<rparr>, fresh_net {}) =
     Some (None, ex_client\<lparr>rules := r, shipped := 1\<rparr>, \<lparr>posted = [(''[1]'', Response 503 []), (''[1]'', Response 201 [])],
       slept = [Second], unsupported = {}\<rparr>)"
proof -
  let ?c = "ex_client\<lparr>rules := r, buffered := [ex_wire ev]\<rparr>"
  let ?n = "\<lparr>posted = [(''[1]'', Response 503 []), (''[1]'', Response 201 [])], slept = [Second], unsupported = {}\<rparr>"
  let ?q = "\<lparr>Accepted = None, RejectedCrossDeveloper = 0\<rparr>"
  have strip: "stripUnsupportedFields (fresh_net {}) ?c = ?c" by (rule strip_nothing) (simp add: fresh_net_def)
  have cut: "cut_batch (ex_ship ev) (buffered ?c) (min (length (buffered ?c)) (batchSize ?c)) = Some (1, ''[1]'')"
    by (subst cut_batch.simps) (simp add: ex_ship_def ex_codec_def ex_client_def maxBatchBody_def)
  have "post_loop (ex_ship ev) 3 ''[1]'' Second 1 (fresh_net {}) = (Inr ?q, ?n)"
    by (subst post_loop_unfold, subst post_loop_unfold)
      (simp add: ex_ship_def ex_codec_def fresh_net_def retryable_def verdict_def Let_def)
  then have post: "postBatch (ex_ship ev) ?c ''[1]'' (fresh_net {}) = (Inr ?q, ?n)"
    by (simp add: postBatch_def ex_client_def)
  have retry: "retry_fields (ex_ship ev) 1 [] (Inr ?q) ?c ?n = (Inr ?q, ?c, ?n)" by (subst retry_fields.simps) simp
  have "flush_step (ex_ship ev) (?c, fresh_net {}) = (None, ex_client\<lparr>rules := r, shipped := 1\<rparr>, ?n)"
    using flush_step_eq [of "ex_ship ev" "fresh_net {}" ?c 1 "''[1]''" "Inr ?q" ?n "Inr ?q" ?c ?n, unfolded strip,
        OF cut post retry] by (simp add: ex_client_def)
  then show ?thesis
    by (simp add: Client_Flush_def) (subst flushLocked.simps, simp, subst flushLocked.simps, simp add: ex_client_def)
qed

theorem ship_run_delivers_witness:
  "\<exists>c' n'. Client_Flush (ex_ship ex_ship_event) (snd (ingest_all (ship_sink (ex_ship ex_ship_event)) [ex_ship_event]
       (ex_client, fresh_net {}))) = Some (None, c', n') \<and>
     concat (map (\<lambda>_. [ex_wire ex_ship_event]) (accepted n')) = [wire (ex_ship ex_ship_event) (applied ex_ship_event)]"
proof -
  let ?n = "\<lparr>posted = [(''[1]'', Response 503 []), (''[1]'', Response 201 [])], slept = [Second], unsupported = {}\<rparr>"
  have "concat (map (\<lambda>_. [ex_wire ex_ship_event]) (accepted ?n)) =
      [wire (ex_ship ex_ship_event) (applied ex_ship_event)]"
    using ship_run_delivers [OF ex_client_new ex_ship_facts(1) order_refl ex_ship_facts(2) ex_run ex_flush]
    by (simp add: comp_def)
  then show ?thesis unfolding ex_run snd_conv ex_flush by blast
qed

lemma next_delay_pow:
  assumes "0 < d" and "d \<le> maxBackoff"
  shows "(next_delay ^^ i) d = min (d * 2 ^ i) maxBackoff"
proof (induction i)
  case (Suc i)
  have "min (d * 2 ^ i) maxBackoff \<le> maxBackoff" "0 < min (d * 2 ^ i) maxBackoff"
    using assms by simp_all
  then have "in_int64 (min (d * 2 ^ i) maxBackoff * 2)"
    by (auto simp: in_int64_def min_int64_def max_int64_def maxBackoff_def Second_def)
  then have "next_delay (min (d * 2 ^ i) maxBackoff) = min (d * 2 ^ Suc i) maxBackoff"
    by (auto simp: next_delay_def Let_def min_def maxBackoff_def Second_def)
  then show ?case by (simp only: Suc funpow.simps comp_apply)
qed (use assms in simp)

text \<open>A batch is tried at least once and at most the configured number of times, always with the same body; every
  attempt but the last met a transport error or a 5xx, the sleeps between them double from the base up to the
  cap, a retryable error is reported only after the last attempt allowed, and the server took the body at most
  once: exactly when success is reported.\<close>

theorem postBatch_bounded:
  assumes "postBatch env c body n = (r, n')" and "1 \<le> maxAttempts c" and "0 < backoffBase c" and "backoffBase c \<le> maxBackoff"
  shows "\<exists>k m. 1 \<le> k \<and> int k \<le> maxAttempts c \<and> m \<le> k \<and>
    posted n' = posted n @ map (\<lambda>i. (body, replies env (length (posted n) + i))) [0..<k] \<and>
    (\<forall>i<k - 1. retryable (verdict env (replies env (length (posted n) + i)))) \<and>
    slept n' = slept n @ map (\<lambda>i. min (backoffBase c * 2 ^ i) maxBackoff) [0..<m] \<and>
    (retryable r \<longrightarrow> int k = maxAttempts c) \<and>
    accepted n' = accepted n @ (case r of Inl _ \<Rightarrow> [] | Inr _ \<Rightarrow> [body])"
proof -
  obtain k where k: "k > 0" "int k \<le> maxAttempts c"
    and sent: "posted n' = posted n @ map (\<lambda>i. (body, replies env (length (posted n) + i))) [0..<k]"
    and re: "\<forall>i<k - 1. retryable (verdict env (replies env (length (posted n) + i)))"
    and fin: "slept n' = slept n @ map (\<lambda>i. (next_delay ^^ i) (backoffBase c)) [0..<k - 1] \<and> (retryable r \<longrightarrow> int k = maxAttempts c) \<or>
      slept n' = slept n @ map (\<lambda>i. (next_delay ^^ i) (backoffBase c)) [0..<k] \<and> \<not> retryable r"
    using post_loop_run [of env "maxAttempts c" body "backoffBase c" 1 n r n'] assms(1,2)
    by (fastforce simp: postBatch_def retryable_def)
  then have "\<exists>m\<le>k. slept n' = slept n @ map (\<lambda>i. min (backoffBase c * 2 ^ i) maxBackoff) [0..<m]" "retryable r \<longrightarrow> int k = maxAttempts c"
    unfolding next_delay_pow [OF assms(3,4)] by (metis diff_le_self order_refl)+
  then show ?thesis using k sent re postBatch_accepted [OF assms(1,2)] by (metis Suc_leI One_nat_def)
qed

theorem postBatch_bounded_witness:
  "\<exists>k m. 1 \<le> k \<and> int k \<le> 3 \<and> m \<le> k \<and>
     slept (snd (postBatch (ex_ship ex_ship_event) ex_client ''b'' (fresh_net {}))) = map (\<lambda>i. min (Second * 2 ^ i) maxBackoff) [0..<m]"
proof -
  obtain r n' where *: "postBatch (ex_ship ex_ship_event) ex_client ''b'' (fresh_net {}) = (r, n')" by (metis surj_pair)
  have "1 \<le> maxAttempts ex_client" "0 < backoffBase ex_client" "backoffBase ex_client \<le> maxBackoff"
    by (simp_all add: ex_client_def maxBackoff_def Second_def)
  from postBatch_bounded [OF * this] obtain k m where km: "1 \<le> k" "int k \<le> maxAttempts ex_client" "m \<le> k"
      "slept n' = slept (fresh_net {}) @ map (\<lambda>i. min (backoffBase ex_client * 2 ^ i) maxBackoff) [0..<m]"
    by (elim exE conjE) (rule that)
  have sl: "slept n' = map (\<lambda>i. min (Second * 2 ^ i) maxBackoff) [0..<m]" "int k \<le> 3"
    using km(2,4) by (simp_all add: ex_client_def fresh_net_def)
  show ?thesis unfolding * snd_conv using km(1,3) sl by blast
qed

text \<open>C34. No error loses an event: wherever a run stops, the events ingested up to and including the one that
  reported the error are exactly those the server took and those still buffered, in order; the final flush
  returns, whatever the server answers, and keeps the same events.\<close>

theorem ship_loses_nothing:
  assumes "New_client url_parse lb cfg = Inr c" and "refuses_only env F" and "U \<subseteq> F"
    and "\<forall>es b. marshal env es = Some b \<longrightarrow> dec b = es"
    and "ingest_all (ship_sink env) evs (c, fresh_net U) = (e, s)"
  shows "shipped_rows F dec s = map (\<lambda>ev. hide F (wire env (applied ev)))
      (take (case e of None \<Rightarrow> length evs | Some (_, i) \<Rightarrow> Suc i) evs) \<and>
    (\<exists>e' s'. Client_Flush env s = Some (e', s') \<and> shipped_rows F dec s' = shipped_rows F dec s)"
proof -
  note ok = fresh_client_ok [OF assms(1-4)]
  have "ship_ok env dec F t \<Longrightarrow> ingest_all (ship_sink env) evs t = (e, s) \<Longrightarrow> shipped_rows F dec s = shipped_rows F dec t @
      map (\<lambda>ev. hide F (wire env (applied ev))) (take (case e of None \<Rightarrow> length evs | Some (_, i) \<Rightarrow> Suc i) evs)" for t
  proof (induction evs arbitrary: t e)
    case (Cons ev evs)
    obtain d t' where t': "Client_Ingest env ev t = Some (d, t')" "ship_ok env dec F t'"
        "shipped_rows F dec t' = shipped_rows F dec t @ [hide F (wire env (applied ev))]"
      using Ingest_keeps [OF Cons.prems(1), of ev] by blast
    show ?case
    proof (cases d)
      case None
      obtain e' u where u: "ingest_all (ship_sink env) evs t' = (e', u)" by (metis surj_pair)
      then have "u = s" "e = map_option (apsnd Suc) e'" using Cons.prems(2) ship_sink_Some [OF t'(1)] None by simp_all
      then show ?thesis using Cons.IH [OF t'(2), of e'] u t'(3) by (cases e') auto
    next
      case (Some x)
      then show ?thesis using Cons.prems(2) ship_sink_Some [OF t'(1)] t'(3) by auto
    qed
  qed simp
  then have "shipped_rows F dec s = map (\<lambda>ev. hide F (wire env (applied ev)))
      (take (case e of None \<Rightarrow> length evs | Some (_, i) \<Rightarrow> Suc i) evs)" using ok assms(5) by simp
  moreover have "ship_ok env dec F s" using remote.ingest_all_ok [OF ok(1), of evs] assms(5) by simp
  ultimately show ?thesis using Flush_keeps by blast
qed

theorem ship_loses_nothing_witness:
  "shipped_rows {} (\<lambda>_. [ex_wire ex_ship_event]) (snd (ingest_all (ship_sink (ex_ship ex_ship_event)) [ex_ship_event] (ex_client, fresh_net {}))) =
     [wire (ex_ship ex_ship_event) (applied ex_ship_event)]"
  using ship_loses_nothing [OF ex_client_new ex_ship_facts(1) order_refl ex_ship_facts(2) ex_run]
  unfolding ex_run snd_conv by simp

end
