(* ===== verification/Event_Intake.thy ===== *)
theory Event_Intake
  imports Shipper Pricing
begin

text \<open>
  The intake of shipped events (\<^verbatim>\<open>internal/api/events.go\<close> and the identity rules of \<^verbatim>\<open>handler.go\<close>): the validation of
  one element in the order of the code, the all-or-nothing batch, and the pricing cross-check. The element is
  the record the shipper puts on the wire; \<^verbatim>\<open>encoding/json\<close> over the size-capped reader, \<^verbatim>\<open>time.Parse\<close> and the
  batch insert of the store are parameters.
\<close>

section \<open>Identity rules\<close>

definition maxIdentifierLen :: nat where "maxIdentifierLen = 256"

definition UnattributedFamily :: "string list" where
  "UnattributedFamily = [UnattributedIssueID, UnattributedMain, UnattributedDetachedHEAD, UnattributedNoIssue,
     UnattributedForeignRepo]"

definition validateRepo :: "string \<Rightarrow> (string, string) res" where
  "validateRepo s =
     (if s = [] then Inr Unqualified
      else if maxIdentifierLen < length s then Inl ''repo must be <= 256 chars''
      else if equal_fold (TrimSpace s) Unqualified
      then Inl ''repo is reserved; omit the field when the repository is unknown''
      else (case Canonical s of Some slug \<Rightarrow> Inr slug | None \<Rightarrow> Inl ''repo must be a canonical owner/repo slug''))"

definition validateIssueID :: "string \<Rightarrow> string option" where
  "validateIssueID s = (if ResemblesUnattributed s then Some ''issue_id is reserved'' else None)"

definition validateDeveloper :: "string \<Rightarrow> string option" where
  "validateDeveloper s = (if ResemblesUnattributed s then Some ''developer is reserved'' else None)"

definition validateShippedIssueID :: "string \<Rightarrow> string option" where
  "validateShippedIssueID s = (if s \<in> set UnattributedFamily then None else validateIssueID s)"

definition ValidateCacheWriteEvidence :: "string \<Rightarrow> int \<Rightarrow> string option" where
  "ValidateCacheWriteEvidence evidence write1h =
     (if evidence \<noteq> [] \<and> evidence \<noteq> ''nested'' \<and> evidence \<noteq> ''legacy'' then Some ''invalid cache_write_evidence''
      else if evidence = ''legacy'' \<and> write1h \<noteq> 0 then Some ''legacy cache_write_evidence cannot contain 1h writes''
      else None)"

definition branchHashRE :: "string \<Rightarrow> bool" where
  "branchHashRE s \<longleftrightarrow> length s = 64 \<and> list_all (\<lambda>ch. is_digit ch \<or> ch \<in> set ''abcdef'') s"

section \<open>One element\<close>

definition MaxTokenCount :: int where "MaxTokenCount = 1000000000000"
definition maxEventClockSkew :: duration where "maxEventClockSkew = 24 * Hour"
definition minEventYear :: int where "minEventYear = 2020"

text \<open>\<open>parse_time\<close> yields the instant and the year in the zone it was written in.\<close>

record intake_env =
  in_prices :: price_table
  parse_time :: "string \<Rightarrow> (time \<times> int) option"

definition validateFutureTimestamp :: "time \<Rightarrow> time \<Rightarrow> string option" where
  "validateFutureTimestamp ts now =
     (if now + maxEventClockSkew < ts then Some ''timestamp is in the future of server time'' else None)"

definition token_counts :: "wire_event \<Rightarrow> int list" where
  "token_counts q = [w_InputTok q, w_OutputTok q, w_CacheRead q, w_CacheWrite5m q, w_CacheWrite1h q]"

definition wire_usage :: "wire_event \<Rightarrow> cost_usage" where
  "wire_usage q = \<lparr>cu_Input = w_InputTok q, cu_Output = w_OutputTok q, cu_CacheRead = w_CacheRead q,
     cu_CacheWrite5m = w_CacheWrite5m q, cu_CacheWrite1h = w_CacheWrite1h q\<rparr>"

text \<open>The struct literal at the end of the validation.\<close>

definition intake_row :: "intake_env \<Rightarrow> wire_event \<Rightarrow> time \<Rightarrow> string \<Rightarrow> store_event" where
  "intake_row env q ts repo =
     (let (cost, mode) = fst (ComputeCostHost (in_prices env) (w_Host q) (w_Model q) (wire_usage q))
      in \<lparr>TokenDerived = True, st_event = zero_event\<lparr>CacheWriteEvidence := w_CacheWriteEvidence q,
           Developer := w_Developer q, IssueID := w_IssueID q, Model := w_Model q, InputTok := w_InputTok q,
           OutputTok := w_OutputTok q, CacheRead := w_CacheRead q, CacheWrite5m := w_CacheWrite5m q,
           CacheWrite1h := w_CacheWrite1h q, CostMicro := cost, BillingMode := mode, Host := w_Host q,
           Source := w_Source q, Fidelity := w_Fidelity q, IdempotencyKey := w_IdempotencyKey q, Repo := repo,
           PRNumber := w_PRNumber q, BranchHash := w_BranchHash q, SessionID := w_SessionID q,
           AttributionRule := w_AttributionRule q, IssueRule := w_IssueRule q, Timestamp := ts\<rparr>\<rparr>)"

definition validateEventRequest :: "intake_env \<Rightarrow> wire_event \<Rightarrow> time \<Rightarrow> (string, store_event) res" where
  "validateEventRequest env q now =
     (case ValidateCacheWriteEvidence (w_CacheWriteEvidence q) (w_CacheWrite1h q) of Some e \<Rightarrow> Inl e | None \<Rightarrow>
      if w_Developer q = [] \<or> w_IssueID q = [] \<or> w_Model q = [] then Inl ''developer, issue_id, and model are required''
      else if maxIdentifierLen < length (w_Developer q) \<or> maxIdentifierLen < length (w_IssueID q) \<or>
        maxIdentifierLen < length (w_Model q) then Inl ''identifier fields must be <= 256 chars''
      else case validateShippedIssueID (w_IssueID q) of Some e \<Rightarrow> Inl e | None \<Rightarrow>
      case validateDeveloper (w_Developer q) of Some e \<Rightarrow> Inl e | None \<Rightarrow>
      if (case w_PRNumber q of Some p \<Rightarrow> p \<le> 0 | None \<Rightarrow> False) then Inl ''pr_number must be >= 1''
      else if (case w_BranchHash q of Some b \<Rightarrow> \<not> branchHashRE b | None \<Rightarrow> False)
      then Inl ''branch_hash must be exactly 64 lower-case hex characters''
      else if w_IdempotencyKey q = [] then Inl ''events require idempotency_key''
      else if maxIdentifierLen < length (w_IdempotencyKey q) then Inl ''idempotency_key must be <= 256 chars''
      else if w_CostUSD q = NaN \<or> w_CostUSD q = PInf \<or> w_CostUSD q = NInf then Inl ''cost_usd must be finite''
      else if list_ex (\<lambda>n. n < 0) (token_counts q) \<or> w_CostUSD q < Fin 0 then Inl ''token counts and cost_usd must be >= 0''
      else if list_ex (\<lambda>n. MaxTokenCount < n) (token_counts q) then Inl ''token counts must be <= 1000000000000''
      else if maxIdentifierLen < length (w_Source q) then Inl ''source must be <= 256 chars''
      else if maxIdentifierLen < length (w_Host q) then Inl ''host must be <= 256 chars''
      else if \<not> ShippableSource (w_Source q) then Inl ''source is not accepted on /api/v1/events''
      else if w_Fidelity q \<noteq> FidelityRealtime then Inl ''fidelity must be realtime on /api/v1/events''
      else if w_Timestamp q = [] then Inl ''timestamp is required (RFC3339)''
      else case parse_time env (w_Timestamp q) of None \<Rightarrow> Inl ''timestamp must be RFC3339'' | Some (ts, year) \<Rightarrow>
      case validateFutureTimestamp ts now of Some e \<Rightarrow> Inl e | None \<Rightarrow>
      if year < minEventYear then Inl ''timestamp year is before the earliest accepted event year''
      else if maxIdentifierLen < length (w_SessionID q) then Inl ''session_id must be <= 256 chars''
      else if \<not> ValidateAttributionRule (w_AttributionRule q) then Inl ''attribution_rule''
      else if w_IssueID q = UnattributedForeignRepo \<and> w_Repo q \<noteq> [] then Inl ''issue_id must omit repo''
      else case validateRepo (w_Repo q) of Inl e \<Rightarrow> Inl e | Inr repo \<Rightarrow> Inr (intake_row env q ts repo))"

section \<open>The batch\<close>

definition maxEventsPerBatch :: nat where "maxEventsPerBatch = 500"
definition MaxEventsBody :: nat where "MaxEventsBody = 2 ^ 20"

text \<open>What decoding the capped body gives, and what the transaction of the store answers: the rows it applied
  and the number of collisions between developers.\<close>

datatype body_read = OverLimit | BadJSON string | TrailingJSON | Batch "wire_event list"

datatype 's insert_result = Contention | StoreFailure | Stored "bool list" int 's

definition pricingDivergenceToleranceMicro :: int where "pricingDivergenceToleranceMicro = 1"

record divergence =
  diverged :: nat
  divergence_seen :: "string set"
  divergence_warned :: nat

definition observePricingDivergence :: "string \<Rightarrow> int \<Rightarrow> int \<Rightarrow> divergence \<Rightarrow> divergence" where
  "observePricingDivergence model serverMicro clientMicro d =
     (let delta = wrap64 (serverMicro - clientMicro); diff = (if delta < 0 then wrap64 (- delta) else delta)
      in if diff \<le> pricingDivergenceToleranceMicro then d
         else
           (let d = d\<lparr>diverged := Suc (diverged d)\<rparr>;
                key = model @ [CHR 0x00] @ (if delta < 0 then ''-'' else ''+'')
            in if key \<in> divergence_seen d then d
               else d\<lparr>divergence_seen := insert key (divergence_seen d), divergence_warned := Suc (divergence_warned d)\<rparr>))"

fun validate_all ::
  "intake_env \<Rightarrow> time \<Rightarrow> nat \<Rightarrow> wire_event list \<Rightarrow> sink_rules \<Rightarrow> (nat \<times> string, store_event list) res \<times> sink_rules" where
  "validate_all env now i [] r = (Inr [], r)"
| "validate_all env now i (q # qs) r =
     (let (a, r) = Apply r (zero_event\<lparr>IssueRule := w_IssueRule q\<rparr>)
      in case validateEventRequest env (q\<lparr>w_IssueRule := IssueRule a\<rparr>) now of
           Inl e \<Rightarrow> (Inl (i, e), r)
         | Inr ev \<Rightarrow>
             (case validate_all env now (Suc i) qs r of
                (Inl e, r) \<Rightarrow> (Inl e, r)
              | (Inr evs, r) \<Rightarrow> (Inr (ev # evs), r)))"

fun observe_all ::
  "store_event list \<Rightarrow> wire_event list \<Rightarrow> bool list \<Rightarrow> divergence \<Rightarrow> divergence" where
  "observe_all (ev # evs) (q # qs) (a # as) d =
     observe_all evs qs as
       (if a then observePricingDivergence (Model (st_event ev)) (CostMicro (st_event ev)) (DollarsToMicro (w_CostUSD q)) d
        else d)"
| "observe_all _ _ _ d = d"

datatype reply = ErrorReply int string | Receipt int int

text \<open>\<open>ins\<close> is \<^verbatim>\<open>InsertTokenEventsWithResult\<close> on the state of the store.\<close>

definition handlePostEvents ::
  "intake_env \<Rightarrow> (string \<Rightarrow> body_read) \<Rightarrow> (store_event list \<Rightarrow> 's \<Rightarrow> 's insert_result) \<Rightarrow> time \<Rightarrow> string
    \<Rightarrow> 's \<Rightarrow> sink_rules \<Rightarrow> divergence \<Rightarrow> reply \<times> 's \<times> sink_rules \<times> divergence" where
  "handlePostEvents env read_body ins now body s r d =
     (case read_body body of
        OverLimit \<Rightarrow> (ErrorReply 400 ''request body exceeds 1048576 bytes; split into smaller batches'', s, r, d)
      | BadJSON e \<Rightarrow> (ErrorReply 400 (''invalid JSON: '' @ e), s, r, d)
      | TrailingJSON \<Rightarrow> (ErrorReply 400 ''request must contain exactly one JSON array'', s, r, d)
      | Batch reqs \<Rightarrow>
          if reqs = [] then (ErrorReply 400 ''events batch must contain at least one event'', s, r, d)
          else if maxEventsPerBatch < length reqs
          then (ErrorReply 400 ''batch exceeds 500 events; split into smaller batches'', s, r, d)
          else
            (case validate_all env now 0 reqs r of
               (Inl (i, e), r) \<Rightarrow> (ErrorReply 400 (''events['' @ itoa (int i) @ '']: '' @ e), s, r, d)
             | (Inr events, r) \<Rightarrow>
                 (case ins events s of
                    Contention \<Rightarrow> (ErrorReply 503 ''database is busy: another writer holds the write lock, retry shortly'', s, r, d)
                  | StoreFailure \<Rightarrow> (ErrorReply 500 ''store error'', s, r, d)
                  | Stored stored rejected s' \<Rightarrow>
                      (Receipt (int (length events) - rejected) rejected, s', r,
                       observe_all events reqs stored d))))"

section \<open>What a valid element stores\<close>

lemma guard_Inr: "(if b then Inl e else X) = (Inr y :: ('e, 'a) res) \<longleftrightarrow> \<not> b \<and> X = Inr y" by simp

lemma check_Inr: "(case r of Some e \<Rightarrow> Inl e | None \<Rightarrow> X) = (Inr y :: ('e, 'a) res) \<longleftrightarrow> r = None \<and> X = Inr y"
  by (simp split: option.split)

lemma validate_Inr:
  "validateEventRequest env q now = Inr row \<longleftrightarrow>
     ValidateCacheWriteEvidence (w_CacheWriteEvidence q) (w_CacheWrite1h q) = None \<and>
     \<not> (w_Developer q = [] \<or> w_IssueID q = [] \<or> w_Model q = []) \<and>
     \<not> (maxIdentifierLen < length (w_Developer q) \<or> maxIdentifierLen < length (w_IssueID q) \<or> maxIdentifierLen < length (w_Model q)) \<and>
     validateShippedIssueID (w_IssueID q) = None \<and> validateDeveloper (w_Developer q) = None \<and>
     \<not> (case w_PRNumber q of Some p \<Rightarrow> p \<le> 0 | None \<Rightarrow> False) \<and>
     \<not> (case w_BranchHash q of Some b \<Rightarrow> \<not> branchHashRE b | None \<Rightarrow> False) \<and>
     w_IdempotencyKey q \<noteq> [] \<and> \<not> maxIdentifierLen < length (w_IdempotencyKey q) \<and>
     \<not> (w_CostUSD q = NaN \<or> w_CostUSD q = PInf \<or> w_CostUSD q = NInf) \<and>
     \<not> (list_ex (\<lambda>n. n < 0) (token_counts q) \<or> w_CostUSD q < Fin 0) \<and>
     \<not> list_ex (\<lambda>n. MaxTokenCount < n) (token_counts q) \<and>
     \<not> maxIdentifierLen < length (w_Source q) \<and> \<not> maxIdentifierLen < length (w_Host q) \<and> ShippableSource (w_Source q) \<and>
     w_Fidelity q = FidelityRealtime \<and> w_Timestamp q \<noteq> [] \<and>
     (\<exists>ts year repo. parse_time env (w_Timestamp q) = Some (ts, year) \<and> validateFutureTimestamp ts now = None \<and>
        \<not> year < minEventYear \<and> \<not> maxIdentifierLen < length (w_SessionID q) \<and>
        ValidateAttributionRule (w_AttributionRule q) \<and>
        \<not> (w_IssueID q = UnattributedForeignRepo \<and> w_Repo q \<noteq> []) \<and> validateRepo (w_Repo q) = Inr repo \<and>
        row = intake_row env q ts repo)"
proof -
  have tail: "(case p of None \<Rightarrow> Inl m | Some (ts, year) \<Rightarrow> X ts year) = (Inr row :: (string, store_event) res) \<longleftrightarrow>
      (\<exists>ts year. p = Some (ts, year) \<and> X ts year = Inr row)" for p m X
    by (cases p) auto
  have repo: "(case w of Inl e \<Rightarrow> Inl e | Inr z \<Rightarrow> Inr (f z)) = (Inr row :: (string, store_event) res) \<longleftrightarrow>
      (\<exists>z. w = Inr z \<and> row = f z)" for w :: "(string, string) res" and f
    by (cases w) auto
  show ?thesis
    unfolding validateEventRequest_def guard_Inr check_Inr tail repo by blast
qed

lemma validateRepo_Inr:
  assumes "validateRepo s = Inr repo"
  shows "repo = Unqualified \<or> Canonical repo = Some repo"
  using assms by (auto simp: validateRepo_def Canonical_fixed(1) split: if_splits option.splits)

definition event_counts :: "token_event \<Rightarrow> int list" where
  "event_counts ev = [InputTok ev, OutputTok ev, CacheRead ev, CacheWrite5m ev, CacheWrite1h ev]"

lemma intake_row_fields [simp]:
  "TokenDerived (intake_row env q ts repo)" "Developer (st_event (intake_row env q ts repo)) = w_Developer q"
  "IssueID (st_event (intake_row env q ts repo)) = w_IssueID q" "Model (st_event (intake_row env q ts repo)) = w_Model q"
  "Host (st_event (intake_row env q ts repo)) = w_Host q" "Source (st_event (intake_row env q ts repo)) = w_Source q"
  "Fidelity (st_event (intake_row env q ts repo)) = w_Fidelity q" "Repo (st_event (intake_row env q ts repo)) = repo"
  "IdempotencyKey (st_event (intake_row env q ts repo)) = w_IdempotencyKey q"
  "Timestamp (st_event (intake_row env q ts repo)) = ts"
  "AttributionRule (st_event (intake_row env q ts repo)) = w_AttributionRule q"
  "IssueRule (st_event (intake_row env q ts repo)) = w_IssueRule q"
  "(CostMicro (st_event (intake_row env q ts repo)), BillingMode (st_event (intake_row env q ts repo))) =
     fst (ComputeCostHost (in_prices env) (w_Host q) (w_Model q) (wire_usage q))"
  "event_counts (st_event (intake_row env q ts repo)) = token_counts q"
  by (simp_all add: intake_row_def split_beta Let_def zero_event_def token_counts_def event_counts_def)

definition event_usage :: "token_event \<Rightarrow> cost_usage" where
  "event_usage ev = \<lparr>cu_Input = InputTok ev, cu_Output = OutputTok ev, cu_CacheRead = CacheRead ev,
     cu_CacheWrite5m = CacheWrite5m ev, cu_CacheWrite1h = CacheWrite1h ev\<rparr>"

lemma intake_row_usage: "event_usage (st_event (intake_row env q ts repo)) = wire_usage q"
  by (simp add: intake_row_def split_beta Let_def event_usage_def wire_usage_def)

text \<open>C32. What the intake lets through is sound, whatever a client sends: the developer does not even resemble the
  server-assigned sentinel, and the issue does only in the exact spelling of its family; the counts are between
  zero and the ceiling; the source is a local collector's, the fidelity realtime, the key present; the clock is
  not more than a day ahead; the repository is its own canonical form or the sentinel, and the sentinel for the
  foreign bucket; and the cost and the billing mode are the server's own price of the stored counts at the
  stored host and model, whatever cost the client claimed.\<close>

theorem intake_rows_sound:
  assumes "validateEventRequest env q now = Inr row"
  shows "let ev = st_event row in TokenDerived row \<and> \<not> ResemblesUnattributed (Developer ev) \<and>
    (IssueID ev \<in> set UnattributedFamily \<or> \<not> ResemblesUnattributed (IssueID ev)) \<and>
    list_all (\<lambda>n. 0 \<le> n \<and> n \<le> MaxTokenCount) (event_counts ev) \<and>
    ShippableSource (Source ev) \<and> Fidelity ev = FidelityRealtime \<and> IdempotencyKey ev \<noteq> [] \<and>
    Timestamp ev \<le> now + maxEventClockSkew \<and> (Repo ev = Unqualified \<or> Canonical (Repo ev) = Some (Repo ev)) \<and>
    (IssueID ev = UnattributedForeignRepo \<longrightarrow> Repo ev = Unqualified) \<and> ValidateAttributionRule (AttributionRule ev) \<and>
    (CostMicro ev, BillingMode ev) = fst (ComputeCostHost (in_prices env) (Host ev) (Model ev) (event_usage ev))"
proof -
  from assms obtain ts year repo where v:
      "validateShippedIssueID (w_IssueID q) = None" "validateDeveloper (w_Developer q) = None"
      "w_IdempotencyKey q \<noteq> []" "\<not> list_ex (\<lambda>n. n < 0) (token_counts q)" "\<not> list_ex (\<lambda>n. MaxTokenCount < n) (token_counts q)"
      "ShippableSource (w_Source q)" "w_Fidelity q = FidelityRealtime" "validateFutureTimestamp ts now = None"
      "ValidateAttributionRule (w_AttributionRule q)" "\<not> (w_IssueID q = UnattributedForeignRepo \<and> w_Repo q \<noteq> [])"
      "validateRepo (w_Repo q) = Inr repo" "row = intake_row env q ts repo"
    unfolding validate_Inr by blast
  have "w_IssueID q = UnattributedForeignRepo \<longrightarrow> repo = Unqualified"
    using v(10,11) by (auto simp: validateRepo_def)
  moreover have "list_all (\<lambda>n. 0 \<le> n \<and> n \<le> MaxTokenCount) (token_counts q)"
    using v(4,5) by (auto simp: list_ex_iff list_all_iff not_less)
  moreover have "\<not> ResemblesUnattributed (w_Developer q)"
      "w_IssueID q \<in> set UnattributedFamily \<or> \<not> ResemblesUnattributed (w_IssueID q)" "ts \<le> now + maxEventClockSkew"
    using v(1,2,8) by (simp_all add: validateShippedIssueID_def validateIssueID_def validateDeveloper_def
        validateFutureTimestamp_def not_less split: if_splits)
  ultimately show ?thesis
    using v(3,6,7,9) validateRepo_Inr [OF v(11)] unfolding v(12) Let_def
    by (simp only: intake_row_fields intake_row_usage simp_thms)
qed

section \<open>The shipped row is the local row\<close>

lemma validateRepo_wire:
  "validateRepo (wireRepo r) = Inr (case Canonical r of Some s \<Rightarrow> s | None \<Rightarrow> Unqualified)"
proof (cases "Canonical r")
  case (Some s)
  note c = Canonical_fixed [OF Some]
  have "\<forall>ch\<in>set s. valid_byte ch \<or> ch = CHR ''/''" using c(7) by (rule good_bytes)
  then have "TrimSpace s = s" "map ascii_lower s = s"
    using TrimSpace_none [of s] valid_byte_lower by (auto intro: map_idI)
  moreover have "map ascii_lower Unqualified = Unqualified" by code_simp
  ultimately have "\<not> equal_fold (TrimSpace s) Unqualified" using c(5) by (simp add: equal_fold_def)
  then show ?thesis using c Some by (simp add: validateRepo_def wireRepo_def maxIdentifierLen_def MaxLen_def)
qed (simp add: wireRepo_def validateRepo_def)

text \<open>What a local collector guarantees of an event it hands to a sink.\<close>

definition capture_contract :: "token_event \<Rightarrow> bool" where
  "capture_contract ev \<longleftrightarrow>
     ValidateCacheWriteEvidence (CacheWriteEvidence ev) (CacheWrite1h ev) = None \<and> PricingBasis ev = [] \<and>
     list_all (\<lambda>s. s \<noteq> [] \<and> length s \<le> maxIdentifierLen) [Developer ev, IssueID ev, Model ev, IdempotencyKey ev] \<and>
     list_all (\<lambda>s. length s \<le> maxIdentifierLen) [Host ev, SessionID ev] \<and>
     \<not> ResemblesUnattributed (Developer ev) \<and>
     (IssueID ev \<in> set UnattributedFamily \<or> \<not> ResemblesUnattributed (IssueID ev)) \<and>
     (case PRNumber ev of Some p \<Rightarrow> 0 < p | None \<Rightarrow> True) \<and>
     (case BranchHash ev of Some b \<Rightarrow> branchHashRE b | None \<Rightarrow> True) \<and>
     list_all (\<lambda>n. 0 \<le> n \<and> n \<le> MaxTokenCount) (event_counts ev) \<and> 0 \<le> CostMicro ev \<and> CostMicro ev < 2 ^ 51 \<and>
     ShippableSource (Source ev) \<and> Fidelity ev = FidelityRealtime \<and>
     (Repo ev = Unqualified \<or> Canonical (Repo ev) = Some (Repo ev))"

lemma shippable_short: "ShippableSource s \<Longrightarrow> length s \<le> maxIdentifierLen"
  by (auto simp: ShippableSource_def SourceJSONL_def SourceCodexRollout_def SourceOpencode_def SourceMuse_def maxIdentifierLen_def)

lemma wire_row:
  assumes "PricingBasis ev = []" and "Repo ev = repo"
    and "(CostMicro ev, BillingMode ev) = fst (ComputeCostHost (in_prices env) (Host ev) (Model ev) (event_usage ev))"
  shows "intake_row env (wire senv ev) (Timestamp ev) repo = store_row ev"
proof -
  have "wire_usage (wire senv ev) = event_usage ev" by (simp add: wire_usage_def wire_def event_usage_def)
  then have price: "fst (ComputeCostHost (in_prices env) (w_Host (wire senv ev)) (w_Model (wire senv ev))
      (wire_usage (wire senv ev))) = (CostMicro ev, BillingMode ev)" using assms(3) by (simp add: wire_def)
  show ?thesis
    using assms(1,2) unfolding intake_row_def price by (cases ev) (simp add: wire_def store_row_def zero_event_def)
qed

lemma applied_fields [simp]:
  "Developer (applied ev) = Developer ev" "IssueID (applied ev) = IssueID ev" "Model (applied ev) = Model ev"
  "Host (applied ev) = Host ev" "CostMicro (applied ev) = CostMicro ev" "BillingMode (applied ev) = BillingMode ev"
  "Timestamp (applied ev) = Timestamp ev" "PricingBasis (applied ev) = PricingBasis ev"
  "event_usage (applied ev) = event_usage ev"
  by (simp_all add: applied_def event_usage_def)

text \<open>What a collector and the intake must share for one event: the price table, and clocks and time formats that
  agree.\<close>

definition in_step :: "intake_env \<Rightarrow> ship_env \<Rightarrow> time \<Rightarrow> token_event \<Rightarrow> bool" where
  "in_step env senv now ev \<longleftrightarrow>
     (CostMicro ev, BillingMode ev) = fst (ComputeCostHost (in_prices env) (Host ev) (Model ev) (event_usage ev)) \<and>
     fmt_time senv (Timestamp ev) \<noteq> [] \<and> Timestamp ev \<le> now + maxEventClockSkew \<and>
     (case parse_time env (fmt_time senv (Timestamp ev)) of
        Some (ts, year) \<Rightarrow> ts = Timestamp ev \<and> minEventYear \<le> year | None \<Rightarrow> False)"

lemma wire_validates:
  assumes "capture_contract ev" and "in_step env senv now ev"
  shows "validateEventRequest env (wire senv (applied ev)) now = Inr (store_row (applied ev))"
proof -
  let ?q = "wire senv (applied ev)"
  obtain year where year: "parse_time env (w_Timestamp ?q) = Some (Timestamp ev, year)" "minEventYear \<le> year"
      "w_Timestamp ?q \<noteq> []" "Timestamp ev \<le> now + maxEventClockSkew"
    using assms(2) by (auto simp: in_step_def wire_def split: option.splits)
  obtain r where r: "MicroToDollars (CostMicro ev) = Fin r" "0 \<le> r"
    using micro_dollars [of "CostMicro ev"] assms(1) by (auto simp: capture_contract_def)
  have un: "Canonical Unqualified = None" by code_simp
  have repo: "validateRepo (w_Repo ?q) = Inr (Repo (applied ev))"
    using assms(1) un by (auto simp: wire_def validateRepo_wire capture_contract_def applied_def)
  have foreign: "IssueID ev = UnattributedForeignRepo \<Longrightarrow> w_Repo ?q = []"
    using un by (simp add: wire_def wireRepo_def applied_def)
  have row: "store_row (applied ev) = intake_row env ?q (Timestamp ev) (Repo (applied ev))"
    using wire_row [of "applied ev" "Repo (applied ev)" env senv] assms by (simp add: capture_contract_def in_step_def)
  have counts: "token_counts ?q = event_counts ev"
    by (simp add: token_counts_def event_counts_def wire_def applied_def)
  have rule: "ValidateAttributionRule (w_AttributionRule ?q)"
    by (simp add: wire_def applied_def ValidateAttributionRule_def)
  show ?thesis
    unfolding validate_Inr
  proof (intro conjI exI)
    show "parse_time env (w_Timestamp ?q) = Some (Timestamp ev, year)" by (rule year)
    show "validateRepo (w_Repo ?q) = Inr (Repo (applied ev))" by (rule repo)
    show "store_row (applied ev) = intake_row env ?q (Timestamp ev) (Repo (applied ev))" by (rule row)
    show "ValidateAttributionRule (w_AttributionRule ?q)" by (rule rule)
    show "\<not> (w_IssueID ?q = UnattributedForeignRepo \<and> w_Repo ?q \<noteq> [])" using foreign by (auto simp: wire_def)
    show "\<not> (list_ex (\<lambda>n. n < 0) (token_counts ?q) \<or> w_CostUSD ?q < Fin 0)"
      using assms(1) r unfolding counts
      by (auto simp: capture_contract_def wire_def list_ex_iff list_all_iff less_f64_def not_less)
    show "\<not> list_ex (\<lambda>n. MaxTokenCount < n) (token_counts ?q)"
      using assms(1) unfolding counts by (auto simp: capture_contract_def list_ex_iff list_all_iff not_less)
    show "validateShippedIssueID (w_IssueID ?q) = None"
      using assms(1) by (auto simp: capture_contract_def wire_def validateShippedIssueID_def validateIssueID_def)
    show "\<not> maxIdentifierLen < length (w_Source ?q)"
      using assms(1) shippable_short by (auto simp: capture_contract_def wire_def applied_def not_less)
  qed (use assms(1) r year in \<open>simp_all add: capture_contract_def wire_def applied_def not_less
      validateShippedIssueID_def validateIssueID_def validateDeveloper_def validateFutureTimestamp_def split: option.splits\<close>)
qed

section \<open>A captured event\<close>

definition round_usage :: cost_usage where
  "round_usage = \<lparr>cu_Input = 1000000, cu_Output = 0, cu_CacheRead = 0, cu_CacheWrite5m = 0, cu_CacheWrite1h = 0\<rparr>"
text \<open>A million input tokens at three dollars per million.\<close>

lemma fl_small: "fl 0 = Fin 0" "fl 1 = Fin 1" "fl (numeral n) = Fin (numeral n)" if "(numeral n :: int) \<le> 2 ^ 53"
  using fl_int [of 0] fl_int [of 1] fl_int [of "numeral n"] that by simp_all

lemma round_price: "fst (ComputeCostHost ex_table [] ''claude-x'' round_usage) = (3000000, BillingPerToken)"
proof -
  have n: "NormalizeModel ''claude-x'' = ''claude-x''" and h: "normalizeHost [] = HostUnknown" by code_simp+
  obtain x where x: "fl (1 / 10) = Fin x"
  proof
    show "fl (1 / 10) = Fin (round_rat (1 / 10))"
      using round_rat_mono [of "1 / 10" 1] round_rat_nonneg [of "1 / 10"] round_rat_int [of 1] by (intro fl_of_round refl) simp
  qed
  have d: "priceCallDollarsV1 (ex_price 3 ''anthropic'') round_usage = Fin 3"
    by (simp add: priceCallDollarsV1_def Let_def round_usage_def ex_price_def perM_def f64_of_int_def fl_small
        fl_small(1) [of num.One] fl_small(2) [of num.One] providerDefaultMults_def x)
  have "DollarsToMicro (Fin 3) = 3000000"
    using DollarsToMicro_Fin [of "Fin 3" 3000000]
    by (simp add: MicroPerUSD_def fl_small clamp64_def min_int64_def max_int64_def rne_def)
  then show ?thesis
    by (simp add: ComputeCostHost_def Let_def n h priceCall_def ex_table_def d) (simp add: ex_price_def providerSelfHosted_def)
qed

definition ex_intake :: intake_env where
  "ex_intake = \<lparr>in_prices = ex_table, parse_time = \<lambda>s. if s = ''t'' then Some (1000, 2024) else None\<rparr>"

definition ex_capture :: token_event where
  "ex_capture = zero_event\<lparr>Developer := ''dev'', IssueID := ''T-1'', Model := ''claude-x'', InputTok := 1000000,
     CostMicro := 3000000, BillingMode := BillingPerToken, Source := SourceJSONL, Fidelity := FidelityRealtime,
     IdempotencyKey := ''k'', Repo := ''owner/repo'', Timestamp := 1000\<rparr>"

lemma ex_developer: "\<not> ResemblesUnattributed ''dev''" by code_simp
lemma ex_issue: "\<not> ResemblesUnattributed ''T-1''" by code_simp
lemma ex_repo: "Canonical ''owner/repo'' = Some ''owner/repo''" by code_simp
lemma ex_source: "ShippableSource SourceJSONL" by code_simp

lemma ex_capture_ok: "capture_contract ex_capture"
proof -
  have f: "CacheWriteEvidence ex_capture = []" "PricingBasis ex_capture = []" "Developer ex_capture = ''dev''"
    "IssueID ex_capture = ''T-1''" "Model ex_capture = ''claude-x''" "IdempotencyKey ex_capture = ''k''"
    "Host ex_capture = []" "SessionID ex_capture = []" "PRNumber ex_capture = None" "BranchHash ex_capture = None"
    "CostMicro ex_capture = 3000000" "Source ex_capture = SourceJSONL" "Fidelity ex_capture = FidelityRealtime"
    "Repo ex_capture = ''owner/repo''" "event_counts ex_capture = [1000000, 0, 0, 0, 0]"
    by (simp_all add: ex_capture_def zero_event_def event_counts_def)
  show ?thesis
    unfolding capture_contract_def f
    by (simp add: ex_developer ex_issue ex_repo ex_source ValidateCacheWriteEvidence_def maxIdentifierLen_def MaxTokenCount_def)
qed

lemma ex_in_step: "in_step ex_intake (ex_ship ex_capture) 2000 ex_capture"
proof -
  have "event_usage ex_capture = round_usage" by (simp add: event_usage_def ex_capture_def zero_event_def round_usage_def)
  then show ?thesis
    by (simp add: in_step_def ex_intake_def ex_capture_def zero_event_def round_price ex_ship_def ex_codec_def
        maxEventClockSkew_def Hour_def Minute_def Second_def minEventYear_def)
qed

text \<open>One event, one row, whichever way it travels: an event that keeps the collectors' contract, priced with
  the same table, passes the intake's validation after crossing the wire and yields exactly the row the local
  chain would have stored, cost, billing mode, repository and rules included; and the pricing cross-check
  stays silent on it, the trip of the cost through float dollars notwithstanding.\<close>

theorem shipped_equals_local:
  assumes "capture_contract ev" and "in_step env senv now ev"
  shows "validateEventRequest env (wire senv (applied ev)) now = Inr (store_row (applied ev)) \<and>
    observePricingDivergence (Model ev) (CostMicro (st_event (store_row (applied ev))))
      (DollarsToMicro (w_CostUSD (wire senv (applied ev)))) d = d"
proof -
  have "DollarsToMicro (w_CostUSD (wire senv (applied ev))) = CostMicro ev"
    using micro_dollars [of "CostMicro ev"] assms(1) by (simp add: wire_def capture_contract_def)
  moreover have "CostMicro (st_event (store_row (applied ev))) = CostMicro ev" by (simp add: store_row_def)
  ultimately show ?thesis
    using wire_validates [OF assms]
    by (simp add: observePricingDivergence_def Let_def pricingDivergenceToleranceMicro_def wrap64_def)
qed

theorem shipped_equals_local_witness:
  "validateEventRequest ex_intake (wire (ex_ship ex_capture) (applied ex_capture)) 2000 = Inr (store_row (applied ex_capture))"
  using shipped_equals_local [OF ex_capture_ok ex_in_step] by blast

theorem intake_rows_sound_witness:
  "validateEventRequest ex_intake (wire (ex_ship ex_capture) (applied ex_capture)) 2000 = Inr (store_row (applied ex_capture)) \<and>
   CostMicro (st_event (store_row (applied ex_capture))) = 3000000 \<and>
   \<not> ResemblesUnattributed (Developer (st_event (store_row (applied ex_capture))))"
proof -
  note v = wire_validates [OF ex_capture_ok ex_in_step]
  have "CostMicro (st_event (store_row (applied ex_capture))) = 3000000" by (simp add: store_row_def ex_capture_def)
  then show ?thesis using v intake_rows_sound [OF v] unfolding Let_def by blast
qed

section \<open>A batch is taken whole or not at all\<close>

text \<open>The element as the validation sees it.\<close>

definition cleaned :: "wire_event \<Rightarrow> wire_event" where
  "cleaned q = q\<lparr>w_IssueRule := if Validate_issue_rule (w_IssueRule q) then w_IssueRule q else []\<rparr>"

definition valid_as :: "intake_env \<Rightarrow> time \<Rightarrow> wire_event \<Rightarrow> store_event \<Rightarrow> bool" where
  "valid_as env now q ev \<longleftrightarrow> validateEventRequest env (cleaned q) now = Inr ev"

lemma wire_valid_as:
  assumes "capture_contract ev" and "in_step env senv now ev"
  shows "valid_as env now (wire senv (applied ev)) (store_row (applied ev))"
proof -
  have "Validate_issue_rule (IssueRule (applied ev))" by (simp add: applied_def Validate_issue_rule_def)
  then have "cleaned (wire senv (applied ev)) = wire senv (applied ev)" by (simp add: cleaned_def wire_def)
  then show ?thesis using wire_validates [OF assms] by (simp add: valid_as_def)
qed

lemma Apply_issue_rule: "IssueRule (fst (Apply r (zero_event\<lparr>IssueRule := x\<rparr>))) = (if Validate_issue_rule x then x else [])"
  by (simp add: Apply_applied applied_def)

lemma validate_all_step:
  "fst (validate_all env now i (q # qs) r) = (case validateEventRequest env (cleaned q) now of
     Inl e \<Rightarrow> Inl (i, e)
   | Inr ev \<Rightarrow> map_sum id ((#) ev) (fst (validate_all env now (Suc i) qs (snd (Apply r (zero_event\<lparr>IssueRule := w_IssueRule q\<rparr>))))))"
proof -
  obtain a r' where a: "Apply r (zero_event\<lparr>IssueRule := w_IssueRule q\<rparr>) = (a, r')" by fastforce
  then have "IssueRule a = (if Validate_issue_rule (w_IssueRule q) then w_IssueRule q else [])"
    using Apply_issue_rule [of r "w_IssueRule q"] by simp
  then have "q\<lparr>w_IssueRule := IssueRule a\<rparr> = cleaned q" by (simp add: cleaned_def)
  then show ?thesis by (simp add: a split: sum.split prod.split)
qed

lemma validate_all_verdict:
  "case fst (validate_all env now i qs r) of
     Inr evs \<Rightarrow> list_all2 (valid_as env now) qs evs
   | Inl (j, e) \<Rightarrow> i \<le> j \<and> j - i < length qs \<and> validateEventRequest env (cleaned (qs ! (j - i))) now = Inl e \<and>
       (\<forall>k<j - i. \<exists>ev. valid_as env now (qs ! k) ev)"
proof (induction qs arbitrary: i r)
  case (Cons q qs)
  let ?r = "snd (Apply r (zero_event\<lparr>IssueRule := w_IssueRule q\<rparr>))"
  show ?case
  proof (cases "validateEventRequest env (cleaned q) now")
    case (Inl e)
    then show ?thesis unfolding validate_all_step by simp
  next
    case (Inr ev)
    have IH: "case fst (validate_all env now (Suc i) qs ?r) of
        Inr evs \<Rightarrow> list_all2 (valid_as env now) qs evs
      | Inl (j, e) \<Rightarrow> Suc i \<le> j \<and> j - Suc i < length qs \<and> validateEventRequest env (cleaned (qs ! (j - Suc i))) now = Inl e \<and>
          (\<forall>k<j - Suc i. \<exists>ev. valid_as env now (qs ! k) ev)" by (rule Cons)
    show ?thesis
    proof (cases "fst (validate_all env now (Suc i) qs ?r)")
      case rest: (Inl z)
      obtain j e where z: "z = (j, e)" by fastforce
      have "\<exists>ev. valid_as env now ((q # qs) ! k) ev" if "k < j - i" for k
        using that IH Inr by (cases k) (auto simp: rest z valid_as_def [abs_def])
      moreover have "j - i = Suc (j - Suc i)" using IH by (auto simp: rest z)
      ultimately show ?thesis unfolding validate_all_step using IH by (simp add: Inr rest z)
    next
      case rest: (Inr evs)
      then show ?thesis unfolding validate_all_step using IH Inr by (simp add: valid_as_def)
    qed
  qed
qed simp

lemma validate_all_Inr:
  assumes "list_all2 (valid_as env now) qs evs"
  shows "fst (validate_all env now i qs r) = Inr evs"
  using assms
proof (induction arbitrary: i r rule: list_all2_induct)
  case (Cons q qs ev evs)
  have "validateEventRequest env (cleaned q) now = Inr ev" using Cons.hyps(1) by (simp add: valid_as_def)
  then show ?case unfolding validate_all_step by (simp only: sum.case Cons.IH map_sum.simps)
qed simp

text \<open>The rows a body hands to the store; none when the body is refused before.\<close>

definition handed :: "intake_env \<Rightarrow> (string \<Rightarrow> body_read) \<Rightarrow> time \<Rightarrow> sink_rules \<Rightarrow> string \<Rightarrow> store_event list option" where
  "handed env read_body now r body =
     (case read_body body of
        Batch reqs \<Rightarrow>
          if reqs \<noteq> [] \<and> length reqs \<le> maxEventsPerBatch
          then (case fst (validate_all env now 0 reqs r) of Inr evs \<Rightarrow> Some evs | Inl _ \<Rightarrow> None) else None
      | _ \<Rightarrow> None)"

lemma handPostEvents_handed:
  "case handed env read_body now r body of
     None \<Rightarrow> \<exists>e r'. handlePostEvents env read_body ins now body s r d = (ErrorReply 400 e, s, r', d)
   | Some evs \<Rightarrow> \<exists>r' reqs. read_body body = Batch reqs \<and> handlePostEvents env read_body ins now body s r d =
       (case ins evs s of
          Contention \<Rightarrow> (ErrorReply 503 ''database is busy: another writer holds the write lock, retry shortly'', s, r', d)
        | StoreFailure \<Rightarrow> (ErrorReply 500 ''store error'', s, r', d)
        | Stored stored rejected s' \<Rightarrow> (Receipt (int (length evs) - rejected) rejected, s', r', observe_all evs reqs stored d))"
proof (cases "read_body body")
  case (Batch reqs)
  obtain v r' where v: "validate_all env now 0 reqs r = (v, r')" by fastforce
  show ?thesis
    by (cases v) (auto simp: handed_def handlePostEvents_def Batch v split: prod.split insert_result.split)
qed (auto simp: handed_def handlePostEvents_def)

text \<open>C33. The batch is atomic: the store is asked exactly when every element of a batch of one to 500 is valid, and
  then for all of their rows in order; on every error reply the state of the store is as it was and no
  divergence is observed; a receipt accounts for every element, and a refused element is named by the index of
  the first invalid one.\<close>

theorem batch_all_or_nothing:
  assumes "handlePostEvents env read_body ins now body s r d = (rep, s', r', d')"
  shows "(case rep of
      ErrorReply status e \<Rightarrow> s' = s \<and> d' = d
    | Receipt acc rejected \<Rightarrow> \<exists>reqs evs stored. read_body body = Batch reqs \<and> reqs \<noteq> [] \<and> length reqs \<le> maxEventsPerBatch \<and>
        list_all2 (valid_as env now) reqs evs \<and> ins evs s = Stored stored rejected s' \<and> acc + rejected = int (length reqs)) \<and>
    (\<forall>reqs k. read_body body = Batch reqs \<and> length reqs \<le> maxEventsPerBatch \<and> k < length reqs \<and>
       (\<forall>ev. \<not> valid_as env now (reqs ! k) ev) \<and> (\<forall>j<k. \<exists>ev. valid_as env now (reqs ! j) ev) \<longrightarrow>
       (\<exists>e. rep = ErrorReply 400 (''events['' @ itoa (int k) @ '']: '' @ e)))"
proof (intro conjI allI impI)
  show "case rep of
      ErrorReply status e \<Rightarrow> s' = s \<and> d' = d
    | Receipt acc rejected \<Rightarrow> \<exists>reqs evs stored. read_body body = Batch reqs \<and> reqs \<noteq> [] \<and> length reqs \<le> maxEventsPerBatch \<and>
        list_all2 (valid_as env now) reqs evs \<and> ins evs s = Stored stored rejected s' \<and> acc + rejected = int (length reqs)"
  proof (cases "handed env read_body now r body")
    case None
    then show ?thesis using handPostEvents_handed [where env = env and read_body = read_body and now = now and r = r and body = body and ins = ins and s = s and d = d] assms by auto
  next
    case (Some evs)
    then obtain reqs where reqs: "read_body body = Batch reqs" "reqs \<noteq> []" "length reqs \<le> maxEventsPerBatch"
        "fst (validate_all env now 0 reqs r) = Inr evs"
      by (auto simp: handed_def split: body_read.splits if_splits sum.splits)
    then have valid: "list_all2 (valid_as env now) reqs evs" using validate_all_verdict [where env = env and now = now and i = 0 and qs = reqs and r = r] by simp
    then have "length evs = length reqs" by (simp add: list_all2_lengthD)
    then show ?thesis
      using handPostEvents_handed [where env = env and read_body = read_body and now = now and r = r and body = body and ins = ins and s = s and d = d] assms reqs valid Some
      by (cases "ins evs s") auto
  qed
next
  fix reqs k
  assume k: "read_body body = Batch reqs \<and> length reqs \<le> maxEventsPerBatch \<and> k < length reqs \<and>
    (\<forall>ev. \<not> valid_as env now (reqs ! k) ev) \<and> (\<forall>j<k. \<exists>ev. valid_as env now (reqs ! j) ev)"
  obtain v r1 where v: "validate_all env now 0 reqs r = (v, r1)" by fastforce
  note verdict = validate_all_verdict [where env = env and now = now and i = 0 and qs = reqs and r = r, unfolded v fst_conv]
  obtain j e where z: "v = Inl (j, e)"
  proof (cases v)
    case (Inr evs)
    then have "list_all2 (valid_as env now) reqs evs" using verdict by simp
    from list_all2_nthD [OF this, of k] k show thesis by blast
  next
    case (Inl z)
    then show thesis using that by (cases z) simp
  qed
  then have "j = k"
    using verdict k by (cases j k rule: linorder_cases) (auto simp: valid_as_def)
  then show "\<exists>e. rep = ErrorReply 400 (''events['' @ itoa (int k) @ '']: '' @ e)"
    using assms k z by (cases "reqs = []") (auto simp: handlePostEvents_def v)
qed

definition ex_batch :: "wire_event list" where
  "ex_batch = [wire (ex_ship ex_capture) (applied ex_capture), ex_wire ex_ship_event]"

definition ex_insert :: "store_event list \<Rightarrow> store_event list \<Rightarrow> store_event list insert_result" where
  "ex_insert evs s = Stored (map (\<lambda>_. True) evs) 0 (s @ evs)"

lemma ex_batch_second: "\<not> valid_as ex_intake 2000 (ex_batch ! 1) ev"
proof -
  have "w_Model (cleaned (ex_batch ! 1)) = []"
    by (simp add: ex_batch_def cleaned_def ex_wire_def wire_def applied_def ex_ship_event_def zero_event_def)
  then show ?thesis unfolding valid_as_def validate_Inr by blast
qed

theorem batch_all_or_nothing_witness:
  "\<exists>e r. handlePostEvents ex_intake (\<lambda>_. Batch ex_batch) ex_insert 2000 ''[..]'' [] fresh_rules
     \<lparr>diverged = 0, divergence_seen = {}, divergence_warned = 0\<rparr> =
   (ErrorReply 400 (''events['' @ itoa 1 @ '']: '' @ e), [], r, \<lparr>diverged = 0, divergence_seen = {}, divergence_warned = 0\<rparr>)"
proof -
  obtain rep s' r' d' where h: "handlePostEvents ex_intake (\<lambda>_. Batch ex_batch) ex_insert 2000 ''[..]'' [] fresh_rules
      \<lparr>diverged = 0, divergence_seen = {}, divergence_warned = 0\<rparr> = (rep, s', r', d')" by (metis surj_pair)
  have good: "valid_as ex_intake 2000 (ex_batch ! 0) (store_row (applied ex_capture))"
    using wire_valid_as [OF ex_capture_ok ex_in_step] by (simp add: ex_batch_def)
  have len: "length ex_batch = 2" by (simp add: ex_batch_def)
  have "\<exists>ev. valid_as ex_intake 2000 (ex_batch ! j) ev" if "j < 1" for j using that good by auto
  then have "\<exists>e. rep = ErrorReply 400 (''events['' @ itoa (int 1) @ '']: '' @ e)"
    using ex_batch_second len
    by (intro batch_all_or_nothing [OF h, THEN conjunct2, rule_format, of ex_batch 1]) (simp add: maxEventsPerBatch_def)
  then show ?thesis using batch_all_or_nothing [OF h, THEN conjunct1] unfolding h by auto
qed

section \<open>End to end\<close>

lemma hide_nothing: "hide {} = (\<lambda>e. e)" by (rule ext) simp

lemma list_all2_concat:
  "list_all2 P (concat xss) ys \<Longrightarrow> \<exists>yss. concat yss = ys \<and> list_all2 (list_all2 P) xss yss"
proof (induction xss arbitrary: ys)
  case (Cons xs xss)
  then obtain us vs where "ys = us @ vs" "list_all2 P xs us" "list_all2 P (concat xss) vs"
    by (auto simp: list_all2_append1)
  moreover from this(3) obtain yss where "concat yss = vs" "list_all2 (list_all2 P) xss yss" using Cons.IH by blast
  ultimately show ?case by (intro exI [of _ "us # yss"]) simp
qed simp

text \<open>C30. From the laptop's log to the row. Laptop and server share the price table and have clocks and time
  formats that agree, and the server refuses no field: then a run of the shipper that reports no error has,
  through the bodies answered 201, handed to the store exactly the rows that the local chain would have
  stored for the same events, in the same order and once each. A body that the server stored but whose reply
  was lost is sent again and is not among these; its rows are absorbed by their idempotency keys.\<close>

theorem ship_end_to_end:
  assumes "New_client url_parse lb cfg = Inr c" and "refuses_only senv {}"
    and "\<forall>es b. marshal senv es = Some b \<longrightarrow> dec b = es" and "\<forall>b. read_body b = Batch (dec b)"
    and "ingest_all (ship_sink senv) evs (c, fresh_net {}) = (None, s)" and "Client_Flush senv s = Some (None, c', n')"
    and "\<forall>ev\<in>set evs. capture_contract ev \<and> in_step env senv now ev"
  shows "\<exists>rowss. map (handed env read_body now r) (accepted n') = map Some rowss \<and>
    concat rowss = map (store_row \<circ> applied) evs"
proof -
  have run: "map (hide {}) (concat (map dec (accepted n'))) = map (\<lambda>ev. hide {} (wire senv (applied ev))) evs \<and>
      list_all (fits {} dec DefaultBatchSize) (accepted n')"
    by (rule ship_delivers [OF assms(1,2) subset_refl assms(3,5,6)])
  then have sent: "concat (map dec (accepted n')) = map (\<lambda>ev. wire senv (applied ev)) evs"
    using hide_nothing by simp
  have "list_all2 (valid_as env now) (concat (map dec (accepted n'))) (map (store_row \<circ> applied) evs)"
    unfolding sent using assms(7) wire_valid_as by (auto simp: list_all2_conv_all_nth)
  then obtain rowss where rows: "concat rowss = map (store_row \<circ> applied) evs"
      "list_all2 (list_all2 (valid_as env now)) (map dec (accepted n')) rowss"
    using list_all2_concat by blast
  have one: "handed env read_body now r b = Some rows" if "fits {} dec DefaultBatchSize b" "list_all2 (valid_as env now) (dec b) rows" for b rows
    using that assms(4) validate_all_Inr [OF that(2), of 0 r]
    by (simp add: handed_def fits_def DefaultBatchSize_def maxEventsPerBatch_def)
  have "list_all2 (\<lambda>b rows. handed env read_body now r b = Some rows) (accepted n') rowss"
    using rows(2) run one by (auto simp: list_all2_conv_all_nth list_all_length)
  then have "map (handed env read_body now r) (accepted n') = map Some rowss"
    by (auto simp: list_all2_conv_all_nth intro: nth_equalityI)
  with rows(1) show ?thesis by blast
qed

theorem ship_end_to_end_witness:
  "\<exists>c' n' rowss. Client_Flush (ex_ship ex_capture) (snd (ingest_all (ship_sink (ex_ship ex_capture)) [ex_capture]
      (ex_client, fresh_net {}))) = Some (None, c', n') \<and>
     map (handed ex_intake (\<lambda>_. Batch [ex_wire ex_capture]) 2000 fresh_rules) (accepted n') = map Some rowss \<and>
     concat rowss = [store_row (applied ex_capture)]"
proof -
  note run = ex_run [of ex_capture] and flush = ex_flush [of ex_capture "snd (Apply fresh_rules ex_capture)"]
  have "\<forall>b :: string. Batch [ex_wire ex_capture] = Batch ((\<lambda>_. [ex_wire ex_capture]) b)" by simp
  moreover have "\<forall>ev\<in>set [ex_capture]. capture_contract ev \<and> in_step ex_intake (ex_ship ex_capture) 2000 ev"
    using ex_capture_ok ex_in_step by simp
  ultimately show ?thesis
    using ship_end_to_end [OF ex_client_new ex_ship_facts(1) ex_ship_facts(2) _ run flush,
        of "\<lambda>_. Batch [ex_wire ex_capture]" ex_intake 2000 fresh_rules] flush
    unfolding run snd_conv by auto
qed

end
