(* ===== verification/Event3.thy ===== *)
theory Event3
  imports Go_Prelude
begin

text \<open>
  The data of the correction projection (\<^verbatim>\<open>src/internal/event3/resolve.go\<close>): exact rationals and
  their stored form, the reviewed sizing evidence, the provisional effort, the nodes of a
  correction chain and their order. A \<^verbatim>\<open>*big.Rat\<close> is a \<open>rat option\<close>, \<open>None\<close> being \<^verbatim>\<open>nil\<close>.
\<close>

section \<open>Rationals\<close>

definition MaxRatBytes :: nat where "MaxRatBytes = 4096"
definition ProvisionalRule :: string where "ProvisionalRule = ''event3-v1''"
definition ReviewedRule :: string where "ReviewedRule = ''event3-v2''"

definition rat_string :: "rat \<Rightarrow> string" where
  "rat_string r = (case quotient_of r of (n, d) \<Rightarrow> itoa n @ CHR ''/'' # itoa d)"

definition EncodeRat :: "rat option \<Rightarrow> (string, string) res" where
  "EncodeRat x =
     (case x of None \<Rightarrow> Inl ''nonnegative rational required''
      | Some r \<Rightarrow>
          if r < 0 then Inl ''nonnegative rational required''
          else if MaxRatBytes < length (rat_string r) then Inl ''rational exceeds storage bound''
          else Inr (rat_string r))"

text \<open>\<^verbatim>\<open>big.Rat.SetString\<close> reads many notations; it is the argument \<open>setString\<close>.\<close>

definition DecodeRat :: "(string \<Rightarrow> rat option) \<Rightarrow> string \<Rightarrow> (string, rat) res" where
  "DecodeRat setString s =
     (if MaxRatBytes < length s then Inl ''rational exceeds storage bound''
      else (case setString s of None \<Rightarrow> Inl ''invalid rational''
            | Some r \<Rightarrow> if EncodeRat (Some r) \<noteq> Inr s then Inl ''noncanonical rational'' else Inr r))"

definition copyRat :: "rat option \<Rightarrow> rat" where
  "copyRat x = (case x of None \<Rightarrow> 0 | Some r \<Rightarrow> r)"

definition onScale :: "rat option \<Rightarrow> bool" where
  "onScale x = (case x of None \<Rightarrow> False | Some r \<Rightarrow> list_ex (\<lambda>s. r = s) [1 / 2, 1, 3, 5, 8])"

definition qualityOnScale :: "rat option \<Rightarrow> bool" where
  "qualityOnScale x =
     (case x of None \<Rightarrow> False
      | Some r \<Rightarrow> list_ex (\<lambda>s. r = s) [1, 17 / 20, 7 / 10, 11 / 20, 4 / 5, 1 / 10])"

lemma copyRat_simps [simp]: "copyRat None = 0" "copyRat (Some r) = r"
  by (simp_all add: copyRat_def)

lemma onScale_pos: "onScale x \<Longrightarrow> 0 < copyRat x"
  by (auto simp: onScale_def split: option.splits)

lemma qualityOnScale_between: "qualityOnScale x \<Longrightarrow> 1 / 10 \<le> copyRat x \<and> copyRat x \<le> 1"
  by (auto simp: qualityOnScale_def split: option.splits)

lemma EncodeRat_Inr: "EncodeRat x = Inr s \<longleftrightarrow>
    (\<exists>r. x = Some r \<and> 0 \<le> r \<and> s = rat_string r \<and> length s \<le> MaxRatBytes)"
  by (auto simp: EncodeRat_def split: option.splits)

section \<open>Sizing evidence\<close>

record review =
  v_Original :: "rat option"
  v_Own :: "rat option"
  v_Before :: "rat option"
  v_After :: "rat option"
  v_PureRepair :: bool
  v_Scope :: string
  v_Rationale :: string
  v_Reviewer :: string
  v_ReviewedAt :: time
  v_Revision :: int
  v_ComparisonBase :: string
  v_ComparisonBefore :: string
  v_ComparisonAfter :: string

text \<open>\<^verbatim>\<open>Review.Validate\<close>: \<open>None\<close> is the nil error.\<close>

definition Review_Validate :: "review \<Rightarrow> string option" where
  "Review_Validate v =
     (if \<not> list_all onScale [v_Original v, v_Own v]
      then Some ''reviewed original and own sizes must be on the 0.5/1/3/5/8 scale''
      else if (\<not> v_PureRepair v \<or> v_Before v \<noteq> None \<or> v_After v \<noteq> None)
        \<and> (\<not> onScale (v_Before v) \<or> \<not> onScale (v_After v))
      then Some ''reviewed before/after cumulative sizes required unless explicitly pure repair''
      else if (\<not> v_PureRepair v \<or> v_Before v \<noteq> None \<or> v_After v \<noteq> None)
        \<and> v_PureRepair v \<and> v_Before v \<noteq> v_After v
      then Some ''pure repair requires identical before/after scope''
      else if TrimSpace (v_Scope v) = [] \<or> TrimSpace (v_Rationale v) = [] \<or> TrimSpace (v_Reviewer v) = []
        \<or> time_is_zero (v_ReviewedAt v) \<or> v_Revision v \<le> 0
      then Some ''review scope, rationale, reviewer, time and revision required''
      else if list_ex (\<lambda>s. 4096 < length s) [v_Scope v, v_Rationale v]
      then Some ''review text exceeds 4096 bytes''
      else if list_ex (\<lambda>s. 128 < length s)
        [v_Reviewer v, v_ComparisonBase v, v_ComparisonBefore v, v_ComparisonAfter v]
      then Some ''review identity exceeds 128 bytes''
      else None)"

record effort =
  Additions :: int
  Deletions :: int
  Files :: int

definition effort_value :: "effort option \<Rightarrow> int option" where
  "effort_value e =
     (case e of None \<Rightarrow> None
      | Some e \<Rightarrow> if Additions e < 0 \<or> Deletions e < 0 \<or> Files e < 0 then None
                  else Some (Additions e + Deletions e + Files e * 10))"

definition effortWeight :: "int \<Rightarrow> rat" where
  "effortWeight v =
     (case find (\<lambda>b. v \<le> fst b) [(15, 1 / 2), (60, 1), (200, 3), (1000, 5)] of
        Some b \<Rightarrow> snd b | None \<Rightarrow> 8)"

lemma effortWeight_mono: "u \<le> v \<Longrightarrow> effortWeight u \<le> effortWeight v"
  by (simp add: effortWeight_def)

section \<open>Nodes\<close>

record parent =
  p_ID :: int
  p_State :: string
  p_Review :: "review option"

record node =
  n_ID :: int
  n_Repo :: string
  n_PR :: int
  n_SHA :: string
  n_Developer :: string
  n_MergedAt :: time
  n_Weight :: "rat option"
  n_Quality :: "rat option"
  n_Effort :: "effort option"
  n_Parents :: "parent list"

definition zero_node :: node where
  "zero_node = \<lparr>n_ID = 0, n_Repo = [], n_PR = 0, n_SHA = [], n_Developer = [], n_MergedAt = 0,
     n_Weight = None, n_Quality = None, n_Effort = None, n_Parents = []\<rparr>"

definition retained :: "string \<Rightarrow> bool" where
  "retained state \<longleftrightarrow> state = ''confirmed'' \<or> state = ''disputed'' \<or> state = ''withdrawn-confirmed''"

definition active :: "string \<Rightarrow> bool" where
  "active state \<longleftrightarrow> state \<noteq> ''removed'' \<and> state \<noteq> ''unrelated'' \<and> state \<noteq> ''withdrawn''"

definition reviewFor :: "node \<Rightarrow> int \<Rightarrow> review option" where
  "reviewFor n parentID =
     (case find (\<lambda>p. p_ID p = parentID \<and> active (p_State p)) (n_Parents n) of
        Some p \<Rightarrow> p_Review p | None \<Rightarrow> None)"

definition less_node :: "node \<Rightarrow> node \<Rightarrow> bool" where
  "less_node a b =
     (if n_MergedAt a \<noteq> n_MergedAt b then n_MergedAt a < n_MergedAt b
      else if n_Repo a \<noteq> n_Repo b then n_Repo a < n_Repo b
      else if n_PR a \<noteq> n_PR b then n_PR a < n_PR b
      else n_SHA a < n_SHA b)"

text \<open>
  \<^verbatim>\<open>sort.Slice(ns, less)\<close>: the stable sort by the compared fields. Go's sort is not stable, which
  matters only for nodes that agree on all four fields, and the validation rejects those.
\<close>

definition order_key :: "node \<Rightarrow> time \<times> string \<times> int \<times> string" where
  "order_key n = (n_MergedAt n, n_Repo n, n_PR n, n_SHA n)"

lemma less_node_key: "less_node a b \<longleftrightarrow> order_key a < order_key b"
  by (auto simp: less_node_def order_key_def less_prod_def')

definition sort_nodes :: "node list \<Rightarrow> node list" where
  "sort_nodes ns = sort_key order_key ns"

text \<open>The map \<^verbatim>\<open>by\<close> from an id to its node; a missing id reads as the zero node.\<close>

definition find_node :: "node list \<Rightarrow> int \<Rightarrow> node option" where
  "find_node ns i = find (\<lambda>n. n_ID n = i) ns"

definition by_id :: "node list \<Rightarrow> int \<Rightarrow> node" where
  "by_id ns i = (case find_node ns i of Some n \<Rightarrow> n | None \<Rightarrow> zero_node)"

definition ids :: "node list \<Rightarrow> int list" where "ids ns = map n_ID ns"

section \<open>Validation of a chain\<close>

definition identity_key :: "node \<Rightarrow> string" where
  "identity_key n = n_Repo n @ CHR ''#'' # itoa (n_PR n) @ CHR ''@'' # n_SHA n"

fun check_rats :: "rat option list \<Rightarrow> string option" where
  "check_rats [] = None"
| "check_rats (x # xs) = (case EncodeRat x of Inl e \<Rightarrow> Some e | Inr _ \<Rightarrow> check_rats xs)"

fun check_reviews :: "parent list \<Rightarrow> string option" where
  "check_reviews [] = None"
| "check_reviews (p # ps) =
     (case p_Review p of None \<Rightarrow> check_reviews ps
      | Some v \<Rightarrow> (case Review_Validate v of Some e \<Rightarrow> Some e | None \<Rightarrow> check_reviews ps))"

fun validate_nodes :: "node list \<Rightarrow> int list \<Rightarrow> string list \<Rightarrow> string option" where
  "validate_nodes [] known identity = None"
| "validate_nodes (n # ns) known identity =
     (if n_ID n \<le> 0 \<or> n_ID n \<in> set known \<or> identity_key n \<in> set identity
      then Some ''duplicate or invalid chain identity''
      else (case check_rats [n_Weight n, n_Quality n] of Some e \<Rightarrow> Some e
            | None \<Rightarrow>
                (case check_reviews (n_Parents n) of Some e \<Rightarrow> Some e
                 | None \<Rightarrow> validate_nodes ns (n_ID n # known) (identity_key n # identity))))"

definition sound_node :: "node \<Rightarrow> bool" where
  "sound_node n \<longleftrightarrow> 0 < n_ID n \<and> (\<exists>w. n_Weight n = Some w \<and> 0 \<le> w) \<and> (\<exists>q. n_Quality n = Some q \<and> 0 \<le> q)
     \<and> (\<forall>p \<in> set (n_Parents n). \<forall>v. p_Review p = Some v \<longrightarrow> Review_Validate v = None)"

lemma check_rats_None: "check_rats xs = None \<longleftrightarrow> (\<forall>x \<in> set xs. \<exists>s. EncodeRat x = Inr s)"
  by (induction xs) (auto split: sum.splits)

lemma check_reviews_None: "check_reviews ps = None \<longleftrightarrow>
    (\<forall>p \<in> set ps. \<forall>v. p_Review p = Some v \<longrightarrow> Review_Validate v = None)"
  by (induction ps) (auto split: option.splits)

lemma validate_nodes_sound:
  "validate_nodes ns known identity = None \<Longrightarrow>
   (\<forall>n \<in> set ns. sound_node n \<and> n_ID n \<notin> set known \<and> identity_key n \<notin> set identity)
   \<and> distinct (ids ns) \<and> distinct (map identity_key ns)"
proof (induction ns arbitrary: known identity)
  case (Cons n ns)
  then have n: "0 < n_ID n" "n_ID n \<notin> set known" "identity_key n \<notin> set identity"
    and r: "check_rats [n_Weight n, n_Quality n] = None" and p: "check_reviews (n_Parents n) = None"
    and v: "validate_nodes ns (n_ID n # known) (identity_key n # identity) = None"
    by (auto split: if_splits option.splits)
  have "sound_node n"
    using n(1) r p by (auto simp: sound_node_def check_rats_None EncodeRat_Inr check_reviews_None simp del: check_rats.simps)
  then show ?case using n Cons.IH [OF v] by (auto simp: ids_def)
qed (simp add: ids_def)

lemma find_node_Some: "find_node ns i = Some n \<Longrightarrow> n \<in> set ns \<and> n_ID n = i"
  by (auto simp: find_node_def find_Some_iff)

lemma find_node_None: "find_node ns i = None \<longleftrightarrow> i \<notin> set (ids ns)"
  by (auto simp: find_node_def ids_def find_None_iff)

lemma find_node_mem: "distinct (ids ns) \<Longrightarrow> n \<in> set ns \<Longrightarrow> find_node ns (n_ID n) = Some n"
  by (induction ns) (auto simp: find_node_def ids_def)

lemma by_id_mem [simp]: "distinct (ids ns) \<Longrightarrow> n \<in> set ns \<Longrightarrow> by_id ns (n_ID n) = n"
  by (simp add: by_id_def find_node_mem)

lemma by_id_outside: "i \<notin> set (ids ns) \<Longrightarrow> by_id ns i = zero_node"
  by (simp add: by_id_def find_node_None [THEN iffD2])

lemma by_id_in: "i \<in> set (ids ns) \<Longrightarrow> by_id ns i \<in> set ns \<and> n_ID (by_id ns i) = i"
  using find_node_Some [of ns i] by (cases "find_node ns i") (auto simp: by_id_def find_node_None)

section \<open>Stored rationals\<close>

lemma itoa_not_slash: "0 \<le> n \<Longrightarrow> CHR ''/'' \<notin> set (itoa n)"
proof -
  assume "0 \<le> n"
  moreover have "\<not> is_digit (CHR ''/'')" by (simp add: is_digit_def)
  ultimately show ?thesis by (simp add: itoa_def not_digit_notin_itoa_nat)
qed

lemma rat_string_parts:
  "0 \<le> r \<Longrightarrow> \<exists>n d. quotient_of r = (n, d) \<and> 0 \<le> n \<and> 0 < d \<and> r = Fract n d \<and> rat_string r = itoa n @ CHR ''/'' # itoa d"
proof -
  assume r: "0 \<le> r"
  obtain n d where q: "quotient_of r = (n, d)" by (cases "quotient_of r")
  have d: "0 < d" using quotient_of_denom_pos [OF q] .
  have "r = Fract n d" using quotient_of_div [OF q] by (simp add: Fract_of_int_quotient)
  moreover from this have "0 \<le> n" using r d by (simp add: zero_le_Fract_iff)
  ultimately show ?thesis using q d by (simp add: rat_string_def)
qed

text \<open>What \<^verbatim>\<open>big.Rat.SetString\<close> documents for a fraction in decimal digits.\<close>

definition reads_fractions :: "(string \<Rightarrow> rat option) \<Rightarrow> bool" where
  "reads_fractions setString \<longleftrightarrow>
     (\<forall>n d. 0 \<le> n \<longrightarrow> 0 < d \<longrightarrow> setString (itoa n @ CHR ''/'' # itoa d) = Some (Fract n d))"

lemma decode_iff_encode:
  assumes "reads_fractions setString"
  shows "DecodeRat setString s = Inr r \<longleftrightarrow> EncodeRat (Some r) = Inr s"
proof
  assume "DecodeRat setString s = Inr r"
  then show "EncodeRat (Some r) = Inr s" by (auto simp: DecodeRat_def split: if_splits option.splits)
next
  assume e: "EncodeRat (Some r) = Inr s"
  then have "0 \<le> r" "s = rat_string r" "length s \<le> MaxRatBytes" by (auto simp: EncodeRat_Inr)
  moreover have "setString s = Some r"
    using rat_string_parts [OF \<open>0 \<le> r\<close>] assms \<open>s = rat_string r\<close> by (auto simp: reads_fractions_def)
  ultimately show "DecodeRat setString s = Inr r" using e by (simp add: DecodeRat_def)
qed

text \<open>A stored rational decodes to the value it was encoded from, and nothing else decodes: what
  \<^verbatim>\<open>DecodeRat\<close> accepts is exactly what \<^verbatim>\<open>EncodeRat\<close> writes, a non-negative lowest-terms fraction
  within the storage bound.\<close>

theorem DecodeRat_EncodeRat:
  assumes "reads_fractions setString"
  shows "DecodeRat setString s = Inr r \<longleftrightarrow> EncodeRat (Some r) = Inr s"
  by (rule decode_iff_encode [OF assms])

text \<open>A reader of decimal fractions.\<close>

definition ex_setString :: "string \<Rightarrow> rat option" where
  "ex_setString s =
     (case index_byte (CHR ''/'') s of None \<Rightarrow> None
      | Some i \<Rightarrow> Some (Fract (int (digits_val (take i s))) (int (digits_val (drop (Suc i) s)))))"

lemma index_byte_first: "c \<notin> set p \<Longrightarrow> index_byte c (p @ c # q) = Some (length p)"
  by (induction p) auto

lemma ex_setString_reads: "reads_fractions ex_setString"
  unfolding reads_fractions_def
proof (intro allI impI)
  fix n d :: int assume "0 \<le> n" "0 < d"
  then have "itoa n = itoa_nat (nat n)" "itoa d = itoa_nat (nat d)" by (simp_all add: itoa_def)
  then show "ex_setString (itoa n @ CHR ''/'' # itoa d) = Some (Fract n d)"
    using itoa_not_slash [OF \<open>0 \<le> n\<close>] \<open>0 \<le> n\<close> \<open>0 < d\<close> by (simp add: ex_setString_def index_byte_first)
qed

theorem DecodeRat_EncodeRat_witness:
  "DecodeRat ex_setString ''17/20'' = Inr (17 / 20)"
proof -
  have "EncodeRat (Some (17 / 20)) = Inr ''17/20''" by code_simp
  then show ?thesis by (simp only: DecodeRat_EncodeRat [OF ex_setString_reads])
qed

end
