(* ===== verification/Event3_Graph.thy ===== *)
theory Event3_Graph
  imports Event3
begin

text \<open>
  The graph part of \<^verbatim>\<open>resolveChain\<close>: the search for the originals of every node, which marks
  the nodes whose evidence is unusable (\<open>bad\<close>), and the search for a path between two parents. The
  map \<^verbatim>\<open>visiting\<close> is true exactly for the calls on the stack; it is the argument \<open>visiting\<close>.
  \<^verbatim>\<open>roots\<close> is an association list in the order the searches finish, so a position in it is a
  topological rank.
\<close>

section \<open>The search for the originals\<close>

record chain =
  roots :: "(int \<times> int list) list"
  bad :: "int \<Rightarrow> string"

definition set_bad :: "int \<Rightarrow> string \<Rightarrow> chain \<Rightarrow> chain" where
  "set_bad i reason st = st\<lparr>bad := (bad st)(i := reason)\<rparr>"

definition supported_states :: "string list" where
  "supported_states = [''pending'', ''excluded'', ''declared'', ''confirmed'', ''disputed'',
     ''disputed-declared'', ''withdrawn-confirmed'']"

text \<open>What the loop over the parents marks before it looks at the parent's own originals.\<close>

definition mark_state :: "int \<Rightarrow> parent \<Rightarrow> chain \<Rightarrow> chain" where
  "mark_state i p st =
     (if p_State p \<in> set supported_states then st else set_bad i ''unsupported-relation-state'' st)"

definition mark_times :: "node \<Rightarrow> node \<Rightarrow> chain \<Rightarrow> chain" where
  "mark_times n pn st =
     (let st = (if time_is_zero (n_MergedAt n) \<or> time_is_zero (n_MergedAt pn)
                then set_bad (n_ID n) ''missing-occurrence'' st else st)
      in if n_MergedAt n < n_MergedAt pn then set_bad (n_ID n) ''parent-after-child'' st else st)"

definition inherit_bad :: "int \<Rightarrow> int \<Rightarrow> chain \<Rightarrow> chain" where
  "inherit_bad i p st = (if bad st p \<noteq> [] then set_bad i (bad st p) st else st)"

definition shunned :: "parent \<Rightarrow> bool" where
  "shunned p \<longleftrightarrow> p_State p = ''pending'' \<or> p_State p = ''excluded''"

function ancestors :: "node list \<Rightarrow> int list \<Rightarrow> int \<Rightarrow> chain \<Rightarrow> int list \<times> chain"
  and walk_parents :: "node list \<Rightarrow> int list \<Rightarrow> node \<Rightarrow> parent list \<Rightarrow> int list \<Rightarrow> bool \<Rightarrow> chain
    \<Rightarrow> int list \<times> bool \<times> chain" where
  "ancestors ns visiting i st =
     (case map_of (roots st) i of Some v \<Rightarrow> (v, st)
      | None \<Rightarrow>
          if i \<in> set visiting then ([], set_bad i ''cycle'' st)
          else (case find_node ns i of None \<Rightarrow> ([], st)
                | Some n \<Rightarrow>
                    (case walk_parents ns (i # visiting) n (n_Parents n) [] False st of (v, has, st) \<Rightarrow>
                       let v = (if has then v else List.insert i v)
                       in (v, st\<lparr>roots := roots st @ [(i, v)]\<rparr>))))"
| "walk_parents ns visiting n [] v has st = (v, has, st)"
| "walk_parents ns visiting n (p # ps) v has st =
     (if \<not> active (p_State p) then walk_parents ns visiting n ps v has st
      else
        (let st = mark_state (n_ID n) p st
         in case (if shunned p then None else find_node ns (p_ID p)) of
              None \<Rightarrow> walk_parents ns visiting n ps v True
                       (set_bad (n_ID n) ''missing-or-excluded-parent'' st)
            | Some pn \<Rightarrow>
                (case ancestors ns visiting (p_ID p) (mark_times n pn st) of (w, st) \<Rightarrow>
                   walk_parents ns visiting n ps (List.union w v) True
                     (inherit_bad (n_ID n) (p_ID p) st))))"
  by pat_completeness auto

lemma card_unvisited:
  "find_node ns i = Some n \<Longrightarrow> i \<notin> set visiting \<Longrightarrow>
   card (set (ids ns) - insert i (set visiting)) < card (set (ids ns) - set visiting)"
proof -
  assume "find_node ns i = Some n" and "i \<notin> set visiting"
  then have "i \<in> set (ids ns) - set visiting" using find_node_None [of ns i] by auto
  moreover have "set (ids ns) - insert i (set visiting) = (set (ids ns) - set visiting) - {i}" by auto
  ultimately show ?thesis by (metis card_Diff1_less finite_Diff finite_set)
qed

termination ancestors
  by (relation "measures [
       \<lambda>x. case x of Inl (ns, vis, i, st) \<Rightarrow> card (set (ids ns) - set vis)
                   | Inr (ns, vis, n, ps, v, has, st) \<Rightarrow> card (set (ids ns) - set vis),
       \<lambda>x. case x of Inl _ \<Rightarrow> 0 | Inr (ns, vis, n, ps, v, has, st) \<Rightarrow> Suc (length ps)]")
    (auto simp: card_unvisited)

declare ancestors.simps [simp del]

definition no_chain :: chain where "no_chain = \<lparr>roots = [], bad = (\<lambda>_. [])\<rparr>"

definition search_roots :: "node list \<Rightarrow> chain" where
  "search_roots ns = foldl (\<lambda>st n. snd (ancestors ns [] (n_ID n) st)) no_chain ns"

section \<open>The search for a path\<close>

text \<open>
  \<^verbatim>\<open>reaches\<close> is a depth-first search that stops at the target; the nodes still to be tried by
  the calls on the stack are the argument \<open>todo\<close>.
\<close>

definition live :: "parent list \<Rightarrow> parent list" where
  "live ps = filter (\<lambda>p. active (p_State p)) ps"

definition active_parents :: "node \<Rightarrow> int list" where
  "active_parents n = map p_ID (live (n_Parents n))"

function reaches :: "node list \<Rightarrow> int \<Rightarrow> int list \<Rightarrow> int list \<Rightarrow> bool" where
  "reaches ns target [] seen = False"
| "reaches ns target (i # todo) seen =
     (if i = target then True
      else if i \<in> set seen then reaches ns target todo seen
      else reaches ns target (active_parents (by_id ns i) @ todo) (i # seen))"
  by pat_completeness auto

lemma card_unseen:
  "i \<in> set (ids ns) \<Longrightarrow> i \<notin> set seen \<Longrightarrow>
   card (set (ids ns) - insert i (set seen)) < card (set (ids ns) - set seen)"
  using card_unvisited [of ns i _ seen] find_node_None [of ns i] by (cases "find_node ns i") auto

termination reaches
proof (relation "measures [\<lambda>(ns, target, todo, seen). card (set (ids ns) - set seen),
    \<lambda>(ns, target, todo, seen). length todo]", goal_cases)
  case (3 ns target i todo seen)
  show ?case
  proof (cases "i \<in> set (ids ns)")
    case True
    then show ?thesis using card_unseen [of i ns seen] 3 by auto
  next
    case False
    then have "set (ids ns) - insert i (set seen) = set (ids ns) - set seen" by auto
    moreover have "active_parents (by_id ns i) = []"
      using False by (simp add: by_id_outside zero_node_def active_parents_def live_def)
    ultimately show ?thesis by simp
  qed
qed auto

section \<open>Invariant of the search\<close>

text \<open>
  \<open>grows st st'\<close>: a search only adds finished nodes at the end, never touches the verdict of a
  finished node, and never clears a verdict. \<open>settled\<close>: a finished node without a verdict has only
  usable parents, all finished before it, and its originals are theirs.
\<close>

definition finished :: "chain \<Rightarrow> int set" where "finished st = fst ` set (roots st)"

definition grows :: "chain \<Rightarrow> chain \<Rightarrow> bool" where
  "grows st st' \<longleftrightarrow> (\<exists>ys. roots st' = roots st @ ys) \<and> (\<forall>x \<in> finished st. bad st' x = bad st x)
     \<and> (\<forall>x. bad st x \<noteq> [] \<longrightarrow> bad st' x \<noteq> [])"

definition originals_of :: "(int \<times> int list) list \<Rightarrow> int \<Rightarrow> int set" where
  "originals_of rs i = (case map_of rs i of None \<Rightarrow> {} | Some v \<Rightarrow> set v)"

definition usable :: "node list \<Rightarrow> node \<Rightarrow> parent \<Rightarrow> bool" where
  "usable ns n p \<longleftrightarrow> p_State p \<in> set supported_states \<and> \<not> shunned p
     \<and> (\<exists>pn. find_node ns (p_ID p) = Some pn \<and> \<not> time_is_zero (n_MergedAt n)
            \<and> \<not> time_is_zero (n_MergedAt pn) \<and> n_MergedAt pn \<le> n_MergedAt n)"

definition entry_ok :: "node list \<Rightarrow> (int \<Rightarrow> string) \<Rightarrow> (int \<times> int list) list \<Rightarrow> int \<times> int list \<Rightarrow> bool" where
  "entry_ok ns b before e \<longleftrightarrow>
     (let n = by_id ns (fst e); ps = live (n_Parents n) in b (fst e) = [] \<longrightarrow>
        (\<forall>p \<in> set ps. usable ns n p \<and> p_ID p \<in> fst ` set before \<and> b (p_ID p) = [])
      \<and> set (snd e) = (if ps = [] then {fst e} else (\<Union>p \<in> set ps. originals_of before (p_ID p))))"

fun entries_ok :: "node list \<Rightarrow> (int \<Rightarrow> string) \<Rightarrow> (int \<times> int list) list \<Rightarrow> (int \<times> int list) list \<Rightarrow> bool" where
  "entries_ok ns b before [] = True"
| "entries_ok ns b before (e # es) = (entry_ok ns b before e \<and> entries_ok ns b (before @ [e]) es)"

definition chain_ok :: "node list \<Rightarrow> chain \<Rightarrow> bool" where
  "chain_ok ns st \<longleftrightarrow> distinct (map fst (roots st)) \<and> finished st \<subseteq> set (ids ns)
     \<and> entries_ok ns (bad st) [] (roots st)"

lemma entries_ok_snoc:
  "entries_ok ns b before (es @ [e]) \<longleftrightarrow> entries_ok ns b before es \<and> entry_ok ns b (before @ es) e"
  by (induction es arbitrary: before) auto

lemma entries_ok_cong:
  "\<forall>x \<in> fst ` set (before @ es). b' x = b x \<Longrightarrow> entries_ok ns b before es \<Longrightarrow> entries_ok ns b' before es"
proof (induction es arbitrary: before)
  case (Cons e es)
  have "entries_ok ns b (before @ [e]) es" using Cons.prems(2) by simp
  moreover have "\<forall>x \<in> fst ` set ((before @ [e]) @ es). b' x = b x" using Cons.prems(1) by simp
  moreover have same: "b' (fst e) = b (fst e)" "\<forall>x \<in> fst ` set before. b' x = b x"
    using Cons.prems(1) by auto
  moreover have "entry_ok ns b before e" using Cons.prems(2) by simp
  then have "entry_ok ns b' before e"
    by (simp add: entry_ok_def Let_def same(1)) (metis same(2))
  ultimately show ?case using Cons.IH by simp
qed simp

lemma grows_refl [simp]: "grows st st" by (simp add: grows_def)

lemma grows_trans: "grows r s \<Longrightarrow> grows s t \<Longrightarrow> grows r t"
proof -
  assume rs: "grows r s" and st: "grows s t"
  then have "\<exists>ys. roots t = roots r @ ys" by (auto simp: grows_def)
  moreover have "finished r \<subseteq> finished s" using rs by (auto simp: grows_def finished_def)
  then have "\<forall>x \<in> finished r. bad t x = bad r x" using rs st by (auto simp: grows_def)
  moreover have "\<forall>x. bad r x \<noteq> [] \<longrightarrow> bad t x \<noteq> []" using rs st by (auto simp: grows_def)
  ultimately show "grows r t" by (simp add: grows_def)
qed

lemma grows_finished: "grows s t \<Longrightarrow> x \<in> finished s \<Longrightarrow> x \<in> finished t"
  by (auto simp: grows_def finished_def)

lemma grows_bad: "grows s t \<Longrightarrow> x \<in> finished s \<Longrightarrow> bad t x = bad s x"
  by (simp add: grows_def)

lemma grows_clean: "grows s t \<Longrightarrow> bad t x = [] \<Longrightarrow> bad s x = []"
  by (auto simp: grows_def)

lemma originals_of_append: "i \<in> fst ` set rs \<Longrightarrow> originals_of (rs @ ys) i = originals_of rs i"
proof -
  assume "i \<in> fst ` set rs"
  then obtain v where "map_of rs i = Some v" by (cases "map_of rs i") (auto simp: map_of_eq_None_iff)
  then show ?thesis by (simp add: originals_of_def)
qed

lemma grows_originals:
  assumes "grows s t" and "i \<in> finished s"
  shows "originals_of (roots t) i = originals_of (roots s) i"
proof -
  obtain ys where "roots t = roots s @ ys" using assms(1) by (auto simp: grows_def)
  then show ?thesis using assms(2) by (simp add: finished_def originals_of_append)
qed

lemma set_bad_simps [simp]:
  "roots (set_bad i r st) = roots st" "finished (set_bad i r st) = finished st"
  "bad (set_bad i r st) = (bad st)(i := r)"
  by (simp_all add: set_bad_def finished_def)

lemma set_bad_grows: "i \<notin> finished st \<Longrightarrow> r \<noteq> [] \<Longrightarrow> grows st (set_bad i r st)"
  by (auto simp: grows_def)

lemma set_bad_ok: "i \<notin> finished st \<Longrightarrow> chain_ok ns st \<Longrightarrow> chain_ok ns (set_bad i r st)"
  unfolding chain_ok_def finished_def
  by (simp, rule entries_ok_cong [where b = "bad st"]) auto

text \<open>The three marking steps are a few \<open>set_bad\<close> of the node under search.\<close>

definition marks :: "int \<Rightarrow> chain \<Rightarrow> chain \<Rightarrow> bool" where
  "marks i s t \<longleftrightarrow> grows s t \<and> roots t = roots s \<and> (\<forall>ns. chain_ok ns s \<longrightarrow> chain_ok ns t)
     \<and> (\<forall>x. x \<noteq> i \<longrightarrow> bad t x = bad s x)"

lemma marks_refl [simp]: "marks i s s" by (simp add: marks_def)

lemma marks_set_bad: "i \<notin> finished s \<Longrightarrow> r \<noteq> [] \<Longrightarrow> marks i s (set_bad i r s)"
  by (simp add: marks_def set_bad_grows set_bad_ok)

lemma marks_trans: "marks i r s \<Longrightarrow> marks i s t \<Longrightarrow> marks i r t"
  by (auto simp: marks_def intro: grows_trans)

lemma marks_finished: "marks i s t \<Longrightarrow> finished t = finished s"
  by (simp add: marks_def finished_def)

lemma mark_state_marks: "i \<notin> finished st \<Longrightarrow> marks i st (mark_state i p st)"
  by (simp add: mark_state_def marks_set_bad)

lemma mark_times_marks: "n_ID n \<notin> finished st \<Longrightarrow> marks (n_ID n) st (mark_times n pn st)"
proof -
  assume n: "n_ID n \<notin> finished st"
  let ?s = "if time_is_zero (n_MergedAt n) \<or> time_is_zero (n_MergedAt pn)
    then set_bad (n_ID n) ''missing-occurrence'' st else st"
  have s: "marks (n_ID n) st ?s" using n by (simp add: marks_set_bad)
  have "marks (n_ID n) ?s (mark_times n pn st)"
    using n by (simp add: mark_times_def Let_def marks_set_bad)
  then show ?thesis by (rule marks_trans [OF s])
qed

lemma inherit_bad_marks: "i \<notin> finished st \<Longrightarrow> marks i st (inherit_bad i p st)"
  by (simp add: inherit_bad_def marks_set_bad)

lemma mark_state_clean: "bad (mark_state i p st) i = [] \<Longrightarrow> p_State p \<in> set supported_states"
  by (simp add: mark_state_def split: if_splits)

lemma mark_times_clean:
  "bad (mark_times n pn st) (n_ID n) = [] \<Longrightarrow>
   \<not> time_is_zero (n_MergedAt n) \<and> \<not> time_is_zero (n_MergedAt pn) \<and> n_MergedAt pn \<le> n_MergedAt n"
  by (auto simp: mark_times_def Let_def split: if_splits)

lemma inherit_bad_clean: "bad (inherit_bad i p st) i = [] \<Longrightarrow> bad st p = []"
  by (auto simp: inherit_bad_def split: if_splits)

section \<open>The search keeps its invariant\<close>

definition search_post ::
  "node list \<Rightarrow> int list \<Rightarrow> int \<Rightarrow> chain \<Rightarrow> int list \<Rightarrow> chain \<Rightarrow> bool" where
  "search_post ns vis i s v t \<longleftrightarrow> chain_ok ns t \<and> grows s t \<and> set vis \<inter> finished t = {}
     \<and> (i \<in> set (ids ns) \<longrightarrow> i \<notin> set vis \<longrightarrow> i \<in> finished t)
     \<and> (i \<in> set (ids ns) \<longrightarrow> bad t i = [] \<longrightarrow> i \<in> finished t \<and> set v = originals_of (roots t) i)"

definition walk_post ::
  "node list \<Rightarrow> int list \<Rightarrow> node \<Rightarrow> parent list \<Rightarrow> int list \<Rightarrow> bool \<Rightarrow> chain \<Rightarrow> int list \<Rightarrow> bool \<Rightarrow> chain \<Rightarrow> bool"
where
  "walk_post ns vis n ps v has s v' has' t \<longleftrightarrow> chain_ok ns t \<and> grows s t \<and> set vis \<inter> finished t = {}
     \<and> has' = (has \<or> live ps \<noteq> [])
     \<and> (bad t (n_ID n) = [] \<longrightarrow>
          (\<forall>p \<in> set (live ps). usable ns n p \<and> p_ID p \<in> finished t \<and> bad t (p_ID p) = [])
        \<and> set v' = set v \<union> (\<Union>p \<in> set (live ps). originals_of (roots t) (p_ID p)))"

lemma search_post_finish:
  assumes "find_node ns i = Some n" and "i \<notin> set vis" and "i \<notin> finished s"
    and w: "walk_post ns (i # vis) n (n_Parents n) [] False s v has t"
  shows "search_post ns vis i s (if has then v else List.insert i v)
    (t\<lparr>roots := roots t @ [(i, if has then v else List.insert i v)]\<rparr>)"
proof -
  let ?v = "if has then v else List.insert i v"
  let ?u = "t\<lparr>roots := roots t @ [(i, ?v)]\<rparr>"
  have n: "n_ID n = i" "by_id ns i = n" "i \<in> set (ids ns)"
    using assms(1) find_node_Some [of ns i n] find_node_None [of ns i] by (auto simp: by_id_def)
  have t: "chain_ok ns t" "grows s t" "set (i # vis) \<inter> finished t = {}" "has = (live (n_Parents n) \<noteq> [])"
    and c: "bad t i = [] \<Longrightarrow> \<forall>p \<in> set (live (n_Parents n)). usable ns n p \<and> p_ID p \<in> finished t \<and> bad t (p_ID p) = []"
    and o: "bad t i = [] \<Longrightarrow> set v = (\<Union>p \<in> set (live (n_Parents n)). originals_of (roots t) (p_ID p))"
    using w n(1) by (auto simp: walk_post_def)
  have fin: "finished ?u = insert i (finished t)" by (auto simp: finished_def)
  have e: "entry_ok ns (bad t) (roots t) (i, ?v)"
  proof (cases "live (n_Parents n) = []")
    case True
    then show ?thesis using t(4) o n by (simp add: entry_ok_def)
  next
    case False
    then show ?thesis using t(4) o c n by (auto simp: entry_ok_def finished_def Let_def)
  qed
  have "chain_ok ns ?u"
    using t(1,3) n(3) e by (auto simp: chain_ok_def finished_def entries_ok_snoc)
  moreover have "grows s ?u" using t(2) by (auto simp: grows_def)
  moreover have "set vis \<inter> finished ?u = {}" using t(3) assms(2) fin by auto
  moreover have "originals_of (roots ?u) i = set ?v"
    using t(3) by (auto simp: originals_of_def finished_def map_add_def split: option.splits
      dest: map_of_SomeD intro: rev_image_eqI)
  ultimately show ?thesis using fin by (simp add: search_post_def)
qed

lemma walk_post_skip:
  "\<not> active (p_State p) \<Longrightarrow> walk_post ns vis n ps v has s v' has' t \<Longrightarrow> walk_post ns vis n (p # ps) v has s v' has' t"
  by (simp add: walk_post_def live_def)

lemma walk_post_missing:
  assumes "active (p_State p)" and m: "marks (n_ID n) s s1" and "bad s1 (n_ID n) \<noteq> []"
    and w: "walk_post ns vis n ps v True s1 v' has' t"
  shows "walk_post ns vis n (p # ps) v has s v' has' t"
proof -
  have "grows s t" using m w by (auto simp: walk_post_def marks_def intro: grows_trans)
  moreover have "bad t (n_ID n) \<noteq> []" using w assms(3) by (auto simp: walk_post_def grows_def)
  ultimately show ?thesis using w assms(1) by (simp add: walk_post_def live_def)
qed

lemma walk_post_parent:
  assumes p: "active (p_State p)" "find_node ns (p_ID p) = Some pn" "\<not> shunned p"
    and m: "marks (n_ID n) s s1" "s2 = mark_times n pn s1" "s1 = mark_state (n_ID n) p s"
    and a: "search_post ns vis (p_ID p) s2 w s3"
    and "n_ID n \<in> set vis" and i: "s4 = inherit_bad (n_ID n) (p_ID p) s3"
    and r: "walk_post ns vis n ps (List.union w v) True s4 v' has' t"
    and fresh: "n_ID n \<notin> finished s"
  shows "walk_post ns vis n (p # ps) v has s v' has' t"
proof -
  have m2: "marks (n_ID n) s1 s2" using m(1,2) fresh mark_times_marks marks_finished by metis
  have m4: "marks (n_ID n) s3 s4"
    using a i assms(8) by (auto simp: search_post_def intro!: inherit_bad_marks)
  have g: "grows s s1" "grows s1 s2" "grows s2 s3" "grows s3 s4" "grows s4 t"
    using m(1) m2 a m4 r by (auto simp: marks_def search_post_def walk_post_def)
  have gs: "grows s t" by (rule grows_trans [OF g(1) grows_trans [OF g(2) grows_trans [OF g(3) grows_trans [OF g(4,5)]]]])
  have g3: "grows s3 t" by (rule grows_trans [OF g(4,5)])
  have pin: "p_ID p \<in> set (ids ns)" using p(2) find_node_None [of ns "p_ID p"] by auto
  have clean: "usable ns n p \<and> p_ID p \<in> finished t \<and> bad t (p_ID p) = []
      \<and> set w = originals_of (roots t) (p_ID p)" if c: "bad t (n_ID n) = []"
  proof -
    have b4: "bad s4 (n_ID n) = []" and b2: "bad s2 (n_ID n) = []" and b1: "bad s1 (n_ID n) = []"
      using c grows_clean g grows_trans by blast+
    have b3: "bad s3 (p_ID p) = []" using b4 i inherit_bad_clean by simp
    then have f3: "p_ID p \<in> finished s3" and w: "set w = originals_of (roots s3) (p_ID p)"
      using a pin by (auto simp: search_post_def)
    have "usable ns n p"
      using p m(2,3) b1 b2 mark_state_clean mark_times_clean by (auto simp: usable_def)
    moreover have "p_ID p \<in> finished t" using f3 g3 by (rule grows_finished [rotated])
    moreover have "bad t (p_ID p) = []" using grows_bad [OF g3 f3] b3 by simp
    moreover have "set w = originals_of (roots t) (p_ID p)" using w grows_originals [OF g3 f3] by simp
    ultimately show ?thesis by simp
  qed
  have "set v' = set v \<union> (\<Union>q \<in> set (live (p # ps)). originals_of (roots t) (p_ID q))"
    if c: "bad t (n_ID n) = []"
    using r c clean [OF c] p(1) by (auto simp: walk_post_def live_def)
  then show ?thesis using r gs clean p(1) by (auto simp: walk_post_def live_def)
qed

lemma search_spec:
  shows "ancestors ns vis i s = (v, t) \<Longrightarrow> chain_ok ns s \<Longrightarrow> set vis \<inter> finished s = {} \<Longrightarrow>
      search_post ns vis i s v t"
    and "walk_parents ns vis n ps v0 has s = (v', has', t) \<Longrightarrow> chain_ok ns s \<Longrightarrow>
      set vis \<inter> finished s = {} \<Longrightarrow> n_ID n \<in> set vis \<Longrightarrow> walk_post ns vis n ps v0 has s v' has' t"
proof (induction ns vis i s and ns vis n ps v0 has s arbitrary: v t and v' has' t
    rule: ancestors_walk_parents.induct)
  case (1 ns vis i s)
  show ?case
  proof (cases "map_of (roots s) i")
    case (Some w)
    then have "i \<in> finished s" by (auto simp: finished_def dest: map_of_SomeD intro: rev_image_eqI)
    then show ?thesis using 1 Some by (auto simp: ancestors.simps search_post_def originals_of_def)
  next
    case None
    then have fresh: "i \<notin> finished s" by (simp add: finished_def map_of_eq_None_iff)
    show ?thesis
    proof (cases "i \<in> set vis")
      case True
      then show ?thesis
        using 1 None fresh by (auto simp: ancestors.simps search_post_def set_bad_ok set_bad_grows)
    next
      case False
      show ?thesis
      proof (cases "find_node ns i")
        case None': None
        then show ?thesis
          using 1 None False find_node_None [of ns i] by (simp add: ancestors.simps search_post_def)
      next
        case (Some n)
        obtain w has u where w: "walk_parents ns (i # vis) n (n_Parents n) [] False s = (w, has, u)"
          by (cases "walk_parents ns (i # vis) n (n_Parents n) [] False s") auto
        have "n_ID n = i" using Some find_node_Some by blast
        then have "walk_post ns (i # vis) n (n_Parents n) [] False s w has u"
          using 1 None False Some w fresh by auto
        then show ?thesis
          using search_post_finish [OF Some False fresh] 1 None False Some w
          by (auto simp: ancestors.simps Let_def)
      qed
    qed
  qed
next
  case (2 ns vis n v has s)
  then show ?case by (auto simp: walk_post_def live_def)
next
  case (3 ns vis n p ps v has s)
  show ?case
  proof (cases "active (p_State p)")
    case False
    then show ?thesis using 3 by (auto intro: walk_post_skip)
  next
    case True
    let ?s1 = "mark_state (n_ID n) p s"
    have fresh: "n_ID n \<notin> finished s" using 3 by auto
    then have m1: "marks (n_ID n) s ?s1" by (rule mark_state_marks)
    show ?thesis
    proof (cases "if shunned p then None else find_node ns (p_ID p)")
      case None
      let ?s2 = "set_bad (n_ID n) ''missing-or-excluded-parent'' ?s1"
      have m2: "marks (n_ID n) s ?s2"
        using m1 fresh marks_finished [OF m1] by (auto intro!: marks_trans [OF m1] marks_set_bad)
      then have "walk_post ns vis n ps v True ?s2 v' has' t"
        using 3 True None marks_finished [OF m2] by (simp add: Let_def marks_def)
      then show ?thesis by (rule walk_post_missing [OF True m2, rotated]) simp
    next
      case (Some pn)
      let ?s2 = "mark_times n pn ?s1"
      obtain w s3 where a: "ancestors ns vis (p_ID p) ?s2 = (w, s3)"
        by (cases "ancestors ns vis (p_ID p) ?s2")
      have m2: "marks (n_ID n) s ?s2"
        using m1 fresh marks_finished [OF m1] by (auto intro!: marks_trans [OF m1] mark_times_marks)
      have sp: "search_post ns vis (p_ID p) ?s2 w s3"
        using 3 True Some a m2 marks_finished [OF m2] by (simp add: marks_def)
      let ?s4 = "inherit_bad (n_ID n) (p_ID p) s3"
      have m4: "marks (n_ID n) s3 ?s4"
        using sp 3 by (auto simp: search_post_def intro!: inherit_bad_marks)
      have "walk_post ns vis n ps (List.union w v) True ?s4 v' has' t"
        using 3 True Some a sp m4 marks_finished [OF m4] by (simp add: marks_def search_post_def Let_def)
      then show ?thesis
        using walk_post_parent [OF True _ _ m1 refl refl sp _ refl _ fresh] 3 Some
        by (auto split: if_splits)
    qed
  qed
qed

section \<open>What the whole search establishes\<close>

definition rank :: "chain \<Rightarrow> int \<Rightarrow> nat" where
  "rank st i = length (takeWhile (\<lambda>e. fst e \<noteq> i) (roots st))"

definition edges :: "node list \<Rightarrow> (int \<times> int) set" where
  "edges ns = {(i, p). p \<in> set (active_parents (by_id ns i))}"

lemma chain_ok_no_chain: "chain_ok ns no_chain"
  by (simp add: chain_ok_def no_chain_def finished_def)

lemma search_all:
  "chain_ok ns st \<Longrightarrow> set ms \<subseteq> set ns \<Longrightarrow>
   let t = foldl (\<lambda>st n. snd (ancestors ns [] (n_ID n) st)) st ms
   in chain_ok ns t \<and> finished st \<subseteq> finished t \<and> set (ids ms) \<subseteq> finished t"
proof (induction ms arbitrary: st)
  case (Cons m ms)
  obtain v u where a: "ancestors ns [] (n_ID m) st = (v, u)" by (cases "ancestors ns [] (n_ID m) st")
  have p: "search_post ns [] (n_ID m) st v u" by (rule search_spec(1) [OF a]) (use Cons.prems in auto)
  have m: "n_ID m \<in> set (ids ns)" using Cons.prems by (simp add: ids_def)
  then have u: "chain_ok ns u" "finished st \<subseteq> finished u" "n_ID m \<in> finished u"
    using p grows_finished by (auto simp: search_post_def)
  then show ?case using Cons.IH [OF u(1)] Cons.prems a by (auto simp: Let_def ids_def)
qed (simp add: ids_def)

lemma search_roots_ok: "chain_ok ns (search_roots ns) \<and> finished (search_roots ns) = set (ids ns)"
  using search_all [OF chain_ok_no_chain, of ns ns]
  by (auto simp: search_roots_def Let_def chain_ok_def [of ns "foldl _ _ _"])

lemma entries_ok_split:
  "entries_ok ns b before (xs @ e # ys) \<Longrightarrow> entry_ok ns b (before @ xs) e"
proof (induction xs arbitrary: before)
  case (Cons x xs)
  then show ?case using Cons.IH [of "before @ [x]"] by simp
qed simp

lemma chain_entry:
  assumes ok: "chain_ok ns st" and i: "i \<in> finished st"
  shows "\<exists>xs v ys. roots st = xs @ (i, v) # ys \<and> rank st i = length xs \<and> originals_of (roots st) i = set v
    \<and> entry_ok ns (bad st) xs (i, v)
    \<and> (\<forall>p \<in> fst ` set xs. rank st p < length xs \<and> originals_of xs p = originals_of (roots st) p)"
proof -
  obtain v where "(i, v) \<in> set (roots st)" using i by (auto simp: finished_def)
  then obtain xs ys where s: "roots st = xs @ (i, v) # ys" by (auto simp: in_set_conv_decomp)
  have d: "distinct (map fst (roots st))" using ok by (simp add: chain_ok_def)
  then have i: "\<forall>e \<in> set xs. fst e \<noteq> i" using s by force
  then have "takeWhile (\<lambda>e. fst e \<noteq> i) (roots st) = xs" using s by (simp add: takeWhile_tail)
  then have r: "rank st i = length xs" by (simp add: rank_def)
  have o: "originals_of (roots st) i = set v"
  proof -
    have "map_of xs i = None" using i by (auto simp: map_of_eq_None_iff)
    then show ?thesis using s by (simp add: originals_of_def map_add_def)
  qed
  have e: "entry_ok ns (bad st) xs (i, v)"
    using ok s entries_ok_split [of ns "bad st" "[]" xs "(i, v)" ys] by (simp add: chain_ok_def)
  have "rank st p < length xs \<and> originals_of xs p = originals_of (roots st) p" if "p \<in> fst ` set xs" for p
  proof
    from that obtain w as bs where p: "xs = as @ (p, w) # bs" by (auto simp: in_set_conv_decomp)
    have "length (takeWhile (\<lambda>e. fst e \<noteq> p) (as @ (p, w) # zs)) \<le> length as" for zs
      by (induction as) auto
    then have "rank st p \<le> length as" using s p by (simp add: rank_def)
    then show "rank st p < length xs" using p by simp
    show "originals_of xs p = originals_of (roots st) p"
      using that s originals_of_append [of p xs] by simp
  qed
  then show ?thesis using s r o e by blast
qed

lemma clean_parents:
  assumes "chain_ok ns st" and "i \<in> finished st" and "bad st i = []"
    and "p \<in> set (live (n_Parents (by_id ns i)))"
  shows "usable ns (by_id ns i) p \<and> p_ID p \<in> finished st \<and> bad st (p_ID p) = [] \<and> rank st (p_ID p) < rank st i"
proof -
  obtain xs v ys where *: "roots st = xs @ (i, v) # ys" "rank st i = length xs"
      "entry_ok ns (bad st) xs (i, v)" "\<forall>p \<in> fst ` set xs. rank st p < length xs"
    using chain_entry [OF assms(1,2)] by blast
  have "usable ns (by_id ns i) p \<and> p_ID p \<in> fst ` set xs \<and> bad st (p_ID p) = []"
    using *(3) assms(3,4) by (simp add: entry_ok_def Let_def)
  then show ?thesis using *(1,2,4) by (auto simp: finished_def)
qed

lemma clean_originals:
  assumes "chain_ok ns st" and "i \<in> finished st" and "bad st i = []"
  shows "originals_of (roots st) i =
    (let ps = live (n_Parents (by_id ns i))
     in if ps = [] then {i} else (\<Union>p \<in> set ps. originals_of (roots st) (p_ID p)))"
proof -
  obtain xs v ys where *: "originals_of (roots st) i = set v" "entry_ok ns (bad st) xs (i, v)"
      "\<forall>p \<in> fst ` set xs. originals_of xs p = originals_of (roots st) p"
    using chain_entry [OF assms(1,2)] by blast
  let ?ps = "live (n_Parents (by_id ns i))"
  have e: "\<forall>p \<in> set ?ps. p_ID p \<in> fst ` set xs"
      "set v = (if ?ps = [] then {i} else (\<Union>p \<in> set ?ps. originals_of xs (p_ID p)))"
    using *(2) assms(3) by (simp_all add: entry_ok_def Let_def)
  have "(\<Union>p \<in> set ?ps. originals_of xs (p_ID p)) = (\<Union>p \<in> set ?ps. originals_of (roots st) (p_ID p))"
  proof (rule SUP_cong [OF refl])
    fix p assume "p \<in> set ?ps"
    then show "originals_of xs (p_ID p) = originals_of (roots st) (p_ID p)"
      using e(1) bspec [OF *(3), of "p_ID p"] by blast
  qed
  then show ?thesis using *(1) e(2) by (simp add: Let_def)
qed

text \<open>The originals of a usable node are the reachable nodes without an active parent.\<close>

lemma originals_reachable:
  assumes "chain_ok ns st"
  shows "i \<in> finished st \<Longrightarrow> bad st i = [] \<Longrightarrow>
    originals_of (roots st) i = {r. (i, r) \<in> (edges ns)\<^sup>* \<and> live (n_Parents (by_id ns r)) = []}"
proof (induction "rank st i" arbitrary: i rule: less_induct)
  case less
  let ?ps = "live (n_Parents (by_id ns i))"
  let ?R = "\<lambda>i. {r. (i, r) \<in> (edges ns)\<^sup>* \<and> live (n_Parents (by_id ns r)) = []}"
  have step: "(i, j) \<in> edges ns \<longleftrightarrow> (\<exists>p \<in> set ?ps. j = p_ID p)" for j
    by (auto simp: edges_def active_parents_def)
  have o: "originals_of (roots st) i =
      (if ?ps = [] then {i} else (\<Union>p \<in> set ?ps. originals_of (roots st) (p_ID p)))"
    using clean_originals [OF assms less.prems] by (simp add: Let_def)
  have ih: "originals_of (roots st) (p_ID p) = ?R (p_ID p)" if "p \<in> set ?ps" for p
    using clean_parents [OF assms less.prems that] less.hyps by simp
  show ?case
  proof (cases "?ps = []")
    case True
    then have "(i, r) \<in> (edges ns)\<^sup>* \<longleftrightarrow> r = i" for r
      using step by (metis converse_rtranclE empty_iff list.set(1) rtrancl.rtrancl_refl)
    then show ?thesis using o True by auto
  next
    case False
    have "?R i = (\<Union>p \<in> set ?ps. ?R (p_ID p))"
    proof (intro set_eqI iffI)
      fix r assume r: "r \<in> ?R i"
      then have "r \<noteq> i" using False by auto
      then obtain j where "(i, j) \<in> edges ns" "(j, r) \<in> (edges ns)\<^sup>*"
        using r by (auto elim: converse_rtranclE)
      then show "r \<in> (\<Union>p \<in> set ?ps. ?R (p_ID p))" using step r by auto
    next
      fix r assume "r \<in> (\<Union>p \<in> set ?ps. ?R (p_ID p))"
      then show "r \<in> ?R i" using step by (auto intro: converse_rtrancl_into_rtrancl)
    qed
    then show ?thesis using o False ih by auto
  qed
qed

lemma originals_earlier:
  assumes "chain_ok ns st"
  shows "i \<in> finished st \<Longrightarrow> bad st i = [] \<Longrightarrow> r \<in> originals_of (roots st) i \<Longrightarrow>
    r \<in> finished st \<and> (r = i \<and> live (n_Parents (by_id ns i)) = [] \<or> rank st r < rank st i)"
proof (induction "rank st i" arbitrary: i rule: less_induct)
  case less
  let ?ps = "live (n_Parents (by_id ns i))"
  show ?case
  proof (cases "?ps = []")
    case True
    then show ?thesis using less.prems clean_originals [OF assms less.prems(1,2)] by simp
  next
    case False
    then obtain p where p: "p \<in> set ?ps" "r \<in> originals_of (roots st) (p_ID p)"
      using less.prems clean_originals [OF assms less.prems(1,2)] by (auto simp: Let_def)
    have c: "p_ID p \<in> finished st" "bad st (p_ID p) = []" "rank st (p_ID p) < rank st i"
      using clean_parents [OF assms less.prems(1,2) p(1)] by auto
    then show ?thesis using less.hyps [OF c(3) c(1,2) p(2)] by auto
  qed
qed

lemma reaches_sound: "reaches ns t todo seen \<Longrightarrow> \<exists>i \<in> set todo. (i, t) \<in> (edges ns)\<^sup>*"
proof (induction ns t todo seen rule: reaches.induct)
  case (2 ns t i todo seen)
  show ?case
  proof (cases "i = t \<or> i \<in> set seen")
    case False
    then obtain j where "j \<in> set (active_parents (by_id ns i) @ todo)" "(j, t) \<in> (edges ns)\<^sup>*"
      using 2 by auto
    then show ?thesis by (auto simp: edges_def intro: converse_rtrancl_into_rtrancl)
  qed (use 2 in auto)
qed simp

lemma reaches_closed:
  "\<not> reaches ns t todo seen \<Longrightarrow> t \<notin> set seen \<Longrightarrow> edges ns `` set seen \<subseteq> set seen \<union> set todo \<Longrightarrow>
   \<exists>C. set seen \<union> set todo \<subseteq> C \<and> t \<notin> C \<and> edges ns `` C \<subseteq> C"
proof (induction ns t todo seen rule: reaches.induct)
  case (1 ns t seen)
  then show ?case by (intro exI [of _ "set seen"]) simp
next
  case (2 ns t i todo seen)
  have i: "i \<noteq> t" using 2(3) by auto
  show ?case
  proof (cases "i \<in> set seen")
    case True
    have "edges ns `` set seen \<subseteq> set seen \<union> set todo" using 2(5) True by auto
    then obtain C where "set seen \<union> set todo \<subseteq> C" "t \<notin> C" "edges ns `` C \<subseteq> C"
      using 2(1) [OF i True] 2(3,4) i True by auto
    then show ?thesis using True by (intro exI [of _ C]) auto
  next
    case False
    have "edges ns `` set (i # seen) \<subseteq> set (i # seen) \<union> set (active_parents (by_id ns i) @ todo)"
      using 2(5) by (auto simp: edges_def)
    then obtain C where "set (i # seen) \<union> set (active_parents (by_id ns i) @ todo) \<subseteq> C" "t \<notin> C"
        "edges ns `` C \<subseteq> C"
      using 2(2) [OF i False] 2(3,4) i False by auto
    then show ?thesis by (intro exI [of _ C]) auto
  qed
qed

lemma reaches_iff: "reaches ns t [i] [] \<longleftrightarrow> (i, t) \<in> (edges ns)\<^sup>*"
proof
  assume "reaches ns t [i] []"
  then show "(i, t) \<in> (edges ns)\<^sup>*" using reaches_sound by fastforce
next
  assume path: "(i, t) \<in> (edges ns)\<^sup>*"
  show "reaches ns t [i] []"
  proof (rule ccontr)
    assume "\<not> reaches ns t [i] []"
    then obtain C where C: "i \<in> C" "t \<notin> C" "edges ns `` C \<subseteq> C" using reaches_closed [of ns t "[i]" "[]"] by auto
    have "t \<in> C" using path by (induction) (use C(1,3) in auto)
    then show False using C(2) by simp
  qed
qed

end
