(* ===== verification/Event3_Allocate.thy ===== *)
theory Event3_Allocate
  imports Event3_Graph "HOL-Library.AList"
begin

text \<open>
  \<^verbatim>\<open>allocate\<close> of \<^verbatim>\<open>src/internal/event3/resolve.go\<close>: given the parent selected for every
  follow-up, the sizing of the follow-ups, the correction of the qualities, and the distribution of
  the points along the chains. A Go map that is only read for its value is a function with the zero
  value as default; the selection is an association list, its keys being the follow-ups that have
  a parent. Conservation of the points is proved in \<open>Event3_Points\<close>.
\<close>

section \<open>Selections and allocations\<close>

record selection =
  s_bad :: "int \<Rightarrow> string"
  selected :: "(int \<times> int) list"
  multi :: "(int \<times> int list) list"
  s_provisional :: "int \<Rightarrow> bool"
  s_disputed :: "int \<Rightarrow> bool"

definition sel :: "(int \<times> int) list \<Rightarrow> int \<Rightarrow> int" where
  "sel s i = (case map_of s i of None \<Rightarrow> 0 | Some p \<Rightarrow> p)"

record allocation =
  al_ParentID :: int
  al_SourceWeight :: rat
  al_SourceQuality :: rat
  al_OutcomeID :: int
  al_Role :: string
  al_Status :: string
  al_Reason :: string
  al_Eligible :: string
  al_RuleVersion :: string
  al_Provisional :: bool
  al_Disputed :: bool
  al_RawWeight :: rat
  al_Own :: rat
  al_Before :: rat
  al_After :: rat
  al_Credit :: rat
  al_Share :: rat
  al_Quality :: rat
  al_OriginalTerm :: rat
  al_Points :: rat

type_synonym accounts = "int \<Rightarrow> allocation"

definition weight :: "node \<Rightarrow> rat" where "weight n = copyRat (n_Weight n)"
definition quality :: "node \<Rightarrow> rat" where "quality n = copyRat (n_Quality n)"

definition initial_allocation :: "selection \<Rightarrow> node \<Rightarrow> allocation" where
  "initial_allocation s n =
     (let v = \<lparr>al_ParentID = sel (selected s) (n_ID n), al_SourceWeight = weight n, al_SourceQuality = quality n,
         al_OutcomeID = n_ID n, al_Role = ''original'', al_Status = ''resolved'', al_Reason = [],
         al_Eligible = ''eligible'', al_RuleVersion = ProvisionalRule, al_Provisional = False,
         al_Disputed = s_disputed s (n_ID n), al_RawWeight = weight n, al_Own = weight n, al_Before = 0,
         al_After = 0, al_Credit = 0, al_Share = weight n, al_Quality = quality n,
         al_OriginalTerm = weight n * quality n, al_Points = weight n * quality n\<rparr>;
          v = (if list_ex (\<lambda>p. active (p_State p)) (n_Parents n)
               then v\<lparr>al_Role := ''follow-up'', al_Provisional := s_provisional s (n_ID n), al_Eligible := ''unknown''\<rparr>
               else v)
      in if s_bad s (n_ID n) \<noteq> [] then v\<lparr>al_Status := ''pending'', al_Reason := s_bad s (n_ID n)\<rparr> else v)"

definition zero_allocation :: allocation where
  "zero_allocation = \<lparr>al_ParentID = 0, al_SourceWeight = 0, al_SourceQuality = 0, al_OutcomeID = 0,
     al_Role = [], al_Status = [], al_Reason = [], al_Eligible = [], al_RuleVersion = [],
     al_Provisional = False, al_Disputed = False, al_RawWeight = 0, al_Own = 0, al_Before = 0,
     al_After = 0, al_Credit = 0, al_Share = 0, al_Quality = 0, al_OriginalTerm = 0, al_Points = 0\<rparr>"

definition initial_accounts :: "node list \<Rightarrow> selection \<Rightarrow> accounts" where
  "initial_accounts ns s = foldl (\<lambda>a n. a(n_ID n := initial_allocation s n)) (\<lambda>_. zero_allocation) ns"

definition children :: "node list \<Rightarrow> (int \<times> int) list \<Rightarrow> int \<Rightarrow> int list" where
  "children ns s p = (if p = 0 then [] else map n_ID (filter (\<lambda>n. sel s (n_ID n) = p) ns))"

section \<open>Provisional sizing\<close>

text \<open>
  Walks along \<^verbatim>\<open>selected\<close>. They stop at a node without a parent or at a repeated one; a node
  outside the selection's keys has no parent, so the unvisited keys are the measure.
\<close>

definition keys_left :: "(int \<times> int) list \<Rightarrow> int list \<Rightarrow> nat" where
  "keys_left s seen = card (fst ` set s - set seen)"

lemma keys_left_step: "sel s i \<noteq> 0 \<Longrightarrow> i \<notin> set seen \<Longrightarrow> keys_left s (i # seen) < keys_left s seen"
proof -
  assume "sel s i \<noteq> 0" and "i \<notin> set seen"
  then have "i \<in> fst ` set s - set seen"
    by (auto simp: sel_def split: option.splits dest!: map_of_SomeD intro: rev_image_eqI)
  moreover have "fst ` set s - set (i # seen) = (fst ` set s - set seen) - {i}" by auto
  ultimately show ?thesis unfolding keys_left_def by (metis card_Diff1_less finite_Diff finite_imageI finite_set)
qed

lemma keys_left_le: "keys_left s (i # seen) \<le> keys_left s seen"
  unfolding keys_left_def by (rule card_mono) auto

function root_of :: "(int \<times> int) list \<Rightarrow> int \<Rightarrow> int list \<Rightarrow> int" where
  "root_of s i seen = (if sel s i \<noteq> 0 \<and> i \<notin> set seen then root_of s (sel s i) (i # seen) else i)"
  by pat_completeness auto
termination root_of by (relation "measure (\<lambda>(s, i, seen). keys_left s seen)") (auto simp: keys_left_step)

function on_path :: "(int \<times> int) list \<Rightarrow> int \<Rightarrow> int \<Rightarrow> int list \<Rightarrow> bool" where
  "on_path s i p path =
     (if p = 0 \<or> p \<in> set path then False
      else if p = i then True
      else on_path s i (sel s p) (p # path))"
  by pat_completeness auto
termination on_path
proof (relation "measures [\<lambda>(s, i, p, path). keys_left s path, \<lambda>(s, i, p, path). if p = 0 then 0 else 1]", goal_cases)
  case (2 s i p path)
  then show ?case using keys_left_step [of s p path] keys_left_le [of s p path]
    by (cases "sel s p = 0") auto
qed simp

declare root_of.simps [simp del] on_path.simps [simp del]

function include_effort :: "node list \<Rightarrow> (int \<times> int) list \<Rightarrow> int \<Rightarrow> int \<Rightarrow> int list \<times> int \<times> bool \<Rightarrow> int list \<times> int \<times> bool" where
  "include_effort ns s i candidate (seen, effort, ok) =
     (if on_path s i candidate [] \<or> candidate \<in> set seen then (seen, effort, ok)
      else
        (let e = effort_value (n_Effort (by_id ns candidate));
             st = (candidate # seen, effort + (case e of None \<Rightarrow> 0 | Some e \<Rightarrow> e), ok \<and> e \<noteq> None)
         in if sel s candidate \<noteq> 0 then include_effort ns s i (sel s candidate) st else st))"
  by pat_completeness auto
termination include_effort
  by (relation "measure (\<lambda>(ns, s, i, candidate, seen, effort, ok). keys_left s seen)") (auto simp: keys_left_step)

declare include_effort.simps [simp del]

definition sizing :: "node list \<Rightarrow> (int \<times> int) list \<Rightarrow> int \<Rightarrow> int \<Rightarrow> rat \<times> rat \<times> bool" where
  "sizing ns s i parent =
     (let st = include_effort ns s i parent ([], 0, True);
          (seen, effort, ok) = foldl (\<lambda>st n. if n_ID n \<noteq> i \<and> less_node n (by_id ns i)
              \<and> root_of s (n_ID n) [] = root_of s parent [] then include_effort ns s i (n_ID n) st else st) st ns;
          e = effort_value (n_Effort (by_id ns i))
      in (effortWeight effort, effortWeight (effort + (case e of None \<Rightarrow> 0 | Some e \<Rightarrow> e)), ok \<and> e \<noteq> None))"

text \<open>\<^verbatim>\<open>visit\<close>: the parents of a node come before it.\<close>

function visit :: "node list \<Rightarrow> (int \<times> int) list \<Rightarrow> int \<Rightarrow> int list \<times> node list \<Rightarrow> int list \<times> node list" where
  "visit ns s i (visited, order) =
     (if i \<in> set visited then (visited, order)
      else
        (let (visited, order) =
           (if sel s i \<noteq> 0 then visit ns s (sel s i) (i # visited, order) else (i # visited, order))
         in (visited, order @ [by_id ns i])))"
  by pat_completeness auto
termination visit
  by (relation "measure (\<lambda>(ns, s, i, visited, order). keys_left s visited)") (auto simp: keys_left_step)

declare visit.simps [simp del]

definition dependency_order :: "node list \<Rightarrow> (int \<times> int) list \<Rightarrow> node list" where
  "dependency_order ns s = snd (foldl (\<lambda>st n. visit ns s (n_ID n) st) ([], []) ns)"

section \<open>The passes over the accounts\<close>

type_synonym books = "accounts \<times> (int \<Rightarrow> bool)"

definition parent_evidence :: "selection \<Rightarrow> node \<Rightarrow> bool" where
  "parent_evidence s parent \<longleftrightarrow> s_bad s (n_ID parent) = [] \<and> onScale (n_Weight parent)
     \<and> qualityOnScale (n_Quality parent) \<and> \<not> time_is_zero (n_MergedAt parent)"

text \<open>The own size, the sizes before and after, the rule and whether the evidence suffices.\<close>

definition size_evidence :: "node list \<Rightarrow> selection \<Rightarrow> node \<Rightarrow> accounts \<Rightarrow> int \<Rightarrow> rat \<times> rat \<times> rat \<times> string \<times> bool" where
  "size_evidence ns s parent a i =
     (let n = by_id ns i;
          (size0, size1, statsOK) = sizing ns (selected s) i (n_ID parent);
          valid = (parent_evidence s parent \<and> al_Status (a (n_ID parent)) \<noteq> ''pending'')
      in case reviewFor n (n_ID parent) of
           Some r \<Rightarrow> (copyRat (v_Own r), copyRat (v_Before r), copyRat (v_After r), ReviewedRule, valid)
         | None \<Rightarrow> (weight n, size0, size1, al_RuleVersion (a i), valid \<and> statsOK))"

definition credit_of :: "review option \<Rightarrow> rat \<Rightarrow> rat \<Rightarrow> rat \<Rightarrow> rat" where
  "credit_of review own size0 size1 =
     (if (case review of Some r \<Rightarrow> v_PureRepair r | None \<Rightarrow> False) then 0
      else min own (max 0 (size1 - size0)))"

definition grade :: "allocation \<Rightarrow> rat \<Rightarrow> allocation" where
  "grade v credit =
     (let v = (if al_Reason v \<noteq> ''multiple-originals''
               then v\<lparr>al_Eligible := (if 0 < credit then ''eligible'' else ''ineligible'')\<rparr> else v)
      in if al_Provisional v \<and> al_Status v \<noteq> ''pending'' then v\<lparr>al_Status := ''provisional''\<rparr> else v)"

definition size_child :: "node list \<Rightarrow> selection \<Rightarrow> node \<Rightarrow> books \<Rightarrow> int \<Rightarrow> books" where
  "size_child ns s parent b i =
     (let (a, enabled) = b;
          n = by_id ns i;
          (own, size0, size1, rule, valid) = size_evidence ns s parent a i;
          v = (a i)\<lparr>al_Provisional := s_provisional s i, al_RuleVersion := rule\<rparr>
      in if \<not> valid then
           (a(i := v\<lparr>al_Status := ''pending'', al_Reason := ''missing-sizing-or-parent-evidence''\<rparr>), enabled)
         else
           (let credit = credit_of (reviewFor n (n_ID parent)) own size0 size1;
                v = v\<lparr>al_Own := own, al_Before := size0, al_After := size1, al_Credit := credit\<rparr>
            in (a(i := grade v credit),
                enabled(i := \<not> al_Provisional v \<or> n_Developer n = n_Developer parent))))"

definition size_all :: "node list \<Rightarrow> selection \<Rightarrow> books" where
  "size_all ns s =
     foldl (\<lambda>b parent. foldl (size_child ns s parent) b (children ns (selected s) (n_ID parent)))
       (initial_accounts ns s, \<lambda>_. False) (dependency_order ns (selected s))"

definition correct_quality :: "rat \<Rightarrow> rat" where
  "correct_quality q = (if q = 1 then 17 / 20 else if q = 7 / 10 then 11 / 20 else q)"

definition correct_child :: "node list \<Rightarrow> (int \<Rightarrow> bool) \<Rightarrow> accounts \<Rightarrow> node \<Rightarrow> allocation \<Rightarrow> int \<Rightarrow> allocation" where
  "correct_child ns enabled a n v i =
     (let delta = time_sub (n_MergedAt (by_id ns i)) (n_MergedAt n);
          v = (if enabled i
               then v\<lparr>al_RuleVersion := (if al_RuleVersion (a i) = ReviewedRule then ReviewedRule else al_RuleVersion v),
                      al_Provisional := al_Provisional v \<or> al_Provisional (a i)\<rparr>
               else v)
      in if enabled i \<and> 0 \<le> delta \<and> delta \<le> 14 * 24 * Hour
         then v\<lparr>al_Quality := correct_quality (al_Quality v)\<rparr> else v)"

definition correct_node :: "node list \<Rightarrow> selection \<Rightarrow> (int \<Rightarrow> bool) \<Rightarrow> accounts \<Rightarrow> node \<Rightarrow> accounts" where
  "correct_node ns s enabled a n =
     a(n_ID n := foldl (correct_child ns enabled a n) (a (n_ID n)) (children ns (selected s) (n_ID n)))"

definition correct_all :: "node list \<Rightarrow> selection \<Rightarrow> (int \<Rightarrow> bool) \<Rightarrow> accounts \<Rightarrow> accounts" where
  "correct_all ns s enabled a = foldl (correct_node ns s enabled) a ns"

definition source_node :: "node list \<Rightarrow> selection \<Rightarrow> accounts \<Rightarrow> node \<Rightarrow> accounts" where
  "source_node ns s a n =
     (let v = a (n_ID n); parent = sel (selected s) (n_ID n)
      in a(n_ID n := (if parent \<noteq> 0
           then v\<lparr>al_SourceWeight := weight (by_id ns parent), al_SourceQuality := al_Quality (a parent)\<rparr>
           else v\<lparr>al_SourceQuality := al_Quality v\<rparr>)))"

definition source_all :: "node list \<Rightarrow> selection \<Rightarrow> accounts \<Rightarrow> accounts" where
  "source_all ns s a = foldl (source_node ns s) a ns"

section \<open>Distribution\<close>

text \<open>The closure's environment: the nodes, the selection and the map \<^verbatim>\<open>enabled\<close>.\<close>

record plan =
  pl_nodes :: "node list"
  pl_selected :: "(int \<times> int) list"
  pl_enabled :: "int \<Rightarrow> bool"

definition kids :: "plan \<Rightarrow> int \<Rightarrow> int list" where
  "kids pl i = children (pl_nodes pl) (pl_selected pl) i"

definition paid_kids :: "plan \<Rightarrow> int \<Rightarrow> int list" where
  "paid_kids pl i = filter (pl_enabled pl) (kids pl i)"

text \<open>The node's own line: its share, its points, and what is left for its children.\<close>

definition settle :: "plan \<Rightarrow> int \<Rightarrow> rat \<Rightarrow> accounts \<Rightarrow> allocation \<times> rat" where
  "settle pl i share a =
     (let v = (a i)\<lparr>al_Share := share, al_OriginalTerm := share * al_Quality (a i)\<rparr>;
          paid = (if 0 < share then paid_kids pl i else []);
          budget = al_OriginalTerm v + sum_list (map (\<lambda>c. al_Credit (a c)) paid);
          sumOwn = sum_list (map (\<lambda>c. al_Own (a c)) paid);
          floor = 1 / 10 * share;
          points = (if sumOwn = 0 then al_OriginalTerm v else max floor (budget - sumOwn))
      in (v\<lparr>al_Points := points\<rparr>, max 0 (budget - points)))"

definition queue :: "plan \<Rightarrow> int \<Rightarrow> accounts \<Rightarrow> int list" where
  "queue pl i a = sort_key (\<lambda>c. al_Reason (a c) = ''multiple-originals'') (kids pl i)"

function distribute :: "plan \<Rightarrow> int \<Rightarrow> rat \<Rightarrow> int list \<times> accounts \<Rightarrow> int list \<times> accounts"
  and distribute_queue :: "plan \<Rightarrow> rat \<Rightarrow> rat \<Rightarrow> int list \<Rightarrow> rat \<Rightarrow> int list \<times> accounts \<Rightarrow> int list \<times> accounts"
where
  "distribute pl i share (dn, a) =
     (if i \<in> set dn then (dn, a)
      else
        (let (v, remaining) = settle pl i share a; a = a(i := v)
         in distribute_queue pl share (al_Quality v) (queue pl i a) remaining (i # dn, a)))"
| "distribute_queue pl share q [] remaining (dn, a) = (dn, a)"
| "distribute_queue pl share q (c # cs) remaining (dn, a) =
     (if pl_enabled pl c then
        (let a = a(c := (a c)\<lparr>al_SourceWeight := share, al_SourceQuality := q\<rparr>);
             childShare = min (al_Own (a c)) remaining
         in distribute_queue pl share q cs (remaining - childShare) (distribute pl c childShare (dn, a)))
      else distribute_queue pl share q cs remaining (distribute pl c (weight (by_id (pl_nodes pl) c)) (dn, a)))"
  by pat_completeness auto

lemma distribute_mono:
  shows "distribute_distribute_queue_dom (Inl (pl, i, share, st)) \<Longrightarrow>
      set (fst st) \<subseteq> set (fst (distribute pl i share st))"
    and "distribute_distribute_queue_dom (Inr (pl, share, q, cs, remaining, st)) \<Longrightarrow>
      set (fst st) \<subseteq> set (fst (distribute_queue pl share q cs remaining st))"
proof (induction pl i share st and pl share q cs remaining st rule: distribute_distribute_queue.pinduct)
  case (1 pl i share dn a)
  then show ?case
    by (cases "settle pl i share a") (auto simp: distribute.psimps Let_def)
next
  case (2 pl share q remaining dn a)
  then show ?case by (simp add: distribute_queue.psimps)
next
  case (3 pl share q c cs remaining dn a)
  show ?case
  proof (cases "pl_enabled pl c")
    case True
    then show ?thesis using 3(1) 3(2,3) [OF True refl refl]
      by (simp add: distribute_queue.psimps Let_def subset_trans)
  next
    case False
    then show ?thesis using 3(1) 3(4,5) [OF False]
      by (simp add: distribute_queue.psimps Let_def subset_trans)
  qed
qed

text \<open>A node with children is the parent of a key of the selection: the measure's universe.\<close>

definition parents_left :: "plan \<Rightarrow> int list \<Rightarrow> nat" where
  "parents_left pl dn = card (snd ` set (pl_selected pl) - set dn)"

lemma queue_empty: "i \<notin> snd ` set (pl_selected pl) \<Longrightarrow> queue pl i a = []"
proof -
  assume i: "i \<notin> snd ` set (pl_selected pl)"
  then have "sel (pl_selected pl) j \<noteq> i" if "i \<noteq> 0" for j
    using that by (auto simp: sel_def split: option.splits dest!: map_of_SomeD intro: rev_image_eqI)
  then have "kids pl i = []" by (auto simp: kids_def children_def filter_empty_conv)
  then show ?thesis by (simp add: queue_def)
qed

lemma parents_left_mono: "set dn \<subseteq> set dn' \<Longrightarrow> parents_left pl dn' \<le> parents_left pl dn"
  unfolding parents_left_def by (rule card_mono) auto

lemma parents_left_step:
  "i \<in> snd ` set (pl_selected pl) \<Longrightarrow> i \<notin> set dn \<Longrightarrow> parents_left pl (i # dn) < parents_left pl dn"
proof -
  assume "i \<in> snd ` set (pl_selected pl)" and "i \<notin> set dn"
  then have "i \<in> snd ` set (pl_selected pl) - set dn" by simp
  moreover have "snd ` set (pl_selected pl) - set (i # dn) = (snd ` set (pl_selected pl) - set dn) - {i}" by auto
  ultimately show ?thesis unfolding parents_left_def
    by (metis card_Diff1_less finite_Diff finite_imageI finite_set)
qed

lemma queue_measure:
  assumes "i \<notin> set dn"
  shows "parents_left pl (i # dn) < parents_left pl dn
    \<or> parents_left pl (i # dn) = parents_left pl dn \<and> queue pl i a = []"
proof (cases "i \<in> snd ` set (pl_selected pl)")
  case True
  then show ?thesis using assms parents_left_step by blast
next
  case False
  then have "snd ` set (pl_selected pl) - set (i # dn) = snd ` set (pl_selected pl) - set dn" by auto
  then show ?thesis using False queue_empty by (auto simp: parents_left_def)
qed

termination distribute
proof (relation "measures [
    \<lambda>x. case x of Inl (pl, i, share, dn, a) \<Rightarrow> parents_left pl dn
                | Inr (pl, share, q, cs, remaining, dn, a) \<Rightarrow> parents_left pl dn,
    \<lambda>x. case x of Inl _ \<Rightarrow> 1 | Inr (pl, share, q, cs, remaining, st) \<Rightarrow> 2 * length cs]", goal_cases)
  case (2 pl i share dn a x v remaining b)
  then show ?case using queue_measure [of i dn pl b] by auto
next
  case (4 pl share q c cs remaining dn a x y)
  have "set dn \<subseteq> set (fst (distribute pl c y (dn, x)))" using distribute_mono(1) [OF 4(4)] by simp
  then show ?case using parents_left_mono [of dn _ pl] by (cases "distribute pl c y (dn, x)") (auto simp: less_le)
next
  case (6 pl share q c cs remaining dn a)
  let ?w = "weight (by_id (pl_nodes pl) c)"
  have "set dn \<subseteq> set (fst (distribute pl c ?w (dn, a)))" using distribute_mono(1) [OF 6(2)] by simp
  then show ?case using parents_left_mono [of dn _ pl] by (cases "distribute pl c ?w (dn, a)") (auto simp: less_le)
qed auto

declare distribute.simps [simp del]

section \<open>The whole allocation\<close>

text \<open>The original weight of a root: the first reviewed size its enabled follow-ups record.\<close>

definition starting_weight :: "plan \<Rightarrow> node \<Rightarrow> rat" where
  "starting_weight pl n =
     (if sel (pl_selected pl) (n_ID n) = 0 then
        (case find (\<lambda>c. pl_enabled pl c \<and> reviewFor (by_id (pl_nodes pl) c) (n_ID n) \<noteq> None) (kids pl (n_ID n)) of
           Some c \<Rightarrow> (case reviewFor (by_id (pl_nodes pl) c) (n_ID n) of
                        Some r \<Rightarrow> copyRat (v_Original r) | None \<Rightarrow> weight n)
         | None \<Rightarrow> weight n)
      else weight n)"

definition start_node :: "plan \<Rightarrow> int list \<times> accounts \<Rightarrow> node \<Rightarrow> int list \<times> accounts" where
  "start_node pl st n =
     (if sel (pl_selected pl) (n_ID n) = 0 \<or> \<not> pl_enabled pl (n_ID n) then
        (let (dn, a) = st; w = starting_weight pl n;
             a = (if sel (pl_selected pl) (n_ID n) = 0
                  then a(n_ID n := (a (n_ID n))\<lparr>al_SourceWeight := w\<rparr>) else a)
         in distribute pl (n_ID n) w (dn, a))
      else st)"

definition the_plan :: "node list \<Rightarrow> selection \<Rightarrow> plan" where
  "the_plan ns s = \<lparr>pl_nodes = ns, pl_selected = selected s, pl_enabled = snd (size_all ns s)\<rparr>"

definition final_accounts :: "node list \<Rightarrow> selection \<Rightarrow> int list \<times> accounts" where
  "final_accounts ns s =
     (let (a, enabled) = size_all ns s; a = source_all ns s (correct_all ns s enabled a)
      in foldl (start_node (the_plan ns s)) ([], a) ns)"

definition allocate :: "node list \<Rightarrow> selection \<Rightarrow> allocation list" where
  "allocate ns s = map (\<lambda>n. snd (final_accounts ns s) (n_ID n)) ns"

end
