(* ===== verification/Event3_Points.thy ===== *)
theory Event3_Points
  imports Event3_Allocate
begin

text \<open>
  Conservation of the points by \<^verbatim>\<open>allocate\<close>: at every node, its points and the shares it hands
  to its follow-ups are its original term and the credits of those follow-ups, exactly; over a
  whole component the points are then bounded by the terms of the nodes that keep their own weight
  and the credits.
\<close>

section \<open>What the distribution does not touch\<close>

definition same_terms :: "accounts \<Rightarrow> accounts \<Rightarrow> bool" where
  "same_terms a b \<longleftrightarrow> (\<forall>x. al_Own (b x) = al_Own (a x) \<and> al_Credit (b x) = al_Credit (a x)
     \<and> al_Quality (b x) = al_Quality (a x) \<and> al_Reason (b x) = al_Reason (a x)
     \<and> al_ParentID (b x) = al_ParentID (a x) \<and> al_OutcomeID (b x) = al_OutcomeID (a x))"

definition results :: "allocation \<Rightarrow> rat \<times> rat \<times> rat" where
  "results v = (al_Share v, al_OriginalTerm v, al_Points v)"

definition same_results :: "int set \<Rightarrow> accounts \<Rightarrow> accounts \<Rightarrow> bool" where
  "same_results X a b \<longleftrightarrow> (\<forall>x \<in> X. results (b x) = results (a x))"

lemma same_terms_refl [simp]: "same_terms a a" by (simp add: same_terms_def)

lemma same_terms_trans: "same_terms a b \<Longrightarrow> same_terms b c \<Longrightarrow> same_terms a c"
  by (simp add: same_terms_def)

lemma same_results_refl [simp]: "same_results X a a" by (simp add: same_results_def)

lemma same_results_trans: "same_results X a b \<Longrightarrow> same_results Y b c \<Longrightarrow> X \<subseteq> Y \<Longrightarrow> same_results X a c"
  by (auto simp: same_results_def)

lemma same_results_mono: "same_results Y a b \<Longrightarrow> X \<subseteq> Y \<Longrightarrow> same_results X a b"
  by (auto simp: same_results_def)

section \<open>Plans\<close>

definition plan_ok :: "plan \<Rightarrow> accounts \<Rightarrow> bool" where
  "plan_ok pl a \<longleftrightarrow> distinct (ids (pl_nodes pl)) \<and> 0 \<notin> set (ids (pl_nodes pl))
     \<and> (\<forall>i. 0 \<le> weight (by_id (pl_nodes pl) i))
     \<and> (\<forall>x. sel (pl_selected pl) x \<noteq> 0 \<longrightarrow> sel (pl_selected pl) x \<noteq> x)
     \<and> (\<forall>x. pl_enabled pl x \<longrightarrow> sel (pl_selected pl) x \<noteq> 0 \<and> 1 / 10 \<le> al_Quality (a (sel (pl_selected pl) x)))
     \<and> (\<forall>x. 0 \<le> al_Credit (a x) \<and> al_Credit (a x) \<le> al_Own (a x) \<and> 0 \<le> al_Quality (a x))"

lemma plan_ok_same: "plan_ok pl a \<Longrightarrow> same_terms a b \<Longrightarrow> plan_ok pl b"
  by (simp add: plan_ok_def same_terms_def)

lemma plan_ok_own: "plan_ok pl a \<Longrightarrow> 0 \<le> al_Own (a x)"
  unfolding plan_ok_def by (meson order_trans)

lemma kids_iff: "c \<in> set (kids pl i) \<longleftrightarrow> i \<noteq> 0 \<and> c \<in> set (ids (pl_nodes pl)) \<and> sel (pl_selected pl) c = i"
  by (auto simp: kids_def children_def ids_def)

lemma distinct_kids: "distinct (ids (pl_nodes pl)) \<Longrightarrow> distinct (kids pl i)"
  by (auto simp: kids_def children_def ids_def distinct_map intro: inj_on_subset)

lemma kids_not_self: "plan_ok pl a \<Longrightarrow> i \<notin> set (kids pl i)"
  unfolding kids_iff plan_ok_def by metis

lemma set_queue [simp]: "set (queue pl i a) = set (kids pl i)" by (simp add: queue_def)

lemma distinct_queue: "plan_ok pl a \<Longrightarrow> distinct (queue pl i b)"
  by (simp add: queue_def distinct_kids plan_ok_def)

lemma sum_queue:
  "sum_list (map f (filter (pl_enabled pl) (queue pl i a))) = (sum_list (map f (paid_kids pl i)) :: rat)"
proof -
  have "mset (filter (pl_enabled pl) (queue pl i a)) = mset (paid_kids pl i)"
    by (simp add: queue_def paid_kids_def)
  then have "mset (map f (filter (pl_enabled pl) (queue pl i a))) = mset (map f (paid_kids pl i))"
    by (simp del: mset_filter)
  then show ?thesis by (metis sum_mset_sum_list)
qed

section \<open>The law of a node\<close>

definition node_law :: "plan \<Rightarrow> accounts \<Rightarrow> int \<Rightarrow> bool" where
  "node_law pl a x \<longleftrightarrow>
     (let v = a x; ks = paid_kids pl x in
        al_OriginalTerm v = al_Share v * al_Quality v
      \<and> al_Points v + sum_list (map (\<lambda>c. al_Share (a c)) ks) =
          al_OriginalTerm v + (if 0 < al_Share v then sum_list (map (\<lambda>c. al_Credit (a c)) ks) else 0)
      \<and> (\<forall>c \<in> set ks. 0 \<le> al_Share (a c) \<and> al_Share (a c) \<le> al_Own (a c))
      \<and> 0 \<le> al_Share v \<and> 0 \<le> al_Points v
      \<and> (0 < al_Share v \<and> sum_list (map (\<lambda>c. al_Own (a c)) ks) \<noteq> 0 \<longrightarrow> al_Share v / 10 \<le> al_Points v))"

lemma sum_le: "(\<forall>x \<in> set xs. f x \<le> (g x :: rat)) \<Longrightarrow> sum_list (map f xs) \<le> sum_list (map g xs)"
  by (induction xs) (auto intro: add_mono)

lemma sum_nonneg_list: "(\<forall>x \<in> set xs. (0 :: rat) \<le> f x) \<Longrightarrow> 0 \<le> sum_list (map f xs)"
  by (induction xs) auto

text \<open>The points of a node and what its follow-ups can take of the rest.\<close>

lemma settle_balance:
  assumes ok: "plan_ok pl a" and s: "0 \<le> share" and st: "settle pl i share a = (v, remaining)"
  defines "ks \<equiv> paid_kids pl i"
  shows "al_Share v = share" "al_OriginalTerm v = share * al_Quality (a i)" "al_Quality v = al_Quality (a i)"
    "al_Own v = al_Own (a i) \<and> al_Credit v = al_Credit (a i) \<and> al_Reason v = al_Reason (a i)"
    "al_ParentID v = al_ParentID (a i) \<and> al_OutcomeID v = al_OutcomeID (a i)"
    "0 \<le> remaining" "0 \<le> al_Points v"
    "al_Points v + min (sum_list (map (\<lambda>c. al_Own (a c)) ks)) remaining =
       al_OriginalTerm v + (if 0 < share then sum_list (map (\<lambda>c. al_Credit (a c)) ks) else 0)"
    "0 < share \<Longrightarrow> sum_list (map (\<lambda>c. al_Own (a c)) ks) \<noteq> 0 \<Longrightarrow> share / 10 \<le> al_Points v"
proof -
  let ?q = "al_Quality (a i)" and ?O = "sum_list (map (\<lambda>c. al_Own (a c)) ks)"
    and ?C = "sum_list (map (\<lambda>c. al_Credit (a c)) ks)"
  have own: "0 \<le> ?O" using plan_ok_own [OF ok] by (simp add: sum_nonneg_list)
  have cred: "0 \<le> ?C" "?C \<le> ?O" using ok by (auto simp: plan_ok_def intro!: sum_nonneg_list sum_le)
  have q: "0 \<le> ?q" using ok by (simp add: plan_ok_def)
  have tenth: "1 / 10 \<le> ?q" if ne: "ks \<noteq> []"
  proof -
    obtain c where "c \<in> set ks" using last_in_set [OF ne] by blast
    then have "pl_enabled pl c" "sel (pl_selected pl) c = i" by (auto simp: ks_def paid_kids_def kids_iff)
    then show ?thesis using ok by (auto simp: plan_ok_def)
  qed
  have sq: "0 \<le> share * ?q" using s q by simp
  have st10: "share / 10 \<le> share * ?q" if "ks \<noteq> []" using mult_left_mono [OF tenth [OF that] s] by simp
  have v: "v = (a i)\<lparr>al_Share := share, al_OriginalTerm := share * ?q, al_Points := al_Points v\<rparr>"
    using st by (auto simp: settle_def Let_def)
  show "al_Share v = share" "al_OriginalTerm v = share * ?q" "al_Quality v = ?q"
    by (subst v, simp)+
  have "al_Own v = al_Own (a i)" "al_Credit v = al_Credit (a i)" "al_Reason v = al_Reason (a i)"
    "al_ParentID v = al_ParentID (a i)" "al_OutcomeID v = al_OutcomeID (a i)"
    by (subst v, simp)+
  then show "al_Own v = al_Own (a i) \<and> al_Credit v = al_Credit (a i) \<and> al_Reason v = al_Reason (a i)"
    "al_ParentID v = al_ParentID (a i) \<and> al_OutcomeID v = al_OutcomeID (a i)" by simp_all
  have *: "al_OriginalTerm v = share * ?q" by (subst v) simp
  have pos: "al_Points v = (if ?O = 0 then share * ?q else max (share / 10) (share * ?q + ?C - ?O))"
      "remaining = max 0 (share * ?q + ?C - al_Points v)" if "0 < share"
    using st that by (auto simp: settle_def Let_def ks_def)
  have zero: "al_Points v = 0" "remaining = 0" if "\<not> 0 < share"
    using st that s by (auto simp: settle_def Let_def)
  show "0 \<le> remaining" using pos(2) zero(2) by (cases "0 < share") auto
  show "0 \<le> al_Points v" using pos(1) zero(1) sq by (cases "0 < share") (auto simp: max_def)
  show "share / 10 \<le> al_Points v" if "0 < share" "?O \<noteq> 0" using pos(1) that by simp
  show "al_Points v + min ?O remaining = al_OriginalTerm v + (if 0 < share then ?C else 0)"
  proof (cases "0 < share")
    case False
    then have "share = 0" using s by simp
    then show ?thesis using zero own * by simp
  next
    case True
    show ?thesis
    proof (cases "?O = 0")
      case O: True
      then have "?C = 0" using cred by simp
      then show ?thesis using pos [OF True] O * sq by simp
    next
      case False
      then have "ks \<noteq> []" by auto
      then have "share / 10 \<le> share * ?q" by (rule st10)
      then have "share / 10 \<le> share * ?q + ?C" using cred(1) by simp
      then show ?thesis using pos [OF True] False * True own by (auto simp: max_def min_def)
    qed
  qed
qed

section \<open>The distribution, by induction over its calls\<close>

lemma law_keep:
  assumes "node_law pl a x" and "same_terms a b" and "same_results X a b" and "x \<in> X" and "set (kids pl x) \<subseteq> X"
  shows "node_law pl b x"
proof -
  have r: "results (b y) = results (a y)" if "y \<in> insert x (set (paid_kids pl x))" for y
    using that assms(3-5) by (auto simp: same_results_def paid_kids_def)
  have sh: "map (\<lambda>c. al_Share (b c)) (paid_kids pl x) = map (\<lambda>c. al_Share (a c)) (paid_kids pl x)"
    using r by (auto simp: results_def)
  have t: "map (\<lambda>c. al_Own (b c)) (paid_kids pl x) = map (\<lambda>c. al_Own (a c)) (paid_kids pl x)"
    "map (\<lambda>c. al_Credit (b c)) (paid_kids pl x) = map (\<lambda>c. al_Credit (a c)) (paid_kids pl x)"
    "al_Quality (b x) = al_Quality (a x)"
    using assms(2) by (simp_all add: same_terms_def)
  have k: "\<forall>c \<in> set (paid_kids pl x). al_Share (b c) = al_Share (a c) \<and> al_Own (b c) = al_Own (a c)"
    using r assms(2) by (auto simp: results_def same_terms_def)
  show ?thesis using assms(1) r [of x] k unfolding node_law_def Let_def sh t by (auto simp: results_def)
qed

definition settled :: "plan \<Rightarrow> int list \<times> accounts \<Rightarrow> int list \<times> accounts \<Rightarrow> bool" where
  "settled pl s t \<longleftrightarrow> set (fst s) \<subseteq> set (fst t) \<and> same_terms (snd s) (snd t)
     \<and> same_results (set (fst s)) (snd s) (snd t)
     \<and> (\<forall>x \<in> set (fst t) - set (fst s). node_law pl (snd t) x \<and> set (kids pl x) \<subseteq> set (fst t))"

lemma settled_refl [simp]: "settled pl s s" by (simp add: settled_def)

lemma settled_trans:
  assumes "settled pl r s" and "settled pl s t"
  shows "settled pl r t"
proof -
  have "node_law pl (snd t) x \<and> set (kids pl x) \<subseteq> set (fst t)" if "x \<in> set (fst t) - set (fst r)" for x
  proof (cases "x \<in> set (fst s)")
    case True
    then have "node_law pl (snd s) x" "set (kids pl x) \<subseteq> set (fst s)"
      using that assms(1) by (auto simp: settled_def)
    then show ?thesis using assms(2) True law_keep [of pl "snd s" x "snd t" "set (fst s)"]
      by (auto simp: settled_def)
  next
    case False
    then show ?thesis using that assms(2) by (auto simp: settled_def)
  qed
  then show ?thesis
    using assms by (auto simp: settled_def intro: same_terms_trans same_results_trans)
qed

definition newly :: "int list \<times> accounts \<Rightarrow> int list \<times> accounts \<Rightarrow> int set" where
  "newly s t = set (fst t) - set (fst s)"

definition own_weight :: "plan \<Rightarrow> accounts \<Rightarrow> int \<Rightarrow> bool" where
  "own_weight pl a x \<longleftrightarrow> pl_enabled pl x \<or> al_Share (a x) = weight (by_id (pl_nodes pl) x)"

definition descends :: "plan \<Rightarrow> int set \<Rightarrow> int \<Rightarrow> bool" where
  "descends pl X x \<longleftrightarrow> x \<in> set (ids (pl_nodes pl)) \<and> sel (pl_selected pl) x \<noteq> 0 \<and> sel (pl_selected pl) x \<in> X"

definition parents_done :: "plan \<Rightarrow> int list \<Rightarrow> bool" where
  "parents_done pl dn \<longleftrightarrow> (\<forall>x \<in> set dn. pl_enabled pl x \<longrightarrow> sel (pl_selected pl) x \<in> set dn)"

definition distributed :: "plan \<Rightarrow> int \<Rightarrow> rat \<Rightarrow> int list \<times> accounts \<Rightarrow> int list \<times> accounts \<Rightarrow> bool" where
  "distributed pl i share s t \<longleftrightarrow> settled pl s t \<and> i \<in> set (fst t)
     \<and> (i \<notin> set (fst s) \<longrightarrow> al_Share (snd t i) = share)
     \<and> (\<forall>x \<in> newly s t. x = i \<or> descends pl (newly s t) x \<and> own_weight pl (snd t) x)"

definition shared_out :: "plan \<Rightarrow> int list \<Rightarrow> rat \<Rightarrow> int list \<times> accounts \<Rightarrow> int list \<times> accounts \<Rightarrow> bool" where
  "shared_out pl cs remaining s t \<longleftrightarrow> settled pl s t \<and> set cs \<subseteq> set (fst t)
     \<and> (\<forall>x \<in> newly s t. (x \<in> set cs \<or> descends pl (newly s t) x) \<and> own_weight pl (snd t) x)
     \<and> (\<forall>c \<in> set cs. pl_enabled pl c \<longrightarrow> 0 \<le> al_Share (snd t c) \<and> al_Share (snd t c) \<le> al_Own (snd t c))
     \<and> sum_list (map (\<lambda>c. al_Share (snd t c)) (filter (pl_enabled pl) cs)) =
         min (sum_list (map (\<lambda>c. al_Own (snd t c)) (filter (pl_enabled pl) cs))) remaining"

lemma parents_done_after:
  assumes "parents_done pl (fst s)" and "distributed pl i share s t" and "pl_enabled pl i \<Longrightarrow> sel (pl_selected pl) i \<in> set (fst s)"
  shows "parents_done pl (fst t)"
proof -
  have "sel (pl_selected pl) x \<in> set (fst t)" if x: "x \<in> set (fst t)" "pl_enabled pl x" for x
  proof (cases "x \<in> set (fst s)")
    case True
    then show ?thesis using assms(1,2) x(2) by (auto simp: parents_done_def distributed_def settled_def)
  next
    case False
    then have "x = i \<or> sel (pl_selected pl) x \<in> set (fst t)"
      using assms(2) x(1) by (auto simp: distributed_def newly_def descends_def)
    then show ?thesis using assms(2,3) x(2) by (auto simp: distributed_def settled_def)
  qed
  then show ?thesis by (simp add: parents_done_def)
qed

text \<open>One child, then the rest of the queue.\<close>

lemma shared_out_Cons:
  assumes d: "distributed pl c share s t" and r: "shared_out pl cs rest t u"
    and ok: "plan_ok pl (snd s)" and sub: "set (c # cs) \<subseteq> set (kids pl p)" and dist: "distinct (c # cs)"
    and pay: "pl_enabled pl c \<Longrightarrow> c \<notin> set (fst s) \<and> share = min (al_Own (snd s c)) remaining \<and> rest = remaining - share
        \<and> 0 \<le> remaining"
    and own: "\<not> pl_enabled pl c \<Longrightarrow> share = weight (by_id (pl_nodes pl) c) \<and> rest = remaining"
  shows "shared_out pl (c # cs) remaining s u"
proof -
  have st: "settled pl s t" and tu: "settled pl t u" using d r by (simp_all add: distributed_def shared_out_def)
  then have su: "settled pl s u" by (rule settled_trans)
  have ct: "c \<in> set (fst t)" using d by (simp add: distributed_def)
  then have cu: "c \<in> set (fst u)" "results (snd u c) = results (snd t c)"
    using tu by (auto simp: settled_def same_results_def)
  have same: "\<And>x. al_Own (snd u x) = al_Own (snd s x)" using su by (simp add: settled_def same_terms_def)
  have sh: "al_Share (snd u c) = share" if "c \<notin> set (fst s)"
    using that d cu by (simp add: distributed_def results_def)
  have new: "newly s u = newly s t \<union> newly t u" using st tu by (auto simp: newly_def settled_def)
  have each: "(x \<in> set (c # cs) \<or> descends pl (newly s u) x) \<and> own_weight pl (snd u) x" if x: "x \<in> newly s u" for x
  proof (cases "x \<in> newly t u")
    case True
    then show ?thesis using r new by (auto simp: shared_out_def descends_def)
  next
    case False
    then have xt: "x \<in> newly s t" using x new by blast
    have "results (snd u x) = results (snd t x)" using tu xt by (auto simp: settled_def same_results_def newly_def)
    then have w: "own_weight pl (snd u) x \<longleftrightarrow> own_weight pl (snd t) x" by (simp add: own_weight_def results_def)
    show ?thesis
    proof (cases "x = c")
      case True
      then have "x \<notin> set (fst s)" using xt by (simp add: newly_def)
      then show ?thesis using True sh own by (auto simp: own_weight_def)
    next
      case False
      then show ?thesis using d xt w new by (auto simp: distributed_def descends_def)
    qed
  qed
  have one: "0 \<le> al_Share (snd u c) \<and> al_Share (snd u c) \<le> al_Own (snd u c)" if "pl_enabled pl c"
    using pay [OF that] sh same plan_ok_own [OF ok, of c] by auto
  have sum: "sum_list (map (\<lambda>c. al_Share (snd u c)) (filter (pl_enabled pl) (c # cs))) =
      min (sum_list (map (\<lambda>c. al_Own (snd u c)) (filter (pl_enabled pl) (c # cs)))) remaining"
  proof (cases "pl_enabled pl c")
    case True
    have "0 \<le> sum_list (map (\<lambda>c. al_Own (snd u c)) (filter (pl_enabled pl) cs))"
      using plan_ok_own [OF ok] same by (simp add: sum_nonneg_list)
    then show ?thesis using True r pay [OF True] sh same by (auto simp: shared_out_def min_def)
  next
    case False
    then show ?thesis using r own by (simp add: shared_out_def)
  qed
  show ?thesis
    using su cu each one sum r by (simp add: shared_out_def)
qed

lemma distributed_done: "i \<in> set (fst s) \<Longrightarrow> distributed pl i share s s"
  by (simp add: distributed_def newly_def)

lemma distributed_node:
  assumes ok: "plan_ok pl a" and s: "0 \<le> share" and st: "settle pl i share a = (v, remaining)" and i: "i \<notin> set dn"
    and q: "shared_out pl (queue pl i (a(i := v))) remaining (i # dn, a(i := v)) t"
  shows "distributed pl i share (dn, a) t"
proof -
  let ?a = "a(i := v)"
  note b = settle_balance [OF ok s st]
  have same: "same_terms a ?a" using b(3-5) by (simp add: same_terms_def)
  have tm: "same_terms ?a (snd t)" and res: "same_results (set (i # dn)) ?a (snd t)" and sub: "set (i # dn) \<subseteq> set (fst t)"
    and laws: "\<forall>x \<in> set (fst t) - set (i # dn). node_law pl (snd t) x \<and> set (kids pl x) \<subseteq> set (fst t)"
    using q by (simp_all add: shared_out_def settled_def)
  have at: "same_terms a (snd t)" using same tm by (rule same_terms_trans)
  have vi: "results (snd t i) = results v" using res by (simp add: same_results_def)
  have kd: "set (kids pl i) \<subseteq> set (fst t)" using q by (simp add: shared_out_def)
  let ?ks = "paid_kids pl i"
  have o: "map (\<lambda>c. al_Own (snd t c)) ?ks = map (\<lambda>c. al_Own (a c)) ?ks"
    "map (\<lambda>c. al_Credit (snd t c)) ?ks = map (\<lambda>c. al_Credit (a c)) ?ks"
    "al_Quality (snd t i) = al_Quality (a i)"
    using at by (simp_all add: same_terms_def)
  have "sum_list (map (\<lambda>c. al_Share (snd t c)) ?ks) = min (sum_list (map (\<lambda>c. al_Own (a c)) ?ks)) remaining"
    using q o(1) by (simp add: shared_out_def sum_queue)
  moreover have "\<forall>c \<in> set ?ks. 0 \<le> al_Share (snd t c) \<and> al_Share (snd t c) \<le> al_Own (snd t c)"
    using q by (auto simp: shared_out_def paid_kids_def)
  ultimately have "node_law pl (snd t) i"
    using b(1,2,7-9) vi s unfolding node_law_def Let_def o by (auto simp: results_def)
  moreover have "same_results (set dn) a (snd t)"
    using res i by (auto simp: same_results_def)
  ultimately have "settled pl (dn, a) t" using at sub laws kd by (auto simp: settled_def)
  moreover have "al_Share (snd t i) = share" using vi b(1) by (simp add: results_def)
  moreover have "x = i \<or> descends pl (newly (dn, a) t) x \<and> own_weight pl (snd t) x" if x: "x \<in> newly (dn, a) t" for x
  proof (cases "x = i")
    case False
    then have "x \<in> newly (i # dn, ?a) t" using x by (simp add: newly_def)
    then have "(x \<in> set (kids pl i) \<or> descends pl (newly (i # dn, ?a) t) x) \<and> own_weight pl (snd t) x"
      using q by (auto simp: shared_out_def)
    then show ?thesis using sub i by (auto simp: descends_def kids_iff newly_def)
  qed simp
  ultimately show ?thesis using sub by (simp add: distributed_def)
qed

lemma distribution:
  shows "plan_ok pl (snd st) \<Longrightarrow> 0 \<le> share \<Longrightarrow> parents_done pl (fst st) \<Longrightarrow>
      (pl_enabled pl i \<longrightarrow> sel (pl_selected pl) i \<in> set (fst st)) \<Longrightarrow>
      distributed pl i share st (distribute pl i share st)"
    and "plan_ok pl (snd st) \<Longrightarrow> 0 \<le> remaining \<Longrightarrow> parents_done pl (fst st) \<Longrightarrow>
      \<exists>p. p \<in> set (fst st) \<and> set cs \<subseteq> set (kids pl p) \<Longrightarrow> distinct cs \<Longrightarrow>
      (\<forall>c \<in> set cs. pl_enabled pl c \<longrightarrow> c \<notin> set (fst st)) \<Longrightarrow>
      shared_out pl cs remaining st (distribute_queue pl share' q cs remaining st)"
proof (induction pl i share st and pl share' q cs remaining st rule: distribute_distribute_queue.induct)
  case (1 pl i share dn a)
  show ?case
  proof (cases "i \<in> set dn")
    case True
    then show ?thesis by (simp add: distribute.simps distributed_done)
  next
    case False
    obtain v remaining where st: "settle pl i share a = (v, remaining)" by (cases "settle pl i share a")
    have ok: "plan_ok pl a" using 1(2) by simp
    note b = settle_balance [OF ok 1(3) st]
    have "same_terms a (a(i := v))" using b(3-5) by (simp add: same_terms_def)
    then have ok': "plan_ok pl (a(i := v))" using ok plan_ok_same by blast
    have pd: "parents_done pl (i # dn)" using 1(4,5) by (auto simp: parents_done_def)
    have fresh: "c \<notin> set (i # dn)" if "c \<in> set (kids pl i)" "pl_enabled pl c" for c
      using that False 1(4) kids_not_self [OF ok, of i] by (auto simp: parents_done_def kids_iff)
    have "shared_out pl (queue pl i (a(i := v))) remaining (i # dn, a(i := v))
        (distribute_queue pl share (al_Quality v) (queue pl i (a(i := v))) remaining (i # dn, a(i := v)))"
      by (rule 1(1) [OF False st [symmetric] refl refl])
        (use ok' pd b(6) fresh distinct_queue [OF ok, of i] in \<open>auto simp: fun_upd_def\<close>)
    from distributed_node [OF ok 1(3) st False this] show ?thesis
      using False st by (simp add: distribute.simps Let_def)
  qed
next
  case (2 pl share q remaining dn a)
  then show ?case by (simp add: shared_out_def newly_def)
next
  case (3 pl share q c cs remaining dn a)
  obtain p where p: "p \<in> set dn" "set (c # cs) \<subseteq> set (kids pl p)" using 3(8) by auto
  have ok: "plan_ok pl a" using 3(5) by simp
  have selc: "sel (pl_selected pl) c \<in> set dn" "\<forall>x \<in> set cs. sel (pl_selected pl) x = p" using p by (auto simp: kids_iff)
  let ?a = "if pl_enabled pl c then a(c := (a c)\<lparr>al_SourceWeight := share, al_SourceQuality := q\<rparr>) else a"
  let ?w = "if pl_enabled pl c then min (al_Own (?a c)) remaining else weight (by_id (pl_nodes pl) c)"
  let ?rest = "if pl_enabled pl c then remaining - ?w else remaining"
  define t where "t = distribute pl c ?w (dn, ?a)"
  have same: "same_terms a ?a" "same_results UNIV a ?a"
    by (simp_all add: same_terms_def same_results_def results_def)
  have ok': "plan_ok pl ?a" using ok same(1) plan_ok_same by blast
  have w: "0 \<le> ?w" using plan_ok_own [OF ok', of c] 3(6) ok by (cases "pl_enabled pl c") (simp_all add: plan_ok_def)
  have d: "distributed pl c ?w (dn, ?a) t"
  proof (cases "pl_enabled pl c")
    case True
    then show ?thesis using 3(1) [OF True refl refl] 3(7) ok' w selc by (simp add: fun_upd_def t_def)
  next
    case False
    then show ?thesis using 3(3) [OF False] 3(7) ok' w selc by (simp add: t_def)
  qed
  have t: "settled pl (dn, ?a) t" using d by (simp add: distributed_def)
  have "settled pl (dn, a) (dn, ?a)" using same by (simp add: settled_def same_results_def)
  then have "distributed pl c ?w (dn, a) t" using d t by (auto simp: distributed_def newly_def intro: settled_trans)
  moreover have "shared_out pl cs ?rest t (distribute_queue pl share q cs ?rest t)"
  proof -
    have pd: "parents_done pl (fst t)" using parents_done_after [OF _ d] 3(7) selc(1) by simp
    have okt: "plan_ok pl (snd t)" using plan_ok_same [OF ok'] t by (simp add: settled_def)
    have pt: "\<exists>p. p \<in> set (fst t) \<and> set cs \<subseteq> set (kids pl p)" using p t by (auto simp: settled_def)
    have rest: "0 \<le> ?rest" using 3(6) by simp
    have dist: "distinct cs" using 3(9) by simp
    have fresh: "\<forall>x \<in> set cs. pl_enabled pl x \<longrightarrow> x \<notin> set (fst t)"
    proof (intro ballI impI notI)
      fix x assume x: "x \<in> set cs" "pl_enabled pl x" "x \<in> set (fst t)"
      then have "x \<in> newly (dn, ?a) t" "x \<noteq> c" using 3(9,10) by (auto simp: newly_def)
      then have "sel (pl_selected pl) x \<in> newly (dn, ?a) t" using d by (auto simp: distributed_def descends_def)
      then show False using selc(2) x(1) p(1) by (simp add: newly_def)
    qed
    show ?thesis
    proof (cases "pl_enabled pl c")
      case True
      show ?thesis using 3(2) [OF True refl refl] True okt pd pt rest dist fresh by (simp add: fun_upd_def t_def)
    next
      case False
      show ?thesis using 3(4) [OF False] False okt pd pt rest dist fresh by (simp add: t_def)
    qed
  qed
  ultimately have "shared_out pl (c # cs) remaining (dn, a) (distribute_queue pl share q cs ?rest t)"
    using shared_out_Cons [of pl c ?w "(dn, a)" t cs ?rest _ p remaining] ok p(2) 3(6,9,10) by simp
  then show ?case by (cases "pl_enabled pl c") (simp_all add: Let_def t_def)
qed

end
