(* ===== verification/Event3_Conserve.thy ===== *)
theory Event3_Conserve
  imports Event3_Points
begin

text \<open>
  The passes that prepare the distribution establish the hypotheses of its law, every node of the
  component is distributed once, and the points of the component are bounded.
\<close>

section \<open>The passes\<close>

lemma review_own: "Review_Validate v = None \<Longrightarrow> 0 < copyRat (v_Own v) \<and> 0 < copyRat (v_Original v)"
  by (auto simp: Review_Validate_def onScale_pos split: if_splits)

lemma sound_weight: "sound_node n \<Longrightarrow> 0 \<le> weight n" "sound_node n \<Longrightarrow> 0 \<le> quality n"
  by (auto simp: sound_node_def weight_def quality_def)

lemma sound_review: "sound_node n \<Longrightarrow> reviewFor n i = Some v \<Longrightarrow> Review_Validate v = None"
  by (auto simp: sound_node_def reviewFor_def find_Some_iff split: option.splits dest!: nth_mem)

definition sound_nodes :: "node list \<Rightarrow> bool" where
  "sound_nodes ns \<longleftrightarrow> (\<forall>n \<in> set ns. sound_node n) \<and> distinct (ids ns)"

lemma sound_by_id: "sound_nodes ns \<Longrightarrow> i \<in> set (ids ns) \<Longrightarrow> sound_node (by_id ns i)"
  using by_id_in [of i ns] by (simp add: sound_nodes_def)

lemma sound_ids: "sound_nodes ns \<Longrightarrow> 0 \<notin> set (ids ns)"
  by (auto simp: sound_nodes_def sound_node_def ids_def)

lemma weight_by_id: "sound_nodes ns \<Longrightarrow> 0 \<le> weight (by_id ns i)"
  by (cases "i \<in> set (ids ns)") (simp_all add: sound_weight sound_by_id by_id_outside, simp add: weight_def zero_node_def)

lemma initial_accounts_at:
  "distinct (ids ns) \<Longrightarrow>
   initial_accounts ns s x = (if x \<in> set (ids ns) then initial_allocation s (by_id ns x) else zero_allocation)"
proof -
  have *: "distinct (ids ms) \<Longrightarrow> foldl (\<lambda>a n. a(n_ID n := initial_allocation s n)) a ms x =
      (if x \<in> set (ids ms) then initial_allocation s (by_id ms x) else a x)" for ms a
    by (induction ms arbitrary: a) (auto simp: ids_def by_id_def find_node_def)
  show "distinct (ids ns) \<Longrightarrow> ?thesis" using * [of ns "\<lambda>_. zero_allocation"] by (simp add: initial_accounts_def)
qed

lemma initial_allocation_simps:
  "al_Credit (initial_allocation s n) = 0" "al_Own (initial_allocation s n) = weight n"
  "al_Quality (initial_allocation s n) = quality n"
  "al_ParentID (initial_allocation s n) = sel (selected s) (n_ID n)" "al_OutcomeID (initial_allocation s n) = n_ID n"
  by (simp_all add: initial_allocation_def Let_def)

definition sized :: "node list \<Rightarrow> (int \<times> int) list \<Rightarrow> books \<Rightarrow> bool" where
  "sized ns s b \<longleftrightarrow> (\<forall>x. 0 \<le> al_Credit (fst b x) \<and> al_Credit (fst b x) \<le> al_Own (fst b x)
     \<and> al_Quality (fst b x) = (if x \<in> set (ids ns) then quality (by_id ns x) else 0)
     \<and> (x \<in> set (ids ns) \<longrightarrow> al_ParentID (fst b x) = sel s x \<and> al_OutcomeID (fst b x) = x)
     \<and> (snd b x \<longrightarrow> x \<in> set (ids ns) \<and> sel s x \<in> set (ids ns) \<and> sel s x \<noteq> 0
          \<and> qualityOnScale (n_Quality (by_id ns (sel s x)))))"

lemma sized_initial: "sound_nodes ns \<Longrightarrow> sized ns (selected t) (initial_accounts ns t, \<lambda>_. False)"
  by (auto simp: sized_def initial_accounts_at initial_allocation_simps zero_allocation_def sound_nodes_def
      sound_weight by_id_in)

lemma grade_simps:
  "al_Own (grade v c) = al_Own v" "al_Credit (grade v c) = al_Credit v" "al_Quality (grade v c) = al_Quality v"
  "al_ParentID (grade v c) = al_ParentID v" "al_OutcomeID (grade v c) = al_OutcomeID v"
  by (simp_all add: grade_def Let_def)

lemma credit_of_between: "0 \<le> own \<Longrightarrow> 0 \<le> credit_of r own x y \<and> credit_of r own x y \<le> own"
  by (simp add: credit_of_def)

lemma size_evidence_own:
  assumes "sound_nodes ns" and "i \<in> set (ids ns)"
    and "size_evidence ns s parent a i = (own, size0, size1, rule, valid)"
  shows "0 \<le> own \<and> (valid \<longrightarrow> parent_evidence s parent)"
proof (cases "reviewFor (by_id ns i) (n_ID parent)")
  case None
  then show ?thesis using assms(3) weight_by_id [OF assms(1), of i]
    by (auto simp: size_evidence_def Let_def split: prod.splits)
next
  case (Some r)
  then show ?thesis using assms(3) review_own [OF sound_review [OF sound_by_id [OF assms(1,2)] Some]]
    by (auto simp: size_evidence_def Let_def split: prod.splits)
qed

lemma sized_child:
  assumes ok: "sound_nodes ns" and b: "sized ns (selected s) b" and i: "i \<in> set (children ns (selected s) (n_ID parent))"
    and p: "parent = by_id ns j"
  shows "sized ns (selected s) (size_child ns s parent b i)"
proof -
  obtain a en where [simp]: "b = (a, en)" by (cases b)
  have i': "i \<in> set (ids ns)" "sel (selected s) i = n_ID parent" "n_ID parent \<noteq> 0"
    using i by (auto simp: children_def ids_def split: if_splits)
  have j: "j \<in> set (ids ns)" using i'(3) p by_id_outside [of j ns] by (cases "j \<in> set (ids ns)") (auto simp: zero_node_def)
  then have par: "n_ID parent \<in> set (ids ns)" "by_id ns (n_ID parent) = parent" using p by_id_in by auto
  obtain own size0 size1 rule valid where e: "size_evidence ns s parent a i = (own, size0, size1, rule, valid)"
    by (metis prod_cases5)
  have own: "0 \<le> own" and pe: "valid \<Longrightarrow> qualityOnScale (n_Quality parent)"
    using size_evidence_own [OF ok i'(1) e] by (auto simp: parent_evidence_def)
  show ?thesis
  proof (cases valid)
    case False
    then show ?thesis using b e by (simp add: size_child_def sized_def)
  next
    case True
    have c: "0 \<le> credit_of r own x y" "credit_of r own x y \<le> own" for r x y using credit_of_between [OF own] by auto
    show ?thesis using True b e i' par pe c by (simp add: size_child_def sized_def Let_def grade_simps)
  qed
qed

lemma sized_all: "sound_nodes ns \<Longrightarrow> sized ns (selected s) (size_all ns s)"
proof -
  assume ok: "sound_nodes ns"
  have visit: "set (snd (visit ns t i st)) \<subseteq> set (snd st) \<union> range (by_id ns)" for t i st
  proof (induction ns t i st rule: visit.induct)
    case (1 ns s i visited order)
    then show ?case by (subst visit.simps) (auto simp: Let_def split: prod.splits if_splits; fastforce)
  qed
  have order: "set (snd (foldl (\<lambda>st n. visit ns t (n_ID n) st) st ms)) \<subseteq> set (snd st) \<union> range (by_id ns)" for t ms st
    by (induction ms arbitrary: st) (simp, use visit in fastforce)
  have inner: "sized ns (selected s) (foldl (size_child ns s (by_id ns j)) b cs)"
    if "sized ns (selected s) b" "set cs \<subseteq> set (children ns (selected s) (n_ID (by_id ns j)))" for b j cs
    using that
  proof (induction cs arbitrary: b)
    case (Cons c cs)
    have "sized ns (selected s) (size_child ns s (by_id ns j) b c)"
      by (rule sized_child [OF ok Cons.prems(1) _ refl]) (use Cons.prems(2) in simp)
    then show ?case using Cons by simp
  qed simp
  have "sized ns (selected s) (foldl (\<lambda>b p. foldl (size_child ns s p) b (children ns (selected s) (n_ID p))) b ps)"
    if "sized ns (selected s) b" "set ps \<subseteq> range (by_id ns)" for b ps
    using that
  proof (induction ps arbitrary: b)
    case (Cons p ps)
    then obtain j where "p = by_id ns j" by auto
    then have "sized ns (selected s) (foldl (size_child ns s p) b (children ns (selected s) (n_ID p)))"
      using inner [OF Cons.prems(1), of _ j] by simp
    then show ?case using Cons by simp
  qed simp
  then show ?thesis
    using sized_initial [OF ok] order [of "selected s" "([], [])" ns] by (simp add: size_all_def dependency_order_def)
qed

text \<open>The correction of the qualities, and the source columns.\<close>

definition corrected :: "node list \<Rightarrow> (int \<times> int) list \<Rightarrow> (int \<Rightarrow> bool) \<Rightarrow> accounts \<Rightarrow> bool" where
  "corrected ns s en a \<longleftrightarrow> (\<forall>x. 0 \<le> al_Credit (a x) \<and> al_Credit (a x) \<le> al_Own (a x) \<and> 0 \<le> al_Quality (a x)
     \<and> al_Quality (a x) \<le> quality (by_id ns x)
     \<and> (x \<in> set (ids ns) \<longrightarrow> al_ParentID (a x) = sel s x \<and> al_OutcomeID (a x) = x)
     \<and> (1 / 10 \<le> quality (by_id ns x) \<longrightarrow> 1 / 10 \<le> al_Quality (a x))
     \<and> ((\<forall>c \<in> set (children ns s x). \<not> en c) \<longrightarrow> al_Quality (a x) = quality (by_id ns x)))"

lemma quality_outside: "x \<notin> set (ids ns) \<Longrightarrow> quality (by_id ns x) = 0"
  by (simp add: by_id_outside quality_def zero_node_def)

lemma corrected_sized: "sound_nodes ns \<Longrightarrow> sized ns s (a, en) \<Longrightarrow> corrected ns s en a"
  using quality_outside sound_weight(2) [OF sound_by_id] by (auto simp: sized_def corrected_def)

lemma correct_child_simps:
  "al_Own (correct_child ns en a n v i) = al_Own v" "al_Credit (correct_child ns en a n v i) = al_Credit v"
  "al_ParentID (correct_child ns en a n v i) = al_ParentID v" "al_OutcomeID (correct_child ns en a n v i) = al_OutcomeID v"
  "al_Quality (correct_child ns en a n v i) = al_Quality v
   \<or> en i \<and> al_Quality (correct_child ns en a n v i) = correct_quality (al_Quality v)"
  by (auto simp: correct_child_def Let_def)

lemma correct_quality_between: "0 \<le> q \<Longrightarrow> 0 \<le> correct_quality q \<and> correct_quality q \<le> q
    \<and> (1 / 10 \<le> q \<longrightarrow> 1 / 10 \<le> correct_quality q)"
  by (simp add: correct_quality_def)

lemma correct_children:
  "0 \<le> al_Quality v \<Longrightarrow>
   (let w = foldl (correct_child ns en a n) v cs in
      al_Own w = al_Own v \<and> al_Credit w = al_Credit v \<and> al_ParentID w = al_ParentID v \<and> al_OutcomeID w = al_OutcomeID v \<and> 0 \<le> al_Quality w \<and> al_Quality w \<le> al_Quality v
    \<and> (1 / 10 \<le> al_Quality v \<longrightarrow> 1 / 10 \<le> al_Quality w)
    \<and> ((\<forall>c \<in> set cs. \<not> en c) \<longrightarrow> al_Quality w = al_Quality v))"
proof (induction cs arbitrary: v)
  case (Cons c cs)
  let ?v = "correct_child ns en a n v c"
  have q: "0 \<le> al_Quality ?v" "al_Quality ?v \<le> al_Quality v" "1 / 10 \<le> al_Quality v \<Longrightarrow> 1 / 10 \<le> al_Quality ?v"
      "\<not> en c \<Longrightarrow> al_Quality ?v = al_Quality v"
    using correct_quality_between [OF Cons.prems] correct_child_simps(5) [of ns en a n v c] Cons.prems by auto
  show ?case using Cons.IH [OF q(1)] q correct_child_simps(1-4) [of ns en a n v c]
    by (auto simp: Let_def)
qed simp

lemma corrected_node: "corrected ns (selected s) en a \<Longrightarrow> corrected ns (selected s) en (correct_node ns s en a n)"
proof -
  assume c: "corrected ns (selected s) en a"
  then have "0 \<le> al_Quality (a (n_ID n))" by (simp add: corrected_def)
  from correct_children [OF this, of ns en a n "children ns (selected s) (n_ID n)"]
  show ?thesis using c unfolding corrected_def correct_node_def Let_def by (auto intro: order_trans)
qed

lemma corrected_all: "corrected ns (selected s) en a \<Longrightarrow> corrected ns (selected s) en (correct_all ns s en a)"
proof -
  have "corrected ns (selected s) en b \<Longrightarrow> corrected ns (selected s) en (foldl (correct_node ns s en) b ms)" for b ms
    by (induction ms arbitrary: b) (simp_all add: corrected_node)
  then show "corrected ns (selected s) en a \<Longrightarrow> ?thesis" by (simp add: correct_all_def)
qed

lemma source_all_same: "same_terms a (source_all ns s a)"
proof -
  have one: "same_terms b (source_node ns s b n)" for b n
    by (simp add: same_terms_def source_node_def Let_def)
  have "same_terms b (foldl (source_node ns s) b ms)" for b ms
    by (induction ms arbitrary: b) (simp, metis foldl_Cons one same_terms_trans)
  then show ?thesis by (simp add: source_all_def)
qed

section \<open>Every node is distributed\<close>

definition acyclic_selection :: "node list \<Rightarrow> (int \<times> int) list \<Rightarrow> bool" where
  "acyclic_selection ns s \<longleftrightarrow>
     (\<exists>r :: int \<Rightarrow> nat. \<forall>x. sel s x \<noteq> 0 \<longrightarrow> sel s x \<in> set (ids ns) \<and> r (sel s x) < r x)"

definition prepared :: "node list \<Rightarrow> selection \<Rightarrow> accounts" where
  "prepared ns s = source_all ns s (correct_all ns s (snd (size_all ns s)) (fst (size_all ns s)))"

lemma the_plan_simps [simp]:
  "pl_nodes (the_plan ns s) = ns" "pl_selected (the_plan ns s) = selected s"
  "pl_enabled (the_plan ns s) = snd (size_all ns s)"
  by (simp_all add: the_plan_def)

lemma prepared_corrected:
  assumes "sound_nodes ns"
  shows "corrected ns (selected s) (snd (size_all ns s)) (prepared ns s)"
proof -
  have "corrected ns (selected s) (snd (size_all ns s)) (fst (size_all ns s))"
    by (rule corrected_sized [OF assms]) (use sized_all [OF assms, of s] in simp)
  from corrected_all [OF this] show ?thesis
    using source_all_same [of "correct_all ns s (snd (size_all ns s)) (fst (size_all ns s))" ns s]
    by (simp add: prepared_def corrected_def same_terms_def)
qed

lemma prepared_plan:
  assumes ok: "sound_nodes ns" and ac: "acyclic_selection ns (selected s)"
  shows "plan_ok (the_plan ns s) (prepared ns s)"
proof -
  have c: "corrected ns (selected s) (snd (size_all ns s)) (prepared ns s)" by (rule prepared_corrected [OF ok])
  have z: "sized ns (selected s) (size_all ns s)" by (rule sized_all [OF ok])
  have tenth: "1 / 10 \<le> al_Quality (prepared ns s (sel (selected s) x))" "sel (selected s) x \<noteq> 0"
    if "snd (size_all ns s) x" for x
  proof -
    have "qualityOnScale (n_Quality (by_id ns (sel (selected s) x)))" and nz: "sel (selected s) x \<noteq> 0"
      using that z unfolding sized_def by blast+
    then have "1 / 10 \<le> quality (by_id ns (sel (selected s) x))" using qualityOnScale_between by (simp add: quality_def)
    then show "1 / 10 \<le> al_Quality (prepared ns s (sel (selected s) x))" using c unfolding corrected_def by blast
    show "sel (selected s) x \<noteq> 0" by (rule nz)
  qed
  have self: "sel (selected s) x \<noteq> x" if "sel (selected s) x \<noteq> 0" for x
    using ac that unfolding acyclic_selection_def by (metis less_irrefl)
  have terms: "0 \<le> al_Credit (prepared ns s x) \<and> al_Credit (prepared ns s x) \<le> al_Own (prepared ns s x)
      \<and> 0 \<le> al_Quality (prepared ns s x)" for x
    using c unfolding corrected_def by blast
  have "distinct (ids ns)" using ok by (simp add: sound_nodes_def)
  then show ?thesis
    unfolding plan_ok_def the_plan_simps using sound_ids [OF ok] weight_by_id [OF ok] self tenth terms by blast
qed

definition progress :: "plan \<Rightarrow> accounts \<Rightarrow> int list \<times> accounts \<Rightarrow> bool" where
  "progress pl a0 st \<longleftrightarrow> plan_ok pl (snd st) \<and> parents_done pl (fst st) \<and> settled pl ([], a0) st
     \<and> (\<forall>x \<in> set (fst st). x \<in> set (ids (pl_nodes pl))
          \<and> (pl_enabled pl x \<or> al_Share (snd st x) = starting_weight pl (by_id (pl_nodes pl) x)))"

lemma starting_weight_nonneg:
  assumes ok: "sound_nodes (pl_nodes pl)" and n: "n \<in> set (pl_nodes pl)"
  shows "0 \<le> starting_weight pl n"
proof -
  have w: "0 \<le> weight n" using ok n by (simp add: sound_nodes_def sound_weight)
  have "0 \<le> copyRat (v_Original r)" if "reviewFor (by_id (pl_nodes pl) c) i = Some r" "c \<in> set (kids pl i)" for c r i
  proof -
    have "sound_node (by_id (pl_nodes pl) c)" using that(2) sound_by_id [OF ok] by (simp add: kids_iff)
    then show ?thesis using review_own [OF sound_review [OF _ that(1)]] by simp
  qed
  then show ?thesis using w
    by (auto simp: starting_weight_def find_Some_iff split: option.splits dest!: nth_mem)
qed

lemma progress_step:
  assumes ok: "sound_nodes (pl_nodes pl)" and pr: "progress pl a0 st" and n: "n \<in> set (pl_nodes pl)"
  shows "progress pl a0 (start_node pl st n) \<and> set (fst st) \<subseteq> set (fst (start_node pl st n))
    \<and> (sel (pl_selected pl) (n_ID n) = 0 \<or> \<not> pl_enabled pl (n_ID n) \<longrightarrow> n_ID n \<in> set (fst (start_node pl st n)))"
proof (cases "sel (pl_selected pl) (n_ID n) = 0 \<or> \<not> pl_enabled pl (n_ID n)")
  case False
  then show ?thesis using pr by (simp add: start_node_def)
next
  case True
  obtain dn a where [simp]: "st = (dn, a)" by (cases st)
  let ?w = "starting_weight pl n"
  define b where "b = (if sel (pl_selected pl) (n_ID n) = 0
    then a(n_ID n := (a (n_ID n))\<lparr>al_SourceWeight := ?w\<rparr>) else a)"
  define t where "t = distribute pl (n_ID n) ?w (dn, b)"
  have t: "start_node pl st n = t" using True by (simp add: start_node_def b_def t_def Let_def)
  have same: "same_terms a b" "same_results UNIV a b" by (simp_all add: b_def same_terms_def same_results_def results_def)
  have okb: "plan_ok pl b" using pr plan_ok_same [OF _ same(1)] by (simp add: progress_def)
  have notmoved: "\<not> pl_enabled pl (n_ID n)" using True okb by (auto simp: plan_ok_def)
  have d: "distributed pl (n_ID n) ?w (dn, b) t"
    using distribution(1) [of pl "(dn, b)" ?w "n_ID n"] okb starting_weight_nonneg [OF ok n] pr notmoved
    by (simp add: t_def progress_def)
  then have st: "settled pl (dn, b) t" by (simp add: distributed_def)
  have "settled pl ([], a0) (dn, b)"
  proof (rule settled_trans)
    show "settled pl ([], a0) (dn, a)" using pr by (simp add: progress_def)
    show "settled pl (dn, a) (dn, b)" using same by (simp add: settled_def same_results_def)
  qed
  then have s0: "settled pl ([], a0) t" using st by (rule settled_trans)
  have pd: "parents_done pl (fst t)" using parents_done_after [OF _ d] pr notmoved by (simp add: progress_def)
  have okt: "plan_ok pl (snd t)" using plan_ok_same [OF okb] st by (simp add: settled_def)
  have bn: "by_id (pl_nodes pl) (n_ID n) = n" using n ok by (simp add: sound_nodes_def)
  have each: "x \<in> set (ids (pl_nodes pl)) \<and> (pl_enabled pl x \<or> al_Share (snd t x) = starting_weight pl (by_id (pl_nodes pl) x))"
    if x: "x \<in> set (fst t)" for x
  proof (cases "x \<in> set dn")
    case True
    then have "results (snd t x) = results (a x)" using st same(2) by (auto simp: settled_def same_results_def)
    then show ?thesis using pr True by (auto simp: progress_def results_def)
  next
    case new: False
    show ?thesis
    proof (cases "x = n_ID n")
      case True
      then show ?thesis using d new n bn by (auto simp: distributed_def ids_def)
    next
      case False
      then have "descends pl (newly (dn, b) t) x" "own_weight pl (snd t) x"
        using d x new by (auto simp: distributed_def newly_def)
      moreover from this(1) have "n_ID (by_id (pl_nodes pl) x) = x" by (simp add: descends_def by_id_in)
      ultimately show ?thesis by (auto simp: descends_def own_weight_def starting_weight_def)
    qed
  qed
  have "set dn \<subseteq> set (fst t)" "n_ID n \<in> set (fst t)" using d st by (auto simp: distributed_def settled_def)
  then show ?thesis using okt pd s0 each t by (simp add: progress_def)
qed

lemma progress_all:
  assumes ok: "sound_nodes (pl_nodes pl)"
  shows "progress pl a0 st \<Longrightarrow> set ms \<subseteq> set (pl_nodes pl) \<Longrightarrow>
    progress pl a0 (foldl (start_node pl) st ms) \<and> set (fst st) \<subseteq> set (fst (foldl (start_node pl) st ms))
    \<and> (\<forall>n \<in> set ms. sel (pl_selected pl) (n_ID n) = 0 \<or> \<not> pl_enabled pl (n_ID n) \<longrightarrow>
          n_ID n \<in> set (fst (foldl (start_node pl) st ms)))"
proof (induction ms arbitrary: st)
  case (Cons n ms)
  have "n \<in> set (pl_nodes pl)" using Cons.prems(2) by simp
  from progress_step [OF ok Cons.prems(1) this] show ?case using Cons.IH [of "start_node pl st n"] Cons.prems(2) by auto
qed simp

theorem allocation_law:
  assumes ok: "sound_nodes ns" and ac: "acyclic_selection ns (selected s)"
  shows "\<forall>n \<in> set ns. node_law (the_plan ns s) (snd (final_accounts ns s)) (n_ID n)
    \<and> (pl_enabled (the_plan ns s) (n_ID n) \<or> al_Share (snd (final_accounts ns s) (n_ID n)) = starting_weight (the_plan ns s) n)"
    and "same_terms (prepared ns s) (snd (final_accounts ns s))"
proof -
  let ?pl = "the_plan ns s"
  define t where "t = final_accounts ns s"
  have f: "t = foldl (start_node ?pl) ([], prepared ns s) ns"
    by (simp add: t_def final_accounts_def prepared_def Let_def split: prod.split)
  have "progress ?pl (prepared ns s) ([], prepared ns s)"
    using prepared_plan [OF ok ac] by (simp add: progress_def parents_done_def)
  then have pr: "progress ?pl (prepared ns s) t"
    and st: "\<forall>n \<in> set ns. sel (selected s) (n_ID n) = 0 \<or> \<not> pl_enabled ?pl (n_ID n) \<longrightarrow> n_ID n \<in> set (fst t)"
    using progress_all [of ?pl "prepared ns s" "([], prepared ns s)" ns] ok f by auto
  have se: "settled ?pl ([], prepared ns s) t" using pr by (simp add: progress_def)
  obtain r :: "int \<Rightarrow> nat" where r: "\<And>x. sel (selected s) x \<noteq> 0 \<Longrightarrow> sel (selected s) x \<in> set (ids ns) \<and> r (sel (selected s) x) < r x"
    using ac by (auto simp: acyclic_selection_def)
  have "x \<in> set (ids ns) \<longrightarrow> x \<in> set (fst t)" for x
  proof (induction "r x" arbitrary: x rule: less_induct)
    case less
    show ?case
    proof
      assume x: "x \<in> set (ids ns)"
      show "x \<in> set (fst t)"
      proof (cases "sel (selected s) x = 0")
        case True
        then show ?thesis using st x by (auto simp: ids_def)
      next
        case False
        then have "sel (selected s) x \<in> set (fst t)" using less r by blast
        then have "set (kids ?pl (sel (selected s) x)) \<subseteq> set (fst t)" using se by (simp add: settled_def)
        then show ?thesis using x False by (auto simp: kids_iff)
      qed
    qed
  qed
  then have all: "n_ID n \<in> set (fst t)" if "n \<in> set ns" for n using that by (simp add: ids_def)
  have "node_law ?pl (snd t) (n_ID n) \<and> (pl_enabled ?pl (n_ID n) \<or> al_Share (snd t (n_ID n)) = starting_weight ?pl n)"
    if n: "n \<in> set ns" for n
  proof -
    have "by_id ns (n_ID n) = n" using n ok by (simp add: sound_nodes_def)
    then show ?thesis using all [OF n] se pr by (auto simp: settled_def progress_def)
  qed
  then show "\<forall>n \<in> set ns. node_law ?pl (snd (final_accounts ns s)) (n_ID n)
      \<and> (pl_enabled ?pl (n_ID n) \<or> al_Share (snd (final_accounts ns s) (n_ID n)) = starting_weight ?pl n)"
    by (simp add: t_def)
  show "same_terms (prepared ns s) (snd (final_accounts ns s))" using se by (simp add: settled_def t_def)
qed

section \<open>The points of a component\<close>

definition moved :: "node list \<Rightarrow> selection \<Rightarrow> int \<Rightarrow> bool" where
  "moved ns s i = snd (size_all ns s) i"

definition selection_ok :: "node list \<Rightarrow> selection \<Rightarrow> bool" where
  "selection_ok ns s \<longleftrightarrow> acyclic_selection ns (selected s)
     \<and> (\<forall>x. sel (selected s) x \<noteq> 0 \<longrightarrow> x \<in> set (ids ns) \<and> onScale (n_Weight (by_id ns x)) \<and> qualityOnScale (n_Quality (by_id ns x)))"

lemma sum_over_kids:
  fixes f :: "int \<Rightarrow> rat"
  assumes ok: "sound_nodes ns" and m: "\<And>x. moved ns s x \<Longrightarrow> x \<in> set (ids ns) \<and> sel (selected s) x \<in> set (ids ns)"
  shows "(\<Sum>n\<leftarrow>ns. sum_list (map f (paid_kids (the_plan ns s) (n_ID n)))) = (\<Sum>x \<in> {x \<in> set (ids ns). moved ns s x}. f x)"
proof -
  let ?K = "\<lambda>p. {x \<in> set (ids ns). moved ns s x \<and> sel (selected s) x = p}"
  have d: "distinct (ids ns)" and z: "0 \<notin> set (ids ns)" using ok sound_ids by (auto simp: sound_nodes_def)
  have k: "sum_list (map f (paid_kids (the_plan ns s) p)) = sum f (?K p)" if "p \<in> set (ids ns)" for p
  proof -
    have "distinct (paid_kids (the_plan ns s) p)" using distinct_kids [of "the_plan ns s" p] d by (simp add: paid_kids_def)
    moreover have "set (paid_kids (the_plan ns s) p) = ?K p"
      using that z by (auto simp: paid_kids_def kids_iff moved_def)
    ultimately show ?thesis by (simp add: sum_list_distinct_conv_sum_set)
  qed
  have "(\<Sum>n\<leftarrow>ns. sum_list (map f (paid_kids (the_plan ns s) (n_ID n)))) = (\<Sum>p\<leftarrow>ids ns. sum_list (map f (paid_kids (the_plan ns s) p)))"
    by (simp add: ids_def comp_def)
  also have "\<dots> = (\<Sum>p \<in> set (ids ns). sum f (?K p))" using d k by (simp add: sum_list_distinct_conv_sum_set)
  also have "\<dots> = sum f (\<Union>p \<in> set (ids ns). ?K p)" by (rule sum.UNION_disjoint [symmetric]) auto
  also have "(\<Union>p \<in> set (ids ns). ?K p) = {x \<in> set (ids ns). moved ns s x}" using m by auto
  finally show ?thesis .
qed

theorem points_bounded:
  assumes ok: "sound_nodes ns" and so: "selection_ok ns s"
  defines "a \<equiv> snd (final_accounts ns s)"
  shows "sum_list (map al_Points (allocate ns s)) \<le>
    (\<Sum>n\<leftarrow>ns. if moved ns s (n_ID n) then al_Credit (a (n_ID n))
             else starting_weight (the_plan ns s) n * al_Quality (a (n_ID n)))"
proof -
  let ?pl = "the_plan ns s" and ?I = "set (ids ns)" and ?M = "{x \<in> set (ids ns). moved ns s x}"
  have ac: "acyclic_selection ns (selected s)" using so by (simp add: selection_ok_def)
  have d: "distinct (ids ns)" using ok by (simp add: sound_nodes_def)
  have law: "node_law ?pl a x" "moved ns s x \<or> al_Share (a x) = starting_weight ?pl (by_id ns x)" if "x \<in> ?I" for x
  proof -
    have "by_id ns x \<in> set ns" "n_ID (by_id ns x) = x" using by_id_in [OF that] by auto
    then show "node_law ?pl a x" "moved ns s x \<or> al_Share (a x) = starting_weight ?pl (by_id ns x)"
      using allocation_law(1) [OF ok ac] by (auto simp: a_def moved_def)
  qed
  have same: "same_terms (prepared ns s) a" using allocation_law(2) [OF ok ac] by (simp add: a_def)
  have co: "corrected ns (selected s) (snd (size_all ns s)) a"
    using prepared_corrected [OF ok, of s] same by (simp add: corrected_def same_terms_def)
  have m: "x \<in> ?I \<and> sel (selected s) x \<in> ?I \<and> sel (selected s) x \<noteq> 0" if "moved ns s x" for x
    using that sized_all [OF ok, of s] unfolding sized_def moved_def by blast
  have credit: "0 \<le> al_Credit (a x)" for x using co unfolding corrected_def by blast
  let ?S = "\<lambda>x. sum_list (map (\<lambda>c. al_Share (a c)) (paid_kids ?pl x))"
  let ?C = "\<lambda>x. sum_list (map (\<lambda>c. al_Credit (a c)) (paid_kids ?pl x))"
  have cpos: "0 \<le> ?C x" for x using credit by (simp add: sum_nonneg_list)
  have point: "al_Points (a x) \<le> al_OriginalTerm (a x) + ?C x - ?S x" if "x \<in> ?I" for x
    using law(1) [OF that] cpos [of x] by (auto simp: node_law_def Let_def split: if_splits)
  have shr: "(\<Sum>x \<in> ?I. ?S x) = (\<Sum>x \<in> ?M. al_Share (a x))" and crd: "(\<Sum>x \<in> ?I. ?C x) = (\<Sum>x \<in> ?M. al_Credit (a x))"
    using sum_over_kids [OF ok, of s "\<lambda>c. al_Share (a c)"] sum_over_kids [OF ok, of s "\<lambda>c. al_Credit (a c)"] m
      d sum_list_distinct_conv_sum_set [OF d, of ?S] sum_list_distinct_conv_sum_set [OF d, of ?C]
    by (simp_all add: ids_def comp_def)
  have termle: "al_OriginalTerm (a x) \<le> al_Share (a x)" if x: "x \<in> ?M" for x
  proof -
    have "qualityOnScale (n_Quality (by_id ns x))" using so m x unfolding selection_ok_def by blast
    then have "quality (by_id ns x) \<le> 1" using qualityOnScale_between by (simp add: quality_def)
    moreover have "al_Quality (a x) \<le> quality (by_id ns x)" using co unfolding corrected_def by blast
    ultimately have q: "al_Quality (a x) \<le> 1" by (rule order_trans [rotated])
    have "0 \<le> al_Share (a x)" "al_OriginalTerm (a x) = al_Share (a x) * al_Quality (a x)"
      using law(1) x by (auto simp: node_law_def Let_def)
    then show ?thesis using q mult_left_le by simp
  qed
  have fin: "finite ?I" by simp
  have "sum_list (map al_Points (allocate ns s)) = (\<Sum>x\<leftarrow>ids ns. al_Points (a x))"
    by (simp add: allocate_def a_def ids_def comp_def)
  also have "\<dots> = (\<Sum>x \<in> ?I. al_Points (a x))" by (rule sum_list_distinct_conv_sum_set [OF d])
  also have "\<dots> \<le> (\<Sum>x \<in> ?I. al_OriginalTerm (a x) + ?C x - ?S x)" by (rule sum_mono) (rule point)
  also have "\<dots> = (\<Sum>x \<in> ?I. al_OriginalTerm (a x)) + (\<Sum>x \<in> ?M. al_Credit (a x)) - (\<Sum>x \<in> ?M. al_Share (a x))"
    by (simp only: sum_subtractf sum.distrib shr crd)
  also have "(\<Sum>x \<in> ?I. al_OriginalTerm (a x)) = (\<Sum>x \<in> ?I - ?M. al_OriginalTerm (a x)) + (\<Sum>x \<in> ?M. al_OriginalTerm (a x))"
    using sum.subset_diff [of ?M ?I "\<lambda>x. al_OriginalTerm (a x)"] fin by simp
  also have "\<dots> + (\<Sum>x \<in> ?M. al_Credit (a x)) - (\<Sum>x \<in> ?M. al_Share (a x)) \<le>
      (\<Sum>x \<in> ?I - ?M. al_OriginalTerm (a x)) + (\<Sum>x \<in> ?M. al_Credit (a x))"
    using sum_mono [of ?M "\<lambda>x. al_OriginalTerm (a x)" "\<lambda>x. al_Share (a x)"] termle by simp
  also have "(\<Sum>x \<in> ?I - ?M. al_OriginalTerm (a x)) = (\<Sum>x \<in> ?I - ?M. starting_weight ?pl (by_id ns x) * al_Quality (a x))"
  proof (rule sum.cong [OF refl])
    fix x assume x: "x \<in> ?I - ?M"
    then show "al_OriginalTerm (a x) = starting_weight ?pl (by_id ns x) * al_Quality (a x)"
      using law [of x] by (auto simp: node_law_def Let_def)
  qed
  also have "\<dots> + (\<Sum>x \<in> ?M. al_Credit (a x)) =
      (\<Sum>x \<in> ?I. if moved ns s x then al_Credit (a x) else starting_weight ?pl (by_id ns x) * al_Quality (a x))"
  proof -
    let ?g = "\<lambda>x. if moved ns s x then al_Credit (a x) else starting_weight ?pl (by_id ns x) * al_Quality (a x)"
    have "sum ?g ?I = sum ?g (?I - ?M) + sum ?g ?M" using sum.subset_diff [of ?M ?I ?g] fin by simp
    moreover have "sum ?g ?M = (\<Sum>x \<in> ?M. al_Credit (a x))" by (rule sum.cong) auto
    moreover have "sum ?g (?I - ?M) = (\<Sum>x \<in> ?I - ?M. starting_weight ?pl (by_id ns x) * al_Quality (a x))"
      by (rule sum.cong) auto
    ultimately show ?thesis by simp
  qed
  also have "\<dots> = (\<Sum>x\<leftarrow>ids ns. if moved ns s x then al_Credit (a x) else starting_weight ?pl (by_id ns x) * al_Quality (a x))"
    by (rule sum_list_distinct_conv_sum_set [OF d, symmetric])
  also have "\<dots> = (\<Sum>n\<leftarrow>ns. if moved ns s (n_ID n) then al_Credit (a (n_ID n))
             else starting_weight ?pl n * al_Quality (a (n_ID n)))"
    using d by (auto simp: ids_def comp_def intro!: arg_cong [where f = sum_list] map_cong)
  finally show ?thesis .
qed

end
