(* ===== verification/Event3_Resolve.thy ===== *)
theory Event3_Resolve
  imports Event3_Conserve
begin

text \<open>
  \<^verbatim>\<open>resolveChain\<close> of \<^verbatim>\<open>src/internal/event3/resolve.go\<close>: the selection of the parent of every
  follow-up, the best-response loop for the work of several originals, and the theorems about the
  whole resolution. The loop has no bound in the code; it is a partial function, proved total.
  \<^verbatim>\<open>candidateAllocation\<close>, which the tests replace, is the argument \<open>cand\<close>.
\<close>

section \<open>Selecting parents\<close>

definition disputed_state :: "string \<Rightarrow> bool" where
  "disputed_state t \<longleftrightarrow> t = ''disputed'' \<or> t = ''disputed-declared'' \<or> t = ''withdrawn-confirmed''"

definition set_selected :: "int \<Rightarrow> int \<Rightarrow> selection \<Rightarrow> selection" where
  "set_selected i p s = s\<lparr>selected := AList.update i p (selected s)\<rparr>"

definition drop_selected :: "int \<Rightarrow> selection \<Rightarrow> selection" where
  "drop_selected i s = s\<lparr>selected := AList.delete i (selected s)\<rparr>"

definition reject :: "int \<Rightarrow> string \<Rightarrow> selection \<Rightarrow> selection" where
  "reject i reason s = s\<lparr>s_bad := (s_bad s)(i := reason)\<rparr>"

definition disclose :: "node \<Rightarrow> selection \<Rightarrow> selection" where
  "disclose n s = s\<lparr>s_disputed := (s_disputed s)(n_ID n :=
     s_disputed s (n_ID n) \<or> list_ex (\<lambda>p. disputed_state (p_State p)) (live (n_Parents n)))\<rparr>"

text \<open>The originals of the node's own developer, in the order of the nodes.\<close>

definition candidates :: "node list \<Rightarrow> node \<Rightarrow> int list \<Rightarrow> int list" where
  "candidates ns n os =
     sort_key (\<lambda>r. order_key (by_id ns r)) (filter (\<lambda>r. n_Developer (by_id ns r) = n_Developer n) os)"

definition deepest :: "node list \<Rightarrow> int list \<Rightarrow> int" where
  "deepest ns ps =
     (case find (\<lambda>p. list_all (\<lambda>other. reaches ns other [p] []) ps) ps of None \<Rightarrow> 0 | Some p \<Rightarrow> p)"

definition select_node :: "node list \<Rightarrow> (int \<times> int list) list \<Rightarrow> selection \<Rightarrow> node \<Rightarrow> selection" where
  "select_node ns rs s n =
     (let s = disclose n s;
          ps = active_parents n;
          confirmed = list_all (\<lambda>p. retained (p_State p)) (live (n_Parents n));
          os = (case map_of rs (n_ID n) of None \<Rightarrow> [] | Some v \<Rightarrow> v);
          chosen = deepest ns ps
      in if s_bad s (n_ID n) \<noteq> [] \<or> ps = [] then s
         else if \<not> onScale (n_Weight n) \<or> \<not> qualityOnScale (n_Quality n) then
           reject (n_ID n) ''unsupported-allocation-shape'' s
         else if time_is_zero (n_MergedAt n) then reject (n_ID n) ''missing-occurrence'' s
         else if 1 < length os then
           (let cs = candidates ns n os;
                s = (if cs = [] then s else s\<lparr>multi := multi s @ [(n_ID n, cs)]\<rparr>)
            in reject (n_ID n) ''multiple-originals'' (s\<lparr>s_provisional := (s_provisional s)(n_ID n := True)\<rparr>))
         else if chosen = 0 then reject (n_ID n) ''unsupported-allocation-shape'' s
         else (set_selected (n_ID n) chosen s)
           \<lparr>s_provisional := (s_provisional s)(n_ID n := \<not> confirmed \<or> reviewFor n chosen = None)\<rparr>)"

definition select_all :: "node list \<Rightarrow> selection" where
  "select_all ns =
     (let st = search_roots ns
      in foldl (select_node ns (roots st))
           \<lparr>s_bad = bad st, selected = [], multi = [], s_provisional = (\<lambda>_. False), s_disputed = (\<lambda>_. False)\<rparr> ns)"

section \<open>Best responses\<close>

type_synonym allocator = "node list \<Rightarrow> selection \<Rightarrow> allocation list"

definition developer_points :: "allocator \<Rightarrow> node list \<Rightarrow> node \<Rightarrow> selection \<Rightarrow> rat" where
  "developer_points cand ns n s =
     sum_list (map al_Points (filter (\<lambda>v. n_Developer (by_id ns (al_OutcomeID v)) = n_Developer n) (cand ns s)))"

definition try_root :: "allocator \<Rightarrow> node list \<Rightarrow> node \<Rightarrow> rat option \<times> int \<times> selection \<Rightarrow> int \<Rightarrow> rat option \<times> int \<times> selection" where
  "try_root cand ns n st orig =
     (let (best, winner, s) = st;
          s = set_selected (n_ID n) orig s;
          t = developer_points cand ns n s
      in case best of None \<Rightarrow> (Some t, orig, s)
         | Some b \<Rightarrow> if t < b then (Some t, orig, s) else (Some b, winner, s))"

definition respond :: "allocator \<Rightarrow> node list \<Rightarrow> selection \<times> bool \<Rightarrow> node \<Rightarrow> selection \<times> bool" where
  "respond cand ns st n =
     (let (s, changed) = st
      in case map_of (multi s) (n_ID n) of None \<Rightarrow> (s, changed)
         | Some cs \<Rightarrow>
             (let previous = sel (selected s) (n_ID n);
                  (best, winner, s) = foldl (try_root cand ns n) (None, 0, s) cs;
                  s = (if winner \<noteq> 0 then set_selected (n_ID n) winner s else drop_selected (n_ID n) s)
              in (s, changed \<or> previous \<noteq> winner)))"

definition best_round :: "allocator \<Rightarrow> node list \<Rightarrow> selection \<Rightarrow> selection \<times> bool" where
  "best_round cand ns s = foldl (respond cand ns) (s, False) ns"

text \<open>\<^verbatim>\<open>fmt.Sprint\<close> of the vector of the current choices.\<close>

definition choices :: "node list \<Rightarrow> selection \<Rightarrow> int list" where
  "choices ns s = map (\<lambda>n. sel (selected s) (n_ID n)) (filter (\<lambda>n. map_of (multi s) (n_ID n) \<noteq> None) ns)"

definition choice_key :: "int list \<Rightarrow> string" where
  "choice_key v = CHR ''['' # join_with (CHR '' '') (map itoa v) @ '']''"

definition drop_multi :: "selection \<Rightarrow> selection" where
  "drop_multi s = foldl (\<lambda>s i. drop_selected i s) s (map fst (multi s))"

partial_function (option) best_responses ::
  "allocator \<Rightarrow> node list \<Rightarrow> selection \<Rightarrow> string list \<Rightarrow> selection option" where
  "best_responses cand ns s seen =
     (let key = choice_key (choices ns s)
      in if key \<in> set seen then Some (drop_multi s)
         else (case best_round cand ns s of
                 (s, changed) \<Rightarrow> if changed then best_responses cand ns s (key # seen) else Some s))"

definition resolveChain :: "allocator \<Rightarrow> node list \<Rightarrow> (string, allocation list) res option" where
  "resolveChain cand input =
     (let ns = sort_nodes input
      in case validate_nodes ns [] [] of
           Some e \<Rightarrow> Some (Inl e)
         | None \<Rightarrow> map_option (\<lambda>s. Inr (allocate ns s)) (best_responses cand ns (select_all ns) []))"

definition ResolveChain :: "node list \<Rightarrow> (string, allocation list) res option" where
  "ResolveChain input = resolveChain allocate input"

section \<open>Every selection stays acyclic\<close>

lemma sel_set_selected [simp]: "sel (selected (set_selected i p s)) x = (if x = i then p else sel (selected s) x)"
  by (simp add: sel_def set_selected_def update_conv')

lemma sel_drop_selected [simp]: "sel (selected (drop_selected i s)) x = (if x = i then 0 else sel (selected s) x)"
  by (simp add: sel_def drop_selected_def delete_conv')

lemma selection_steps [simp]:
  "multi (set_selected i p s) = multi s" "multi (drop_selected i s) = multi s"
  "s_bad (set_selected i p s) = s_bad s" "s_bad (drop_selected i s) = s_bad s"
  "multi (reject i r s) = multi s" "selected (reject i r s) = selected s"
  "s_bad (reject i r s) = (s_bad s)(i := r)"
  "multi (disclose n s) = multi s" "selected (disclose n s) = selected s" "s_bad (disclose n s) = s_bad s"
  by (simp_all add: set_selected_def drop_selected_def reject_def disclose_def)

definition eligible_node :: "node list \<Rightarrow> int \<Rightarrow> bool" where
  "eligible_node ns x \<longleftrightarrow> x \<in> set (ids ns) \<and> onScale (n_Weight (by_id ns x)) \<and> qualityOnScale (n_Quality (by_id ns x))"

definition earlier :: "node list \<Rightarrow> int \<Rightarrow> int \<Rightarrow> bool" where
  "earlier ns p x \<longleftrightarrow> p \<in> set (ids ns) \<and> rank (search_roots ns) p < rank (search_roots ns) x"

text \<open>
  A selected parent is the deepest of the named parents, or, for the work of several originals, one
  of these of the same developer.
\<close>

definition choice_sound :: "node list \<Rightarrow> int \<Rightarrow> int \<Rightarrow> bool" where
  "choice_sound ns x p \<longleftrightarrow>
     (let n = by_id ns x in
        (p \<in> set (active_parents n) \<and> (\<forall>other \<in> set (active_parents n). (p, other) \<in> (edges ns)\<^sup>*))
      \<or> (n_Developer (by_id ns p) = n_Developer n \<and> (x, p) \<in> (edges ns)\<^sup>* \<and> active_parents (by_id ns p) = []))"

definition selection_inv :: "node list \<Rightarrow> selection \<Rightarrow> bool" where
  "selection_inv ns s \<longleftrightarrow>
     (\<forall>x. s_bad s x = [] \<longrightarrow> bad (search_roots ns) x = [])
   \<and> (\<forall>x. sel (selected s) x \<noteq> 0 \<longrightarrow> eligible_node ns x \<and> earlier ns (sel (selected s) x) x \<and> choice_sound ns x (sel (selected s) x))
   \<and> (\<forall>e \<in> set (multi s). eligible_node ns (fst e)
        \<and> (\<forall>c \<in> set (snd e). earlier ns c (fst e) \<and> choice_sound ns (fst e) c))"

lemma selection_inv_ok: "selection_inv ns s \<Longrightarrow> selection_ok ns s"
  by (auto simp: selection_inv_def selection_ok_def acyclic_selection_def eligible_node_def earlier_def
      intro!: exI [of _ "rank (search_roots ns)"])

lemma deepest_sound:
  assumes "deepest ns ps \<noteq> 0"
  shows "deepest ns ps \<in> set ps \<and> (\<forall>other \<in> set ps. (deepest ns ps, other) \<in> (edges ns)\<^sup>*)"
proof -
  obtain p where f: "find (\<lambda>p. list_all (\<lambda>other. reaches ns other [p] []) ps) ps = Some p"
    using assms by (auto simp: deepest_def split: option.splits)
  then have "p \<in> set ps" "list_all (\<lambda>other. reaches ns other [p] []) ps"
    unfolding find_Some_iff by (metis nth_mem)+
  then show ?thesis using f unfolding deepest_def list_all_iff reaches_iff by (simp add: list_all_iff reaches_iff)
qed

lemma reject_inv: "selection_inv ns s \<Longrightarrow> r \<noteq> [] \<Longrightarrow> selection_inv ns (reject i r s)"
  by (auto simp: selection_inv_def)

lemma disclose_inv: "selection_inv ns s \<Longrightarrow> selection_inv ns (disclose n s)"
  by (simp add: selection_inv_def)

lemma select_node_inv:
  assumes d: "distinct (ids ns)" and n: "n \<in> set ns" and inv: "selection_inv ns s"
  shows "selection_inv ns (select_node ns (roots (search_roots ns)) s n)"
proof -
  let ?st = "search_roots ns" and ?s = "disclose n s" and ?ps = "active_parents n"
  let ?os = "case map_of (roots (search_roots ns)) (n_ID n) of None \<Rightarrow> [] | Some v \<Rightarrow> v"
  have st: "chain_ok ns ?st" "finished ?st = set (ids ns)" using search_roots_ok by auto
  have bn: "by_id ns (n_ID n) = n" and fin: "n_ID n \<in> finished ?st" using d n st by (auto simp: ids_def)
  have inv': "selection_inv ns ?s" by (rule disclose_inv [OF inv])
  have os: "set ?os = originals_of (roots ?st) (n_ID n)" by (simp add: originals_of_def split: option.split)
  show ?thesis
  proof (cases "s_bad ?s (n_ID n) \<noteq> [] \<or> ?ps = [] \<or> \<not> onScale (n_Weight n) \<or> \<not> qualityOnScale (n_Quality n)
      \<or> time_is_zero (n_MergedAt n)")
    case True
    then show ?thesis using inv' by (auto simp: select_node_def Let_def intro: reject_inv)
  next
    case False
    then have good: "s_bad ?s (n_ID n) = []" "?ps \<noteq> []" "onScale (n_Weight n)" "qualityOnScale (n_Quality n)"
      "\<not> time_is_zero (n_MergedAt n)" by auto
    have clean: "bad ?st (n_ID n) = []" using inv' good(1) by (simp add: selection_inv_def)
    have el: "eligible_node ns (n_ID n)" using good n bn by (simp add: eligible_node_def ids_def)
    have live: "live (n_Parents (by_id ns (n_ID n))) \<noteq> []" using good(2) bn by (simp add: active_parents_def)
    have par: "earlier ns p (n_ID n)" if p: "p \<in> set ?ps" for p
    proof -
      obtain q where "q \<in> set (live (n_Parents (by_id ns (n_ID n))))" "p = p_ID q"
        using p bn by (auto simp: active_parents_def)
      then show ?thesis using clean_parents [OF st(1) fin clean] st(2) by (auto simp: earlier_def)
    qed
    show ?thesis
    proof (cases "1 < length ?os")
      case True
      let ?cs = "candidates ns n ?os"
      have c: "earlier ns c (n_ID n) \<and> choice_sound ns (n_ID n) c" if "c \<in> set ?cs" for c
      proof -
        have c: "c \<in> originals_of (roots ?st) (n_ID n)" "n_Developer (by_id ns c) = n_Developer n"
          using that os by (auto simp: candidates_def)
        have e: "earlier ns c (n_ID n)"
          using originals_earlier [OF st(1) fin clean c(1)] live st(2) by (auto simp: earlier_def)
        have "(n_ID n, c) \<in> (edges ns)\<^sup>*" "active_parents (by_id ns c) = []"
          using originals_reachable [OF st(1) fin clean] c(1) by (auto simp: active_parents_def)
        then show ?thesis using e c(2) bn by (simp add: choice_sound_def Let_def)
      qed
      let ?t = "?s\<lparr>multi := multi ?s @ [(n_ID n, ?cs)]\<rparr>"
      have "selection_inv ns ?t" using inv' el c by (auto simp: selection_inv_def)
      then have "selection_inv ns ((if ?cs = [] then ?s else ?t)
          \<lparr>s_provisional := (s_provisional (if ?cs = [] then ?s else ?t))(n_ID n := True)\<rparr>)"
        using inv' by (simp add: selection_inv_def)
      from reject_inv [OF this, of "''multiple-originals''" "n_ID n"] show ?thesis
        using good True by (simp add: select_node_def Let_def)
    next
      case False
      show ?thesis
      proof (cases "deepest ns ?ps = 0")
        case True
        then show ?thesis using good False inv' by (auto simp: select_node_def Let_def intro: reject_inv)
      next
        case chosen: False
        let ?p = "deepest ns ?ps"
        have p: "?p \<in> set ?ps" "\<forall>other \<in> set ?ps. (?p, other) \<in> (edges ns)\<^sup>*" using deepest_sound [OF chosen] by auto
        have "choice_sound ns (n_ID n) ?p" using p bn by (simp add: choice_sound_def Let_def)
        then have i: "selection_inv ns (set_selected (n_ID n) ?p ?s)"
          using inv' el par [OF p(1)] by (simp add: selection_inv_def)
        have drop: "selection_inv ns (t\<lparr>s_provisional := f\<rparr>) = selection_inv ns t" for t f
          by (simp add: selection_inv_def)
        have "select_node ns (roots ?st) s n = (set_selected (n_ID n) ?p ?s)\<lparr>s_provisional :=
            (s_provisional ?s)(n_ID n := \<not> list_all (\<lambda>p. retained (p_State p)) (live (n_Parents n)) \<or> reviewFor n ?p = None)\<rparr>"
          using good False chosen by (simp add: select_node_def Let_def)
        then show ?thesis using i by (simp only: drop)
      qed
    qed
  qed
qed

lemma select_all_inv:
  assumes d: "distinct (ids ns)"
  shows "selection_inv ns (select_all ns)"
proof -
  have *: "selection_inv ns s \<Longrightarrow> set ms \<subseteq> set ns \<Longrightarrow> selection_inv ns (foldl (select_node ns (roots (search_roots ns))) s ms)" for s ms
    by (induction ms arbitrary: s) (simp_all add: select_node_inv [OF d])
  show ?thesis unfolding select_all_def Let_def
    by (rule *) (simp_all add: selection_inv_def sel_def)
qed

section \<open>The best-response loop\<close>

text \<open>
  A property of selections that only depends on the choices is kept by the loop as soon as every
  change of a choice it can make keeps it: to one of the node's candidates, or to none.
\<close>

definition closed_choices :: "node list \<Rightarrow> (int \<times> int list) list \<Rightarrow> (selection \<Rightarrow> bool) \<Rightarrow> bool" where
  "closed_choices ns m P \<longleftrightarrow>
     (\<forall>s n cs. P s \<longrightarrow> multi s = m \<longrightarrow> n \<in> set ns \<longrightarrow> map_of m (n_ID n) = Some cs \<longrightarrow>
        P (drop_selected (n_ID n) s) \<and> (\<forall>c \<in> set cs. P (set_selected (n_ID n) c s)))"

lemma try_roots:
  assumes cl: "closed_choices ns m P" and n: "n \<in> set ns" and cs: "map_of m (n_ID n) = Some cs"
  shows "P s \<Longrightarrow> multi s = m \<Longrightarrow> w \<in> insert 0 (set cs) \<Longrightarrow> set rs \<subseteq> set cs \<Longrightarrow>
    (case foldl (try_root cand ns n) (b, w, s) rs of (b, w, s) \<Rightarrow> P s \<and> multi s = m \<and> w \<in> insert 0 (set cs))"
proof (induction rs arbitrary: b w s)
  case (Cons r rs)
  let ?s = "set_selected (n_ID n) r s"
  have P: "P ?s" "multi ?s = m" using cl n cs Cons.prems by (auto simp: closed_choices_def)
  obtain b' w' where t: "try_root cand ns n (b, w, s) r = (b', w', ?s)" "w' \<in> insert 0 (set cs)"
  proof (cases "\<exists>x. b = Some x \<and> \<not> developer_points cand ns n ?s < x")
    case True
    then show ?thesis using that Cons.prems(3) by (auto simp: try_root_def Let_def)
  next
    case False
    then show ?thesis
      using that [of "Some (developer_points cand ns n ?s)" r] Cons.prems(4)
      by (cases b) (simp_all add: try_root_def Let_def)
  qed
  show ?case using Cons.IH [OF P t(2)] Cons.prems t(1) by simp
qed auto

lemma respond_keeps:
  assumes cl: "closed_choices ns m P" and n: "n \<in> set ns" and P: "P s" "multi s = m"
  shows "P (fst (respond cand ns (s, ch) n)) \<and> multi (fst (respond cand ns (s, ch) n)) = m"
proof (cases "map_of m (n_ID n)")
  case None
  then show ?thesis using P by (simp add: respond_def)
next
  case (Some cs)
  obtain b w t where f: "foldl (try_root cand ns n) (None, 0, s) cs = (b, w, t)" by (metis prod_cases3)
  have t: "P t" "multi t = m" "w \<in> insert 0 (set cs)"
    using try_roots [OF cl n Some P, of 0 cs cand None] f by auto
  show ?thesis using cl n Some t P f by (auto simp: respond_def Let_def closed_choices_def)
qed

lemma round_keeps:
  assumes cl: "closed_choices ns m P" and P: "P s" "multi s = m"
  shows "P (fst (best_round cand ns s)) \<and> multi (fst (best_round cand ns s)) = m"
proof -
  have "set ms \<subseteq> set ns \<Longrightarrow> P (fst st) \<Longrightarrow> multi (fst st) = m \<Longrightarrow>
      P (fst (foldl (respond cand ns) st ms)) \<and> multi (fst (foldl (respond cand ns) st ms)) = m" for st ms
  proof (induction ms arbitrary: st)
    case (Cons n ms)
    obtain s ch where st: "st = (s, ch)" by (cases st)
    have "P (fst (respond cand ns st n)) \<and> multi (fst (respond cand ns st n)) = m"
      unfolding st by (rule respond_keeps [OF cl]) (use Cons.prems st in auto)
    then show ?case using Cons by simp
  qed simp
  from this [of ns "(s, False)"] show ?thesis using P by (simp add: best_round_def)
qed

text \<open>The choices of the multi-original nodes range over a finite set: the loop returns.\<close>

definition choices_in :: "node list \<Rightarrow> (int \<times> int list) list \<Rightarrow> int set \<Rightarrow> selection \<Rightarrow> bool" where
  "choices_in ns m V s \<longleftrightarrow> (\<forall>n \<in> set ns. map_of m (n_ID n) \<noteq> None \<longrightarrow> sel (selected s) (n_ID n) \<in> V)"

lemma choices_in_closed:
  assumes "0 \<in> V" and "\<forall>e \<in> set m. set (snd e) \<subseteq> V"
  shows "closed_choices ns m (choices_in ns m V)"
proof -
  have c: "set cs \<subseteq> V" if "map_of m i = Some cs" for i cs
    using assms(2) map_of_SomeD [OF that] by force
  show ?thesis unfolding closed_choices_def
  proof (intro allI impI conjI ballI)
    fix s n cs assume *: "choices_in ns m V s" "map_of m (n_ID n) = Some cs"
    show "choices_in ns m V (drop_selected (n_ID n) s)" using *(1) assms(1) by (simp add: choices_in_def)
    fix x assume "x \<in> set cs"
    then show "choices_in ns m V (set_selected (n_ID n) x s)" using * c [OF *(2)] by (auto simp: choices_in_def)
  qed
qed

lemma best_responses_total:
  assumes m: "multi s = m" and V: "finite V" "0 \<in> V" "\<forall>e \<in> set m. set (snd e) \<subseteq> V" and s: "choices_in ns m V s"
  shows "\<exists>r. best_responses cand ns s seen = Some r"
proof -
  define K where "K = choice_key ` {v. set v \<subseteq> V \<and> length v = length (filter (\<lambda>n. map_of m (n_ID n) \<noteq> None) ns)}"
  have fin: "finite K" unfolding K_def using V(1) by (intro finite_imageI finite_lists_length_eq)
  have key: "choice_key (choices ns s) \<in> K" if "choices_in ns m V s" "multi s = m" for s
    unfolding K_def using that by (intro imageI) (auto simp: choices_def choices_in_def)
  show ?thesis using m s
  proof (induction "card (K - set seen)" arbitrary: s seen rule: less_induct)
    case less
    let ?k = "choice_key (choices ns s)"
    show ?case
    proof (cases "?k \<in> set seen")
      case True
      then show ?thesis by (subst best_responses.simps) (simp add: Let_def)
    next
      case False
      obtain t ch where r: "best_round cand ns s = (t, ch)" by (cases "best_round cand ns s")
      have t: "choices_in ns m V t" "multi t = m"
        using round_keeps [OF choices_in_closed [OF V(2,3)] less.prems(2,1), of cand] r by auto
      have k: "?k \<in> K - set seen" using key [OF less.prems(2,1)] False by simp
      have "K - set (?k # seen) = (K - set seen) - {?k}" by auto
      then have "card (K - set (?k # seen)) < card (K - set seen)" using k fin by (metis card_Diff1_less finite_Diff)
      then have "\<exists>r. best_responses cand ns t (?k # seen) = Some r" using less.hyps t by blast
      then show ?thesis using False r by (subst best_responses.simps) (auto simp: Let_def)
    qed
  qed
qed

lemma drop_multi_keeps:
  assumes cl: "closed_choices ns m P" and m: "set (map fst m) \<subseteq> set (ids ns)" and P: "P s" "multi s = m"
  shows "P (drop_multi s)"
proof -
  have "set is' \<subseteq> set (map fst m) \<Longrightarrow> P s \<Longrightarrow> multi s = m \<Longrightarrow> P (foldl (\<lambda>s i. drop_selected i s) s is')" for is' s
  proof (induction is' arbitrary: s)
    case (Cons i is')
    have "i \<in> fst ` set m" using Cons.prems(1) by auto
    then obtain cs where cs: "map_of m i = Some cs" by (cases "map_of m i") (auto simp: map_of_eq_None_iff)
    obtain n where "n \<in> set ns" "n_ID n = i" using Cons.prems(1) m by (auto simp: ids_def)
    then have "P (drop_selected i s)" using cl cs Cons.prems by (auto simp: closed_choices_def)
    then show ?case using Cons by simp
  qed simp
  then show ?thesis using P by (simp add: drop_multi_def)
qed

lemma best_responses_keeps:
  "best_responses cand ns s seen = Some r \<Longrightarrow> closed_choices ns m P \<Longrightarrow> set (map fst m) \<subseteq> set (ids ns) \<Longrightarrow>
   P s \<Longrightarrow> multi s = m \<Longrightarrow> P r"
proof (induction cand ns s seen r rule: best_responses.raw_induct [rotated, consumes 1])
  case (1 f cand ns s seen r)
  show ?case
  proof (cases "choice_key (choices ns s) \<in> set seen")
    case True
    then show ?thesis using 1 drop_multi_keeps [of ns m P s] by (simp add: Let_def)
  next
    case False
    obtain t ch where r: "best_round cand ns s = (t, ch)" by (cases "best_round cand ns s")
    have t: "P t" "multi t = m" using round_keeps [OF 1(3,5,6), of cand] r by auto
    show ?thesis
    proof (cases ch)
      case True
      then have "f cand ns t (choice_key (choices ns s) # seen) = Some r" using 1(2) False r by (simp add: Let_def)
      from 1(1) [OF this 1(3,4) t] show ?thesis .
    next
      case F: False
      then show ?thesis using 1(2) False r t by (simp add: Let_def)
    qed
  qed
qed

section \<open>The resolution\<close>

lemma multi_nodes:
  assumes "set ms \<subseteq> set ns"
  shows "set (map fst (multi s)) \<subseteq> set (ids ns) \<Longrightarrow> set (map fst (multi (foldl (select_node ns rs) s ms))) \<subseteq> set (ids ns)"
  using assms
proof (induction ms arbitrary: s)
  case (Cons n ms)
  have "set (map fst (multi (select_node ns rs s n))) \<subseteq> set (ids ns)"
    using Cons.prems by (auto simp: select_node_def Let_def ids_def disclose_def)
  then show ?case using Cons by simp
qed simp

lemma select_all_multi: "set (map fst (multi (select_all ns))) \<subseteq> set (ids ns)"
  unfolding select_all_def Let_def by (rule multi_nodes) simp_all

lemma selection_inv_closed: "selection_inv ns s \<Longrightarrow> closed_choices ns (multi s) (\<lambda>t. selection_inv ns t \<and> multi t = multi s)"
proof (unfold closed_choices_def, intro allI impI)
  fix t n cs
  assume t: "selection_inv ns t \<and> multi t = multi s" and cs: "map_of (multi s) (n_ID n) = Some cs"
  then have e: "(n_ID n, cs) \<in> set (multi t)" using map_of_SomeD by fastforce
  have el: "eligible_node ns (n_ID n)" and c: "\<And>c. c \<in> set cs \<Longrightarrow> earlier ns c (n_ID n) \<and> choice_sound ns (n_ID n) c"
    using t e unfolding selection_inv_def by fastforce+
  show "(selection_inv ns (drop_selected (n_ID n) t) \<and> multi (drop_selected (n_ID n) t) = multi s)
      \<and> (\<forall>c \<in> set cs. selection_inv ns (set_selected (n_ID n) c t) \<and> multi (set_selected (n_ID n) c t) = multi s)"
    using t el c by (simp add: selection_inv_def)
qed

lemma resolved_selection:
  assumes "distinct (ids ns)" and "best_responses cand ns (select_all ns) [] = Some s"
  shows "selection_inv ns s"
proof -
  have i: "selection_inv ns (select_all ns)" by (rule select_all_inv [OF assms(1)])
  show ?thesis
    using best_responses_keeps [OF assms(2) selection_inv_closed [OF i] select_all_multi] i by simp
qed

lemma valid_nodes: "validate_nodes ns [] [] = None \<Longrightarrow> sound_nodes ns"
  using validate_nodes_sound [of ns "[]" "[]"] by (simp add: sound_nodes_def)

lemma resolve_Inr:
  "resolveChain cand input = Some (Inr out) \<longleftrightarrow>
   validate_nodes (sort_nodes input) [] [] = None
   \<and> (\<exists>s. best_responses cand (sort_nodes input) (select_all (sort_nodes input)) [] = Some s
        \<and> out = allocate (sort_nodes input) s)"
  by (auto simp: resolveChain_def Let_def split: option.split)

lemma resolve_cases:
  assumes "resolveChain cand input = Some (Inr out)"
  obtains s where "sound_nodes (sort_nodes input)" "selection_inv (sort_nodes input) s" "out = allocate (sort_nodes input) s"
proof -
  obtain s where *: "validate_nodes (sort_nodes input) [] [] = None"
      "best_responses cand (sort_nodes input) (select_all (sort_nodes input)) [] = Some s"
      "out = allocate (sort_nodes input) s"
    using assms by (auto simp: resolve_Inr)
  have "sound_nodes (sort_nodes input)" by (rule valid_nodes [OF *(1)])
  then show ?thesis using that [of s] resolved_selection [OF _ *(2)] *(3) by (simp add: sound_nodes_def)
qed

text \<open>C5. The resolution returns on every input, whatever the candidate allocation answers: the
  best-response loop, which has no bound in the code, revisits a choice or reaches a fixed point.\<close>

theorem resolveChain_returns: "\<exists>r. resolveChain cand input = Some r"
proof -
  let ?ns = "sort_nodes input"
  let ?s = "select_all ?ns"
  let ?V = "insert 0 (set (concat (map snd (multi ?s))) \<union> (\<lambda>n. sel (selected ?s) (n_ID n)) ` set ?ns)"
  have "\<exists>r. best_responses cand ?ns ?s [] = Some r"
    by (rule best_responses_total [OF refl, of ?V]) (auto simp: choices_in_def)
  then show ?thesis by (auto simp: resolveChain_def Let_def split: option.split)
qed

lemma valid_resolves:
  assumes "validate_nodes (sort_nodes input) [] [] = None"
  shows "\<exists>out. resolveChain cand input = Some (Inr out)"
proof -
  obtain r where r: "resolveChain cand input = Some r" using resolveChain_returns by blast
  then have "\<exists>out. r = Inr out" using assms by (auto simp: resolveChain_def Let_def)
  then show ?thesis using r by blast
qed

text \<open>An original and a confirmed pure repair of it, by two developers, a day later.\<close>

definition ex_original :: node where
  "ex_original = \<lparr>n_ID = 1, n_Repo = ''o/r'', n_PR = 10, n_SHA = ''a'', n_Developer = ''ann'', n_MergedAt = Second,
     n_Weight = Some 5, n_Quality = Some 1, n_Effort = None, n_Parents = []\<rparr>"

definition ex_review :: review where
  "ex_review = \<lparr>v_Original = Some 5, v_Own = Some 3, v_Before = None, v_After = None, v_PureRepair = True,
     v_Scope = ''fix'', v_Rationale = ''fix'', v_Reviewer = ''fix'', v_ReviewedAt = Second, v_Revision = 1,
     v_ComparisonBase = [], v_ComparisonBefore = [], v_ComparisonAfter = []\<rparr>"

definition ex_repair :: node where
  "ex_repair = \<lparr>n_ID = 2, n_Repo = ''o/r'', n_PR = 11, n_SHA = ''b'', n_Developer = ''bob'', n_MergedAt = 24 * Hour,
     n_Weight = Some 3, n_Quality = Some 1, n_Effort = None,
     n_Parents = [\<lparr>p_ID = 1, p_State = ''confirmed'', p_Review = Some ex_review\<rparr>]\<rparr>"

definition ex_aside :: node where
  "ex_aside = \<lparr>n_ID = 3, n_Repo = ''o/r'', n_PR = 12, n_SHA = ''c'', n_Developer = ''ann'', n_MergedAt = 48 * Hour,
     n_Weight = Some 1, n_Quality = Some 1, n_Effort = None, n_Parents = []\<rparr>"

definition ex_chain :: "node list" where "ex_chain = [ex_repair, ex_aside, ex_original]"

lemma ex_trim: "TrimSpace ''fix'' = ''fix''" by code_simp

lemma ex_review_ok: "Review_Validate ex_review = None"
  by (simp add: Review_Validate_def ex_review_def onScale_def time_is_zero_def Second_def ex_trim)

lemma ex_sorted: "sort_nodes ex_chain = [ex_original, ex_repair, ex_aside]"
  by (simp add: sort_nodes_def ex_chain_def ex_original_def ex_repair_def ex_aside_def order_key_def
      Second_def Hour_def Minute_def)

lemma ex_rats: "map (\<lambda>n. check_rats [n_Weight n, n_Quality n]) [ex_original, ex_repair, ex_aside] = [None, None, None]"
  by code_simp

lemma ex_keys: "map identity_key [ex_original, ex_repair, ex_aside] = [''o/r#10@a'', ''o/r#11@b'', ''o/r#12@c'']"
  by code_simp

lemma ex_ids: "map n_ID [ex_original, ex_repair, ex_aside] = [1, 2, 3]"
  "n_Parents ex_original = []" "n_Parents ex_aside = []"
  "n_Parents ex_repair = [\<lparr>p_ID = 1, p_State = ''confirmed'', p_Review = Some ex_review\<rparr>]"
  by (simp_all add: ex_original_def ex_repair_def ex_aside_def)

lemma ex_valid: "validate_nodes (sort_nodes ex_chain) [] [] = None"
  using ex_rats ex_keys ex_ids unfolding ex_sorted by (simp add: ex_review_ok del: check_rats.simps)

section \<open>Properties of a resolution\<close>

lemma ex_resolves: "\<exists>out. ResolveChain ex_chain = Some (Inr out)"
  unfolding ResolveChain_def by (rule valid_resolves [OF ex_valid])

text \<open>C28. The allocation does not depend on the order the nodes are given in.\<close>

theorem resolve_order_free:
  assumes "mset xs = mset ys" and "resolveChain cand xs = Some (Inr out)"
  shows "resolveChain cand ys = Some (Inr out)"
proof -
  have v: "validate_nodes (sort_nodes xs) [] [] = None" using assms(2) by (simp add: resolve_Inr)
  have "distinct (map identity_key (sort_nodes xs))" using validate_nodes_sound [OF v] by simp
  moreover have m: "mset (map identity_key (sort_nodes xs)) = mset (map identity_key xs)"
    by (simp add: sort_nodes_def)
  ultimately have d: "distinct (map identity_key xs)" using mset_eq_imp_distinct_iff [OF m] by simp
  have "inj_on order_key (set xs)"
  proof (rule inj_onI)
    fix m n assume mn: "m \<in> set xs" "n \<in> set xs" "order_key m = order_key n"
    then have "identity_key m = identity_key n" by (simp add: identity_key_def order_key_def)
    then show "m = n" using d mn(1,2) by (auto simp: distinct_map dest: inj_onD)
  qed
  then have "distinct (map order_key xs)" using d by (simp add: distinct_map)
  then have "sort_nodes xs = sort_nodes ys"
    unfolding sort_nodes_def using assms(1) by (rule sort_key_perm_distinct)
  then show ?thesis using assms(2) by (simp add: resolveChain_def)
qed

theorem resolve_order_free_witness:
  "\<exists>out. resolveChain allocate ex_chain = Some (Inr out) \<and> resolveChain allocate (rev ex_chain) = Some (Inr out)"
proof -
  obtain out where o: "resolveChain allocate ex_chain = Some (Inr out)" using valid_resolves [OF ex_valid] by blast
  have "mset ex_chain = mset (rev ex_chain)" by simp
  from resolve_order_free [OF this o] show ?thesis using o by blast
qed

text \<open>C3. Points are conserved at every node of every resolution. Over the enabled follow-ups, which are
  those it pays (the credit of a follow-up by another author is computed but not moved), the points of a
  node and the shares it hands out are exactly its share at its quality, plus the credits of those
  follow-ups when its share is positive; no share exceeds the follow-up's own size, nothing is negative, and
  a node with a positive share that pays keeps at least a tenth of it.\<close>

theorem resolved_points_conserved:
  assumes "ResolveChain input = Some (Inr out)"
  shows "\<exists>s. out = allocate (sort_nodes input) s \<and> selection_ok (sort_nodes input) s
    \<and> (\<forall>n \<in> set input. node_law (the_plan (sort_nodes input) s) (snd (final_accounts (sort_nodes input) s)) (n_ID n))"
proof -
  obtain s where s: "sound_nodes (sort_nodes input)" "selection_inv (sort_nodes input) s" "out = allocate (sort_nodes input) s"
    using resolve_cases [of allocate input out] assms by (auto simp: ResolveChain_def)
  have ok: "selection_ok (sort_nodes input) s" by (rule selection_inv_ok [OF s(2)])
  have "set (sort_nodes input) = set input" by (simp add: sort_nodes_def)
  moreover have "acyclic_selection (sort_nodes input) (selected s)" using ok by (simp add: selection_ok_def)
  ultimately show ?thesis using allocation_law(1) [OF s(1), of s] ok s(3) by auto
qed

theorem resolved_points_conserved_witness:
  "\<exists>out s. ResolveChain ex_chain = Some (Inr out) \<and> out = allocate (sort_nodes ex_chain) s
    \<and> node_law (the_plan (sort_nodes ex_chain) s) (snd (final_accounts (sort_nodes ex_chain) s)) 1"
proof -
  obtain out where o: "ResolveChain ex_chain = Some (Inr out)" using ex_resolves by blast
  have "ex_original \<in> set ex_chain" "n_ID ex_original = 1" by (simp_all add: ex_chain_def ex_original_def)
  moreover obtain s where "out = allocate (sort_nodes ex_chain) s"
      "\<forall>n \<in> set ex_chain. node_law (the_plan (sort_nodes ex_chain) s) (snd (final_accounts (sort_nodes ex_chain) s)) (n_ID n)"
    using resolved_points_conserved [OF o] by blast
  ultimately show ?thesis using o by (intro exI [of _ out] exI [of _ s]) auto
qed

text \<open>C4. No resolution mints points: over the chain they are at most the credits of the follow-ups that
  moved and the corrected terms of the nodes that kept their weight.\<close>

theorem resolved_points_bounded:
  assumes "ResolveChain input = Some (Inr out)"
  shows "\<exists>s. out = allocate (sort_nodes input) s \<and>
    sum_list (map al_Points out) \<le>
      (\<Sum>n\<leftarrow>sort_nodes input. let v = snd (final_accounts (sort_nodes input) s) (n_ID n) in
         if moved (sort_nodes input) s (n_ID n) then al_Credit v
         else starting_weight (the_plan (sort_nodes input) s) n * al_Quality v)"
proof -
  obtain s where s: "sound_nodes (sort_nodes input)" "selection_inv (sort_nodes input) s" "out = allocate (sort_nodes input) s"
    using resolve_cases [of allocate input out] assms by (auto simp: ResolveChain_def)
  from points_bounded [OF s(1) selection_inv_ok [OF s(2)]] show ?thesis using s(3) unfolding Let_def by blast
qed

theorem resolved_points_bounded_witness:
  "\<exists>out s. ResolveChain ex_chain = Some (Inr out) \<and> out = allocate (sort_nodes ex_chain) s \<and>
    sum_list (map al_Points out) \<le>
      (\<Sum>n\<leftarrow>sort_nodes ex_chain. let v = snd (final_accounts (sort_nodes ex_chain) s) (n_ID n) in
         if moved (sort_nodes ex_chain) s (n_ID n) then al_Credit v
         else starting_weight (the_plan (sort_nodes ex_chain) s) n * al_Quality v)"
proof -
  obtain out where o: "ResolveChain ex_chain = Some (Inr out)" using ex_resolves by blast
  then show ?thesis using resolved_points_bounded [OF o] by blast
qed

lemma final_corrected:
  assumes "sound_nodes ns" and "selection_ok ns s"
  shows "corrected ns (selected s) (moved ns s) (snd (final_accounts ns s))"
proof -
  have "same_terms (prepared ns s) (snd (final_accounts ns s))"
    using allocation_law(2) [OF assms(1)] assms(2) by (simp add: selection_ok_def)
  then show ?thesis using prepared_corrected [OF assms(1), of s]
    by (simp add: corrected_def same_terms_def moved_def)
qed

lemma allocation_parent:
  assumes "sound_nodes ns" and "selection_ok ns s" and "v \<in> set (allocate ns s)"
  shows "al_OutcomeID v \<in> set (ids ns) \<and> al_ParentID v = sel (selected s) (al_OutcomeID v)"
proof -
  obtain n where n: "n \<in> set ns" "v = snd (final_accounts ns s) (n_ID n)" using assms(3) by (auto simp: allocate_def)
  have "n_ID n \<in> set (ids ns)" using n(1) by (simp add: ids_def)
  then show ?thesis using final_corrected [OF assms(1,2)] n(2) unfolding corrected_def by metis
qed

text \<open>C6. A follow-up is allocated to the deepest parent it names, from which every other named parent is
  reached, or to an original of its own developer; following the parents of an allocation ends.\<close>

theorem resolved_parents:
  assumes "ResolveChain input = Some (Inr out)"
  shows "(\<forall>v \<in> set out. al_ParentID v \<noteq> 0 \<longrightarrow> choice_sound (sort_nodes input) (al_OutcomeID v) (al_ParentID v))
    \<and> acyclic {(al_OutcomeID v, al_ParentID v) | v. v \<in> set out \<and> al_ParentID v \<noteq> 0}"
proof -
  let ?ns = "sort_nodes input"
  obtain s where s: "sound_nodes ?ns" "selection_inv ?ns s" "out = allocate ?ns s"
    using resolve_cases [of allocate input out] assms by (auto simp: ResolveChain_def)
  have p: "al_ParentID v = sel (selected s) (al_OutcomeID v)" if "v \<in> set out" for v
    using allocation_parent [OF s(1) selection_inv_ok [OF s(2)]] that s(3) by blast
  have c: "choice_sound ?ns x (sel (selected s) x) \<and> rank (search_roots ?ns) (sel (selected s) x) < rank (search_roots ?ns) x"
    if "sel (selected s) x \<noteq> 0" for x
    using that s(2) unfolding selection_inv_def earlier_def by blast
  have "{(al_OutcomeID v, al_ParentID v) | v. v \<in> set out \<and> al_ParentID v \<noteq> 0} \<subseteq> (measure (rank (search_roots ?ns)))\<inverse>"
    using p c by auto
  then have "acyclic {(al_OutcomeID v, al_ParentID v) | v. v \<in> set out \<and> al_ParentID v \<noteq> 0}"
    by (rule acyclic_subset [rotated]) (simp add: acyclic_converse wf_acyclic)
  moreover have "choice_sound ?ns (al_OutcomeID v) (al_ParentID v)" if "v \<in> set out" "al_ParentID v \<noteq> 0" for v
    using p [OF that(1)] c [of "al_OutcomeID v"] that(2) by simp
  ultimately show ?thesis by blast
qed

theorem resolved_parents_witness:
  "\<exists>out. ResolveChain ex_chain = Some (Inr out)
    \<and> acyclic {(al_OutcomeID v, al_ParentID v) | v. v \<in> set out \<and> al_ParentID v \<noteq> 0}"
proof -
  obtain out where o: "ResolveChain ex_chain = Some (Inr out)" using ex_resolves by blast
  then show ?thesis using resolved_parents [OF o] by blast
qed

text \<open>A node that names no parent and that no node names keeps its legacy weight, quality and points.\<close>

theorem unlinked_keeps_legacy:
  assumes "ResolveChain input = Some (Inr out)" and "n \<in> set input" and "active_parents n = []"
    and "\<forall>m \<in> set input. n_ID n \<notin> set (active_parents m)"
  shows "\<exists>v \<in> set out. al_OutcomeID v = n_ID n \<and> al_Share v = weight n \<and> al_Quality v = quality n
    \<and> al_Points v = weight n * quality n"
proof -
  let ?ns = "sort_nodes input"
  obtain s where s: "sound_nodes ?ns" "selection_inv ?ns s" "out = allocate ?ns s"
    using resolve_cases [of allocate input out] assms(1) by (auto simp: ResolveChain_def)
  have ok: "selection_ok ?ns s" by (rule selection_inv_ok [OF s(2)])
  have n: "n \<in> set ?ns" "n_ID n \<in> set (ids ?ns)" using assms(2) by (simp_all add: sort_nodes_def ids_def)
  have bn: "by_id ?ns (n_ID n) = n" using s(1) n(1) by (simp add: sound_nodes_def)
  have noedge: "(x, n_ID n) \<notin> edges ?ns" for x
  proof
    assume "(x, n_ID n) \<in> edges ?ns"
    then have e: "n_ID n \<in> set (active_parents (by_id ?ns x))" by (simp add: edges_def)
    then have "x \<in> set (ids ?ns)" using by_id_outside [of x ?ns]
      by (cases "x \<in> set (ids ?ns)") (auto simp: zero_node_def active_parents_def live_def)
    then have "by_id ?ns x \<in> set input" using by_id_in [of x ?ns] by (simp add: sort_nodes_def)
    then show False using assms(4) e by blast
  qed
  have reach: "x = n_ID n" if "(x, n_ID n) \<in> (edges ?ns)\<^sup>*" for x
    using that noedge by (metis rtranclE)
  have chosen: "choice_sound ?ns x (sel (selected s) x)" "sel (selected s) x \<noteq> x" if "sel (selected s) x \<noteq> 0" for x
  proof -
    have "choice_sound ?ns x (sel (selected s) x) \<and> rank (search_roots ?ns) (sel (selected s) x) < rank (search_roots ?ns) x"
      using that s(2) unfolding selection_inv_def earlier_def by blast
    then show "choice_sound ?ns x (sel (selected s) x)" "sel (selected s) x \<noteq> x" by (auto simp: less_le)
  qed
  have kid: "sel (selected s) x \<noteq> n_ID n" for x
  proof
    assume x: "sel (selected s) x = n_ID n"
    have "n_ID n \<noteq> 0" using sound_ids [OF s(1)] n(2) by auto
    then have c: "choice_sound ?ns x (n_ID n)" "n_ID n \<noteq> x" using chosen [of x] x by auto
    then show False using noedge [of x] reach [of x] by (auto simp: choice_sound_def Let_def edges_def)
  qed
  have top: "sel (selected s) (n_ID n) = 0"
  proof (rule ccontr)
    assume z: "sel (selected s) (n_ID n) \<noteq> 0"
    have "(n_ID n, p) \<in> (edges ?ns)\<^sup>* \<Longrightarrow> p = n_ID n" for p
      using assms(3) bn by (metis (no_types, lifting) converse_rtranclE edges_def empty_iff list.set(1) case_prodD mem_Collect_eq)
    then show False using chosen [OF z] assms(3) bn by (auto simp: choice_sound_def Let_def)
  qed
  let ?v = "snd (final_accounts ?ns s) (n_ID n)"
  have co: "corrected ?ns (selected s) (moved ?ns s) (snd (final_accounts ?ns s))" by (rule final_corrected [OF s(1) ok])
  have nokids: "children ?ns (selected s) (n_ID n) = []" using kid by (auto simp: children_def filter_empty_conv)
  then have k: "kids (the_plan ?ns s) (n_ID n) = []" by (simp add: kids_def)
  have q: "al_Quality ?v = quality n" "al_OutcomeID ?v = n_ID n"
    using co nokids bn n(2) unfolding corrected_def by auto
  have ac: "acyclic_selection ?ns (selected s)" using ok by (simp add: selection_ok_def)
  have "\<not> moved ?ns s (n_ID n)"
    using sized_all [OF s(1), of s] top unfolding sized_def moved_def by blast
  then have w: "al_Share ?v = weight n" and law: "node_law (the_plan ?ns s) (snd (final_accounts ?ns s)) (n_ID n)"
    using allocation_law(1) [OF s(1) ac] n(1) k by (auto simp: moved_def starting_weight_def)
  have "al_Points ?v = weight n * quality n" using law w q k by (auto simp: node_law_def Let_def paid_kids_def)
  moreover have "?v \<in> set out" using s(3) n(1) by (auto simp: allocate_def)
  ultimately show ?thesis using q w by blast
qed

theorem unlinked_keeps_legacy_witness:
  "\<exists>out. ResolveChain ex_chain = Some (Inr out) \<and> (\<exists>v \<in> set out. al_OutcomeID v = 3 \<and> al_Points v = 1)"
proof -
  obtain out where o: "ResolveChain ex_chain = Some (Inr out)" using ex_resolves by blast
  have "ex_aside \<in> set ex_chain" "active_parents ex_aside = []"
      "\<forall>m \<in> set ex_chain. n_ID ex_aside \<notin> set (active_parents m)"
    by (auto simp: ex_chain_def active_parents_def live_def ex_original_def ex_repair_def ex_aside_def)
  from unlinked_keeps_legacy [OF o this] show ?thesis
    using o by (auto simp: ex_aside_def weight_def quality_def)
qed

end
