(* ===== verification/Correction_Lifecycle.thy ===== *)
theory Correction_Lifecycle
  imports Event3 Collector_Event
begin

text \<open>
  The life of a corrective relation in the store: the audited commands of
  \<^verbatim>\<open>src/internal/store/correction_lifecycle.go\<close>, the reviewed assessments of
  \<^verbatim>\<open>correction_projection.go\<close> and the reconciliation of relations with late evidence of
  \<^verbatim>\<open>corrections.go\<close>. A table is the list of its rows in insertion order; a transaction that
  fails is rolled back. The projected allocations, the policy row and the component that freezes
  with an erased party live in \<open>projection\<close>; what computes them is a field of the environment, and
  so is \<^verbatim>\<open>big.Rat.SetString\<close>. Case folding is the ASCII one.
\<close>

section \<open>Rows\<close>

record endpoints =
  e_child_declaration :: "int option"
  e_parent_declaration :: "int option"
  e_child_outcome :: "int option"
  e_parent_outcome :: "int option"
  e_child_developer :: "string option"
  e_parent_developer :: "string option"
  e_child_repo :: "string option"
  e_parent_repo :: "string option"
  e_child_pr :: "int option"
  e_parent_pr :: "int option"
  e_child_sha :: "string option"
  e_parent_sha :: "string option"
  e_child_merged :: "time option"
  e_parent_merged :: "time option"

record relation =
  r_id :: int
  r_state :: string
  r_reason :: "string option"
  r_revision :: int
  r_disposition :: "string option"
  r_support :: "string option"
  r_updated :: time
  r_ends :: endpoints

record audit_row =
  au_relation :: int
  au_revision :: int
  au_action :: string
  au_actor :: "string option"
  au_role :: "string option"
  au_recorded :: time
  au_ends :: endpoints
  au_text :: "string option"

text \<open>A row of \<^verbatim>\<open>correction_assessments\<close> with \<^verbatim>\<open>basis='reviewed'\<close>; sizes are stored as text.\<close>

record assessment =
  as_relation :: int
  as_revision :: int
  as_participant :: "int option"
  as_original :: "string option"
  as_own :: "string option"
  as_size0 :: "string option"
  as_size1 :: "string option"
  as_pure :: bool
  as_scope :: string
  as_rationale :: string
  as_reviewer :: "string option"
  as_reviewed_at :: "time option"
  as_base :: string
  as_cmp0 :: string
  as_cmp1 :: string

record 'p cdb =
  relations :: "relation list"
  audits :: "audit_row list"
  reviews :: "assessment list"
  aliases :: "(string \<times> string) list"
  projection :: 'p

record 'p lifecycle_env =
  le_setString :: "string \<Rightarrow> rat option"
  le_prepare :: "'p cdb \<Rightarrow> (string, 'p) res"
  le_chain :: "'p cdb \<Rightarrow> int \<Rightarrow> (string, 'p) res"
  le_refresh :: "'p cdb \<Rightarrow> int \<Rightarrow> (string, 'p) res"
  le_frozen :: "'p \<Rightarrow> int list"

record command =
  c_RelationID :: int
  c_Revision :: int
  c_Actor :: string
  c_Role :: string
  c_Reason :: string
  c_Review :: "review option"

definition the_default :: "'a \<Rightarrow> 'a option \<Rightarrow> 'a" where
  "the_default d x = (case x of None \<Rightarrow> d | Some y \<Rightarrow> y)"

text \<open>A transaction: \<open>Inl\<close> rolls back, \<open>Inr\<close> commits.\<close>

definition run_tx :: "'p cdb \<Rightarrow> (string, 'p cdb) res \<Rightarrow> string option \<times> 'p cdb" where
  "run_tx db r = (case r of Inl e \<Rightarrow> (Some e, db) | Inr db' \<Rightarrow> (None, db'))"

definition find_relation :: "'p cdb \<Rightarrow> int \<Rightarrow> relation option" where
  "find_relation db i = find (\<lambda>r. r_id r = i) (relations db)"

definition map_relation :: "int \<Rightarrow> (relation \<Rightarrow> relation) \<Rightarrow> 'p cdb \<Rightarrow> 'p cdb" where
  "map_relation i f db = db\<lparr>relations := map (\<lambda>r. if r_id r = i then f r else r) (relations db)\<rparr>"

section \<open>Identities\<close>

text \<open>
  The first stored alias that differs in case at most; one hop to its canonical. Identities are compared
  here with ASCII case folding. \<^verbatim>\<open>strings.EqualFold\<close> folds Unicode, so on identities with other letters
  the code refuses a self-confirmation at least as often as \<open>self_confirmation\<close> does.
\<close>

definition stored_alias :: "(string \<times> string) list \<Rightarrow> string \<Rightarrow> string" where
  "stored_alias al i = (case sort (filter (\<lambda>a. equal_fold a i) (map fst al)) of [] \<Rightarrow> i | a # _ \<Rightarrow> a)"

definition canonicalOf :: "(string \<times> string) list \<Rightarrow> string \<Rightarrow> string" where
  "canonicalOf al i = (case map_of al i of None \<Rightarrow> i | Some c \<Rightarrow> c)"

definition canonicalCorrectionIdentity :: "(string \<times> string) list \<Rightarrow> string \<Rightarrow> string" where
  "canonicalCorrectionIdentity al i = canonicalOf al (stored_alias al i)"

section \<open>Reviewed assessments\<close>

definition nullableRat :: "rat option \<Rightarrow> (string, string option) res" where
  "nullableRat x = (case x of None \<Rightarrow> Inr None
     | Some _ \<Rightarrow> (case EncodeRat x of Inl e \<Rightarrow> Inl e | Inr s \<Rightarrow> Inr (Some s)))"

definition decodeNullable :: "(string \<Rightarrow> rat option) \<Rightarrow> string option \<Rightarrow> (string, rat option) res" where
  "decodeNullable rd x = (case x of None \<Rightarrow> Inr None
     | Some s \<Rightarrow> (case DecodeRat rd s of Inl e \<Rightarrow> Inl e | Inr r \<Rightarrow> Inr (Some r)))"

definition reviewFromRow :: "(string \<Rightarrow> rat option) \<Rightarrow> assessment \<Rightarrow> (string, review) res" where
  "reviewFromRow rd row =
     (case as_reviewed_at row of None \<Rightarrow> Inl ''missing review time''
      | Some t \<Rightarrow>
          bind_res (decodeNullable rd (as_original row)) (\<lambda>a.
          bind_res (decodeNullable rd (as_own row)) (\<lambda>b.
          bind_res (decodeNullable rd (as_size0 row)) (\<lambda>c.
          bind_res (decodeNullable rd (as_size1 row)) (\<lambda>d.
            let v = \<lparr>v_Original = a, v_Own = b, v_Before = c, v_After = d, v_PureRepair = as_pure row,
                  v_Scope = as_scope row, v_Rationale = as_rationale row,
                  v_Reviewer = (case as_reviewer row of Some s \<Rightarrow> s | None \<Rightarrow> ''erased reviewer''),
                  v_ReviewedAt = t, v_Revision = as_revision row, v_ComparisonBase = as_base row,
                  v_ComparisonBefore = as_cmp0 row, v_ComparisonAfter = as_cmp1 row\<rparr>
            in case Review_Validate v of Some e \<Rightarrow> Inl e | None \<Rightarrow> Inr v)))))"

text \<open>\<^verbatim>\<open>reviewsEqual\<close>: the sizes by value, the instants by \<^verbatim>\<open>Equal\<close>, the rest field by field.\<close>

definition reviewsEqual :: "review \<Rightarrow> review \<Rightarrow> bool" where "reviewsEqual a b \<longleftrightarrow> a = b"

text \<open>The outcomes connected through relations: the recursive query of \<^verbatim>\<open>correctionComponent\<close>.\<close>

definition neighbours :: "relation list \<Rightarrow> int \<Rightarrow> int list" where
  "neighbours rs i =
     concat (map (\<lambda>r. case (e_child_outcome (r_ends r), e_parent_outcome (r_ends r)) of
        (Some c, Some p) \<Rightarrow> (if c = i then [p] else []) @ (if p = i then [c] else []) | _ \<Rightarrow> []) rs)"

definition outcome_ids :: "relation list \<Rightarrow> int list" where
  "outcome_ids rs = concat (map (\<lambda>r. (case e_child_outcome (r_ends r) of Some c \<Rightarrow> [c] | None \<Rightarrow> [])
     @ (case e_parent_outcome (r_ends r) of Some p \<Rightarrow> [p] | None \<Rightarrow> [])) rs)"

lemma neighbours_ids: "set (neighbours rs i) \<subseteq> set (outcome_ids rs)"
  by (auto simp: neighbours_def outcome_ids_def split: option.splits if_splits)

lemma neighbours_outside: "i \<notin> set (outcome_ids rs) \<Longrightarrow> neighbours rs i = []"
  by (auto simp: neighbours_def outcome_ids_def concat_eq_Nil_conv split: option.splits if_splits)

function component :: "relation list \<Rightarrow> int list \<Rightarrow> int list \<Rightarrow> int list" where
  "component rs [] seen = seen"
| "component rs (i # todo) seen =
     (if i \<in> set seen then component rs todo seen
      else component rs (neighbours rs i @ todo) (i # seen))"
  by pat_completeness auto
termination component
proof (relation "measures [\<lambda>(rs, todo, seen). card (set (outcome_ids rs) - set seen), \<lambda>(rs, todo, seen). length todo]", goal_cases)
  case (3 rs i todo seen)
  show ?case
  proof (cases "i \<in> set (outcome_ids rs)")
    case True
    then have "i \<in> set (outcome_ids rs) - set seen" using 3 by simp
    moreover have "set (outcome_ids rs) - set (i # seen) = (set (outcome_ids rs) - set seen) - {i}" by auto
    ultimately have "card (set (outcome_ids rs) - set (i # seen)) < card (set (outcome_ids rs) - set seen)"
      by (metis card_Diff1_less finite_Diff finite_set)
    then show ?thesis by simp
  next
    case False
    then have "set (outcome_ids rs) - insert i (set seen) = set (outcome_ids rs) - set seen" by auto
    then show ?thesis using neighbours_outside [OF False] by simp
  qed
qed auto

definition frozen_component :: "'p lifecycle_env \<Rightarrow> 'p cdb \<Rightarrow> int \<Rightarrow> bool" where
  "frozen_component env db i =
     list_ex (\<lambda>o'. o' \<in> set (component (relations db) [i] [])) (le_frozen env (projection db))"

definition assessment_of :: "int \<Rightarrow> int \<Rightarrow> int option \<Rightarrow> string option list \<Rightarrow> review \<Rightarrow> assessment" where
  "assessment_of rel rv child sizes v =
     \<lparr>as_relation = rel, as_revision = rv, as_participant = child, as_original = sizes ! 0, as_own = sizes ! 1,
      as_size0 = sizes ! 2, as_size1 = sizes ! 3, as_pure = v_PureRepair v, as_scope = v_Scope v,
      as_rationale = v_Rationale v, as_reviewer = Some (v_Reviewer v), as_reviewed_at = Some (v_ReviewedAt v),
      as_base = v_ComparisonBase v, as_cmp0 = v_ComparisonBefore v, as_cmp1 = v_ComparisonAfter v\<rparr>"

fun all_res :: "('e, 'a) res list \<Rightarrow> ('e, 'a list) res" where
  "all_res [] = Inr []"
| "all_res (x # xs) = bind_res x (\<lambda>a. bind_res (all_res xs) (\<lambda>as. Inr (a # as)))"

definition sizes_of :: "review \<Rightarrow> rat option list" where
  "sizes_of v = [v_Original v, v_Own v, v_Before v, v_After v]"

definition recordAssessment :: "'p lifecycle_env \<Rightarrow> int \<Rightarrow> int \<Rightarrow> review \<Rightarrow> 'p cdb \<Rightarrow> (string, 'p cdb) res" where
  "recordAssessment env rel expected v db =
     (case find_relation db rel of None \<Rightarrow> Inl ''no rows''
      | Some r \<Rightarrow>
          (case e_child_outcome (r_ends r) of
             None \<Rightarrow> Inl ''stale or erased correction relation''
           | Some child \<Rightarrow>
               if r_revision r \<noteq> expected \<or> e_child_repo (r_ends r) = None \<or> e_parent_repo (r_ends r) = None
               then Inl ''stale or erased correction relation''
               else if frozen_component env db child then Inl ''allocation is frozen''
               else
                 (case filter (\<lambda>a. as_relation a = rel \<and> as_revision a = r_revision r \<and> as_participant a = Some child) (reviews db) of
                    row # _ \<Rightarrow>
                      bind_res (reviewFromRow (le_setString env) row) (\<lambda>previous.
                        if map nullableRat (sizes_of previous) \<noteq> map nullableRat (sizes_of v)
                        then Inl ''assessment replay conflicts with preserved review sizing''
                        else if \<not> reviewsEqual previous v
                        then Inl ''assessment replay conflicts with preserved review provenance''
                        else Inr db)
                  | [] \<Rightarrow>
                      bind_res (all_res (map nullableRat (sizes_of v))) (\<lambda>sizes.
                        Inr (db\<lparr>reviews := reviews db @ [assessment_of rel (r_revision r) (Some child) sizes v]\<rparr>)))))"

definition with_projection :: "(string, 'p) res \<Rightarrow> 'p cdb \<Rightarrow> (string, 'p cdb) res" where
  "with_projection r db = bind_res r (\<lambda>p. Inr (db\<lparr>projection := p\<rparr>))"

definition RecordCorrectionAssessment ::
  "'p lifecycle_env \<Rightarrow> int \<Rightarrow> int \<Rightarrow> review \<Rightarrow> 'p cdb \<Rightarrow> string option \<times> 'p cdb" where
  "RecordCorrectionAssessment env rel expected v db =
     (case Review_Validate v of Some e \<Rightarrow> (Some e, db)
      | None \<Rightarrow>
          if v_Revision v \<noteq> expected then (Some ''review revision differs from relation revision'', db)
          else run_tx db
            (bind_res (with_projection (le_prepare env db) db) (\<lambda>db.
             bind_res (recordAssessment env rel expected v db) (\<lambda>db.
             with_projection (le_refresh env db rel) db))))"

text \<open>The latest review of the current participant is carried to a new revision.\<close>

definition latest_review :: "'p cdb \<Rightarrow> int \<Rightarrow> int \<Rightarrow> assessment option" where
  "latest_review db rel rv =
     (case find_relation db rel of None \<Rightarrow> None
      | Some r \<Rightarrow>
          (case e_child_outcome (r_ends r) of None \<Rightarrow> None
           | Some child \<Rightarrow>
               (let rows = filter (\<lambda>a. as_relation a = rel \<and> as_revision a < rv \<and> as_participant a = Some child) (reviews db)
                in if rows = [] then None else Some (last (sort_key as_revision rows)))))"

definition carryCorrectionReview :: "int \<Rightarrow> int \<Rightarrow> 'p cdb \<Rightarrow> 'p cdb" where
  "carryCorrectionReview rel rv db =
     (case latest_review db rel rv of None \<Rightarrow> db
      | Some a \<Rightarrow>
          if list_ex (\<lambda>b. as_relation b = rel \<and> as_revision b = rv \<and> as_participant b = as_participant a) (reviews db) then db
          else db\<lparr>reviews := reviews db @ [a\<lparr>as_revision := rv\<rparr>]\<rparr>)"

section \<open>Commands\<close>

definition terminal :: "string \<Rightarrow> bool" where
  "terminal t \<longleftrightarrow> t = ''removed'' \<or> t = ''unrelated'' \<or> t = ''withdrawn''"

text \<open>The checks before the transaction.\<close>

definition needs_review :: "string \<Rightarrow> bool" where
  "needs_review action \<longleftrightarrow> action = ''confirm'' \<or> action = ''settle-re-assess''"

definition command_error :: "command \<Rightarrow> string \<Rightarrow> string option" where
  "command_error c action =
     (if c_RelationID c \<le> 0 \<or> c_Revision c \<le> 0 \<or> TrimSpace (c_Actor c) = [] \<or> TrimSpace (c_Role c) = []
         \<or> 128 < length (c_Actor c) \<or> 128 < length (c_Role c) \<or> 4096 < length (c_Reason c)
      then Some ''relation, revision and bounded self-asserted actor/role required''
      else if action \<noteq> ''confirm'' \<and> TrimSpace (c_Reason c) = []
      then Some ''dispute, withdrawal and settlement require a reason''
      else
        (case c_Review c of
           None \<Rightarrow> if needs_review action then Some ''reviewed sizing required'' else None
         | Some v \<Rightarrow>
             if needs_review action then
               (case Review_Validate v of Some e \<Rightarrow> Some e
                | None \<Rightarrow> if v_Revision v \<noteq> c_Revision c \<or> v_Reviewer v \<noteq> c_Actor c
                          then Some ''review revision/reviewer must match command'' else None)
             else Some ''reviewed sizing is accepted only for confirmation or re-assessment''))"

text \<open>The transition table: the next state, or the refusal.\<close>

definition next_state :: "string \<Rightarrow> string \<Rightarrow> string \<Rightarrow> (string, string) res" where
  "next_state action role state =
     (let kept = retained state in
      if action = ''confirm'' then
        (if role \<noteq> ''operator'' then Inl ''confirmation requires operator role''
         else if kept \<or> state = ''disputed-declared'' \<or> terminal state
         then Inl ''relation requires operator settlement'' else Inr ''confirmed'')
      else if action = ''dispute'' then
        (if terminal state then Inl ''inactive relation''
         else Inr (if kept then ''disputed'' else ''disputed-declared''))
      else if action = ''withdraw'' then
        (if state = ''disputed-declared'' \<or> terminal state \<or> state = ''withdrawn-confirmed''
         then Inl ''withdrawal requires active relation without unconfirmed dispute''
         else Inr (if kept then ''withdrawn-confirmed'' else ''withdrawn''))
      else if action = ''settle-uphold'' \<or> action = ''settle-re-assess'' \<or> action = ''settle-remove'' then
        (if role \<noteq> ''operator'' then Inl ''settlement requires operator role''
         else if state \<noteq> ''disputed'' \<and> state \<noteq> ''withdrawn-confirmed'' \<and> state \<noteq> ''disputed-declared''
         then Inl ''settlement requires disputed or withdrawn-confirmed relation''
         else Inr (if action = ''settle-remove'' then ''removed''
                   else if action = ''settle-uphold'' \<and> \<not> kept then ''declared'' else ''confirmed''))
      else Inl ''settlement must be uphold, re-assess or remove'')"

text \<open>A retry: the audited input must match the command entirely.\<close>

definition replay :: "'p lifecycle_env \<Rightarrow> command \<Rightarrow> audit_row \<Rightarrow> 'p cdb \<Rightarrow> (string, 'p cdb) res" where
  "replay env c a db =
     (if the_default [] (au_actor a) \<noteq> c_Actor c \<or> the_default [] (au_role a) \<noteq> c_Role c
         \<or> the_default [] (au_text a) \<noteq> c_Reason c
      then Inl ''conflicting correction replay''
      else (case c_Review c of None \<Rightarrow> Inr db
        | Some v \<Rightarrow>
            (case filter (\<lambda>x. as_relation x = c_RelationID c \<and> as_revision x = c_Revision c + 1) (reviews db) of
               [row] \<Rightarrow>
                 bind_res (reviewFromRow (le_setString env) row) (\<lambda>previous.
                   if reviewsEqual (previous\<lparr>v_Revision := c_Revision c\<rparr>) v then Inr db
                   else Inl ''conflicting review replay'')
             | _ \<Rightarrow> Inl ''review replay unavailable'')))"

definition self_confirmation :: "'p cdb \<Rightarrow> command \<Rightarrow> relation \<Rightarrow> bool" where
  "self_confirmation db c r \<longleftrightarrow>
     equal_fold (canonicalCorrectionIdentity (aliases db) (c_Actor c))
       (canonicalCorrectionIdentity (aliases db) (the_default [] (e_child_developer (r_ends r))))"

definition audit_of :: "command \<Rightarrow> string \<Rightarrow> time \<Rightarrow> relation \<Rightarrow> audit_row" where
  "audit_of c action now r =
     \<lparr>au_relation = r_id r, au_revision = r_revision r, au_action = action, au_actor = Some (c_Actor c),
      au_role = Some (c_Role c), au_recorded = now, au_ends = r_ends r, au_text = Some (c_Reason c)\<rparr>"

definition transition :: "'p lifecycle_env \<Rightarrow> time \<Rightarrow> command \<Rightarrow> string \<Rightarrow> string \<Rightarrow> relation \<Rightarrow> 'p cdb \<Rightarrow> (string, 'p cdb) res" where
  "transition env now c action nxt r db =
     (let db = map_relation (c_RelationID c) (\<lambda>r. r\<lparr>r_state := nxt, r_revision := r_revision r + 1,
            r_disposition := Some (c_Reason c), r_updated := now\<rparr>) db
      in bind_res
           (case c_Review c of
              Some v \<Rightarrow> recordAssessment env (c_RelationID c) (c_Revision c + 1) (v\<lparr>v_Revision := c_Revision c + 1\<rparr>) db
            | None \<Rightarrow> Inr (if retained (r_state r) \<and> nxt \<noteq> ''removed''
                          then carryCorrectionReview (c_RelationID c) (c_Revision c + 1) db else db))
         (\<lambda>db. let db = db\<lparr>audits := audits db @ map (audit_of c action now)
                   (filter (\<lambda>r. r_id r = c_RelationID c) (relations db))\<rparr>
          in bind_res (case e_child_outcome (r_ends r) of
                 Some i \<Rightarrow> if 0 < i then with_projection (le_chain env db i) db else Inr db | None \<Rightarrow> Inr db)
             (\<lambda>db. with_projection (le_refresh env db (c_RelationID c)) db)))"

definition mutate_tx :: "'p lifecycle_env \<Rightarrow> time \<Rightarrow> command \<Rightarrow> string \<Rightarrow> 'p cdb \<Rightarrow> (string, 'p cdb) res" where
  "mutate_tx env now c action db =
     (case find_relation db (c_RelationID c) of None \<Rightarrow> Inl ''no rows''
      | Some r \<Rightarrow>
          (case filter (\<lambda>a. au_relation a = c_RelationID c \<and> au_revision a = c_Revision c + 1 \<and> au_action a = action) (audits db) of
             a # _ \<Rightarrow> replay env c a db
           | [] \<Rightarrow>
               if r_revision r \<noteq> c_Revision c \<or> e_child_developer (r_ends r) = None \<or> e_parent_repo (r_ends r) = None
               then Inl ''stale or erased correction relation''
               else if needs_review action \<and> e_child_outcome (r_ends r) = None
               then Inl (''child outcome not captured yet; confirm after the fix PR'' @ [CHR 0x27] @ ''s outcome is recorded'')
               else bind_res (next_state action (c_Role c) (r_state r)) (\<lambda>nxt.
                 if nxt = ''confirmed'' \<and> self_confirmation db c r then Inl ''confirmer must differ from declarer''
                 else transition env now c action nxt r db)))"

definition mutateCorrection :: "'p lifecycle_env \<Rightarrow> time \<Rightarrow> command \<Rightarrow> string \<Rightarrow> 'p cdb \<Rightarrow> string option \<times> 'p cdb" where
  "mutateCorrection env now c action db =
     (case command_error c action of Some e \<Rightarrow> (Some e, db)
      | None \<Rightarrow> run_tx db (bind_res (with_projection (le_prepare env db) db) (\<lambda>db. mutate_tx env now c action db)))"

definition ConfirmCorrection :: "'p lifecycle_env \<Rightarrow> time \<Rightarrow> command \<Rightarrow> 'p cdb \<Rightarrow> string option \<times> 'p cdb" where
  "ConfirmCorrection env now c db = mutateCorrection env now c ''confirm'' db"

definition DisputeCorrection :: "'p lifecycle_env \<Rightarrow> time \<Rightarrow> command \<Rightarrow> 'p cdb \<Rightarrow> string option \<times> 'p cdb" where
  "DisputeCorrection env now c db = mutateCorrection env now c ''dispute'' db"

definition WithdrawCorrection :: "'p lifecycle_env \<Rightarrow> time \<Rightarrow> command \<Rightarrow> 'p cdb \<Rightarrow> string option \<times> 'p cdb" where
  "WithdrawCorrection env now c db = mutateCorrection env now c ''withdraw'' db"

definition SettleCorrection :: "'p lifecycle_env \<Rightarrow> time \<Rightarrow> command \<Rightarrow> string \<Rightarrow> 'p cdb \<Rightarrow> string option \<times> 'p cdb" where
  "SettleCorrection env now c settlement db = mutateCorrection env now c (''settle-'' @ settlement) db"

section \<open>Reconciliation with late evidence\<close>

text \<open>
  \<^verbatim>\<open>reconcileCorrectionRelationsSQL\<close>: the columns its \<open>endpoints\<close> query joins for a relation from the
  declarations, the outcomes and the exclusions are a record; the three-valued comparisons of
  SQL are written out.
\<close>

record evidence =
  ev_cid :: "int option"
  ev_cmerged :: "time option"
  ev_pdid :: "int option"
  ev_pid :: "int option"
  ev_pdev :: "string option"
  ev_psha :: "string option"
  ev_pmerged :: "time option"
  ev_cx :: bool
  ev_px :: bool

definition coalesce :: "'a option \<Rightarrow> 'a option \<Rightarrow> 'a option" where
  "coalesce a b = (case a of None \<Rightarrow> b | Some x \<Rightarrow> Some x)"

definition differs :: "'a option \<Rightarrow> 'a option \<Rightarrow> bool" where
  "differs a b = (case (a, b) of (Some x, Some y) \<Rightarrow> x \<noteq> y | _ \<Rightarrow> False)"

definition open_states :: "string list" where
  "open_states = [''pending'', ''declared'', ''excluded'', ''disputed-declared'', ''confirmed'', ''disputed'', ''withdrawn-confirmed'']"

definition protected_state :: "string \<Rightarrow> bool" where
  "protected_state t \<longleftrightarrow> t \<in> set [''disputed-declared'', ''confirmed'', ''disputed'', ''withdrawn-confirmed'']"

definition conflict :: "endpoints \<Rightarrow> evidence \<Rightarrow> bool" where
  "conflict e v \<longleftrightarrow> differs (e_parent_outcome e) (ev_pid v) \<or> differs (e_parent_developer e) (ev_pdev v)
     \<or> differs (e_parent_sha e) (ev_psha v)"

definition reconciled_state :: "relation \<Rightarrow> evidence \<Rightarrow> string" where
  "reconciled_state r v =
     (if ev_cx v \<or> ev_px v then ''excluded''
      else if protected_state (r_state r) \<and> conflict (r_ends r) v then
        (if r_state r = ''disputed-declared'' then r_state r else ''disputed'')
      else if protected_state (r_state r) then r_state r
      else if ev_pid v = None \<or> ev_cid v = None \<or> ev_cmerged v = None \<or> ev_pmerged v = None then ''pending''
      else ''declared'')"

definition reconciled_reason :: "relation \<Rightarrow> evidence \<Rightarrow> string option" where
  "reconciled_reason r v =
     (if ev_cx v then Some ''excluded-child'' else if ev_px v then Some ''excluded-parent''
      else if protected_state (r_state r) \<and> conflict (r_ends r) v then Some ''parent-identity-conflict''
      else if ev_pid v = None then Some ''missing-parent''
      else if ev_cid v = None then Some ''missing-child-outcome''
      else if ev_cmerged v = None \<or> ev_pmerged v = None then Some ''missing-occurrence'' else None)"

text \<open>A bound endpoint of a protected relation is kept; a missing one is filled.\<close>

definition keep_bound :: "relation \<Rightarrow> evidence \<Rightarrow> 'a option \<Rightarrow> 'a option \<Rightarrow> 'a option" where
  "keep_bound r v old new =
     (if protected_state (r_state r) \<and> conflict (r_ends r) v then old
      else if protected_state (r_state r) then coalesce old new else new)"

definition reconciled_ends :: "relation \<Rightarrow> evidence \<Rightarrow> endpoints" where
  "reconciled_ends r v =
     (let e = r_ends r
      in e\<lparr>e_child_outcome := (if ev_cx v then None else ev_cid v),
           e_child_merged := ev_cmerged v,
           e_parent_declaration := keep_bound r v (e_parent_declaration e) (ev_pdid v),
           e_parent_outcome := (if ev_px v then None else keep_bound r v (e_parent_outcome e) (ev_pid v)),
           e_parent_developer := keep_bound r v (e_parent_developer e) (ev_pdev v),
           e_parent_sha := keep_bound r v (e_parent_sha e) (ev_psha v),
           e_parent_merged := keep_bound r v (e_parent_merged e) (ev_pmerged v)\<rparr>)"

definition touches :: "string \<Rightarrow> int \<Rightarrow> relation \<Rightarrow> bool" where
  "touches repo pr r \<longleftrightarrow>
     (e_child_repo (r_ends r) = Some repo \<and> e_child_pr (r_ends r) = Some pr)
   \<or> (e_parent_repo (r_ends r) = Some repo \<and> e_parent_pr (r_ends r) = Some pr)"

definition reconcilable :: "relation \<Rightarrow> bool" where
  "reconcilable r \<longleftrightarrow> e_child_repo (r_ends r) \<noteq> None \<and> e_child_pr (r_ends r) \<noteq> None \<and> e_child_sha (r_ends r) \<noteq> None
     \<and> e_parent_repo (r_ends r) \<noteq> None \<and> e_parent_pr (r_ends r) \<noteq> None \<and> r_state r \<in> set open_states"

definition has_audit :: "'p cdb \<Rightarrow> int \<Rightarrow> bool" where
  "has_audit db i = list_ex (\<lambda>a. au_relation a = i) (audits db)"

definition reconcile_row :: "time \<Rightarrow> bool \<Rightarrow> evidence \<Rightarrow> relation \<Rightarrow> relation" where
  "reconcile_row now audited v r =
     (let e = reconciled_ends r v; st = reconciled_state r v; why = reconciled_reason r v
      in if e = r_ends r \<and> st = r_state r \<and> why = r_reason r then r
         else r\<lparr>r_ends := e, r_state := st, r_reason := why, r_updated := now,
                r_revision := r_revision r + (if audited then 1 else 0)\<rparr>)"

definition reconcile_rows :: "time \<Rightarrow> (int \<Rightarrow> evidence) \<Rightarrow> string \<Rightarrow> int \<Rightarrow> 'p cdb \<Rightarrow> 'p cdb" where
  "reconcile_rows now ev repo pr db =
     db\<lparr>relations := map (\<lambda>r. if touches repo pr r \<and> reconcilable r
          then reconcile_row now (has_audit db (r_id r)) (ev (r_id r)) r else r) (relations db)\<rparr>"

text \<open>Reviewed sizing is carried over every new revision of a retained relation.\<close>

definition carry_changed :: "relation list \<Rightarrow> 'p cdb \<Rightarrow> 'p cdb" where
  "carry_changed prior db =
     foldl (\<lambda>db r. case find_relation db (r_id r) of None \<Rightarrow> db
        | Some cur \<Rightarrow> if r_revision cur \<noteq> r_revision r \<and> retained (r_state r)
                      then carryCorrectionReview (r_id r) (r_revision cur) db else db) db prior"

definition system_audit :: "time \<Rightarrow> relation \<Rightarrow> audit_row" where
  "system_audit now r =
     (let first = (r_revision r = 1)
      in \<lparr>au_relation = r_id r, au_revision = r_revision r, au_action = (if first then ''declared'' else ''reconciled''),
          au_actor = (if first then e_child_developer (r_ends r) else None),
          au_role = Some (if first then ''declarer'' else ''system''), au_recorded = now, au_ends = r_ends r,
          au_text = (if first then r_support r else r_reason r)\<rparr>)"

definition audit_key :: "audit_row \<Rightarrow> int \<times> int \<times> string" where
  "audit_key a = (au_relation a, au_revision a, au_action a)"

text \<open>\<^verbatim>\<open>INSERT ... ON CONFLICT DO NOTHING\<close> against the unique index on relation, revision and action.\<close>

definition add_audit :: "audit_row list \<Rightarrow> audit_row \<Rightarrow> audit_row list" where
  "add_audit as a = (if audit_key a \<in> audit_key ` set as then as else as @ [a])"

definition audit_reconciled :: "time \<Rightarrow> string \<Rightarrow> int \<Rightarrow> 'p cdb \<Rightarrow> 'p cdb" where
  "audit_reconciled now repo pr db =
     db\<lparr>audits := foldl add_audit (audits db) (map (system_audit now)
          (filter (\<lambda>r. touches repo pr r \<and> e_child_repo (r_ends r) \<noteq> None \<and> e_parent_repo (r_ends r) \<noteq> None
             \<and> r_state r \<in> set open_states) (relations db)))\<rparr>"

definition reconcileCorrectionRelations ::
  "('p cdb \<Rightarrow> (string, 'p) res) \<Rightarrow> time \<Rightarrow> (int \<Rightarrow> evidence) \<Rightarrow> string \<Rightarrow> int \<Rightarrow> 'p cdb \<Rightarrow> (string, 'p cdb) res" where
  "reconcileCorrectionRelations recompute now ev repo pr db =
     (let prior = filter (touches repo pr) (relations db);
          db = carry_changed prior (reconcile_rows now ev repo pr db)
      in bind_res (with_projection (recompute db) db) (\<lambda>db. Inr (audit_reconciled now repo pr db)))"

text \<open>A new declaration adds one pending relation per parent, at revision 1.\<close>

definition new_relation :: "int \<Rightarrow> time \<Rightarrow> string option \<Rightarrow> endpoints \<Rightarrow> relation" where
  "new_relation i now support e =
     \<lparr>r_id = i, r_state = ''pending'', r_reason = Some ''missing-parent'', r_revision = 1, r_disposition = None,
      r_support = support, r_updated = now, r_ends = e\<rparr>"

section \<open>Runs\<close>

text \<open>
  The steps that change a relation: a declared relation with a fresh id, a command, a recorded
  assessment, a committed reconciliation. The erasure of a developer, which scrubs rows, is not one.
  A step of the reconciliation is given the evidence and the recomputation of the projection.
\<close>

definition empty_db :: "(string \<times> string) list \<Rightarrow> 'p \<Rightarrow> 'p cdb" where
  "empty_db al p = \<lparr>relations = [], audits = [], reviews = [], aliases = al, projection = p\<rparr>"

inductive lifecycle_step :: "'p lifecycle_env \<Rightarrow> 'p cdb \<Rightarrow> 'p cdb \<Rightarrow> bool" for env where
  declared: "i \<notin> r_id ` set (relations db) \<Longrightarrow> i \<notin> au_relation ` set (audits db) \<Longrightarrow> i \<notin> as_relation ` set (reviews db) \<Longrightarrow>
     lifecycle_step env db (db\<lparr>relations := relations db @ [new_relation i now support e]\<rparr>)"
| commanded: "mutateCorrection env now c action db = (err, db') \<Longrightarrow> lifecycle_step env db db'"
| assessed: "RecordCorrectionAssessment env rel expected v db = (err, db') \<Longrightarrow> lifecycle_step env db db'"
| reconciled: "reconcileCorrectionRelations recompute now ev repo pr db = Inr db' \<Longrightarrow> lifecycle_step env db db'"

inductive lifecycle_run :: "'p lifecycle_env \<Rightarrow> 'p cdb \<Rightarrow> 'p cdb \<Rightarrow> bool" for env where
  start: "lifecycle_run env db db"
| more: "lifecycle_run env db db1 \<Longrightarrow> lifecycle_step env db1 db2 \<Longrightarrow> lifecycle_run env db db2"

inductive_cases lifecycle_stepE: "lifecycle_step env db db'"

end
