(* ===== verification/Correction_Audit.thy ===== *)
theory Correction_Audit
  imports Correction_Lifecycle Repo_Id
begin

text \<open>
  What the audited commands of \<^verbatim>\<open>Correction_Lifecycle\<close> guarantee: the tables stay consistent along
  every run, a settled relation is final, a command is applied at most once at a revision and a
  retry of it changes nothing, and a relation is confirmed only by an operator other than its declarer.
\<close>

section \<open>Rows\<close>

lemma find_map_same: "(\<And>x. P (g x) = P x) \<Longrightarrow> find P (map g xs) = map_option g (find P xs)"
  by (induction xs) auto

lemma find_append_Some: "find P xs = Some x \<Longrightarrow> find P (xs @ ys) = Some x"
  by (induction xs) (auto split: if_splits)

lemma find_relation_Some: "find_relation db i = Some r \<Longrightarrow> r \<in> set (relations db) \<and> r_id r = i"
  by (auto simp: find_relation_def find_Some_iff)

lemma find_relation_cong: "relations db = relations db' \<Longrightarrow> find_relation db i = find_relation db' i"
  by (simp add: find_relation_def)

lemma find_map_relation:
  "(\<And>r. r_id (f r) = r_id r) \<Longrightarrow>
   find_relation (map_relation i f db) j = map_option (\<lambda>r. if j = i then f r else r) (find_relation db j)"
  by (simp add: find_relation_def map_relation_def find_map_same)
     (auto simp: find_Some_iff split: option.splits intro!: option.map_cong0 elim!: option.set_cases)

lemma with_projection_Inr:
  "with_projection x db = Inr db' \<longleftrightarrow> (\<exists>p. x = Inr p \<and> db' = db\<lparr>projection := p\<rparr>)"
  by (auto simp: with_projection_def bind_res_Inr_iff)

text \<open>Nothing but at most one review of a relation at a revision is added.\<close>

definition review_added :: "int \<Rightarrow> int \<Rightarrow> 'p cdb \<Rightarrow> 'p cdb \<Rightarrow> bool" where
  "review_added rel rv db db' \<longleftrightarrow>
     relations db' = relations db \<and> audits db' = audits db \<and> aliases db' = aliases db \<and> projection db' = projection db
     \<and> (reviews db' = reviews db \<or> (\<exists>a. reviews db' = reviews db @ [a] \<and> as_relation a = rel \<and> as_revision a = rv))"

lemma review_added_refl: "review_added rel rv db db"
  by (simp add: review_added_def)

lemma recordAssessment_adds:
  assumes "recordAssessment env rel e v db = Inr db'"
  shows "review_added rel e db db' \<and> (\<exists>r. find_relation db rel = Some r \<and> r_revision r = e)"
  using assms
  by (auto simp: recordAssessment_def review_added_def bind_res_Inr_iff assessment_of_def split: option.splits if_splits list.splits)

lemma last_sort_mem: "xs \<noteq> [] \<Longrightarrow> last (sort_key f xs) \<in> set xs"
  by (metis last_in_set length_0_conv length_sort set_sort)

lemma latest_review_Some:
  assumes "latest_review db rel rv = Some a"
  shows "as_relation a = rel"
proof -
  obtain child where "a \<in> set (filter (\<lambda>a. as_relation a = rel \<and> as_revision a < rv \<and> as_participant a = Some child) (reviews db))"
    using assms by (auto simp only: latest_review_def Let_def option.inject split: option.splits if_splits intro: last_sort_mem)
  then show ?thesis by simp
qed

lemma carry_adds: "review_added rel rv db (carryCorrectionReview rel rv db)"
  by (auto simp: carryCorrectionReview_def review_added_def split: option.splits dest: latest_review_Some)

section \<open>Commands\<close>

abbreviation advance :: "time \<Rightarrow> command \<Rightarrow> string \<Rightarrow> relation \<Rightarrow> relation" where
  "advance now c nxt r \<equiv> r\<lparr>r_state := nxt, r_revision := r_revision r + 1, r_disposition := Some (c_Reason c), r_updated := now\<rparr>"

text \<open>What a command that is not a retry does.\<close>

definition effective :: "time \<Rightarrow> command \<Rightarrow> string \<Rightarrow> string \<Rightarrow> relation \<Rightarrow> 'p cdb \<Rightarrow> 'p cdb \<Rightarrow> bool" where
  "effective now c action nxt r db db' \<longleftrightarrow>
     find_relation db (c_RelationID c) = Some r \<and> r_revision r = c_Revision c
     \<and> next_state action (c_Role c) (r_state r) = Inr nxt
     \<and> \<not> (nxt = ''confirmed'' \<and> self_confirmation db c r)
     \<and> (\<forall>a \<in> set (audits db). audit_key a \<noteq> (c_RelationID c, c_Revision c + 1, action))
     \<and> relations db' = relations (map_relation (c_RelationID c) (advance now c nxt) db)
     \<and> audits db' = audits db @ map (audit_of c action now) (filter (\<lambda>r. r_id r = c_RelationID c) (relations db'))
     \<and> aliases db' = aliases db
     \<and> (reviews db' = reviews db \<or> (\<exists>a. reviews db' = reviews db @ [a] \<and> as_relation a = c_RelationID c \<and> as_revision a = c_Revision c + 1))"

lemma transition_effective:
  assumes t: "transition env now c action nxt r db = Inr db'"
  shows "relations db' = relations (map_relation (c_RelationID c) (advance now c nxt) db)
    \<and> audits db' = audits db @ map (audit_of c action now) (filter (\<lambda>r. r_id r = c_RelationID c) (relations db'))
    \<and> aliases db' = aliases db
    \<and> (reviews db' = reviews db \<or> (\<exists>a. reviews db' = reviews db @ [a] \<and> as_relation a = c_RelationID c \<and> as_revision a = c_Revision c + 1))"
proof -
  let ?db = "map_relation (c_RelationID c) (advance now c nxt) db"
  let ?audit = "\<lambda>db1. db1\<lparr>audits := audits db1 @ map (audit_of c action now) (filter (\<lambda>r. r_id r = c_RelationID c) (relations db1))\<rparr>"
  obtain db1 where 1: "(case c_Review c of
        Some v \<Rightarrow> recordAssessment env (c_RelationID c) (c_Revision c + 1) (v\<lparr>v_Revision := c_Revision c + 1\<rparr>) ?db
      | None \<Rightarrow> Inr (if retained (r_state r) \<and> nxt \<noteq> ''removed'' then carryCorrectionReview (c_RelationID c) (c_Revision c + 1) ?db else ?db)) = Inr db1"
    and 2: "bind_res (case e_child_outcome (r_ends r) of
         Some i \<Rightarrow> if 0 < i then with_projection (le_chain env (?audit db1) i) (?audit db1) else Inr (?audit db1) | None \<Rightarrow> Inr (?audit db1))
       (\<lambda>db. with_projection (le_refresh env db (c_RelationID c)) db) = Inr db'"
    using t unfolding transition_def Let_def bind_res_Inr_iff by blast
  have "review_added (c_RelationID c) (c_Revision c + 1) ?db db1"
    using 1 by (auto simp: carry_adds review_added_refl split: option.splits if_splits dest: recordAssessment_adds)
  moreover have "\<exists>p. db' = (?audit db1)\<lparr>projection := p\<rparr>"
    using 2 by (auto simp: bind_res_Inr_iff with_projection_Inr split: option.splits if_splits)
  ultimately show ?thesis by (auto simp: review_added_def map_relation_def)
qed

lemma mutateCorrection_cases:
  assumes "mutateCorrection env now c action db = (err, db')"
  shows "(err \<noteq> None \<and> db' = db)
    \<or> (err = None \<and> (\<exists>p a. db' = db\<lparr>projection := p\<rparr> \<and> a \<in> set (audits db)
         \<and> audit_key a = (c_RelationID c, c_Revision c + 1, action) \<and> replay env c a (db\<lparr>projection := p\<rparr>) = Inr db'))
    \<or> (err = None \<and> (\<exists>nxt r p. effective now c action nxt r db db'
         \<and> transition env now c action nxt r (db\<lparr>projection := p\<rparr>) = Inr db'))"
proof (cases err)
  case None
  then obtain p where p: "mutate_tx env now c action (db\<lparr>projection := p\<rparr>) = Inr db'"
    using assms by (auto simp: mutateCorrection_def run_tx_def bind_res_Inr_iff with_projection_Inr split: option.splits sum.splits)
  let ?db = "db\<lparr>projection := p\<rparr>"
  obtain r where r: "find_relation ?db (c_RelationID c) = Some r"
    using p by (auto simp: mutate_tx_def split: option.splits)
  show ?thesis
  proof (cases "filter (\<lambda>a. au_relation a = c_RelationID c \<and> au_revision a = c_Revision c + 1 \<and> au_action a = action) (audits ?db)")
    case (Cons a as)
    then have a: "a \<in> set (audits db)" "audit_key a = (c_RelationID c, c_Revision c + 1, action)"
      using filter_eq_ConsD [OF Cons] by (auto simp: audit_key_def)
    have "replay env c a ?db = Inr db'" using p r Cons by (simp add: mutate_tx_def)
    moreover have "db' = ?db" using calculation
      by (auto simp: replay_def bind_res_Inr_iff split: if_splits option.splits list.splits)
    ultimately show ?thesis using a None by blast
  next
    case Nil
    then have none: "\<forall>a \<in> set (audits db). audit_key a \<noteq> (c_RelationID c, c_Revision c + 1, action)"
      by (auto simp: audit_key_def filter_empty_conv)
    have *: "r_revision r = c_Revision c"
      "\<exists>nxt. next_state action (c_Role c) (r_state r) = Inr nxt \<and> \<not> (nxt = ''confirmed'' \<and> self_confirmation ?db c r)
         \<and> transition env now c action nxt r ?db = Inr db'"
      using p r Nil by (auto simp: mutate_tx_def bind_res_Inr_iff split: if_splits)
    then obtain nxt where n: "next_state action (c_Role c) (r_state r) = Inr nxt"
      "\<not> (nxt = ''confirmed'' \<and> self_confirmation ?db c r)" "transition env now c action nxt r ?db = Inr db'" by blast
    have "effective now c action nxt r db db'"
      using transition_effective [OF n(3)] n(1,2) r * none
      by (simp add: effective_def self_confirmation_def map_relation_def find_relation_def)
    then show ?thesis using None n(3) by blast
  qed
next
  case (Some e)
  then show ?thesis using assms by (auto simp: mutateCorrection_def run_tx_def split: option.splits sum.splits)
qed

section \<open>The invariant of the tables\<close>

definition known_state :: "string \<Rightarrow> bool" where
  "known_state t \<longleftrightarrow> t \<in> set open_states \<or> t = ''withdrawn'' \<or> t = ''removed''"

text \<open>A row of a ledger refers to a relation that has reached its revision.\<close>

definition reached :: "relation list \<Rightarrow> int \<Rightarrow> int \<Rightarrow> bool" where
  "reached rs i n \<longleftrightarrow> list_ex (\<lambda>r. r_id r = i \<and> n \<le> r_revision r) rs"

definition operator_confirmed :: "audit_row list \<Rightarrow> int \<Rightarrow> bool" where
  "operator_confirmed as i \<longleftrightarrow>
     list_ex (\<lambda>a. au_relation a = i \<and> needs_review (au_action a) \<and> au_role a = Some ''operator'') as"

definition lifecycle_inv :: "'p cdb \<Rightarrow> bool" where
  "lifecycle_inv db \<longleftrightarrow>
     distinct (map r_id (relations db))
   \<and> list_all (\<lambda>r. known_state (r_state r) \<and> 1 \<le> r_revision r) (relations db)
   \<and> distinct (map audit_key (audits db))
   \<and> list_all (\<lambda>a. reached (relations db) (au_relation a) (au_revision a)) (audits db)
   \<and> list_all (\<lambda>a. reached (relations db) (as_relation a) (as_revision a)) (reviews db)
   \<and> list_all (\<lambda>r. retained (r_state r) \<longrightarrow> operator_confirmed (audits db) (r_id r)) (relations db)"

lemma find_relation_mem:
  "distinct (map r_id (relations db)) \<Longrightarrow> r \<in> set (relations db) \<Longrightarrow> find_relation db (r_id r) = Some r"
  by (auto simp: find_relation_def find_Some_iff in_set_conv_nth distinct_conv_nth)

lemma reached_map:
  "reached rs i n \<Longrightarrow> (\<And>r. r_id (f r) = r_id r \<and> r_revision r \<le> r_revision (f r)) \<Longrightarrow> reached (map f rs) i n"
  unfolding reached_def list_ex_iff set_map by (metis (no_types, lifting) image_eqI order_trans)

lemma operator_confirmed_append: "operator_confirmed as i \<Longrightarrow> operator_confirmed (as @ bs) i"
  by (auto simp: operator_confirmed_def)

lemmas inv_simps = lifecycle_inv_def list_all_iff list_ex_iff

lemma next_state_known: "next_state action role t = Inr nxt \<Longrightarrow> known_state nxt"
  by (auto simp: next_state_def known_state_def open_states_def Let_def split: if_splits)

lemma next_state_open: "next_state action role t = Inr nxt \<Longrightarrow> \<not> terminal t"
  by (auto simp: next_state_def terminal_def Let_def retained_def split: if_splits)

lemma next_state_retained:
  "next_state action role t = Inr nxt \<Longrightarrow> retained nxt \<Longrightarrow> retained t \<or> needs_review action \<and> role = ''operator''"
  by (auto simp: next_state_def retained_def needs_review_def Let_def split: if_splits)

lemma next_state_confirmed:
  "next_state action role t = Inr ''confirmed'' \<Longrightarrow>
   role = ''operator'' \<and> action \<in> {''confirm'', ''settle-uphold'', ''settle-re-assess''}"
  by (auto simp: next_state_def Let_def split: if_splits)

lemma filter_unique:
  "distinct (map f xs) \<Longrightarrow> x \<in> set xs \<Longrightarrow> filter (\<lambda>y. f y = f x) xs = [x]"
  by (induction xs) (auto simp: filter_empty_conv, metis imageI)

text \<open>The one audit row an effective command writes.\<close>

lemma effective_audit:
  assumes inv: "distinct (map r_id (relations db))" and e: "effective now c action nxt r db db'"
  shows "audits db' = audits db @ [audit_of c action now (advance now c nxt r)]"
    "relations db' = map (\<lambda>r. if r_id r = c_RelationID c then advance now c nxt r else r) (relations db)"
    "r \<in> set (relations db)" "r_id r = c_RelationID c"
proof -
  let ?f = "\<lambda>r. if r_id r = c_RelationID c then advance now c nxt r else r"
  show r: "r \<in> set (relations db)" "r_id r = c_RelationID c"
    using e by (auto simp: effective_def dest: find_relation_Some)
  show m: "relations db' = map ?f (relations db)" using e by (simp add: effective_def map_relation_def)
  have ids: "map r_id (map ?f (relations db)) = map r_id (relations db)" by simp
  have "filter (\<lambda>x. r_id x = r_id (?f r)) (map ?f (relations db)) = [?f r]"
    by (rule filter_unique) (use inv ids r in \<open>auto simp del: map_map\<close>)
  then have "filter (\<lambda>x. r_id x = c_RelationID c) (map ?f (relations db)) = [advance now c nxt r]" using r by simp
  then show "audits db' = audits db @ [audit_of c action now (advance now c nxt r)]"
    using e m by (simp add: effective_def)
qed

lemma effective_inv:
  assumes inv: "lifecycle_inv db" and e: "effective now c action nxt r db db'"
  shows "lifecycle_inv db'"
proof -
  let ?f = "\<lambda>r. if r_id r = c_RelationID c then advance now c nxt r else r"
  note d = inv [unfolded lifecycle_inv_def, THEN conjunct1]
  note E = effective_audit [OF d e]
  note [simp] = E(1,2)
  have rev: "r_revision r = c_Revision c" and n: "next_state action (c_Role c) (r_state r) = Inr nxt"
    and key: "\<forall>a \<in> set (audits db). audit_key a \<noteq> (c_RelationID c, c_Revision c + 1, action)"
    using e by (auto simp: effective_def)
  have grown: "reached (relations db) i k \<Longrightarrow> reached (map ?f (relations db)) i k" for i k
    by (erule reached_map) simp
  have here: "reached (map ?f (relations db)) (c_RelationID c) (c_Revision c + 1)"
    unfolding reached_def list_ex_iff set_map using imageI [OF E(3), of ?f] E(4) rev by (intro bexI [of _ "?f r"]) simp_all
  have 1: "distinct (map r_id (relations db'))"
    using inv by (simp add: lifecycle_inv_def o_def if_distrib cong: if_cong map_cong)
  have 2: "list_all (\<lambda>r. known_state (r_state r) \<and> 1 \<le> r_revision r) (relations db')"
    using inv next_state_known [OF n] by (auto simp: inv_simps)
  have 3: "distinct (map audit_key (audits db'))"
    using inv key E(4) rev by (auto simp: lifecycle_inv_def audit_key_def audit_of_def)
  have 4: "list_all (\<lambda>a. reached (relations db') (au_relation a) (au_revision a)) (audits db')"
    using inv here rev E(4) by (auto simp: inv_simps grown audit_of_def)
  have revs: "reviews db' = reviews db \<or> (\<exists>a. reviews db' = reviews db @ [a] \<and> as_relation a = c_RelationID c \<and> as_revision a = c_Revision c + 1)"
    using e by (simp add: effective_def)
  have 5: "list_all (\<lambda>a. reached (relations db') (as_relation a) (as_revision a)) (reviews db')"
    using revs inv here by (auto simp: inv_simps grown)
  have op: "operator_confirmed (audits db') (r_id x)" if x: "x \<in> set (relations db)" "retained (r_state (?f x))" for x
  proof (cases "retained (r_state x)")
    case True
    then show ?thesis using inv x by (auto simp: inv_simps intro!: operator_confirmed_append)
  next
    case False
    then have xi: "r_id x = c_RelationID c" "retained nxt" using x by (auto split: if_splits)
    then have "x = r" using x(1) E(3,4) d by (metis find_relation_mem option.inject)
    then have "needs_review action \<and> c_Role c = ''operator''" using False next_state_retained [OF n xi(2)] by simp
    then show ?thesis using xi E(4) by (auto simp: operator_confirmed_def audit_of_def)
  qed
  have 6: "list_all (\<lambda>r. retained (r_state r) \<longrightarrow> operator_confirmed (audits db') (r_id r)) (relations db')"
    unfolding list_all_iff E(2) set_map
  proof (intro ballI impI)
    fix y assume "y \<in> ?f ` set (relations db)" "retained (r_state y)"
    then obtain x where x: "x \<in> set (relations db)" "y = ?f x" "retained (r_state (?f x))" by (elim imageE) (simp only:)
    have "r_id y = r_id x" unfolding x(2) by simp
    then show "operator_confirmed (audits db') (r_id y)" using op [OF x(1,3)] by (simp only:)
  qed
  show ?thesis unfolding lifecycle_inv_def using 1 2 3 4 5 6 by blast
qed

lemma review_added_inv:
  assumes "lifecycle_inv db" "review_added rel rv db db'" "reached (relations db) rel rv"
  shows "lifecycle_inv db'"
  using assms by (auto simp: lifecycle_inv_def review_added_def)

lemma projection_inv [simp]: "lifecycle_inv (db\<lparr>projection := p\<rparr>) = lifecycle_inv db"
  by (simp add: lifecycle_inv_def)

section \<open>Reconciliation\<close>

lemma carry_inv:
  assumes inv: "lifecycle_inv db" and r: "find_relation db i = Some r"
  shows "lifecycle_inv (carryCorrectionReview i (r_revision r) db)"
proof -
  have "reached (relations db) i (r_revision r)"
    using find_relation_Some [OF r] by (auto simp: reached_def list_ex_iff)
  then show ?thesis by (rule review_added_inv [OF inv carry_adds])
qed

lemma carry_changed_tables:
  "relations (carry_changed prior db) = relations db \<and> audits (carry_changed prior db) = audits db
   \<and> (lifecycle_inv db \<longrightarrow> lifecycle_inv (carry_changed prior db))"
  unfolding carry_changed_def
proof (induction prior arbitrary: db)
  case (Cons r prior)
  show ?case
  proof (cases "find_relation db (r_id r)")
    case None
    then show ?thesis using Cons.IH [of db] by simp
  next
    case (Some cur)
    let ?db = "carryCorrectionReview (r_id r) (r_revision cur) db"
    have "relations ?db = relations db \<and> audits ?db = audits db"
      using carry_adds [of "r_id r" "r_revision cur" db] by (simp add: review_added_def)
    then show ?thesis
      using Some Cons.IH [of db] Cons.IH [of ?db] carry_inv [OF _ Some] by simp
  qed
qed simp

lemma reconciled_state_known: "known_state (r_state r) \<Longrightarrow> known_state (reconciled_state r v)"
  by (auto simp: reconciled_state_def known_state_def open_states_def)

lemma reconciled_state_retained: "retained (reconciled_state r v) \<Longrightarrow> retained (r_state r)"
  by (auto simp: reconciled_state_def retained_def protected_state_def split: if_splits)

lemma reconcile_row_simps [simp]:
  "r_id (reconcile_row now au v r) = r_id r"
  "r_revision r \<le> r_revision (reconcile_row now au v r)"
  "r_state (reconcile_row now au v r) = reconciled_state r v"
  by (auto simp: reconcile_row_def Let_def)

lemma reconcile_rows_inv:
  assumes inv: "lifecycle_inv db"
  shows "lifecycle_inv (reconcile_rows now ev repo pr db)"
proof -
  let ?f = "\<lambda>r. if touches repo pr r \<and> reconcilable r then reconcile_row now (has_audit db (r_id r)) (ev (r_id r)) r else r"
  have ids: "map r_id (map ?f (relations db)) = map r_id (relations db)" by simp
  have grown: "reached (relations db) i k \<Longrightarrow> reached (map ?f (relations db)) i k" for i k
    by (erule reached_map) simp
  have "list_all (\<lambda>r. known_state (r_state r) \<and> 1 \<le> r_revision r) (map ?f (relations db))"
    using inv order_trans [OF _ reconcile_row_simps(2)] by (auto simp: inv_simps reconciled_state_known)
  moreover have "list_all (\<lambda>r. retained (r_state r) \<longrightarrow> operator_confirmed (audits db) (r_id r)) (map ?f (relations db))"
    using inv reconciled_state_retained by (fastforce simp: inv_simps)
  moreover have "list_all (\<lambda>a. reached (map ?f (relations db)) (au_relation a) (au_revision a)) (audits db)"
    "list_all (\<lambda>a. reached (map ?f (relations db)) (as_relation a) (as_revision a)) (reviews db)"
    using inv grown by (auto simp only: lifecycle_inv_def list_all_iff)
  moreover have "distinct (map r_id (map ?f (relations db)))" "distinct (map audit_key (audits db))"
    using inv unfolding lifecycle_inv_def by (simp_all only: ids)
  moreover have "relations (reconcile_rows now ev repo pr db) = map ?f (relations db)"
    "audits (reconcile_rows now ev repo pr db) = audits db" "reviews (reconcile_rows now ev repo pr db) = reviews db"
    by (simp_all add: reconcile_rows_def)
  ultimately show ?thesis unfolding lifecycle_inv_def by presburger
qed

lemma add_audits_keys:
  "distinct (map audit_key as) \<Longrightarrow> distinct (map audit_key (foldl add_audit as xs))
   \<and> (\<exists>ys. foldl add_audit as xs = as @ ys \<and> set ys \<subseteq> set xs)"
proof (induction xs arbitrary: as)
  case (Cons x xs)
  have "distinct (map audit_key (add_audit as x))" using Cons.prems by (auto simp: add_audit_def)
  from Cons.IH [OF this] obtain ys where "foldl add_audit as (x # xs) = add_audit as x @ ys" "set ys \<subseteq> set xs"
    "distinct (map audit_key (foldl add_audit as (x # xs)))" by auto
  moreover obtain zs where "add_audit as x = as @ zs" "set zs \<subseteq> {x}" by (cases "audit_key x \<in> audit_key ` set as") (auto simp: add_audit_def)
  ultimately show ?case by (intro conjI exI [of _ "zs @ ys"]) auto
qed simp

lemma audit_reconciled_inv:
  assumes inv: "lifecycle_inv db"
  shows "lifecycle_inv (audit_reconciled now repo pr db)"
proof -
  let ?rs = "filter (\<lambda>r. touches repo pr r \<and> e_child_repo (r_ends r) \<noteq> None \<and> e_parent_repo (r_ends r) \<noteq> None
     \<and> r_state r \<in> set open_states) (relations db)"
  obtain ys where ys: "foldl add_audit (audits db) (map (system_audit now) ?rs) = audits db @ ys"
      "set ys \<subseteq> system_audit now ` set (relations db)"
      and d: "distinct (map audit_key (foldl add_audit (audits db) (map (system_audit now) ?rs)))"
  proof -
    have "distinct (map audit_key (audits db))" using inv by (simp add: lifecycle_inv_def)
    from add_audits_keys [OF this, of "map (system_audit now) ?rs"]
    obtain ys where "foldl add_audit (audits db) (map (system_audit now) ?rs) = audits db @ ys"
      "set ys \<subseteq> set (map (system_audit now) ?rs)" "distinct (map audit_key (foldl add_audit (audits db) (map (system_audit now) ?rs)))" by blast
    moreover have "set (map (system_audit now) ?rs) \<subseteq> system_audit now ` set (relations db)" by auto
    ultimately show ?thesis using that by blast
  qed
  have "reached (relations db) (au_relation a) (au_revision a)" if "a \<in> set ys" for a
  proof -
    have "a \<in> system_audit now ` set (relations db)" using ys(2) that by (rule subsetD)
    then obtain r where "r \<in> set (relations db)" "a = system_audit now r" by (elim imageE)
    then show ?thesis by (auto simp: system_audit_def Let_def reached_def list_ex_iff)
  qed
  then have "list_all (\<lambda>a. reached (relations db) (au_relation a) (au_revision a)) (audits db @ ys)"
    using inv by (auto simp: inv_simps)
  moreover have "list_all (\<lambda>r. retained (r_state r) \<longrightarrow> operator_confirmed (audits db @ ys) (r_id r)) (relations db)"
    using inv by (auto simp: lifecycle_inv_def list_all_iff intro: operator_confirmed_append)
  moreover have "relations (audit_reconciled now repo pr db) = relations db"
    "audits (audit_reconciled now repo pr db) = audits db @ ys" "reviews (audit_reconciled now repo pr db) = reviews db"
    unfolding audit_reconciled_def ys(1) by simp_all
  moreover have "distinct (map audit_key (audits db @ ys))" using d by (simp only: ys(1))
  ultimately show ?thesis using inv unfolding lifecycle_inv_def by presburger
qed

lemma reconcile_inv:
  assumes inv: "lifecycle_inv db" and e: "reconcileCorrectionRelations recompute now ev repo pr db = Inr db'"
  shows "lifecycle_inv db'"
proof -
  let ?db = "carry_changed (filter (touches repo pr) (relations db)) (reconcile_rows now ev repo pr db)"
  have "lifecycle_inv ?db" using carry_changed_tables reconcile_rows_inv [OF inv] by blast
  moreover obtain p where "db' = audit_reconciled now repo pr (?db\<lparr>projection := p\<rparr>)"
    using e by (auto simp: reconcileCorrectionRelations_def Let_def bind_res_Inr_iff with_projection_Inr)
  ultimately show ?thesis by (simp add: audit_reconciled_inv)
qed

section \<open>Steps\<close>

lemma declared_inv:
  assumes inv: "lifecycle_inv db" and "i \<notin> r_id ` set (relations db)"
  shows "lifecycle_inv (db\<lparr>relations := relations db @ [new_relation i now support e]\<rparr>)"
  using assms by (auto simp: inv_simps new_relation_def known_state_def open_states_def retained_def reached_def)

lemma assessed_cases:
  assumes "RecordCorrectionAssessment env rel e v db = (err, db')"
  shows "db' = db \<or> (\<exists>p db1. review_added rel e (db\<lparr>projection := p\<rparr>) db1 \<and> (\<exists>r. find_relation db rel = Some r \<and> r_revision r = e)
    \<and> (\<exists>p. db' = db1\<lparr>projection := p\<rparr>))"
proof (cases "db' = db")
  case False
  then obtain p db1 where "recordAssessment env rel e v (db\<lparr>projection := p\<rparr>) = Inr db1" "\<exists>p. db' = db1\<lparr>projection := p\<rparr>"
    using assms by (auto simp: RecordCorrectionAssessment_def run_tx_def bind_res_Inr_iff with_projection_Inr
        split: option.splits if_splits sum.splits)
  then show ?thesis using recordAssessment_adds find_relation_cong [of "db\<lparr>projection := p\<rparr>" db] by fastforce
qed simp

lemma step_inv:
  assumes "lifecycle_step env db db'" "lifecycle_inv db"
  shows "lifecycle_inv db'"
  using assms
proof (cases rule: lifecycle_step.cases)
  case (declared i now support e)
  then show ?thesis using declared_inv [OF assms(2)] by simp
next
  case (commanded now c action err)
  then show ?thesis using mutateCorrection_cases [OF commanded] assms(2) by (auto dest: effective_inv)
next
  case (assessed rel expected v err)
  from assessed_cases [OF this] show ?thesis
  proof (elim disjE exE conjE)
    fix p db1 r p' assume *: "review_added rel expected (db\<lparr>projection := p\<rparr>) db1" "find_relation db rel = Some r"
      "r_revision r = expected" "db' = db1\<lparr>projection := p'\<rparr>"
    have "reached (relations db) rel expected"
      using find_relation_Some [OF *(2)] *(3) by (auto simp: reached_def list_ex_iff)
    then have "lifecycle_inv db1" using review_added_inv [OF _ *(1)] assms(2) by simp
    then show ?thesis using *(4) by simp
  qed (use assms(2) in simp)
next
  case (reconciled recompute now ev repo pr)
  then show ?thesis using reconcile_inv [OF assms(2)] by simp
qed

lemma run_inv: "lifecycle_run env db db' \<Longrightarrow> lifecycle_inv db \<Longrightarrow> lifecycle_inv db'"
  by (induction rule: lifecycle_run.induct) (auto dest: step_inv)

lemma empty_inv: "lifecycle_inv (empty_db al p)"
  by (simp add: lifecycle_inv_def empty_db_def)

section \<open>Settled relations are final\<close>

lemma reconcile_relations:
  assumes "reconcileCorrectionRelations recompute now ev repo pr db = Inr db'"
  shows "find_relation db' i = map_option (\<lambda>r. if touches repo pr r \<and> reconcilable r
      then reconcile_row now (has_audit db (r_id r)) (ev (r_id r)) r else r) (find_relation db i)"
proof -
  have "relations db' = relations (reconcile_rows now ev repo pr db)"
    using assms by (auto simp: reconcileCorrectionRelations_def Let_def bind_res_Inr_iff with_projection_Inr
        audit_reconciled_def carry_changed_tables)
  then show ?thesis by (simp add: find_relation_def reconcile_rows_def find_map_same)
qed

lemma effective_find:
  assumes "effective now c action nxt r db db'"
  shows "find_relation db' i = map_option (\<lambda>r. if i = c_RelationID c then advance now c nxt r else r) (find_relation db i)"
proof -
  have "find_relation db' i = find_relation (map_relation (c_RelationID c) (advance now c nxt) db) i"
    by (rule find_relation_cong) (use assms in \<open>simp add: effective_def\<close>)
  then show ?thesis by (simp add: find_map_relation)
qed

lemma assessed_relations: "RecordCorrectionAssessment env rel e v db = (err, db') \<Longrightarrow> find_relation db' i = find_relation db i"
  by (rule find_relation_cong) (auto dest!: assessed_cases simp: review_added_def)

lemma step_final:
  assumes step: "lifecycle_step env db db'" and r: "find_relation db i = Some r" "terminal (r_state r)"
  shows "find_relation db' i = Some r"
  using step
proof (cases rule: lifecycle_step.cases)
  case (declared j now support e)
  then show ?thesis using r(1) by (simp add: find_relation_def find_append_Some)
next
  case (commanded now c action err)
  have "c_RelationID c \<noteq> i" if "effective now c action nxt x db db'" for nxt x
    using that r next_state_open by (auto simp: effective_def)
  moreover have "find_relation (db\<lparr>projection := p\<rparr>) i = Some r" for p using r(1) by (simp add: find_relation_def)
  ultimately show ?thesis using mutateCorrection_cases [OF commanded] r(1) effective_find [of now c action _ _ db db' i]
    by fastforce
next
  case (assessed rel expected v err)
  then show ?thesis using assessed_relations r(1) by metis
next
  case (reconciled recompute now ev repo pr)
  have "\<not> reconcilable r" using r(2) by (auto simp: reconcilable_def terminal_def open_states_def)
  then show ?thesis using reconcile_relations [OF reconciled, of i] r(1) by simp
qed

text \<open>C11. A settled relation is final apart from the erasure of a developer, which these runs leave out:
  along every sequence of declarations, commands, assessments and reconciliations with late evidence, the
  row of a relation that was withdrawn, removed or found unrelated does not change.\<close>

theorem settled_is_final:
  assumes "lifecycle_run env db db'" "find_relation db i = Some r" "terminal (r_state r)"
  shows "find_relation db' i = Some r"
  using assms by (induction rule: lifecycle_run.induct) (auto intro: step_final)

text \<open>C7. The tables stay consistent along every run from the empty store: relation ids are distinct,
  every state is one of the nine the code writes and every revision positive, no two audit rows share a
  relation, revision and action, every audit row and review belongs to a relation that has reached its
  revision, and a relation in a retained state was confirmed by an operator's audited command.\<close>

theorem lifecycle_consistent:
  assumes "lifecycle_run env (empty_db al p) db"
  shows "lifecycle_inv db"
  by (rule run_inv [OF assms empty_inv])

section \<open>Revisions\<close>

lemma not_reached:
  assumes "lifecycle_inv db" "find_relation db i = Some r" "r_revision r < n"
  shows "\<not> reached (relations db) i n"
proof
  assume "reached (relations db) i n"
  then obtain x where x: "x \<in> set (relations db)" "r_id x = i" "n \<le> r_revision x" by (auto simp: reached_def list_ex_iff)
  then have "find_relation db i = Some x" using assms(1) find_relation_mem by (auto simp: lifecycle_inv_def)
  then show False using assms x by simp
qed

lemma no_audit_yet:
  assumes "lifecycle_inv db" "find_relation db i = Some r" "r_revision r < n" "a \<in> set (audits db)"
  shows "audit_key a \<noteq> (i, n, action)"
  using not_reached [OF assms(1-3)] assms(1,4) by (auto simp: audit_key_def lifecycle_inv_def list_all_iff)

text \<open>C9. A relation becomes confirmed only through a confirmation or a settlement by an operator
  whose canonical identity, compared without case, is not that of the developer who declared it;
  reconciliation with late evidence never confirms.\<close>

theorem confirmed_by_another_operator:
  assumes step: "lifecycle_step env db db'"
    and r: "find_relation db i = Some r" "find_relation db' i = Some r'" "r_state r \<noteq> ''confirmed''" "r_state r' = ''confirmed''"
  shows "\<exists>now c action. mutateCorrection env now c action db = (None, db') \<and> c_RelationID c = i
    \<and> c_Role c = ''operator'' \<and> action \<in> {''confirm'', ''settle-uphold'', ''settle-re-assess''}
    \<and> \<not> equal_fold (canonicalCorrectionIdentity (aliases db) (c_Actor c))
          (canonicalCorrectionIdentity (aliases db) (the_default [] (e_child_developer (r_ends r))))"
  using step
proof (cases rule: lifecycle_step.cases)
  case (declared j now support e)
  then show ?thesis using r by (simp add: find_relation_def find_append_Some)
next
  case (commanded now c action err)
  have same: "find_relation (db\<lparr>projection := p\<rparr>) i = find_relation db i" for p by (rule find_relation_cong) simp
  from mutateCorrection_cases [OF commanded] same r obtain nxt x
    where n: "err = None" and e: "effective now c action nxt x db db'" by auto
  then have ci: "c_RelationID c = i" "nxt = ''confirmed''" using effective_find [OF e, of i] r by (auto split: if_splits)
  then show ?thesis using commanded n e r(1) next_state_confirmed [of action "c_Role c" "r_state x"]
    by (auto simp: effective_def self_confirmation_def)
next
  case (assessed rel expected v err)
  then show ?thesis using assessed_relations r by (metis option.inject)
next
  case (reconciled recompute now ev repo pr)
  have "reconciled_state r v \<noteq> ''confirmed''" for v
    using r(3) by (auto simp: reconciled_state_def split: if_splits)
  then show ?thesis using reconcile_relations [OF reconciled, of i] r by (auto split: if_splits)
qed

section \<open>Retries\<close>

lemma decode_nullable:
  "reads_fractions rd \<Longrightarrow> nullableRat x = Inr s \<Longrightarrow> decodeNullable rd s = Inr x"
  by (auto simp: nullableRat_def decodeNullable_def decode_iff_encode [THEN iffD2] split: option.splits sum.split_asm)

lemma all_res_map4:
  "all_res (map f [a, b, c, d]) = Inr xs \<longleftrightarrow>
   (\<exists>p q r s. f a = Inr p \<and> f b = Inr q \<and> f c = Inr r \<and> f d = Inr s \<and> xs = [p, q, r, s])"
  by (auto simp: bind_res_Inr_iff)

text \<open>A stored review reads back as it was recorded.\<close>

lemma review_roundtrip:
  assumes "reads_fractions rd" "Review_Validate v = None" "all_res (map nullableRat (sizes_of v)) = Inr sizes"
    and "v_Revision v = rv"
  shows "reviewFromRow rd (assessment_of rel rv child sizes v) = Inr v"
proof -
  obtain p q r s where s: "sizes = [p, q, r, s]" "nullableRat (v_Original v) = Inr p" "nullableRat (v_Own v) = Inr q"
      "nullableRat (v_Before v) = Inr r" "nullableRat (v_After v) = Inr s"
    using assms(3) unfolding sizes_of_def all_res_map4 by blast
  have "\<lparr>v_Original = v_Original v, v_Own = v_Own v, v_Before = v_Before v, v_After = v_After v,
      v_PureRepair = v_PureRepair v, v_Scope = v_Scope v, v_Rationale = v_Rationale v, v_Reviewer = v_Reviewer v,
      v_ReviewedAt = v_ReviewedAt v, v_Revision = rv, v_ComparisonBase = v_ComparisonBase v,
      v_ComparisonBefore = v_ComparisonBefore v, v_ComparisonAfter = v_ComparisonAfter v\<rparr> = v"
    using assms(4) by (cases v) simp
  then show ?thesis
    using assms(2) s(1) s(2-) [THEN decode_nullable [OF assms(1)]] by (simp add: reviewFromRow_def assessment_of_def)
qed

lemma recordAssessment_fresh:
  assumes "recordAssessment env rel e v db = Inr db'" "\<forall>a \<in> set (reviews db). as_relation a = rel \<longrightarrow> as_revision a \<noteq> e"
  shows "\<exists>child sizes. reviews db' = reviews db @ [assessment_of rel e (Some child) sizes v]
    \<and> all_res (map nullableRat (sizes_of v)) = Inr sizes"
proof -
  obtain r child where r: "find_relation db rel = Some r" "r_revision r = e" "e_child_outcome (r_ends r) = Some child"
    using assms(1) by (auto simp: recordAssessment_def split: option.splits if_splits)
  then have "filter (\<lambda>a. as_relation a = rel \<and> as_revision a = r_revision r \<and> as_participant a = Some child) (reviews db) = []"
    using assms(2) by (auto simp: filter_empty_conv)
  then obtain sizes where "all_res (map nullableRat (sizes_of v)) = Inr sizes"
      "db' = db\<lparr>reviews := reviews db @ [assessment_of rel (r_revision r) (Some child) sizes v]\<rparr>"
    using assms(1) r by (auto simp: recordAssessment_def bind_res_Inr_iff split: if_splits)
  then show ?thesis using r(2) by (intro exI [of _ child] exI [of _ sizes]) simp
qed

lemma transition_review:
  assumes "transition env now c action nxt r db = Inr db'" "c_Review c = Some v"
  shows "\<exists>db1. recordAssessment env (c_RelationID c) (c_Revision c + 1) (v\<lparr>v_Revision := c_Revision c + 1\<rparr>)
      (map_relation (c_RelationID c) (advance now c nxt) db) = Inr db1 \<and> reviews db' = reviews db1"
  using assms by (fastforce simp: transition_def Let_def bind_res_Inr_iff with_projection_Inr split: option.splits if_splits)

lemma Review_Validate_revision:
  "Review_Validate v = None \<Longrightarrow> 0 < n \<Longrightarrow> Review_Validate (v\<lparr>v_Revision := n\<rparr>) = None"
  by (auto simp: Review_Validate_def split: if_splits)

lemma the_filter:
  "distinct (map f xs) \<Longrightarrow> x \<in> set xs \<Longrightarrow> f x = k \<Longrightarrow> filter (\<lambda>y. f y = k) xs = [x]"
  using filter_unique [of f xs x] by simp

lemma audit_filter:
  "filter (\<lambda>a. au_relation a = i \<and> au_revision a = n \<and> au_action a = t) as = filter (\<lambda>a. audit_key a = (i, n, t)) as"
  by (simp add: audit_key_def)

text \<open>A command whose audit row is there replays it.\<close>

lemma replay_applies:
  assumes inv: "lifecycle_inv db" and a: "a \<in> set (audits db)" "audit_key a = (c_RelationID c, c_Revision c + 1, action)"
    and r: "find_relation db (c_RelationID c) = Some r"
    and ok: "command_error c action = None" "le_prepare env db = Inr p"
    and rep: "replay env c a (db\<lparr>projection := p\<rparr>) = Inr (db\<lparr>projection := p\<rparr>)"
  shows "mutateCorrection env now c action db = (None, db\<lparr>projection := p\<rparr>)"
proof -
  have "filter (\<lambda>a. audit_key a = (c_RelationID c, c_Revision c + 1, action)) (audits db) = [a]"
    using inv a by (intro the_filter) (simp_all add: lifecycle_inv_def)
  then show ?thesis using r ok rep
    by (simp add: mutateCorrection_def mutate_tx_def run_tx_def with_projection_def audit_filter find_relation_def)
qed

lemma find_command:
  assumes "mutateCorrection env now c action db = (None, db')"
  shows "\<exists>r. find_relation db' (c_RelationID c) = Some r"
proof -
  obtain r p where "find_relation (db\<lparr>projection := p\<rparr>) (c_RelationID c) = Some r"
    using assms by (auto simp: mutateCorrection_def mutate_tx_def run_tx_def bind_res_Inr_iff with_projection_Inr
        split: option.splits sum.splits)
  then have "find_relation db (c_RelationID c) = Some r" by (simp add: find_relation_def)
  then show ?thesis using mutateCorrection_cases [OF assms] effective_find [of now c action _ _ db db' "c_RelationID c"]
    by (fastforce simp: find_relation_def)
qed

lemma replay_projection:
  "replay env c a (db\<lparr>projection := p\<rparr>) = Inr (db\<lparr>projection := p\<rparr>) \<Longrightarrow> replay env c a (db\<lparr>projection := q\<rparr>) = Inr (db\<lparr>projection := q\<rparr>)"
  by (auto simp: replay_def bind_res_Inr_iff split: option.splits list.splits if_splits)

text \<open>The review recorded by a command is the only one of its revision, and reads back as sent.\<close>

lemma own_review_row:
  assumes inv: "lifecycle_inv db" and rd: "reads_fractions (le_setString env)"
    and ok: "command_error c action = None" and e: "effective now c action nxt r db db1"
    and t: "transition env now c action nxt r (db\<lparr>projection := p\<rparr>) = Inr db1"
    and v: "c_Review c = Some v"
  shows "\<exists>row w. filter (\<lambda>x. as_relation x = c_RelationID c \<and> as_revision x = c_Revision c + 1) (reviews db1) = [row]
    \<and> reviewFromRow (le_setString env) row = Inr w \<and> w\<lparr>v_Revision := c_Revision c\<rparr> = v"
proof -
  let ?v = "v\<lparr>v_Revision := c_Revision c + 1\<rparr>"
  have r: "find_relation db (c_RelationID c) = Some r" "r_revision r = c_Revision c" using e by (auto simp: effective_def)
  have pos: "0 < c_Revision c" and valid: "Review_Validate v = None" "v_Revision v = c_Revision c"
    using ok v by (auto simp: command_error_def split: if_splits option.splits)
  have fresh: "\<forall>a \<in> set (reviews db). as_relation a = c_RelationID c \<longrightarrow> as_revision a \<noteq> c_Revision c + 1"
    using not_reached [OF inv r(1), of "c_Revision c + 1"] r(2) inv by (auto simp: lifecycle_inv_def list_all_iff)
  obtain db2 where 2: "recordAssessment env (c_RelationID c) (c_Revision c + 1) ?v
      (map_relation (c_RelationID c) (advance now c nxt) (db\<lparr>projection := p\<rparr>)) = Inr db2" "reviews db1 = reviews db2"
    using transition_review [OF t v] by blast
  have "reviews (map_relation (c_RelationID c) (advance now c nxt) (db\<lparr>projection := p\<rparr>)) = reviews db"
    by (simp add: map_relation_def)
  then obtain child sizes where new: "reviews db1 = reviews db @ [assessment_of (c_RelationID c) (c_Revision c + 1) (Some child) sizes ?v]"
      and sizes: "all_res (map nullableRat (sizes_of ?v)) = Inr sizes"
    using recordAssessment_fresh [OF 2(1)] fresh 2(2) by auto
  let ?row = "assessment_of (c_RelationID c) (c_Revision c + 1) (Some child) sizes ?v"
  have rows: "filter (\<lambda>x. as_relation x = c_RelationID c \<and> as_revision x = c_Revision c + 1) (reviews db1) = [?row]"
    using fresh by (auto simp: new filter_empty_conv assessment_of_def)
  have row: "reviewFromRow (le_setString env) ?row = Inr ?v"
    using rd Review_Validate_revision [OF valid(1)] pos sizes by (intro review_roundtrip) auto
  have "?v\<lparr>v_Revision := c_Revision c\<rparr> = v" using valid(2) by (cases v) simp
  with rows row show ?thesis by blast
qed

text \<open>So a command replays the audit row of another exactly when the two are the same.\<close>

lemma replay_own_iff:
  assumes inv: "lifecycle_inv db" and rd: "reads_fractions (le_setString env)"
    and ok: "command_error c action = None" "command_error d action = None"
    and e: "effective now c action nxt r db db1"
    and t: "transition env now c action nxt r (db\<lparr>projection := p\<rparr>) = Inr db1"
    and d: "c_RelationID d = c_RelationID c" "c_Revision d = c_Revision c"
  shows "replay env d (audit_of c action now (advance now c nxt r)) (db1\<lparr>projection := q\<rparr>) = Inr db2
    \<longleftrightarrow> d = c \<and> db2 = db1\<lparr>projection := q\<rparr>"
proof (cases "c_Review c")
  case None
  then have "c_Review d = None"
    using ok by (auto simp: command_error_def split: if_splits option.splits)
  with None show ?thesis using d by (cases c; cases d) (auto simp: replay_def audit_of_def the_default_def)
next
  case (Some v)
  then obtain w where w: "c_Review d = Some w"
    using ok by (auto simp: command_error_def split: if_splits option.splits)
  from own_review_row [OF inv rd ok(1) e t Some] obtain row x
    where "filter (\<lambda>x. as_relation x = c_RelationID c \<and> as_revision x = c_Revision c + 1) (reviews db1) = [row]"
      "reviewFromRow (le_setString env) row = Inr x" "x\<lparr>v_Revision := c_Revision c\<rparr> = v"
    by blast
  then show ?thesis using Some w d
    by (cases c; cases d) (auto simp: replay_def audit_of_def the_default_def reviewsEqual_def)
qed

section \<open>Spent revisions\<close>

lemma spent_revision:
  assumes inv: "lifecycle_inv db" and rd: "reads_fractions (le_setString env)"
    and ok: "mutateCorrection env now c action db = (None, db1)"
    and r: "find_relation db (c_RelationID c) = Some r" "r_revision r = c_Revision c"
    and d: "c_RelationID d = c_RelationID c" "c_Revision d = c_Revision c"
    and diff: "(action', d) \<noteq> (action, c)"
  shows "\<exists>e. mutateCorrection env later d action' db1 = (Some e, db1)"
proof -
  have err: "command_error c action = None" using ok by (auto simp: mutateCorrection_def split: option.splits)
  obtain nxt p where e: "effective now c action nxt r db db1"
    and t: "transition env now c action nxt r (db\<lparr>projection := p\<rparr>) = Inr db1"
    using mutateCorrection_cases [OF ok] no_audit_yet [OF inv r(1)] r by (fastforce simp: effective_def)
  obtain err' db2 where 2: "mutateCorrection env later d action' db1 = (err', db2)" by fastforce
  have audits: "audits db1 = audits db @ [audit_of c action now (advance now c nxt r)]"
    using inv e by (auto simp: lifecycle_inv_def effective_audit)
  have "\<not> effective later d action' n x db1 db2" for n x
    using effective_find [OF e, of "c_RelationID c"] r d by (auto simp: effective_def)
  moreover have "audit_key a \<noteq> (c_RelationID d, c_Revision d + 1, action') \<or> replay env d a (db1\<lparr>projection := q\<rparr>) \<noteq> Inr y"
    if "a \<in> set (audits db1)" "err' = None" for a q y
  proof (cases "a \<in> set (audits db)")
    case True
    then show ?thesis using no_audit_yet [OF inv r(1), of "c_Revision d + 1"] r(2) d by simp
  next
    case False
    then have a: "a = audit_of c action now (advance now c nxt r)" using that audits by simp
    have "command_error d action' = None" using 2 that(2) by (auto simp: mutateCorrection_def split: option.splits)
    then show ?thesis using diff replay_own_iff [OF inv rd err _ e t d, of q y]
      by (auto simp: a audit_key_def audit_of_def)
  qed
  ultimately show ?thesis using mutateCorrection_cases [OF 2] 2 by auto
qed

text \<open>C8. Optimistic locking: once a command has been applied at a revision of a relation, every
  other command at that revision is refused and leaves the store as it is, whether it differs in
  its action, actor, role, reason or reviewed sizing.\<close>

theorem revision_is_spent:
  assumes "lifecycle_run env (empty_db al p) db" "reads_fractions (le_setString env)"
    and "mutateCorrection env now c action db = (None, db1)"
    and "find_relation db (c_RelationID c) = Some r" "r_revision r = c_Revision c"
    and "c_RelationID d = c_RelationID c" "c_Revision d = c_Revision c" "(action', d) \<noteq> (action, c)"
  shows "\<exists>e. mutateCorrection env later d action' db1 = (Some e, db1)"
  using spent_revision [OF run_inv [OF assms(1) empty_inv] assms(2-)] .

section \<open>Idempotence\<close>

text \<open>C10. Commands are idempotent: after a successful command, at whatever revision the relation then
  is, the same command sent again succeeds, and of the store it changes nothing but the derived
  projection, which the preparation of the transaction recomputes. The stored review reads back as
  the one that was sent.\<close>

theorem retry_changes_nothing:
  assumes run: "lifecycle_run env (empty_db al p0) db" and rd: "reads_fractions (le_setString env)"
    and ok: "mutateCorrection env now c action db = (None, db1)" and prep: "le_prepare env db1 = Inr q"
  shows "mutateCorrection env later c action db1 = (None, db1\<lparr>projection := q\<rparr>)"
proof -
  have inv: "lifecycle_inv db" by (rule run_inv [OF run empty_inv])
  have inv1: "lifecycle_inv db1" by (rule step_inv [OF lifecycle_step.commanded [OF ok] inv])
  have err: "command_error c action = None" using ok by (auto simp: mutateCorrection_def split: option.splits)
  obtain r1 where r1: "find_relation db1 (c_RelationID c) = Some r1"
    using find_command [OF ok] by blast
  obtain a where "a \<in> set (audits db1)" "audit_key a = (c_RelationID c, c_Revision c + 1, action)"
    and "replay env c a (db1\<lparr>projection := q\<rparr>) = Inr (db1\<lparr>projection := q\<rparr>)"
    using mutateCorrection_cases [OF ok]
  proof (elim disjE conjE exE)
    fix p a assume *: "db1 = db\<lparr>projection := p\<rparr>" "a \<in> set (audits db)"
      "audit_key a = (c_RelationID c, c_Revision c + 1, action)" "replay env c a (db\<lparr>projection := p\<rparr>) = Inr db1"
    then have "replay env c a (db\<lparr>projection := q\<rparr>) = Inr (db\<lparr>projection := q\<rparr>)" using replay_projection by simp
    then show ?thesis using that [of a] * by simp
  next
    fix nxt r p assume e: "effective now c action nxt r db db1" and t: "transition env now c action nxt r (db\<lparr>projection := p\<rparr>) = Inr db1"
    let ?a = "audit_of c action now (advance now c nxt r)"
    have "audits db1 = audits db @ [?a]" "r_id r = c_RelationID c" "r_revision r = c_Revision c"
      using inv e effective_audit [OF _ e] by (auto simp: lifecycle_inv_def effective_def)
    then show ?thesis using that [of ?a] replay_own_iff [OF inv rd err err e t] by (simp add: audit_key_def audit_of_def)
  qed simp
  then show ?thesis using replay_applies [OF inv1 _ _ r1 err prep] by blast
qed

section \<open>A run\<close>

definition cl_env :: "unit lifecycle_env" where
  "cl_env = \<lparr>le_setString = ex_setString, le_prepare = (\<lambda>db. Inr (projection db)), le_chain = (\<lambda>db i. Inr (projection db)),
     le_refresh = (\<lambda>db i. Inr (projection db)), le_frozen = (\<lambda>p. [])\<rparr>"

definition cl_ends :: endpoints where
  "cl_ends = \<lparr>e_child_declaration = Some 1, e_parent_declaration = None, e_child_outcome = Some 11, e_parent_outcome = None,
     e_child_developer = Some ''ana'', e_parent_developer = None, e_child_repo = Some ''o/r'', e_parent_repo = Some ''o/r'',
     e_child_pr = Some 2, e_parent_pr = Some 1, e_child_sha = Some ''s2'', e_parent_sha = None,
     e_child_merged = None, e_parent_merged = None\<rparr>"

definition cl_db0 :: "unit cdb" where
  "cl_db0 = (empty_db [(''Bea'', ''bea@x'')] ())\<lparr>relations := relations (empty_db [(''Bea'', ''bea@x'')] ()) @ [new_relation 7 5 None cl_ends]\<rparr>"

definition cl_review :: review where
  "cl_review = \<lparr>v_Original = Some 3, v_Own = Some (1 / 2), v_Before = None, v_After = None, v_PureRepair = True, v_Scope = ''s'',
     v_Rationale = ''y'', v_Reviewer = ''bea'', v_ReviewedAt = 9, v_Revision = 1, v_ComparisonBase = [],
     v_ComparisonBefore = [], v_ComparisonAfter = []\<rparr>"

definition cl_confirm :: command where
  "cl_confirm = \<lparr>c_RelationID = 7, c_Revision = 1, c_Actor = ''bea'', c_Role = ''operator'', c_Reason = ''ok'', c_Review = Some cl_review\<rparr>"

definition cl_other :: command where
  "cl_other = cl_confirm\<lparr>c_Reason := ''no'', c_Review := None\<rparr>"

definition cl_resized :: command where
  "cl_resized = cl_confirm\<lparr>c_Review := Some (cl_review\<lparr>v_Own := Some (1 / 4)\<rparr>)\<rparr>"

definition cl_db1 :: "unit cdb" where
  "cl_db1 = snd (mutateCorrection cl_env 10 cl_confirm ''confirm'' cl_db0)"

lemma cl_db0_step: "lifecycle_step cl_env (empty_db [(''Bea'', ''bea@x'')] ()) cl_db0"
  unfolding cl_db0_def by (rule lifecycle_step.declared) (simp_all add: empty_db_def)

lemma cl_db0_run: "lifecycle_run cl_env (empty_db [(''Bea'', ''bea@x'')] ()) cl_db0"
  using lifecycle_run.more [OF lifecycle_run.start cl_db0_step] .

lemma cl_trims:
  "TrimSpace ''bea'' = ''bea''" "TrimSpace ''operator'' = ''operator''" "TrimSpace ''s'' = ''s''" "TrimSpace ''y'' = ''y''"
  by (rule TrimSpace_none; simp; code_simp)+

lemma cl_review_ok: "Review_Validate cl_review = None"
  by (simp add: Review_Validate_def cl_review_def onScale_def cl_trims time_is_zero_def)

lemma cl_command_ok: "command_error cl_confirm ''confirm'' = None"
  by (simp add: command_error_def cl_confirm_def cl_trims cl_review_ok needs_review_def) (simp add: cl_review_def)

lemma cl_confirmed:
  "(case mutate_tx cl_env 10 cl_confirm ''confirm'' cl_db0 of Inl e \<Rightarrow> False
    | Inr db \<Rightarrow> map r_state (relations db) = [''confirmed''] \<and> map r_id (relations db) = [7])"
  by code_simp

lemma cl_reviewed:
  "(case mutate_tx cl_env 10 cl_confirm ''confirm'' cl_db0 of Inl e \<Rightarrow> False | Inr db \<Rightarrow> reviews db \<noteq> [])"
  by code_simp

lemma cl_prepare: "cl_db0\<lparr>projection := ()\<rparr> = cl_db0" "le_prepare cl_env db = Inr ()" "le_setString cl_env = ex_setString"
  by (simp_all add: cl_env_def)

lemma cl_confirm_ok: "mutateCorrection cl_env 10 cl_confirm ''confirm'' cl_db0 = (None, cl_db1)"
  using cl_confirmed by (auto simp: cl_db1_def mutateCorrection_def cl_command_ok with_projection_def cl_prepare run_tx_def
      split: sum.splits)

lemma cl_found: "find_relation cl_db0 7 = Some (new_relation 7 5 None cl_ends)"
  by (simp add: find_relation_def cl_db0_def empty_db_def new_relation_def)

lemma cl_confirmed_row: "\<exists>r. find_relation cl_db1 7 = Some r \<and> r_state r = ''confirmed''"
proof -
  have "map r_state (relations cl_db1) = [''confirmed''] \<and> map r_id (relations cl_db1) = [7]"
    using cl_confirmed cl_confirm_ok by (auto simp: mutateCorrection_def cl_command_ok with_projection_def cl_prepare run_tx_def
      split: sum.splits)
  then show ?thesis by (auto simp: find_relation_def)
qed

lemma cl_db1_step: "lifecycle_step cl_env cl_db0 cl_db1"
  by (rule lifecycle_step.commanded [OF cl_confirm_ok])

definition cl_gone :: "unit cdb" where
  "cl_gone = cl_db0\<lparr>relations := [(new_relation 7 5 None cl_ends)\<lparr>r_state := ''withdrawn''\<rparr>]\<rparr>"

theorem settled_is_final_witness:
  "find_relation (snd (mutateCorrection cl_env 10 cl_confirm ''confirm'' cl_gone)) 7
   = Some ((new_relation 7 5 None cl_ends)\<lparr>r_state := ''withdrawn''\<rparr>)"
proof (rule settled_is_final)
  show "lifecycle_run cl_env cl_gone (snd (mutateCorrection cl_env 10 cl_confirm ''confirm'' cl_gone))"
    by (rule lifecycle_run.more [OF lifecycle_run.start], rule lifecycle_step.commanded, rule prod.collapse [symmetric])
  show "find_relation cl_gone 7 = Some ((new_relation 7 5 None cl_ends)\<lparr>r_state := ''withdrawn''\<rparr>)"
    by (simp add: find_relation_def cl_gone_def new_relation_def)
qed (simp add: terminal_def)

theorem lifecycle_consistent_witness: "lifecycle_inv cl_db1 \<and> reviews cl_db1 \<noteq> []"
proof -
  have "reviews (snd (None :: string option, cl_db1)) \<noteq> []"
    unfolding cl_confirm_ok [symmetric] using cl_reviewed
    by (auto simp: mutateCorrection_def cl_command_ok with_projection_def cl_prepare run_tx_def split: sum.splits)
  then show ?thesis using lifecycle_consistent [OF lifecycle_run.more [OF cl_db0_run cl_db1_step]] by simp
qed

theorem revision_is_spent_witness:
  "(\<exists>e. mutateCorrection cl_env 11 cl_other ''dispute'' cl_db1 = (Some e, cl_db1)) \<and>
   (\<exists>e. mutateCorrection cl_env 11 cl_resized ''confirm'' cl_db1 = (Some e, cl_db1))"
proof -
  have rd: "reads_fractions (le_setString cl_env)" by (simp add: cl_prepare ex_setString_reads)
  note spent = revision_is_spent [OF cl_db0_run rd cl_confirm_ok, of "new_relation 7 5 None cl_ends"]
  have "find_relation cl_db0 (c_RelationID cl_confirm) = Some (new_relation 7 5 None cl_ends)"
    "r_revision (new_relation 7 5 None cl_ends) = c_Revision cl_confirm"
    by (simp add: cl_found cl_confirm_def) (simp add: new_relation_def cl_confirm_def)
  note spent = spent [OF this]
  show ?thesis
    by (intro conjI spent) (simp_all add: cl_other_def cl_resized_def cl_confirm_def cl_review_def)
qed

theorem confirmed_by_another_operator_witness:
  "\<exists>now c action. mutateCorrection cl_env now c action cl_db0 = (None, cl_db1) \<and> c_RelationID c = 7 \<and> c_Role c = ''operator''"
proof -
  obtain r where "find_relation cl_db1 7 = Some r" "r_state r = ''confirmed''" using cl_confirmed_row by blast
  from confirmed_by_another_operator [OF cl_db1_step cl_found this(1) _ this(2)] show ?thesis
    by (auto simp: new_relation_def)
qed

theorem retry_changes_nothing_witness: "mutateCorrection cl_env 20 cl_confirm ''confirm'' cl_db1 = (None, cl_db1\<lparr>projection := ()\<rparr>)"
  using retry_changes_nothing [OF cl_db0_run _ cl_confirm_ok] ex_setString_reads by (simp only: cl_prepare)

end
