(* ===== verification/Log_Safe.thy ===== *)
theory Log_Safe
  imports Go_Prelude
begin

text \<open>
  The log barrier, \<^verbatim>\<open>src/internal/logsafe/logsafe.go\<close>: how a client-controlled value is rendered into one
  log record. Strings are lists of bytes. \<^verbatim>\<open>utf8.DecodeRuneInString\<close> and the \<^verbatim>\<open>%q\<close> verb of the standard
  library are written out; \<open>tbl\<close> is the table of printable runes above U+00FF. The lemmas bound what is
  rendered, show that it stays on one line, and that nothing in the value can close its quotes.
\<close>

section \<open>Runes\<close>

definition RuneError :: nat where "RuneError = 65533"

abbreviation byte :: "char \<Rightarrow> nat" where "byte c \<equiv> of_char c"

text \<open>A lead byte: how many bytes follow, the range of the first of them, the bits of the lead.\<close>

definition lead_byte :: "nat \<Rightarrow> (nat \<times> nat \<times> nat \<times> nat) option" where
  "lead_byte b =
     (if 194 \<le> b \<and> b \<le> 223 then Some (1, 128, 191, b - 192)
      else if b = 224 then Some (2, 160, 191, 0)
      else if b = 237 then Some (2, 128, 159, 13)
      else if 225 \<le> b \<and> b \<le> 239 then Some (2, 128, 191, b - 224)
      else if b = 240 then Some (3, 144, 191, 0)
      else if 241 \<le> b \<and> b \<le> 243 then Some (3, 128, 191, b - 240)
      else if b = 244 then Some (3, 128, 143, 4)
      else None)"

definition is_cont :: "char \<Rightarrow> bool" where "is_cont c \<longleftrightarrow> 128 \<le> byte c \<and> byte c \<le> 191"

fun decode_rune :: "string \<Rightarrow> nat \<times> nat" where
  "decode_rune [] = (RuneError, 0)"
| "decode_rune (c # t) =
     (if byte c < 128 then (byte c, 1)
      else (case lead_byte (byte c) of None \<Rightarrow> (RuneError, 1)
            | Some (n, lo, hi, bits) \<Rightarrow>
                if length t < n \<or> byte (t ! 0) < lo \<or> hi < byte (t ! 0) \<or> \<not> list_all is_cont (take n t)
                then (RuneError, 1)
                else (foldl (\<lambda>a c. 64 * a + (byte c - 128)) bits (take n t), Suc n)))"

lemma lead_byte_size: "lead_byte b = Some (n, lo, hi, bits) \<Longrightarrow> 1 \<le> n \<and> n \<le> 3"
  by (auto simp: lead_byte_def split: if_splits)

lemma decode_rune_size:
  assumes "s \<noteq> []"
  shows "1 \<le> snd (decode_rune s)" "snd (decode_rune s) \<le> length s"
proof -
  obtain c t where s: "s = c # t" using assms by (cases s) auto
  show "1 \<le> snd (decode_rune s)" "snd (decode_rune s) \<le> length s"
    by (auto simp: s split: option.splits)
qed

text \<open>Decoding looks at the bytes of the rune only.\<close>

lemma decode_rune_take:
  assumes "s \<noteq> []" "snd (decode_rune s) \<le> k"
  shows "decode_rune (take k s) = decode_rune s"
proof -
  obtain c t j where s: "s = c # t" "k = Suc j" using assms decode_rune_size(1) [OF assms(1)] by (cases s; cases k) auto
  show ?thesis
  proof (cases "byte c < 128 \<or> lead_byte (byte c) = None")
    case False
    then obtain q where Some: "lead_byte (byte c) = Some q" "\<not> byte c < 128" by auto
    obtain n lo hi bits where q: "q = (n, lo, hi, bits)" by (cases q) auto
    have n: "1 \<le> n" using lead_byte_size Some(1) q by blast
    show ?thesis
    proof (cases "length t < n \<or> byte (t ! 0) < lo \<or> hi < byte (t ! 0) \<or> \<not> list_all is_cont (take n t)")
      case False
      then have "n \<le> j" using assms(2) s Some q by (auto split: if_splits)
      then have "take n (take j t) = take n t" "take j t ! 0 = t ! 0" using n by (simp_all add: min_def)
      moreover have "\<not> min (length t) j < n" using False \<open>n \<le> j\<close> by (simp add: min_def)
      ultimately show ?thesis using False Some q s \<open>n \<le> j\<close> by simp
    next
      case True
      have "length (take j t) < n \<or> byte (take j t ! 0) < lo \<or> hi < byte (take j t ! 0) \<or> \<not> list_all is_cont (take n (take j t))"
      proof (cases "length (take j t) < n")
        case f: False
        then have "n \<le> length t" "n \<le> j" by simp_all
        then have "take n (take j t) = take n t" "take j t ! 0 = t ! 0" "n \<le> length t" using n by (simp_all add: min_def)
        then show ?thesis using True by auto
      qed simp
      then show ?thesis using True Some q s by auto
    qed
  qed (use s in auto)
qed

section \<open>Quoting\<close>

definition hex_char :: "nat \<Rightarrow> char" where
  "hex_char d = (if d < 10 then char_of (48 + d) else char_of (87 + d))"

fun hex_digits :: "nat \<Rightarrow> nat \<Rightarrow> string" where
  "hex_digits 0 n = []"
| "hex_digits (Suc k) n = hex_digits k (n div 16) @ [hex_char (n mod 16)]"

definition backslash :: char where "backslash = CHR 0x5C"
definition dquote :: char where "dquote = CHR 0x22"

definition is_print :: "(nat \<Rightarrow> bool) \<Rightarrow> nat \<Rightarrow> bool" where
  "is_print tbl r =
     (if r \<le> 255 then (32 \<le> r \<and> r < 127) \<or> (161 \<le> r \<and> r \<noteq> 173) else tbl r)"

text \<open>One rune, given with its bytes.\<close>

definition escape_rune :: "(nat \<Rightarrow> bool) \<Rightarrow> nat \<Rightarrow> string \<Rightarrow> string" where
  "escape_rune tbl r u =
     (if length u = 1 \<and> r = RuneError then [backslash, CHR ''x''] @ hex_digits 2 (byte (hd u))
      else if r = byte dquote \<or> r = byte backslash then backslash # u
      else if is_print tbl r then u
      else if r = 7 then [backslash, CHR ''a''] else if r = 8 then [backslash, CHR ''b'']
      else if r = 12 then [backslash, CHR ''f''] else if r = 10 then [backslash, CHR ''n'']
      else if r = 13 then [backslash, CHR ''r''] else if r = 9 then [backslash, CHR ''t'']
      else if r = 11 then [backslash, CHR ''v'']
      else if r < 32 \<or> r = 127 then [backslash, CHR ''x''] @ hex_digits 2 r
      else if r < 65536 then [backslash, CHR ''u''] @ hex_digits 4 r
      else [backslash, CHR ''U''] @ hex_digits 8 r)"

function runes :: "string \<Rightarrow> string list" where
  "runes s = (if s = [] then [] else take (snd (decode_rune s)) s # runes (drop (snd (decode_rune s)) s))"
  by pat_completeness auto
termination runes
proof (relation "measure length", goal_cases)
  case (2 s)
  then show ?case using decode_rune_size(1) [of s] by simp
qed simp

declare runes.simps [simp del]

definition render_rune :: "(nat \<Rightarrow> bool) \<Rightarrow> string \<Rightarrow> string" where
  "render_rune tbl u = escape_rune tbl (fst (decode_rune u)) u"

definition quote_body :: "(nat \<Rightarrow> bool) \<Rightarrow> string \<Rightarrow> string" where
  "quote_body tbl s = concat (map (render_rune tbl) (runes s))"

definition quote :: "(nat \<Rightarrow> bool) \<Rightarrow> string \<Rightarrow> string" where
  "quote tbl s = dquote # quote_body tbl s @ [dquote]"

section \<open>The barrier\<close>

definition maxStrLen :: nat where "maxStrLen = 256"
definition maxErrLen :: nat where "maxErrLen = 512"
definition truncMark :: string where "truncMark = ''...(truncated)''"

definition CR :: char where "CR = CHR 0x0D"
definition LF :: char where "LF = CHR 0x0A"

definition strip_breaks :: "string \<Rightarrow> string" where
  "strip_breaks s = filter (\<lambda>c. c \<noteq> LF) (filter (\<lambda>c. c \<noteq> CR) s)"

function prefix_loop :: "(nat \<Rightarrow> bool) \<Rightarrow> string \<Rightarrow> nat \<Rightarrow> nat \<Rightarrow> nat \<Rightarrow> nat" where
  "prefix_loop tbl s mx i width =
     (if length s \<le> i then length s
      else
        (let size = snd (decode_rune (drop i s));
             w = length (quote tbl (take size (drop i s))) - 2
         in if mx < width + w then i else prefix_loop tbl s mx (i + size) (width + w)))"
  by pat_completeness auto
termination prefix_loop
proof (relation "measure (\<lambda>(tbl, s, mx, i, width). length s - i)", goal_cases)
  case (2 tbl s mx i width)
  then show ?case using decode_rune_size(1) [of "drop i s"] by auto
qed simp

declare prefix_loop.simps [simp del]

definition quotedPrefixLen :: "(nat \<Rightarrow> bool) \<Rightarrow> string \<Rightarrow> nat \<Rightarrow> nat" where
  "quotedPrefixLen tbl s mx = prefix_loop tbl s mx 0 2"

definition clean :: "(nat \<Rightarrow> bool) \<Rightarrow> string \<Rightarrow> nat \<Rightarrow> string" where
  "clean tbl s0 mx =
     (let s = strip_breaks s0;
          (s, truncated) = (if mx < length s then (take mx s, True) else (s, False));
          k = quotedPrefixLen tbl s mx;
          (s, truncated) = (if k < length s then (take k s, True) else (s, truncated))
      in quote tbl s @ (if truncated then truncMark else []))"

definition Str :: "(nat \<Rightarrow> bool) \<Rightarrow> string \<Rightarrow> string" where
  "Str tbl s = clean tbl s maxStrLen"

definition Err :: "(nat \<Rightarrow> bool) \<Rightarrow> string option \<Rightarrow> string" where
  "Err tbl e = (case e of None \<Rightarrow> [] | Some msg \<Rightarrow> clean tbl msg maxErrLen)"

fun join_str :: "string \<Rightarrow> string list \<Rightarrow> string" where
  "join_str sep [] = []"
| "join_str sep [s] = s"
| "join_str sep (s # ss) = s @ sep @ join_str sep ss"

definition Join :: "(nat \<Rightarrow> bool) \<Rightarrow> string list \<Rightarrow> int \<Rightarrow> string" where
  "Join tbl vals maxShown =
     (if vals = [] then []
      else
        (let shown = (if 0 \<le> maxShown \<and> maxShown < int (length vals) then take (nat maxShown) vals else vals)
         in join_str '', '' (map (Str tbl) shown)
            @ (if length shown < length vals then '' (+'' @ itoa (int (length vals) - int (length shown)) @ '' more)'' else [])))"

section \<open>Runes of a prefix\<close>

lemma runes_Nil [simp]: "runes [] = []"
  by (simp add: runes.simps)

lemma runes_step: "s \<noteq> [] \<Longrightarrow> runes s = take (snd (decode_rune s)) s # runes (drop (snd (decode_rune s)) s)"
  by (subst runes.simps) simp

lemma rune_itself:
  assumes "s \<noteq> []"
  shows "runes (take (snd (decode_rune s)) s) = [take (snd (decode_rune s)) s]"
    "decode_rune (take (snd (decode_rune s)) s) = decode_rune s"
proof -
  show d: "decode_rune (take (snd (decode_rune s)) s) = decode_rune s" by (rule decode_rune_take [OF assms order_refl])
  have "take (snd (decode_rune s)) s \<noteq> []" using assms decode_rune_size(1) [OF assms] by simp
  then show "runes (take (snd (decode_rune s)) s) = [take (snd (decode_rune s)) s]"
    using d by (subst runes_step) simp_all
qed

lemma runes_nonempty: "u \<in> set (runes s) \<Longrightarrow> u \<noteq> [] \<and> snd (decode_rune u) = length u"
proof (induction s rule: runes.induct)
  case (1 s)
  show ?case
  proof (cases "s = []")
    case False
    then have "u = take (snd (decode_rune s)) s \<or> u \<in> set (runes (drop (snd (decode_rune s)) s))"
      using "1.prems" runes_step [OF False] by simp
    then show ?thesis
    proof
      assume u: "u = take (snd (decode_rune s)) s"
      then show ?thesis using rune_itself(2) [OF False] decode_rune_size [OF False] False by auto
    qed (use 1(1) False in blast)
  qed (use "1.prems" in simp)
qed

text \<open>The loop cuts at a rune boundary, within the budget, and as late as it can.\<close>

definition rendered_width :: "(nat \<Rightarrow> bool) \<Rightarrow> string \<Rightarrow> nat" where
  "rendered_width tbl s = length (quote_body tbl s)"

lemma quote_body_step:
  "s \<noteq> [] \<Longrightarrow> quote_body tbl s = quote_body tbl (take (snd (decode_rune s)) s) @ quote_body tbl (drop (snd (decode_rune s)) s)"
  unfolding quote_body_def by (subst runes_step) (simp_all add: rune_itself)

text \<open>A prefix that ends at a rune boundary.\<close>

inductive boundary :: "string \<Rightarrow> nat \<Rightarrow> bool" where
  boundary_0: "boundary s 0"
| boundary_Suc: "s \<noteq> [] \<Longrightarrow> boundary (drop (snd (decode_rune s)) s) k \<Longrightarrow> boundary s (snd (decode_rune s) + k)"

lemma boundary_split: "boundary s k \<Longrightarrow> k \<le> length s \<and> quote_body tbl s = quote_body tbl (take k s) @ quote_body tbl (drop k s)"
proof (induction rule: boundary.induct)
  case (boundary_0 s)
  then show ?case by (simp add: quote_body_def)
next
  case (boundary_Suc s k)
  let ?n = "snd (decode_rune s)"
  have n: "1 \<le> ?n" "?n \<le> length s" using decode_rune_size [OF boundary_Suc.hyps(1)] by auto
  let ?p = "take (?n + k) s"
  have p: "?p \<noteq> []" "decode_rune ?p = decode_rune s"
    using n boundary_Suc.hyps(1) by (auto intro: decode_rune_take)
  have "take ?n ?p = take ?n s" "drop ?n ?p = take k (drop ?n s)" by (simp_all add: take_drop min_def add.commute)
  then have "quote_body tbl ?p = quote_body tbl (take ?n s) @ quote_body tbl (take k (drop ?n s))"
    using quote_body_step [OF p(1), of tbl] unfolding p(2) by (simp only:)
  moreover have "quote_body tbl (drop ?n s) = quote_body tbl (take k (drop ?n s)) @ quote_body tbl (drop (?n + k) s)"
    using boundary_Suc.IH by (simp add: add.commute)
  ultimately have "quote_body tbl s = quote_body tbl ?p @ quote_body tbl (drop (?n + k) s)"
    using quote_body_step [OF boundary_Suc.hyps(1), of tbl] by (simp only: append_assoc)
  moreover have "k \<le> length s - ?n" using boundary_Suc.IH by simp
  then have "?n + k \<le> length s" using n by linarith
  ultimately show ?case by simp
qed

lemma quote_body_extend:
  assumes "boundary s i" "i < length s"
  shows "quote_body tbl (take (i + snd (decode_rune (drop i s))) s)
    = quote_body tbl (take i s) @ quote_body tbl (take (snd (decode_rune (drop i s))) (drop i s))"
  using assms
proof (induction rule: boundary.induct)
  case (boundary_0 s)
  then show ?case by (simp add: quote_body_def)
next
  case (boundary_Suc s k)
  let ?n = "snd (decode_rune s)" and ?m = "snd (decode_rune (drop k (drop (snd (decode_rune s)) s)))"
  have n: "1 \<le> ?n" "?n \<le> length s" using decode_rune_size [OF boundary_Suc.hyps(1)] by auto
  have pre: "quote_body tbl (take (?n + j) s) = quote_body tbl (take ?n s) @ quote_body tbl (take j (drop ?n s))" for j
  proof -
    let ?p = "take (?n + j) s"
    have p: "?p \<noteq> []" "decode_rune ?p = decode_rune s"
      using n boundary_Suc.hyps(1) by (auto intro: decode_rune_take)
    have "take ?n ?p = take ?n s" "drop ?n ?p = take j (drop ?n s)" by (simp_all add: take_drop min_def add.commute)
    then show ?thesis using quote_body_step [OF p(1), of tbl] unfolding p(2) by (simp only:)
  qed
  have "quote_body tbl (take (k + ?m) (drop ?n s)) = quote_body tbl (take k (drop ?n s)) @ quote_body tbl (take ?m (drop k (drop ?n s)))"
    using boundary_Suc.IH boundary_Suc.prems by simp
  then show ?case using pre [of k] pre [of "k + ?m"] by (simp add: ac_simps)
qed

lemma width_of_rune: "length (quote tbl u) - 2 = length (quote_body tbl u)"
  by (simp add: quote_def)

lemma boundary_extend: "boundary s k \<Longrightarrow> k < length s \<Longrightarrow> boundary s (k + snd (decode_rune (drop k s)))"
proof (induction rule: boundary.induct)
  case (boundary_0 s)
  then show ?case using boundary.boundary_Suc [of s 0] boundary.boundary_0 by auto
next
  case (boundary_Suc s k)
  let ?n = "snd (decode_rune s)"
  have "boundary (drop ?n s) (k + snd (decode_rune (drop k (drop ?n s))))"
    using boundary_Suc.prems by (intro boundary_Suc.IH) simp
  then show ?case using boundary.boundary_Suc [OF boundary_Suc.hyps(1)] by (simp add: add.assoc add.commute [of k])
qed

text \<open>What the loop returns, started at a boundary with the width rendered so far.\<close>

lemma prefix_loop_spec:
  assumes "boundary s i" "width = 2 + length (quote_body tbl (take i s))" "width \<le> mx"
  shows "boundary s (prefix_loop tbl s mx i width)
    \<and> 2 + length (quote_body tbl (take (prefix_loop tbl s mx i width) s)) \<le> mx
    \<and> (prefix_loop tbl s mx i width < length s \<longrightarrow>
        mx < 2 + length (quote_body tbl (take (prefix_loop tbl s mx i width + snd (decode_rune (drop (prefix_loop tbl s mx i width) s))) s)))"
  using assms
proof (induction tbl s mx i width rule: prefix_loop.induct)
  case (1 tbl s mx i width)
  have le: "i \<le> length s" using boundary_split [OF "1.prems"(1)] by simp
  show ?case
  proof (cases "length s \<le> i")
    case True
    then have "prefix_loop tbl s mx i width = i" using le by (subst prefix_loop.simps) simp
    then show ?thesis using "1.prems" True by simp
  next
    case False
    let ?size = "snd (decode_rune (drop i s))"
    let ?w = "length (quote_body tbl (take ?size (drop i s)))"
    have b: "boundary s (i + ?size)" using boundary_extend [OF "1.prems"(1)] False by simp
    have split: "quote_body tbl (take (i + ?size) s) = quote_body tbl (take i s) @ quote_body tbl (take ?size (drop i s))"
      by (rule quote_body_extend [OF "1.prems"(1)]) (use False in simp)
    have step: "prefix_loop tbl s mx i width = (if mx < width + ?w then i else prefix_loop tbl s mx (i + ?size) (width + ?w))"
      using False by (subst prefix_loop.simps) (simp add: Let_def width_of_rune)
    show ?thesis
    proof (cases "mx < width + ?w")
      case True
      then show ?thesis using step "1.prems" False split by simp
    next
      case f: False
      have "width + ?w = 2 + length (quote_body tbl (take (i + ?size) s))" using "1.prems"(2) split by simp
      then show ?thesis using "1.IH" [OF False refl refl _ b] f step by (simp add: width_of_rune)
    qed
  qed
qed

lemma quotedPrefixLen_spec:
  assumes "2 \<le> mx"
  shows "boundary s (quotedPrefixLen tbl s mx)
    \<and> length (quote tbl (take (quotedPrefixLen tbl s mx) s)) \<le> mx
    \<and> (quotedPrefixLen tbl s mx < length s \<longrightarrow>
        mx < length (quote tbl (take (quotedPrefixLen tbl s mx + snd (decode_rune (drop (quotedPrefixLen tbl s mx) s))) s)))"
  using prefix_loop_spec [OF boundary_0, of 2 tbl s mx] assms
  by (simp add: quotedPrefixLen_def quote_def quote_body_def)

section \<open>One record, bounded\<close>

lemma clean_form: "\<exists>k d. clean tbl s mx = quote tbl (take k (strip_breaks s)) @ (if d then truncMark else []) \<and>
    (2 \<le> mx \<longrightarrow> length (quote tbl (take k (strip_breaks s))) \<le> mx)"
proof -
  let ?t = "strip_breaks s"
  let ?u = "if mx < length ?t then take mx ?t else ?t"
  let ?k = "quotedPrefixLen tbl ?u mx"
  have q: "2 \<le> mx \<Longrightarrow> length (quote tbl (take ?k ?u)) \<le> mx" using quotedPrefixLen_spec by blast
  obtain k where k: "take ?k ?u = take k ?t" by (cases "mx < length ?t") (auto simp: take_take)
  have "clean tbl s mx = quote tbl (take ?k ?u) @ (if mx < length ?t \<or> ?k < length ?u then truncMark else [])"
    by (auto simp: clean_def Let_def)
  then show ?thesis using k q by (intro exI [of _ k] exI [of _ "mx < length ?t \<or> ?k < length ?u"]) simp
qed

lemma clean_bounded: "2 \<le> mx \<Longrightarrow> length (clean tbl s mx) \<le> mx + length truncMark"
proof -
  assume "2 \<le> mx"
  then obtain k d where "clean tbl s mx = quote tbl (take k (strip_breaks s)) @ (if d then truncMark else [])"
    "length (quote tbl (take k (strip_breaks s))) \<le> mx" using clean_form [of tbl s mx] by blast
  then show ?thesis by simp
qed

lemma join_str_length: "\<forall>s \<in> set ss. length s \<le> n \<Longrightarrow> length (join_str sep ss) \<le> length ss * (n + length sep)"
  by (induction sep ss rule: join_str.induct) (auto simp: algebra_simps)

text \<open>A logged value costs a bounded number of bytes: whatever the client sent, \<^verbatim>\<open>Str\<close> renders at most 256
  bytes and the truncation mark, \<^verbatim>\<open>Err\<close> at most 512 and the mark, and a list of any length at most that for
  each element shown, its separator, and the count of the rest.\<close>

theorem log_bounded:
  "length (Str tbl s) \<le> 256 + 14 \<and> length (Err tbl e) \<le> 512 + 14
   \<and> length (Join tbl vals (int m)) \<le> m * (256 + 14 + 2) + length ('' (+'' @ itoa (int (length vals) - int m) @ '' more)'')"
proof -
  have mark: "length truncMark = 14" by (simp add: truncMark_def)
  have str: "length (Str tbl s) \<le> 270" for s
    using clean_bounded [of maxStrLen tbl s] mark by (simp add: Str_def maxStrLen_def)
  have err: "length (Err tbl e) \<le> 526"
    using clean_bounded [of maxErrLen tbl "the e"] mark by (auto simp: Err_def maxErrLen_def split: option.splits)
  have join: "length (join_str '', '' (map (Str tbl) xs)) \<le> length xs * 272" for xs
    using join_str_length [of "map (Str tbl) xs" 270 "'', ''"] str by simp
  have "length (Join tbl vals (int m)) \<le> m * 272 + length ('' (+'' @ itoa (int (length vals) - int m) @ '' more)'')"
  proof (cases "m < length vals")
    case True
    then show ?thesis using join [of "take m vals"] by (simp add: Join_def min_def Let_def split: if_splits)
  next
    case False
    then have "length vals * 272 \<le> m * 272" by simp
    then show ?thesis using False join [of vals] by (simp add: Join_def Let_def)
  qed
  then show ?thesis using str err by simp
qed

section \<open>One line, closed by its own quote\<close>

text \<open>A reader of quoted fields: after the opening quote, a backslash takes the next byte with it; the
  field ends at the first quote that is not taken.\<close>

fun field_end :: "string \<Rightarrow> nat option" where
  "field_end [] = None"
| "field_end (c # s) =
     (if c = dquote then Some 0
      else if c = backslash then (case s of [] \<Rightarrow> None | d # t \<Rightarrow> map_option (\<lambda>n. n + 2) (field_end t))
      else map_option Suc (field_end s))"

text \<open>Text a reader passes over.\<close>

inductive passed :: "string \<Rightarrow> bool" where
  passed_Nil: "passed []"
| passed_plain: "c \<noteq> dquote \<Longrightarrow> c \<noteq> backslash \<Longrightarrow> passed s \<Longrightarrow> passed (c # s)"
| passed_escape: "passed s \<Longrightarrow> passed (backslash # d # s)"

lemma passed_append: "passed s \<Longrightarrow> passed t \<Longrightarrow> passed (s @ t)"
  by (induction rule: passed.induct) (auto intro: passed.intros)

lemma passed_field: "passed s \<Longrightarrow> field_end (s @ dquote # t) = Some (length s)"
  by (induction rule: passed.induct) (auto simp: dquote_def backslash_def)

lemma passed_plain_all: "list_all (\<lambda>c. c \<noteq> dquote \<and> c \<noteq> backslash) s \<Longrightarrow> passed s"
  by (induction s) (auto intro: passed.intros)

lemma hex_char_plain: "d < 16 \<Longrightarrow> hex_char d \<noteq> dquote \<and> hex_char d \<noteq> backslash \<and> hex_char d \<noteq> LF \<and> hex_char d \<noteq> CR"
proof -
  have "list_all (\<lambda>d. hex_char d \<noteq> dquote \<and> hex_char d \<noteq> backslash \<and> hex_char d \<noteq> LF \<and> hex_char d \<noteq> CR) [0..<16]" by code_simp
  then show "d < 16 \<Longrightarrow> ?thesis" by (simp only: list_all_iff atLeastLessThan_iff set_upt) simp
qed

lemma hex_digits_plain: "c \<in> set (hex_digits k n) \<Longrightarrow> c \<noteq> dquote \<and> c \<noteq> backslash \<and> c \<noteq> LF \<and> c \<noteq> CR"
  by (induction k n rule: hex_digits.induct) (auto simp: hex_char_plain)

text \<open>The bytes of a rune: one ASCII byte, or bytes above 127.\<close>

lemma rune_bytes:
  assumes "u \<noteq> []" "snd (decode_rune u) = length u"
  shows "(\<exists>c. u = [c]) \<or> (\<forall>c \<in> set u. 128 \<le> byte c)"
proof -
  obtain c t where u: "u = c # t" using assms(1) by (cases u) auto
  show ?thesis
  proof (cases "t = []")
    case False
    then have "\<not> byte c < 128" "\<exists>q. lead_byte (byte c) = Some q" using assms(2) u by (auto split: option.splits if_splits)
    then obtain n lo hi bits where "lead_byte (byte c) = Some (n, lo, hi, bits)" "128 \<le> byte c" by auto
    then have "list_all is_cont t" "128 \<le> byte c" using assms(2) u False by (auto split: if_splits)
    then show ?thesis using u by (auto simp: list_all_iff is_cont_def)
  qed (use u in simp)
qed

lemma high_plain: "128 \<le> byte c \<Longrightarrow> c \<noteq> dquote \<and> c \<noteq> backslash \<and> c \<noteq> LF \<and> c \<noteq> CR"
  by (auto simp: dquote_def backslash_def LF_def CR_def)

lemma foldl_bits_ge: "b \<le> foldl (\<lambda>a c. 64 * a + (byte c - 128)) b s"
proof (induction s arbitrary: b)
  case (Cons c s)
  have "b \<le> 64 * b + (byte c - 128)" by simp
  also have "\<dots> \<le> foldl (\<lambda>a c. 64 * a + (byte c - 128)) (64 * b + (byte c - 128)) s" by (rule Cons.IH)
  finally show ?case by simp
qed simp

lemma rune_high_two:
  assumes "2 \<le> length (d # s)" "2 \<le> 64 * b + (byte d - 128)"
  shows "128 \<le> foldl (\<lambda>a c. 64 * a + (byte c - 128)) b (d # s)"
proof -
  obtain e v where s: "s = e # v" using assms(1) by (cases s) auto
  have "128 \<le> 64 * (64 * b + (byte d - 128)) + (byte e - 128)" using assms(2) by simp
  also have "\<dots> \<le> foldl (\<lambda>a c. 64 * a + (byte c - 128)) (64 * (64 * b + (byte d - 128)) + (byte e - 128)) v" by (rule foldl_bits_ge)
  finally show ?thesis using s by simp
qed

text \<open>A rune of bytes above 127 is above 127.\<close>

lemma rune_high:
  assumes "u \<noteq> []" "\<forall>c \<in> set u. 128 \<le> byte c"
  shows "128 \<le> fst (decode_rune u)"
proof -
  obtain c t where u: "u = c # t" using assms(1) by (cases u) auto
  have c: "\<not> byte c < 128" using assms u by auto
  show ?thesis
  proof (cases "fst (decode_rune u) = RuneError")
    case False
    then obtain n lo hi bits where q: "lead_byte (byte c) = Some (n, lo, hi, bits)" "n \<le> length t" "lo \<le> byte (t ! 0)"
      "fst (decode_rune u) = foldl (\<lambda>a c. 64 * a + (byte c - 128)) bits (take n t)"
      using u c by (auto split: option.splits if_splits)
    have "1 \<le> n" using lead_byte_size [OF q(1)] by simp
    then obtain d s where t: "take n t = d # s" "t ! 0 = d" using q(2) by (cases t; cases n) auto
    have "64 * bits + (byte d - 128) \<le> fst (decode_rune u)"
      using foldl_bits_ge [of "64 * bits + (byte d - 128)" s] q(4) t by simp
    moreover have "128 \<le> 64 * bits + (byte d - 128) \<or> 2 \<le> n \<and> 2 \<le> 64 * bits + (byte d - 128)"
      using q(1,3) t(2) c by (auto simp: lead_byte_def split: if_splits)
    moreover have "length (d # s) = n" using t(1) q(2) by (metis length_take min.absorb2)
    ultimately show ?thesis using q(4) t(1) rune_high_two [of d s bits] by auto
  qed (simp add: RuneError_def)
qed

lemma render_rune_passed:
  assumes "u \<noteq> []" "snd (decode_rune u) = length u"
  shows "passed (render_rune tbl u)"
proof -
  let ?r = "fst (decode_rune u)"
  have hex: "passed (hex_digits k n)" for k n
    using hex_digits_plain [of _ k n] by (intro passed_plain_all) (auto simp: list_all_iff)
  have esc: "passed (backslash # d # hex_digits k n)" "passed [backslash, d]" for d k n
    by (auto intro: passed.intros hex)
  consider c where "u = [c]" | "\<forall>c \<in> set u. 128 \<le> byte c" using rune_bytes [OF assms] by blast
  then show ?thesis
  proof cases
    case (1 c)
    have "passed [c]" if "?r \<noteq> byte dquote" "?r \<noteq> byte backslash" "\<not> (length u = 1 \<and> ?r = RuneError)"
    proof -
      have "byte c < 128 \<and> ?r = byte c"
        using that 1 by (auto split: option.splits if_splits dest: lead_byte_size)
      then show ?thesis using that by (auto intro!: passed.intros)
    qed
    then show ?thesis using esc 1 by (auto simp: render_rune_def escape_rune_def)
  next
    case 2
    then have "passed u" using high_plain by (intro passed_plain_all) (auto simp: list_all_iff)
    moreover have "?r \<noteq> byte dquote \<and> ?r \<noteq> byte backslash"
      using assms 2 rune_high [of u] by (auto simp: dquote_def backslash_def)
    ultimately show ?thesis using esc by (auto simp: render_rune_def escape_rune_def)
  qed
qed

lemma quote_body_passed: "passed (quote_body tbl s)"
proof -
  have "passed (concat (map (render_rune tbl) us))" if "\<forall>u \<in> set us. u \<noteq> [] \<and> snd (decode_rune u) = length u" for us
    using that by (induction us) (auto intro: passed_append render_rune_passed passed_Nil)
  then show ?thesis using runes_nonempty [of _ s] by (simp add: quote_body_def)
qed

lemma render_rune_breaks:
  "c \<in> set (render_rune tbl u) \<Longrightarrow> c = LF \<or> c = CR \<Longrightarrow> c \<in> set u"
  by (auto simp: render_rune_def escape_rune_def backslash_def LF_def CR_def hex_digits_plain [unfolded LF_def CR_def]
      split: if_splits dest: hex_digits_plain [unfolded LF_def CR_def])

lemma runes_set: "u \<in> set (runes s) \<Longrightarrow> set u \<subseteq> set s"
proof (induction s rule: runes.induct)
  case (1 s)
  show ?case
  proof (cases "s = []")
    case False
    then have "u = take (snd (decode_rune s)) s \<or> u \<in> set (runes (drop (snd (decode_rune s)) s))"
      using "1.prems" runes_step [OF False] by simp
    then show ?thesis using 1(1) False set_take_subset set_drop_subset by (metis order_trans)
  qed (use "1.prems" in simp)
qed

lemma quote_breaks: "c = LF \<or> c = CR \<Longrightarrow> c \<notin> set s \<Longrightarrow> c \<notin> set (quote tbl s)"
  using runes_set render_rune_breaks [of c tbl]
  by (fastforce simp: quote_def quote_body_def dquote_def LF_def CR_def)

text \<open>C17. A logged value is one field of one record: it has no line break, it opens with a quote, renders a
  prefix of the value without its line breaks, and a reader that honours the escapes finds the closing
  quote exactly where the barrier put it, followed by nothing or by the barrier's own truncation mark.\<close>

theorem log_single_field:
  "\<exists>k rest. clean tbl s mx = dquote # quote_body tbl (take k (strip_breaks s)) @ dquote # rest
     \<and> (rest = [] \<or> rest = truncMark)
     \<and> field_end (tl (clean tbl s mx)) = Some (length (quote_body tbl (take k (strip_breaks s))))
     \<and> LF \<notin> set (clean tbl s mx) \<and> CR \<notin> set (clean tbl s mx)"
proof -
  obtain k d where c: "clean tbl s mx = quote tbl (take k (strip_breaks s)) @ (if d then truncMark else [])"
    using clean_form by blast
  let ?t = "take k (strip_breaks s)"
  have "LF \<notin> set ?t" "CR \<notin> set ?t" by (auto simp: strip_breaks_def dest: in_set_takeD)
  then have q: "LF \<notin> set (quote tbl ?t)" "CR \<notin> set (quote tbl ?t)" using quote_breaks by blast+
  have m: "LF \<notin> set truncMark" "CR \<notin> set truncMark" by (simp_all add: truncMark_def LF_def CR_def)
  have "field_end (tl (clean tbl s mx)) = Some (length (quote_body tbl ?t))"
    using passed_field [OF quote_body_passed] by (simp add: c quote_def)
  then show ?thesis using c q m
    by (intro exI [of _ k] exI [of _ "if d then truncMark else []"]) (auto simp: quote_def)
qed

end
