(* ===== verification/Message_Merge.thy ===== *)
theory Message_Merge
  imports Go_Prelude
begin

text \<open>
  The merger of transcript lines into assistant messages, \<^verbatim>\<open>src/internal/collector/messagemerge.go\<close>, and the
  extraction of tool paths it uses, \<^verbatim>\<open>toolpath.go\<close>. What \<^verbatim>\<open>encoding/json\<close> decodes is the environment:
  validity, a string literal, the content blocks of a line and its head; the byte scanner the code has
  of its own is written out. The merger is a state with one operation per method. The lemmas bound
  what is held open, show that a message is returned once while it is remembered, and that lines of
  it that are read again change nothing.
\<close>

section \<open>Scanning JSON bytes\<close>

definition maxJSONLLine :: nat where "maxJSONLLine = 10485760"
definition maxToolPathLen :: nat where "maxToolPathLen = 4096"
definition maxToolPathsPerLine :: nat where "maxToolPathsPerLine = 16"
definition maxToolBlocksPerLine :: nat where "maxToolBlocksPerLine = 64"

definition json_quote :: char where "json_quote = CHR 0x22"
definition json_backslash :: char where "json_backslash = CHR 0x5C"

definition low_byte :: "char \<Rightarrow> bool" where "low_byte c \<longleftrightarrow> (of_char c :: nat) \<le> 32"

definition jsonDelim :: "char \<Rightarrow> bool" where
  "jsonDelim c \<longleftrightarrow> low_byte c \<or> c \<in> set (json_quote # ''{}[],:'')"

function skip_space :: "string \<Rightarrow> nat \<Rightarrow> nat" where
  "skip_space b i = (if i < length b \<and> low_byte (b ! i) then skip_space b (Suc i) else i)"
  by pat_completeness auto
termination skip_space by (relation "measure (\<lambda>(b, i). length b - i)") auto

declare skip_space.simps [simp del]

text \<open>From after the opening quote to the closing one, or the end.\<close>

function skip_string :: "string \<Rightarrow> nat \<Rightarrow> bool \<Rightarrow> nat" where
  "skip_string b i esc =
     (if i < length b \<and> (esc \<or> b ! i \<noteq> json_quote) then skip_string b (Suc i) (\<not> esc \<and> b ! i = json_backslash) else i)"
  by pat_completeness auto
termination skip_string by (relation "measure (\<lambda>(b, i, esc). length b - i)") auto

declare skip_string.simps [simp del]

lemma skip_space_ge: "i \<le> skip_space b i"
  by (induction b i rule: skip_space.induct) (subst skip_space.simps, auto)

lemma skip_string_ge: "i \<le> skip_string b i esc"
  by (induction b i esc rule: skip_string.induct) (subst skip_string.simps, auto)

definition after_byte :: "string \<Rightarrow> nat \<Rightarrow> int \<Rightarrow> nat \<times> int" where
  "after_byte b i depth =
     (let c = b ! i
      in if c = json_quote then (Suc (skip_string b (Suc i) False), depth)
         else if c = CHR ''{'' \<or> c = CHR ''['' then (Suc i, depth + 1)
         else if c = CHR ''}'' \<or> c = CHR '']'' then (Suc i, depth - 1) else (Suc i, depth))"

lemma after_byte_gt: "i < fst (after_byte b i depth)"
  using skip_string_ge [of "Suc i" b False] by (auto simp: after_byte_def Let_def)

function scan_value :: "string \<Rightarrow> nat \<Rightarrow> int \<Rightarrow> nat" where
  "scan_value b i depth =
     (if length b \<le> i then i
      else (case after_byte b i depth of
              (j, d) \<Rightarrow> if d \<le> 0 \<and> (length b \<le> j \<or> jsonDelim (b ! i) \<or> jsonDelim (b ! j)) then j else scan_value b j d))"
  by pat_completeness auto
termination scan_value
proof (relation "measure (\<lambda>(b, i, depth). length b - i)", goal_cases)
  case (2 b i depth j d)
  then show ?case using after_byte_gt [of i b depth] by (cases "after_byte b i depth") auto
qed simp

declare scan_value.simps [simp del]

lemma scan_value_ge: "i \<le> scan_value b i depth"
proof (induction b i depth rule: scan_value.induct)
  case (1 b i depth)
  show ?case
  proof (cases "length b \<le> i")
    case False
    obtain j d where a: "after_byte b i depth = (j, d)" by fastforce
    then have "i < j" using after_byte_gt [of i b depth] by simp
    then show ?thesis using 1 False a by (subst scan_value.simps) fastforce
  qed (simp add: scan_value.simps)
qed

definition jsonNext :: "string \<Rightarrow> nat \<Rightarrow> nat \<times> nat" where
  "jsonNext b i = (let start = skip_space b i in (start, min (scan_value b start 0) (length b)))"

lemma jsonNext_ge: "i \<le> fst (jsonNext b i)"
  by (simp add: jsonNext_def Let_def skip_space_ge)

lemma jsonNext_end: "min i (length b) \<le> snd (jsonNext b i) \<and> snd (jsonNext b i) \<le> length b"
proof -
  have "i \<le> scan_value b (skip_space b i) 0" using skip_space_ge scan_value_ge order_trans by blast
  then show ?thesis by (simp add: jsonNext_def Let_def min_def)
qed

definition slice :: "string \<Rightarrow> nat \<Rightarrow> nat \<Rightarrow> string" where "slice b i j = drop i (take j b)"

text \<open>One member: the extents of its key and of its value, and where the next separator is.\<close>

definition member_at :: "string \<Rightarrow> nat \<Rightarrow> (nat \<times> nat \<times> nat \<times> nat \<times> nat) option" where
  "member_at b i =
     (case jsonNext b (Suc i) of (ks, ke) \<Rightarrow>
        if ke < ks + 2 \<or> b ! ks \<noteq> json_quote then None
        else (case jsonNext b ke of (_, ce) \<Rightarrow> case jsonNext b ce of (vs, ve) \<Rightarrow> Some (ks, ke, vs, ve, fst (jsonNext b ve))))"

lemma member_at_gt:
  assumes "member_at b i = Some (ks, ke, vs, ve, n)"
  shows "i < n"
proof -
  have ke: "i + 2 < ke" "ke \<le> length b" "n = fst (jsonNext b ve)"
    and ve: "ve = snd (jsonNext b (snd (jsonNext b ke)))"
    using assms jsonNext_ge [of "Suc i" b] jsonNext_end [of "Suc i" b]
    by (auto simp: member_at_def split: prod.splits if_splits)
  have "ke \<le> ve" using ke jsonNext_end [of ke b] jsonNext_end [of "snd (jsonNext b ke)" b] ve by linarith
  then show ?thesis using ke jsonNext_ge [of ve b] by linarith
qed

text \<open>The members from a separator on; a key seen twice yields nothing.\<close>

function member_loop :: "string \<Rightarrow> string \<Rightarrow> nat \<Rightarrow> char \<Rightarrow> string option \<Rightarrow> string option option" where
  "member_loop b key i sep val =
     (if length b \<le> i \<or> b ! i \<noteq> sep then Some val
      else (case member_at b i of
              None \<Rightarrow> Some val
            | Some (ks, ke, vs, ve, n) \<Rightarrow>
                if ke - ks = length key + 2 \<and> slice b (Suc ks) (ke - 1) = key then
                  (if val \<noteq> None then None else member_loop b key n (CHR '','') (Some (slice b vs ve)))
                else member_loop b key n (CHR '','') val))"
  by pat_completeness auto
termination member_loop
  by (relation "measure (\<lambda>(b, key, i, sep, val). length b - i)") (auto dest!: member_at_gt)

declare member_loop.simps [simp del]

definition json_spaces :: "char list" where "json_spaces = [CHR '' '', CHR 0x09, CHR 0x0D, CHR 0x0A]"

definition leading_blanks :: "string \<Rightarrow> nat" where
  "leading_blanks b = length (takeWhile (\<lambda>c. c \<in> set json_spaces) b)"

section \<open>The decoder\<close>

text \<open>A block's \<open>Input\<close> is the raw object its \<^verbatim>\<open>UnmarshalJSON\<close> is given, if any. The head of a line is what
  \<^verbatim>\<open>messageLineHead\<close> decodes, with the raw stream fields read (absent when wrongly typed).\<close>

record tool_block =
  tb_Type :: string
  tb_Name :: string
  tb_Input :: "string option"

record line_head =
  lh_Type :: string
  lh_ID :: string
  lh_Usage :: bool
  lh_Timestamp :: time
  lh_Sidechain :: bool
  lh_Agent :: string

record json_env =
  je_valid :: "string \<Rightarrow> bool"
  je_string :: "string \<Rightarrow> string"
  je_blocks :: "string \<Rightarrow> tool_block list option"
  je_head :: "string \<Rightarrow> line_head option"

definition jsonStringMember :: "json_env \<Rightarrow> string \<Rightarrow> string \<Rightarrow> string" where
  "jsonStringMember env obj key =
     (case member_loop obj key (leading_blanks obj) (CHR ''{'') None of
        None \<Rightarrow> [] | Some None \<Rightarrow> [] | Some (Some v) \<Rightarrow> je_string env v)"

section \<open>Tool paths\<close>

text \<open>The field an allowlisted tool names its target in.\<close>

definition block_path :: "json_env \<Rightarrow> tool_block \<Rightarrow> string" where
  "block_path env b =
     (let member = (\<lambda>key. case tb_Input b of None \<Rightarrow> [] | Some obj \<Rightarrow> jsonStringMember env obj key)
      in if tb_Name b \<in> set [''Read'', ''Edit'', ''MultiEdit'', ''Write''] then member ''file_path''
         else if tb_Name b = ''NotebookEdit'' then member ''notebook_path''
         else if tb_Name b \<in> set [''Glob'', ''Grep''] then member ''path'' else [])"

definition isNetworkPath :: "string \<Rightarrow> bool" where
  "isNetworkPath p \<longleftrightarrow> 2 \<le> length p \<and> p ! 0 \<in> set [CHR ''/'', json_backslash] \<and> p ! 1 \<in> set [CHR ''/'', json_backslash]"

text \<open>\<^verbatim>\<open>filepath.IsAbs\<close> on Unix.\<close>

definition isAbs :: "string \<Rightarrow> bool" where "isAbs p \<longleftrightarrow> has_prefix ''/'' p"

definition usable_path :: "string \<Rightarrow> bool" where
  "usable_path p \<longleftrightarrow> length p \<le> maxToolPathLen \<and> CHR 0x00 \<notin> set p \<and> isAbs p \<and> \<not> isNetworkPath p"

fun collect_paths :: "json_env \<Rightarrow> tool_block list \<Rightarrow> string list \<Rightarrow> string list" where
  "collect_paths env [] paths = paths"
| "collect_paths env (b # bs) paths =
     (if tb_Type b \<noteq> ''tool_use'' then collect_paths env bs paths
      else let p = block_path env b
           in if \<not> usable_path p \<or> p \<in> set paths then collect_paths env bs paths
              else if length (paths @ [p]) = maxToolPathsPerLine then paths @ [p]
              else collect_paths env bs (paths @ [p]))"

definition toolPathsFromLine :: "json_env \<Rightarrow> string \<Rightarrow> string list" where
  "toolPathsFromLine env line =
     (if maxJSONLLine < length line \<or> \<not> je_valid env line then []
      else if jsonStringMember env line ''type'' \<noteq> ''assistant'' then []
      else (case je_blocks env line of None \<Rightarrow> []
            | Some bs \<Rightarrow> collect_paths env (take maxToolBlocksPerLine bs) []))"

section \<open>The merger\<close>

definition maxOpenMessages :: nat where "maxOpenMessages = 16"
definition maxRecentMessageIDs :: nat where "maxRecentMessageIDs = 64"
definition maxToolPathsPerMessage :: nat where "maxToolPathsPerMessage = maxToolPathsPerLine"
definition maxMessageKeyLen :: nat where "maxMessageKeyLen = 256"

record message_group =
  g_ID :: string
  g_Sidechain :: bool
  g_Agent :: string
  g_Start :: int
  g_End :: int
  g_First :: time
  g_Last :: time
  g_Paths :: "string list"
  g_Truncated :: bool

record merger =
  m_open :: "message_group list"
  m_done :: "message_group list"
  m_recent :: "string list"
  m_next :: nat
  m_stale :: nat

definition empty_merger :: merger where
  "empty_merger = \<lparr>m_open = [], m_done = [], m_recent = replicate maxRecentMessageIDs [], m_next = 0, m_stale = 0\<rparr>"

definition remove_at :: "nat \<Rightarrow> 'a list \<Rightarrow> 'a list" where
  "remove_at i xs = take i xs @ drop (Suc i) xs"

definition finish :: "nat \<Rightarrow> merger \<Rightarrow> merger" where
  "finish i m =
     (let g = m_open m ! i; m = m\<lparr>m_open := remove_at i (m_open m), m_done := m_done m @ [g]\<rparr>
      in if g_ID g = [] then m
         else m\<lparr>m_recent := (m_recent m)[m_next m := g_ID g], m_next := (m_next m + 1) mod maxRecentMessageIDs\<rparr>)"

fun find_index :: "('a \<Rightarrow> bool) \<Rightarrow> 'a list \<Rightarrow> nat option" where
  "find_index P [] = None"
| "find_index P (x # xs) = (if P x then Some 0 else map_option Suc (find_index P xs))"

text \<open>A stale line moves the end of the last finished group of its message.\<close>

fun extend_done :: "string \<Rightarrow> int \<Rightarrow> message_group list \<Rightarrow> message_group list" where
  "extend_done i off [] = []"
| "extend_done i off (g # gs) =
     (if i \<in> g_ID ` set gs then g # extend_done i off gs
      else if g_ID g = i then g\<lparr>g_End := max (g_End g) off\<rparr> # gs else g # gs)"

definition merge_path :: "message_group \<Rightarrow> string \<Rightarrow> message_group" where
  "merge_path g p =
     (if p \<in> set (g_Paths g) then g
      else if length (g_Paths g) = maxToolPathsPerMessage then g\<lparr>g_Truncated := True\<rparr>
      else g\<lparr>g_Paths := g_Paths g @ [p]\<rparr>)"

definition merge_times :: "time \<Rightarrow> message_group \<Rightarrow> message_group" where
  "merge_times t g =
     (if time_is_zero t then g
      else (let g = (if time_is_zero (g_First g) \<or> t < g_First g then g\<lparr>g_First := t\<rparr> else g)
            in if g_Last g < t then g\<lparr>g_Last := t\<rparr> else g))"

definition merge_line :: "time \<Rightarrow> string list \<Rightarrow> int \<Rightarrow> message_group \<Rightarrow> message_group" where
  "merge_line t paths off g = foldl merge_path (merge_times t (g\<lparr>g_End := max (g_End g) off\<rparr>)) paths"

definition new_group :: "string \<Rightarrow> bool \<Rightarrow> string \<Rightarrow> int \<Rightarrow> message_group" where
  "new_group i side agent off =
     \<lparr>g_ID = i, g_Sidechain = side, g_Agent = agent, g_Start = off, g_End = 0, g_First = 0, g_Last = 0, g_Paths = [],
      g_Truncated = False\<rparr>"

text \<open>Opening a message: the stream's message is finished, then the oldest one when the list is full.\<close>

definition finish_stream :: "bool \<Rightarrow> string \<Rightarrow> merger \<Rightarrow> merger" where
  "finish_stream side agent m =
     (case find_index (\<lambda>g. g_Sidechain g = side \<and> g_Agent g = agent) (m_open m) of None \<Rightarrow> m | Some j \<Rightarrow> finish j m)"

definition make_room :: "merger \<Rightarrow> merger" where
  "make_room m =
     (if length (m_open m) = maxOpenMessages
      then finish 0 (m\<lparr>m_open := (m_open m)[0 := (m_open m ! 0)\<lparr>g_Truncated := True\<rparr>]\<rparr>) else m)"

definition open_message :: "string \<Rightarrow> bool \<Rightarrow> string \<Rightarrow> int \<Rightarrow> merger \<Rightarrow> merger" where
  "open_message i side agent off m =
     (let m = make_room (finish_stream side agent m) in m\<lparr>m_open := m_open m @ [new_group i side agent off]\<rparr>)"

definition key_of :: "string \<Rightarrow> string" where
  "key_of s = (if maxMessageKeyLen < length s then [] else s)"

definition used_head :: "json_env \<Rightarrow> string \<Rightarrow> line_head option" where
  "used_head env line =
     (if maxJSONLLine < length line then None
      else (case je_head env line of None \<Rightarrow> None
            | Some h \<Rightarrow> if lh_Type h \<noteq> ''assistant'' \<or> \<not> lh_Usage h then None else Some h))"

definition add_line :: "json_env \<Rightarrow> string \<Rightarrow> int \<Rightarrow> merger \<Rightarrow> merger" where
  "add_line env line off m =
     (case used_head env line of None \<Rightarrow> m
      | Some h \<Rightarrow>
          (let i = key_of (lh_ID h); agent = key_of (lh_Agent h)
           in if i \<noteq> [] \<and> i \<in> set (m_recent m)
              then m\<lparr>m_stale := m_stale m + 1, m_done := extend_done i off (m_done m)\<rparr>
              else
                (let (j, m) = (case find_index (\<lambda>g. i \<noteq> [] \<and> g_ID g = i) (m_open m) of
                        Some j \<Rightarrow> (j, m)
                      | None \<Rightarrow> (let m = open_message i (lh_Sidechain h) agent off m in (length (m_open m) - 1, m)));
                     m = m\<lparr>m_open := (m_open m)[j := merge_line (lh_Timestamp h) (toolPathsFromLine env line) off (m_open m ! j)]\<rparr>
                 in if i = [] then finish j m else m)))"

definition take_done :: "merger \<Rightarrow> message_group list \<times> merger" where
  "take_done m = (m_done m, m\<lparr>m_done := []\<rparr>)"

definition pendingFrom :: "merger \<Rightarrow> int option" where
  "pendingFrom m = foldl (\<lambda>acc g. case acc of None \<Rightarrow> Some (g_Start g)
     | Some off \<Rightarrow> if g_Start g < off then Some (g_Start g) else acc) None (m_open m)"

function flush_all :: "merger \<Rightarrow> merger" where
  "flush_all m = (if m_open m = [] then m else flush_all (finish 0 m))"
  by pat_completeness auto
termination flush_all
  by (relation "measure (\<lambda>m. length (m_open m))") (auto simp: finish_def remove_at_def Let_def)

declare flush_all.simps [simp del]

section \<open>Paths\<close>

lemma collect_paths_sound:
  "\<forall>p \<in> set ps. usable_path p \<Longrightarrow> distinct ps \<Longrightarrow> length ps < maxToolPathsPerLine \<Longrightarrow>
   (\<forall>p \<in> set (collect_paths env bs ps). usable_path p) \<and> distinct (collect_paths env bs ps)
   \<and> length (collect_paths env bs ps) \<le> maxToolPathsPerLine"
proof (induction bs arbitrary: ps)
  case (Cons b bs)
  let ?p = "block_path env b"
  consider "tb_Type b \<noteq> ''tool_use'' \<or> \<not> usable_path ?p \<or> ?p \<in> set ps"
    | "tb_Type b = ''tool_use''" "usable_path ?p" "?p \<notin> set ps" by blast
  then show ?case
  proof cases
    case 1
    then have "collect_paths env (b # bs) ps = collect_paths env bs ps" by (auto simp: Let_def)
    then show ?thesis using Cons by simp
  next
    case 2
    then have "collect_paths env (b # bs) ps
        = (if length (ps @ [?p]) = maxToolPathsPerLine then ps @ [?p] else collect_paths env bs (ps @ [?p]))"
      by (simp add: Let_def)
    then show ?thesis using Cons.IH [of "ps @ [?p]"] Cons.prems 2 by auto
  qed
qed simp

lemma toolPaths_sound:
  "(\<forall>p \<in> set (toolPathsFromLine env line). usable_path p) \<and> distinct (toolPathsFromLine env line)
   \<and> length (toolPathsFromLine env line) \<le> maxToolPathsPerLine"
  using collect_paths_sound [of "[]" env] by (simp add: toolPathsFromLine_def maxToolPathsPerLine_def split: option.splits)

section \<open>Groups\<close>

lemma find_index_Some: "find_index P xs = Some i \<Longrightarrow> i < length xs \<and> P (xs ! i)"
  by (induction xs arbitrary: i) (auto split: if_splits)

lemma find_index_None: "find_index P xs = None \<longleftrightarrow> (\<forall>x \<in> set xs. \<not> P x)"
  by (induction xs) auto

abbreviation stream :: "message_group \<Rightarrow> bool \<times> string" where
  "stream g \<equiv> (g_Sidechain g, g_Agent g)"

lemma merge_path_simps [simp]:
  "g_ID (merge_path g p) = g_ID g" "g_Sidechain (merge_path g p) = g_Sidechain g" "g_Agent (merge_path g p) = g_Agent g"
  "g_End (merge_path g p) = g_End g" "g_Start (merge_path g p) = g_Start g"
  "g_First (merge_path g p) = g_First g" "g_Last (merge_path g p) = g_Last g"
  by (auto simp: merge_path_def)

lemma merge_times_simps [simp]:
  "g_ID (merge_times t g) = g_ID g" "g_Sidechain (merge_times t g) = g_Sidechain g" "g_Agent (merge_times t g) = g_Agent g"
  "g_End (merge_times t g) = g_End g" "g_Start (merge_times t g) = g_Start g"
  "g_Paths (merge_times t g) = g_Paths g" "g_Truncated (merge_times t g) = g_Truncated g"
  by (auto simp: merge_times_def Let_def)

lemma foldl_merge_path_simps [simp]:
  "g_ID (foldl merge_path g ps) = g_ID g" "g_Sidechain (foldl merge_path g ps) = g_Sidechain g"
  "g_Agent (foldl merge_path g ps) = g_Agent g" "g_End (foldl merge_path g ps) = g_End g"
  "g_Start (foldl merge_path g ps) = g_Start g" "g_First (foldl merge_path g ps) = g_First g" "g_Last (foldl merge_path g ps) = g_Last g"
  by (induction ps arbitrary: g) auto

lemma merge_line_simps [simp]:
  "g_ID (merge_line t ps off g) = g_ID g" "g_Sidechain (merge_line t ps off g) = g_Sidechain g"
  "g_Agent (merge_line t ps off g) = g_Agent g" "g_End (merge_line t ps off g) = max (g_End g) off"
  "g_Start (merge_line t ps off g) = g_Start g"
  by (auto simp: merge_line_def)

text \<open>A group has absorbed a line: merging it again changes nothing.\<close>

definition absorbed :: "time \<Rightarrow> string list \<Rightarrow> int \<Rightarrow> message_group \<Rightarrow> bool" where
  "absorbed t ps off g \<longleftrightarrow> off \<le> g_End g \<and> (\<not> time_is_zero t \<longrightarrow> \<not> time_is_zero (g_First g) \<and> g_First g \<le> t \<and> t \<le> g_Last g)
     \<and> (\<forall>p \<in> set ps. p \<in> set (g_Paths g) \<or> length (g_Paths g) = maxToolPathsPerMessage \<and> g_Truncated g)"

lemma merge_absorbed:
  assumes "absorbed t ps off g"
  shows "merge_line t ps off g = g"
proof -
  have e: "g\<lparr>g_End := max (g_End g) off\<rparr> = g" using assms by (cases g) (simp add: absorbed_def max_def)
  have "merge_times t g = g" using assms by (auto simp: merge_times_def absorbed_def Let_def)
  moreover have "foldl merge_path g qs = g" if "set qs \<subseteq> set ps" for qs
    using that
  proof (induction qs)
    case (Cons q qs)
    have "merge_path g q = g" using assms Cons.prems by (cases g) (auto simp: merge_path_def absorbed_def)
    then show ?case using Cons by simp
  qed simp
  ultimately show ?thesis by (simp add: merge_line_def e)
qed

lemma merge_path_grows: "set (g_Paths g) \<subseteq> set (g_Paths (merge_path g p))"
  "length (g_Paths g) \<le> maxToolPathsPerMessage \<Longrightarrow> length (g_Paths (merge_path g p)) \<le> maxToolPathsPerMessage"
  "length (g_Paths g) = maxToolPathsPerMessage \<and> g_Truncated g \<Longrightarrow>
     length (g_Paths (merge_path g p)) = maxToolPathsPerMessage \<and> g_Truncated (merge_path g p)"
  by (auto simp: merge_path_def)

lemma foldl_path_grows: "set (g_Paths g) \<subseteq> set (g_Paths (foldl merge_path g ps))"
  "length (g_Paths g) \<le> maxToolPathsPerMessage \<Longrightarrow> length (g_Paths (foldl merge_path g ps)) \<le> maxToolPathsPerMessage"
  "length (g_Paths g) = maxToolPathsPerMessage \<and> g_Truncated g \<Longrightarrow>
     length (g_Paths (foldl merge_path g ps)) = maxToolPathsPerMessage \<and> g_Truncated (foldl merge_path g ps)"
proof (induction ps arbitrary: g)
  case (Cons p ps)
  { case 1 then show ?case using merge_path_grows(1) [of g p] Cons(1) [of "merge_path g p"] by auto
  next case 2 then show ?case using Cons(2) merge_path_grows(2) by simp
  next case 3 then show ?case using Cons(3) merge_path_grows(3) by simp }
qed simp_all

lemma foldl_path_all:
  assumes "length (g_Paths g) \<le> maxToolPathsPerMessage" "p \<in> set ps"
  shows "p \<in> set (g_Paths (foldl merge_path g ps))
    \<or> length (g_Paths (foldl merge_path g ps)) = maxToolPathsPerMessage \<and> g_Truncated (foldl merge_path g ps)"
  using assms
proof (induction ps arbitrary: g)
  case (Cons q ps)
  show ?case
  proof (cases "p \<in> set ps")
    case False
    then have "p \<in> set (g_Paths (merge_path g q)) \<or> length (g_Paths (merge_path g q)) = maxToolPathsPerMessage \<and> g_Truncated (merge_path g q)"
      using Cons.prems by (auto simp: merge_path_def)
    then show ?thesis using foldl_path_grows(1,3) [of "merge_path g q" ps] by auto
  qed (use Cons merge_path_grows(2) in simp)
qed simp

definition absorbed_time :: "time \<Rightarrow> message_group \<Rightarrow> bool" where
  "absorbed_time t g \<longleftrightarrow> t \<noteq> 0 \<longrightarrow> g_First g \<noteq> 0 \<and> g_First g \<le> t \<and> t \<le> g_Last g"

definition absorbed_paths :: "string list \<Rightarrow> message_group \<Rightarrow> bool" where
  "absorbed_paths ps g \<longleftrightarrow> (\<forall>p \<in> set ps. p \<in> set (g_Paths g) \<or> length (g_Paths g) = maxToolPathsPerMessage \<and> g_Truncated g)"

lemma absorbed_parts: "absorbed t ps off g \<longleftrightarrow> off \<le> g_End g \<and> absorbed_time t g \<and> absorbed_paths ps g"
  unfolding absorbed_def absorbed_time_def absorbed_paths_def time_is_zero_def by blast

lemma merge_path_cong:
  "g_Paths h = g_Paths k \<Longrightarrow> g_Truncated h = g_Truncated k \<Longrightarrow>
   g_Paths (merge_path h p) = g_Paths (merge_path k p) \<and> g_Truncated (merge_path h p) = g_Truncated (merge_path k p)"
  by (simp add: merge_path_def)

lemma merge_line_paths: "g_Paths (merge_line t ps off g) = g_Paths (foldl merge_path g ps)"
  "g_Truncated (merge_line t ps off g) = g_Truncated (foldl merge_path g ps)"
proof -
  have "g_Paths (foldl merge_path h ps) = g_Paths (foldl merge_path k ps) \<and> g_Truncated (foldl merge_path h ps) = g_Truncated (foldl merge_path k ps)"
    if "g_Paths h = g_Paths k" "g_Truncated h = g_Truncated k" for h k
    using that
  proof (induction ps arbitrary: h k)
    case (Cons p ps)
    have "g_Paths (merge_path h p) = g_Paths (merge_path k p)" "g_Truncated (merge_path h p) = g_Truncated (merge_path k p)"
      using merge_path_cong [OF Cons.prems] by blast+
    from Cons.IH [OF this] show ?case unfolding foldl_Cons .
  qed simp
  note * = this [of "merge_times t (g\<lparr>g_End := max (g_End g) off\<rparr>)" g]
  show "g_Paths (merge_line t ps off g) = g_Paths (foldl merge_path g ps)"
    "g_Truncated (merge_line t ps off g) = g_Truncated (foldl merge_path g ps)"
    unfolding merge_line_def by (rule * [THEN conjunct1]; simp) (rule * [THEN conjunct2]; simp)
qed

lemma merge_line_first_last:
  "g_First (merge_line t ps off g) = (if t \<noteq> 0 \<and> (g_First g = 0 \<or> t < g_First g) then t else g_First g)"
  "g_Last (merge_line t ps off g) = (if t \<noteq> 0 \<and> g_Last g < t then t else g_Last g)"
  by (simp_all add: merge_line_def merge_times_def Let_def time_is_zero_def)

text \<open>The times of a group are set together.\<close>

definition sound_group :: "message_group \<Rightarrow> bool" where
  "sound_group g \<longleftrightarrow> length (g_Paths g) \<le> maxToolPathsPerMessage \<and> distinct (g_Paths g)
     \<and> list_all usable_path (g_Paths g) \<and> (g_First g = 0 \<longrightarrow> g_Last g = 0)"

lemma absorbs_paths: "length (g_Paths g) \<le> maxToolPathsPerMessage \<Longrightarrow> absorbed_paths ps (merge_line t ps off g)"
  using foldl_path_all [of g _ ps] by (auto simp: absorbed_paths_def merge_line_paths)

lemma merge_line_absorbs:
  "length (g_Paths g) \<le> maxToolPathsPerMessage \<Longrightarrow> absorbed t ps off (merge_line t ps off g)"
  using absorbs_paths [of g ps t off] by (auto simp: absorbed_parts absorbed_time_def merge_line_first_last)

text \<open>Later lines do not undo it.\<close>

lemma merge_line_keeps:
  assumes "absorbed t ps off g"
  shows "absorbed t ps off (merge_line u qs o' g)"
proof -
  have "absorbed_paths ps (merge_line u qs o' g)"
    using assms foldl_path_grows(1,3) [of g qs] by (auto simp: absorbed_parts absorbed_paths_def merge_line_paths)
  then show ?thesis using assms by (auto simp: absorbed_parts absorbed_time_def merge_line_first_last)
qed

lemma merge_path_sound: "sound_group g \<Longrightarrow> usable_path p \<Longrightarrow> sound_group (merge_path g p)"
  by (auto simp: sound_group_def merge_path_def)

lemma foldl_path_sound: "sound_group g \<Longrightarrow> list_all usable_path ps \<Longrightarrow> sound_group (foldl merge_path g ps)"
  by (induction ps arbitrary: g) (auto intro: merge_path_sound)

lemma merge_line_sound:
  "sound_group g \<Longrightarrow> list_all usable_path ps \<Longrightarrow> sound_group (merge_line t ps off g)"
  using foldl_path_sound [of g ps] by (auto simp: sound_group_def merge_line_paths merge_line_first_last)

lemma new_group_sound: "sound_group (new_group i side agent off)"
  by (simp add: sound_group_def new_group_def maxToolPathsPerMessage_def maxToolPathsPerLine_def)

section \<open>The invariant\<close>

definition merger_inv :: "merger \<Rightarrow> bool" where
  "merger_inv m \<longleftrightarrow> length (m_open m) \<le> maxOpenMessages \<and> distinct (map stream (m_open m))
     \<and> distinct (map g_ID (m_open m)) \<and> list_all (\<lambda>g. g_ID g \<noteq> [] \<and> g_ID g \<notin> set (m_recent m)) (m_open m)
     \<and> length (m_recent m) = maxRecentMessageIDs \<and> m_next m < maxRecentMessageIDs
     \<and> list_all sound_group (m_open m) \<and> list_all sound_group (m_done m)"

definition named :: "message_group list \<Rightarrow> string list" where
  "named gs = filter (\<lambda>i. i \<noteq> []) (map g_ID gs)"

lemma named_append [simp]: "named (xs @ ys) = named xs @ named ys"
  by (simp add: named_def)

lemma extend_done_ids [simp]: "map g_ID (extend_done i off gs) = map g_ID gs"
  by (induction gs) auto

lemma extend_done_sound: "list_all sound_group gs \<Longrightarrow> list_all sound_group (extend_done i off gs)"
  by (induction gs) (auto simp: sound_group_def)

lemma named_extend [simp]: "named (extend_done i off gs) = named gs"
  by (simp add: named_def)

lemma map_remove_at: "map f (remove_at i xs) = remove_at i (map f xs)"
  by (simp add: remove_at_def take_map drop_map)

lemma set_remove_at: "set (remove_at i xs) \<subseteq> set xs"
  by (auto simp: remove_at_def dest: in_set_takeD in_set_dropD)

lemma remove_at_split: "i < length xs \<Longrightarrow> xs = take i xs @ xs ! i # drop (Suc i) xs"
  by (rule id_take_nth_drop)

lemma distinct_remove_at: "distinct xs \<Longrightarrow> distinct (remove_at i xs) \<and> (i < length xs \<longrightarrow> xs ! i \<notin> set (remove_at i xs))"
proof (cases "i < length xs")
  case True
  assume "distinct xs"
  then have "distinct (take i xs @ xs ! i # drop (Suc i) xs)" using remove_at_split [OF True] by simp
  then show ?thesis by (simp add: remove_at_def)
qed (simp add: remove_at_def)

lemma length_remove_at: "i < length xs \<Longrightarrow> length (remove_at i xs) = length xs - 1"
  by (simp add: remove_at_def)

lemma finish_open [simp]: "m_open (finish j m) = remove_at j (m_open m)"
  "m_done (finish j m) = m_done m @ [m_open m ! j]" "m_stale (finish j m) = m_stale m"
  by (simp_all add: finish_def Let_def)

lemma merger_invD:
  assumes "merger_inv m"
  shows "length (m_open m) \<le> maxOpenMessages" "distinct (map stream (m_open m))" "distinct (map g_ID (m_open m))"
    "\<And>g. g \<in> set (m_open m) \<Longrightarrow> g_ID g \<noteq> [] \<and> g_ID g \<notin> set (m_recent m) \<and> sound_group g"
    "length (m_recent m) = maxRecentMessageIDs" "m_next m < maxRecentMessageIDs" "list_all sound_group (m_done m)"
  using assms by (simp_all add: merger_inv_def list_all_iff)

lemma merger_invI:
  assumes "length (m_open m) \<le> maxOpenMessages" "distinct (map stream (m_open m))" "distinct (map g_ID (m_open m))"
    "\<And>g. g \<in> set (m_open m) \<Longrightarrow> g_ID g \<noteq> [] \<and> g_ID g \<notin> set (m_recent m) \<and> sound_group g"
    "length (m_recent m) = maxRecentMessageIDs" "m_next m < maxRecentMessageIDs" "list_all sound_group (m_done m)"
  shows "merger_inv m"
  using assms unfolding merger_inv_def list_all_iff by blast

lemma finish_recent:
  "g_ID (m_open m ! j) \<noteq> [] \<Longrightarrow> m_recent (finish j m) = (m_recent m)[m_next m := g_ID (m_open m ! j)]"
  "g_ID (m_open m ! j) \<noteq> [] \<Longrightarrow> m_next (finish j m) = (m_next m + 1) mod maxRecentMessageIDs"
  by (simp_all add: finish_def Let_def)

lemma finish_length: "j < length (m_open m) \<Longrightarrow> length (m_open m) \<le> k \<Longrightarrow> length (m_open (finish j m)) \<le> k"
  by (simp add: length_remove_at)

lemma finish_distinct: "distinct (map f (m_open m)) \<Longrightarrow> distinct (map f (m_open (finish j m)))"
  unfolding finish_open map_remove_at by (rule distinct_remove_at [THEN conjunct1])

lemma finish_ring:
  "g_ID (m_open m ! j) \<noteq> [] \<Longrightarrow> length (m_recent m) = maxRecentMessageIDs \<Longrightarrow>
   length (m_recent (finish j m)) = maxRecentMessageIDs \<and> m_next (finish j m) < maxRecentMessageIDs"
  by (simp add: finish_recent maxRecentMessageIDs_def)

lemma finish_others:
  assumes "distinct (map g_ID (m_open m))" "j < length (m_open m)" "x \<in> set (remove_at j (m_open m))"
  shows "g_ID x \<noteq> g_ID (m_open m ! j)"
proof -
  have "map g_ID (m_open m) ! j \<notin> set (remove_at j (map g_ID (m_open m)))"
    using distinct_remove_at [OF assms(1), of j] assms(2) by simp
  then have "g_ID (m_open m ! j) \<notin> g_ID ` set (remove_at j (m_open m))"
    unfolding map_remove_at [symmetric] using assms(2) by simp
  then show ?thesis using imageI [OF assms(3), of g_ID] by auto
qed

lemma finish_recent_set:
  "g_ID (m_open m ! j) \<noteq> [] \<Longrightarrow> set (m_recent (finish j m)) \<subseteq> insert (g_ID (m_open m ! j)) (set (m_recent m))"
  using set_update_subset_insert [of "m_recent m" "m_next m"] by (simp add: finish_recent)

lemma finish_inv:
  assumes inv: "merger_inv m" and j: "j < length (m_open m)"
  shows "merger_inv (finish j m)"
proof -
  note I = merger_invD [OF inv]
  have g: "m_open m ! j \<in> set (m_open m)" using j by (rule nth_mem)
  have n: "g_ID (m_open m ! j) \<noteq> []" using I(4) [OF g] by blast
  have "list_all sound_group (m_done (finish j m))" using I(4) [OF g] I(7) by simp
  moreover have "g_ID x \<noteq> [] \<and> g_ID x \<notin> set (m_recent (finish j m)) \<and> sound_group x" if x: "x \<in> set (m_open (finish j m))" for x
  proof -
    have x': "x \<in> set (remove_at j (m_open m))" using x by (simp only: finish_open)
    then have "x \<in> set (m_open m)" using subsetD [OF set_remove_at] by fast
    then show ?thesis using I(4) [of x] finish_others [OF I(3) j x'] subsetD [OF finish_recent_set [OF n]] by blast
  qed
  ultimately show ?thesis
    using finish_length [OF j I(1)] finish_distinct [OF I(2), of j] finish_distinct [OF I(3), of j] finish_ring [OF n I(5)]
    by (intro merger_invI) auto
qed

lemma map_update_key: "f y = f (xs ! j) \<Longrightarrow> map f (xs[j := y]) = map f xs"
  by (metis list_update_id map_update)

lemma update_inv:
  assumes inv: "merger_inv m" and j: "j < length (m_open m)"
    and h: "g_ID h = g_ID (m_open m ! j)" "stream h = stream (m_open m ! j)" "sound_group h"
  shows "merger_inv (m\<lparr>m_open := (m_open m)[j := h]\<rparr>)"
proof (rule merger_invI)
  note I = merger_invD [OF inv]
  have k: "map g_ID ((m_open m)[j := h]) = map g_ID (m_open m)" "map stream ((m_open m)[j := h]) = map stream (m_open m)"
    using h by (simp_all only: map_update_key)
  fix x assume "x \<in> set (m_open (m\<lparr>m_open := (m_open m)[j := h]\<rparr>))"
  then have "x \<in> insert h (set (m_open m))" using set_update_subset_insert by fastforce
  then have "x = h \<or> x \<in> set (m_open m)" by simp
  then show "g_ID x \<noteq> [] \<and> g_ID x \<notin> set (m_recent (m\<lparr>m_open := (m_open m)[j := h]\<rparr>)) \<and> sound_group x"
  proof
    assume "x = h"
    then show ?thesis using I(4) [OF nth_mem [OF j]] h by simp
  qed (use I(4) in simp)
qed (use merger_invD [OF inv] in \<open>simp_all add: map_update_key h\<close>)

text \<open>Making way for a new message.\<close>

definition make_way :: "bool \<Rightarrow> string \<Rightarrow> merger \<Rightarrow> merger" where
  "make_way side agent m = make_room (finish_stream side agent m)"

lemma truncate_inv: "merger_inv m \<Longrightarrow> m_open m \<noteq> [] \<Longrightarrow> merger_inv (m\<lparr>m_open := (m_open m)[0 := (m_open m ! 0)\<lparr>g_Truncated := True\<rparr>]\<rparr>)"
  using merger_invD(4) [of m "m_open m ! 0"] by (intro update_inv) (auto simp: sound_group_def)

lemma finish_stream_inv: "merger_inv m \<Longrightarrow> merger_inv (finish_stream side agent m)"
  by (cases "find_index (\<lambda>g. g_Sidechain g = side \<and> g_Agent g = agent) (m_open m)")
    (auto simp: finish_stream_def dest: find_index_Some intro: finish_inv)

lemma finish_stream_gone:
  assumes inv: "merger_inv m" and g: "g \<in> set (m_open (finish_stream side agent m))"
  shows "stream g \<noteq> (side, agent)"
proof (cases "find_index (\<lambda>g. g_Sidechain g = side \<and> g_Agent g = agent) (m_open m)")
  case (Some j)
  have j: "j < length (m_open m)" "stream (m_open m ! j) = (side, agent)" using find_index_Some [OF Some] by auto
  have "map stream (m_open m) ! j \<notin> set (remove_at j (map stream (m_open m)))"
    using distinct_remove_at [OF merger_invD(2) [OF inv], of j] j(1) by simp
  then have no: "(side, agent) \<notin> stream ` set (remove_at j (m_open m))"
    unfolding map_remove_at [symmetric] using j by simp
  have "g \<in> set (remove_at j (m_open m))" using g Some by (simp add: finish_stream_def)
  then show ?thesis using no imageI [of g _ stream] by metis
next
  case None
  then have "g \<in> set (m_open m)" using g by (simp add: finish_stream_def)
  moreover have "\<forall>x \<in> set (m_open m). \<not> (g_Sidechain x = side \<and> g_Agent x = agent)"
    using None unfolding find_index_None .
  ultimately show ?thesis by simp
qed

lemma make_room_inv: "merger_inv m \<Longrightarrow> merger_inv (make_room m)"
  using truncate_inv [of m] by (cases "m_open m") (auto simp: make_room_def maxOpenMessages_def intro!: finish_inv)

lemma make_room_room: "merger_inv m \<Longrightarrow> length (m_open (make_room m)) < maxOpenMessages"
  using merger_invD(1) [of m] by (auto simp: make_room_def maxOpenMessages_def length_remove_at)

lemma make_room_open: "m_open (make_room m) = (if length (m_open m) = maxOpenMessages then tl (m_open m) else m_open m)"
  by (cases "m_open m") (auto simp: make_room_def remove_at_def maxOpenMessages_def)

lemma make_way_inv:
  assumes inv: "merger_inv m"
  shows "merger_inv (make_way side agent m)"
    "length (m_open (make_way side agent m)) < maxOpenMessages"
    "g \<in> set (m_open (make_way side agent m)) \<Longrightarrow> stream g \<noteq> (side, agent)"
proof -
  note s = finish_stream_inv [OF inv, of side agent]
  show "merger_inv (make_way side agent m)" "length (m_open (make_way side agent m)) < maxOpenMessages"
    unfolding make_way_def using make_room_inv [OF s] make_room_room [OF s] by blast+
  assume "g \<in> set (m_open (make_way side agent m))"
  then have "g \<in> set (m_open (finish_stream side agent m))"
    unfolding make_way_def make_room_open by (cases "m_open (finish_stream side agent m)") (auto split: if_splits)
  then show "stream g \<noteq> (side, agent)" by (rule finish_stream_gone [OF inv])
qed

section \<open>One line\<close>

text \<open>The five things \<^verbatim>\<open>add\<close> does with a line.\<close>

definition line_id :: "line_head \<Rightarrow> string" where "line_id h = key_of (lh_ID h)"
definition line_agent :: "line_head \<Rightarrow> string" where "line_agent h = key_of (lh_Agent h)"

definition merge_head :: "json_env \<Rightarrow> string \<Rightarrow> line_head \<Rightarrow> int \<Rightarrow> message_group \<Rightarrow> message_group" where
  "merge_head env line h off g = merge_line (lh_Timestamp h) (toolPathsFromLine env line) off g"

lemma remove_last: "remove_at (length xs) (xs @ [x]) = xs"
  by (simp add: remove_at_def)

lemma add_unused: "used_head env line = None \<Longrightarrow> add_line env line off m = m"
  by (simp add: add_line_def)

lemma add_stale: "used_head env line = Some h \<Longrightarrow> line_id h \<noteq> [] \<Longrightarrow> line_id h \<in> set (m_recent m) \<Longrightarrow>
   add_line env line off m = m\<lparr>m_stale := m_stale m + 1, m_done := extend_done (line_id h) off (m_done m)\<rparr>"
  by (simp add: add_line_def line_id_def Let_def)

lemma add_known:
  assumes "used_head env line = Some h" "line_id h \<noteq> []" "line_id h \<notin> set (m_recent m)"
    and "find_index (\<lambda>g. g_ID g = line_id h) (m_open m) = Some j"
  shows "add_line env line off m = m\<lparr>m_open := (m_open m)[j := merge_head env line h off (m_open m ! j)]\<rparr>"
  using assms by (simp add: add_line_def line_id_def Let_def merge_head_def)

abbreviation opened :: "json_env \<Rightarrow> string \<Rightarrow> line_head \<Rightarrow> int \<Rightarrow> message_group" where
  "opened env line h off \<equiv> merge_head env line h off (new_group (line_id h) (lh_Sidechain h) (line_agent h) off)"

lemma open_message_way:
  "open_message i side agent off m = (make_way side agent m)\<lparr>m_open := m_open (make_way side agent m) @ [new_group i side agent off]\<rparr>"
  by (simp add: open_message_def make_way_def Let_def)

lemma add_new:
  assumes "used_head env line = Some h" "line_id h \<noteq> []" "line_id h \<notin> set (m_recent m)"
    and "find_index (\<lambda>g. g_ID g = line_id h) (m_open m) = None"
  shows "add_line env line off m = (make_way (lh_Sidechain h) (line_agent h) m)
    \<lparr>m_open := m_open (make_way (lh_Sidechain h) (line_agent h) m) @ [opened env line h off]\<rparr>"
  using assms by (simp add: add_line_def line_id_def line_agent_def Let_def merge_head_def open_message_way)

lemma find_index_False: "find_index (\<lambda>g. False) xs = None"
  by (simp add: find_index_None)

lemma add_nameless:
  assumes "used_head env line = Some h" "line_id h = []"
  shows "add_line env line off m = (make_way (lh_Sidechain h) (line_agent h) m)
    \<lparr>m_done := m_done (make_way (lh_Sidechain h) (line_agent h) m) @ [opened env line h off]\<rparr>"
proof -
  let ?m = "make_way (lh_Sidechain h) (line_agent h) m"
  have "g_ID (opened env line h off) = []" using assms(2) by (simp add: merge_head_def new_group_def)
  then show ?thesis using assms
    by (simp add: add_line_def line_id_def line_agent_def Let_def merge_head_def open_message_way find_index_False
        finish_def nth_append remove_last)
qed

lemma toolPaths_list: "list_all usable_path (toolPathsFromLine env line)"
  using toolPaths_sound by (simp add: list_all_iff)

lemma opened_sound: "sound_group (opened env line h off)"
  unfolding merge_head_def by (rule merge_line_sound [OF new_group_sound toolPaths_list])

lemma merge_head_simps [simp]:
  "g_ID (merge_head env line h off g) = g_ID g" "g_Sidechain (merge_head env line h off g) = g_Sidechain g"
  "g_Agent (merge_head env line h off g) = g_Agent g"
  by (simp_all add: merge_head_def)

lemma new_group_simps [simp]: "g_ID (new_group i side agent off) = i" "g_Sidechain (new_group i side agent off) = side"
  "g_Agent (new_group i side agent off) = agent"
  by (simp_all add: new_group_def)

lemma finish_recent_grow:
  assumes "merger_inv m" "j < length (m_open m)"
  shows "set (m_recent (finish j m)) \<subseteq> set (m_recent m) \<union> g_ID ` set (m_open m)"
  using finish_recent_set [of m j] merger_invD(4) [OF assms(1) nth_mem [OF assms(2)]] imageI [OF nth_mem [OF assms(2)], of g_ID]
  by blast

lemma finish_stream_grow:
  assumes inv: "merger_inv m"
  shows "set (m_recent (finish_stream side agent m)) \<union> g_ID ` set (m_open (finish_stream side agent m))
    \<subseteq> set (m_recent m) \<union> g_ID ` set (m_open m)"
proof (cases "find_index (\<lambda>g. g_Sidechain g = side \<and> g_Agent g = agent) (m_open m)")
  case (Some j)
  then have j: "j < length (m_open m)" using find_index_Some by blast
  show ?thesis using finish_recent_grow [OF inv j] image_mono [OF set_remove_at [of j "m_open m"], of g_ID] Some
    by (auto simp: finish_stream_def)
qed (simp add: finish_stream_def)

lemma make_room_grow:
  assumes inv: "merger_inv m"
  shows "set (m_recent (make_room m)) \<union> g_ID ` set (m_open (make_room m)) \<subseteq> set (m_recent m) \<union> g_ID ` set (m_open m)"
proof (cases "length (m_open m) = maxOpenMessages")
  case True
  then obtain g gs where o: "m_open m = g # gs" by (cases "m_open m") (auto simp: maxOpenMessages_def)
  let ?m = "m\<lparr>m_open := g\<lparr>g_Truncated := True\<rparr> # gs\<rparr>"
  have r: "make_room m = finish 0 ?m" using True o by (simp add: make_room_def)
  have "g_ID g \<noteq> []" using merger_invD(4) [OF inv, of g] o by simp
  then have "set (m_recent (finish 0 ?m)) \<subseteq> insert (g_ID g) (set (m_recent m))"
    using finish_recent_set [of ?m 0] by simp
  then show ?thesis unfolding r using o by (auto simp: remove_at_def)
qed (simp add: make_room_def)

lemma make_way_grow:
  assumes inv: "merger_inv m"
  shows "set (m_recent (make_way side agent m)) \<union> g_ID ` set (m_open (make_way side agent m))
    \<subseteq> set (m_recent m) \<union> g_ID ` set (m_open m)"
  unfolding make_way_def
  using make_room_grow [OF finish_stream_inv [OF inv]] finish_stream_grow [OF inv] by (rule order_trans)

lemma append_open_inv:
  assumes inv: "merger_inv w" and room: "length (m_open w) < maxOpenMessages"
    and g: "stream g \<notin> stream ` set (m_open w)" "g_ID g \<notin> set (m_recent w) \<union> g_ID ` set (m_open w)" "g_ID g \<noteq> []" "sound_group g"
  shows "merger_inv (w\<lparr>m_open := m_open w @ [g]\<rparr>)"
proof (rule merger_invI)
  fix x assume "x \<in> set (m_open (w\<lparr>m_open := m_open w @ [g]\<rparr>))"
  then have "x = g \<or> x \<in> set (m_open w)" by simp
  then show "g_ID x \<noteq> [] \<and> g_ID x \<notin> set (m_recent (w\<lparr>m_open := m_open w @ [g]\<rparr>)) \<and> sound_group x"
    using merger_invD(4) [OF inv, of x] g by auto
qed (use room g merger_invD [OF inv] in simp_all)

lemma done_inv: "merger_inv w \<Longrightarrow> list_all sound_group gs \<Longrightarrow> merger_inv (w\<lparr>m_done := gs\<rparr>)"
  by (simp add: merger_inv_def)

lemma stale_inv: "merger_inv (w\<lparr>m_stale := n, m_done := gs\<rparr>) = merger_inv (w\<lparr>m_done := gs\<rparr>)"
  by (simp add: merger_inv_def)

lemma add_new_inv:
  assumes inv: "merger_inv m" and h: "used_head env line = Some h" "line_id h \<noteq> []" "line_id h \<notin> set (m_recent m)"
    and none: "find_index (\<lambda>g. g_ID g = line_id h) (m_open m) = None"
  shows "merger_inv (add_line env line off m)"
proof -
  let ?w = "make_way (lh_Sidechain h) (line_agent h) m"
  note W = make_way_inv [OF inv, where side = "lh_Sidechain h" and agent = "line_agent h"]
  have "line_id h \<notin> g_ID ` set (m_open m)" using none unfolding find_index_None by (metis imageE)
  then have new: "line_id h \<notin> set (m_recent ?w) \<union> g_ID ` set (m_open ?w)" using make_way_grow [OF inv] h(3) by blast
  have "(lh_Sidechain h, line_agent h) \<notin> stream ` set (m_open ?w)"
  proof
    assume "(lh_Sidechain h, line_agent h) \<in> stream ` set (m_open ?w)"
    then obtain g where "g \<in> set (m_open ?w)" "stream g = (lh_Sidechain h, line_agent h)" by fastforce
    then show False using W(3) by blast
  qed
  then have "merger_inv (?w\<lparr>m_open := m_open ?w @ [opened env line h off]\<rparr>)"
    using new h(2) opened_sound by (intro append_open_inv W) simp_all
  then show ?thesis by (simp only: add_new [OF h none])
qed

lemma add_line_inv:
  assumes inv: "merger_inv m"
  shows "merger_inv (add_line env line off m)"
proof (cases "used_head env line")
  case used: (Some h)
  consider "line_id h = []" | "line_id h \<noteq> []" "line_id h \<in> set (m_recent m)"
    | "line_id h \<noteq> []" "line_id h \<notin> set (m_recent m)" "find_index (\<lambda>g. g_ID g = line_id h) (m_open m) = None"
    | j where "line_id h \<noteq> []" "line_id h \<notin> set (m_recent m)" "find_index (\<lambda>g. g_ID g = line_id h) (m_open m) = Some j"
    by (cases "find_index (\<lambda>g. g_ID g = line_id h) (m_open m)") auto
  then show ?thesis
  proof cases
    case 1
    note W = make_way_inv(1) [OF inv, where side = "lh_Sidechain h" and agent = "line_agent h"]
    show ?thesis unfolding add_nameless [OF used 1]
      by (rule done_inv [OF W]) (simp add: merger_invD(7) [OF W] opened_sound)
  next
    case 2
    show ?thesis unfolding add_stale [OF used 2] stale_inv
      by (rule done_inv [OF inv]) (rule extend_done_sound [OF merger_invD(7) [OF inv]])
  next
    case 3
    then show ?thesis by (rule add_new_inv [OF inv used])
  next
    case (4 j)
    then have j: "j < length (m_open m)" using find_index_Some by blast
    have "sound_group (merge_head env line h off (m_open m ! j))"
      unfolding merge_head_def using merger_invD(4) [OF inv nth_mem [OF j]] toolPaths_list by (blast intro: merge_line_sound)
    then show ?thesis unfolding add_known [OF used 4] by (intro update_inv [OF inv j]) simp_all
  qed
qed (simp add: add_unused inv)

lemma empty_merger_inv: "merger_inv empty_merger"
  by (simp add: merger_inv_def empty_merger_def maxRecentMessageIDs_def maxOpenMessages_def)

end
