(* ===== verification/Message_Runs.thy ===== *)
theory Message_Runs
  imports Message_Merge
begin

text \<open>
  What the merger of \<^verbatim>\<open>Message_Merge\<close> guarantees along a run of its methods: the ring of finished message
  names, the lines a message has absorbed, and the two properties of the reader of a transcript: no
  message is returned twice while it is remembered, and a line read again changes nothing.
\<close>

section \<open>A message that is remembered\<close>

text \<open>The last finished group of a message, if it has not been taken.\<close>

definition last_done :: "string \<Rightarrow> message_group list \<Rightarrow> message_group option" where
  "last_done i gs = find (\<lambda>g. g_ID g = i) (rev gs)"

lemma last_done_snoc: "last_done i (gs @ [g]) = (if g_ID g = i then Some g else last_done i gs)"
  by (simp add: last_done_def)

lemma last_done_none: "last_done i gs = None \<longleftrightarrow> i \<notin> g_ID ` set gs"
  by (auto simp: last_done_def find_None_iff)

lemma find_append_some: "find P xs = Some x \<Longrightarrow> find P (xs @ ys) = Some x"
  by (induction xs) (auto split: if_splits)

lemma find_append_None: "find P xs = None \<Longrightarrow> find P (xs @ ys) = find P ys"
  by (induction xs) (auto split: if_splits)

lemma last_done_Cons: "last_done i (g # gs) = (if i \<in> g_ID ` set gs then last_done i gs else if g_ID g = i then Some g else None)"
proof (cases "find (\<lambda>g. g_ID g = i) (rev gs)")
  case None
  then have "find (\<lambda>g. g_ID g = i) (rev gs @ [g]) = (if g_ID g = i then Some g else None)"
    by (simp add: find_append_None)
  then show ?thesis using None last_done_none [of i gs] by (auto simp: last_done_def)
next
  case (Some x)
  then have "find (\<lambda>g. g_ID g = i) (rev gs @ [g]) = Some x" by (rule find_append_some)
  then show ?thesis using Some last_done_none [of i gs] by (auto simp: last_done_def)
qed

lemma extend_done_same: "(\<forall>g. last_done i gs = Some g \<longrightarrow> off \<le> g_End g) \<Longrightarrow> extend_done i off gs = gs"
proof (induction gs)
  case (Cons g gs)
  show ?case
  proof (cases "i \<in> g_ID ` set gs")
    case False
    have "g\<lparr>g_End := max (g_End g) off\<rparr> = g" if "g_ID g = i"
      using Cons.prems False that by (cases g) (simp add: last_done_Cons max_def)
    then show ?thesis using False by simp
  qed (use Cons in \<open>simp add: last_done_Cons\<close>)
qed simp

lemma extend_done_keeps:
  assumes "\<forall>g. last_done i gs = Some g \<longrightarrow> off \<le> g_End g"
  shows "last_done i (extend_done k o' gs) = Some g \<longrightarrow> off \<le> g_End g"
  using assms
proof (induction gs)
  case (Cons x gs)
  have ids: "g_ID ` set (extend_done k o' gs) = g_ID ` set gs"
    using extend_done_ids [of k o' gs] by (metis set_map)
  show ?case using Cons by (auto simp: last_done_Cons ids split: if_splits)
qed simp

text \<open>The line of message \<open>i\<close> is merged, or its message is among the last \<open>d\<close> finished ones.\<close>

definition done_at :: "string \<Rightarrow> int \<Rightarrow> nat \<Rightarrow> merger \<Rightarrow> bool" where
  "done_at i off d m \<longleftrightarrow> d < maxRecentMessageIDs
     \<and> m_recent m ! ((m_next m + (maxRecentMessageIDs - 1) - d) mod maxRecentMessageIDs) = i
     \<and> (\<forall>g. last_done i (m_done m) = Some g \<longrightarrow> off \<le> g_End g)"

definition merged_or_done :: "string \<Rightarrow> time \<Rightarrow> string list \<Rightarrow> int \<Rightarrow> nat \<Rightarrow> merger \<Rightarrow> bool" where
  "merged_or_done i t ps off n m \<longleftrightarrow>
     (\<exists>g \<in> set (m_open m). g_ID g = i \<and> absorbed t ps off g) \<or> (\<exists>d < n. done_at i off d m)"

lemma ring_step:
  assumes "next < (64 :: nat)" "d < 63"
  shows "((next + 1) mod 64 + 63 - (d + 1)) mod 64 = (next + 63 - d) mod 64" "(next + 63 - d) mod 64 \<noteq> next" "((next + 1) mod 64 + 63) mod 64 = next"
proof -
  show "((next + 1) mod 64 + 63) mod 64 = next" using assms(1) by (cases "next = 63") auto
  show "((next + 1) mod 64 + 63 - (d + 1)) mod 64 = (next + 63 - d) mod 64"
  proof (cases "next = 63")
    case True
    have "(63 + 63 - d) mod 64 = (62 - d + 64) mod 64" using assms(2) by simp
    also have "\<dots> = (62 - d) mod 64" by (rule mod_add_self2)
    finally show ?thesis using True by simp
  next
    case False
    then have "(next + 1) mod 64 = next + 1" using assms(1) by simp
    then have "(next + 1) mod 64 + 63 - (d + 1) = next + 63 - d" by simp
    then show ?thesis by (simp only:)
  qed
  show "(next + 63 - d) mod 64 \<noteq> next"
  proof (cases "d < next")
    case True
    then have "next + 63 - d = (next - d - 1) + 64" by simp
    then have "(next + 63 - d) mod 64 = ((next - d - 1) + 64) mod 64" by (simp only:)
    also have "\<dots> = next - d - 1" using assms(1) by (simp only: mod_add_self2) simp
    finally show ?thesis using True by simp
  next
    case False
    then have "next + 63 - d \<le> 63" by simp
    then have "(next + 63 - d) mod 64 = next + 63 - d" by simp
    then show ?thesis using assms(2) by simp
  qed
qed

lemma done_at_recent:
  assumes inv: "merger_inv m" and d: "done_at i off d m"
  shows "i \<in> set (m_recent m)"
proof -
  have "(m_next m + 63 - d) mod 64 < length (m_recent m)" using merger_invD(5) [OF inv] by (simp add: maxRecentMessageIDs_def)
  from nth_mem [OF this] show ?thesis using d by (simp add: done_at_def maxRecentMessageIDs_def)
qed

lemma finish_done_at:
  assumes inv: "merger_inv m" and j: "j < length (m_open m)"
  shows "\<forall>g. g = m_open m ! j \<longrightarrow> g_ID g = i \<longrightarrow> off \<le> g_End g \<longrightarrow> done_at i off 0 (finish j m)"
    "g_ID (m_open m ! j) \<noteq> i \<Longrightarrow> d < 63 \<Longrightarrow> done_at i off d m \<Longrightarrow> done_at i off (Suc d) (finish j m)"
proof -
  note I = merger_invD [OF inv]
  have named: "g_ID (m_open m ! j) \<noteq> []" using I(4) [OF nth_mem [OF j]] by blast
  note R = finish_recent [OF named]
  have len: "m_next m < 64" "length (m_recent m) = 64" using I(5,6) by (simp_all add: maxRecentMessageIDs_def)
  show "\<forall>g. g = m_open m ! j \<longrightarrow> g_ID g = i \<longrightarrow> off \<le> g_End g \<longrightarrow> done_at i off 0 (finish j m)"
    using ring_step(3) [OF len(1), of 0] len by (auto simp: done_at_def R maxRecentMessageIDs_def last_done_snoc)
  assume "g_ID (m_open m ! j) \<noteq> i" "d < 63" "done_at i off d m"
  then show "done_at i off (Suc d) (finish j m)"
    using ring_step(1,2) [OF len(1), of d] len by (simp add: done_at_def R maxRecentMessageIDs_def last_done_snoc)
qed

lemma finish_merged:
  assumes inv: "merger_inv m" and j: "j < length (m_open m)" and n: "n < maxRecentMessageIDs"
    and P: "merged_or_done i t ps off n m"
  shows "merged_or_done i t ps off (Suc n) (finish j m)"
proof -
  let ?g = "m_open m ! j"
  note I = merger_invD [OF inv]
  have g: "?g \<in> set (m_open m)" using j by simp
  from P show ?thesis unfolding merged_or_done_def [of i t ps off n m]
  proof (elim disjE bexE exE conjE)
    fix x assume x: "x \<in> set (m_open m)" "g_ID x = i" "absorbed t ps off x"
    show ?thesis
    proof (cases "x = ?g")
      case True
      then have "done_at i off 0 (finish j m)" using finish_done_at(1) [OF inv j, of i off] x by (simp add: absorbed_def)
      then show ?thesis unfolding merged_or_done_def by blast
    next
      case False
      have "x \<in> set (take j (m_open m) @ ?g # drop (Suc j) (m_open m))" using x(1) remove_at_split [OF j] by simp
      then have "x \<in> set (m_open (finish j m))" using False by (auto simp: remove_at_def)
      then show ?thesis using x unfolding merged_or_done_def by blast
    qed
  next
    fix d assume d: "d < n" "done_at i off d m"
    have "g_ID ?g \<noteq> i" using done_at_recent [OF inv d(2)] I(4) [OF g] by blast
    moreover have "d < 63" using d(1) n by (simp add: maxRecentMessageIDs_def)
    ultimately have "done_at i off (Suc d) (finish j m)" using finish_done_at(2) [OF inv j] d(2) by blast
    then show ?thesis using d(1) unfolding merged_or_done_def by (meson Suc_mono)
  qed
qed

definition done_count :: "merger \<Rightarrow> nat" where
  "done_count m = length (named (m_done m))"

lemma merged_mono: "merged_or_done i t ps off n m \<Longrightarrow> n \<le> n' \<Longrightarrow> merged_or_done i t ps off n' m"
  unfolding merged_or_done_def by (meson order_less_le_trans)

lemma finish_count: "merger_inv m \<Longrightarrow> j < length (m_open m) \<Longrightarrow> done_count (finish j m) = Suc (done_count m)"
  using merger_invD(4) [of m "m_open m ! j"] by (simp add: done_count_def named_def)

text \<open>A step keeps the message remembered while no more than 64 messages have finished.\<close>

definition keeps_by :: "('s \<Rightarrow> nat) \<Rightarrow> ('s \<Rightarrow> merger) \<Rightarrow> 's \<Rightarrow> 's \<Rightarrow> bool" where
  "keeps_by cnt get s s' \<longleftrightarrow>
     (\<exists>k. cnt s' = cnt s + k \<and>
        (\<forall>i t ps off n. i \<noteq> [] \<longrightarrow> merged_or_done i t ps off n (get s) \<longrightarrow> n + k \<le> maxRecentMessageIDs \<longrightarrow>
           merged_or_done i t ps off (n + k) (get s')))"

abbreviation keeps :: "merger \<Rightarrow> merger \<Rightarrow> bool" where "keeps \<equiv> keeps_by done_count (\<lambda>m. m)"

lemma keeps_finish: "merger_inv m \<Longrightarrow> j < length (m_open m) \<Longrightarrow> keeps m (finish j m)"
  using finish_merged [of m j] by (auto simp: keeps_by_def finish_count intro!: exI [of _ 1])

lemma keeps_trans:
  assumes "keeps_by c f m m'" "keeps_by c f m' m''"
  shows "keeps_by c f m m''"
proof -
  obtain k l where k: "c m' = c m + k"
    "\<And>i t ps off n. i \<noteq> [] \<Longrightarrow> merged_or_done i t ps off n (f m) \<Longrightarrow> n + k \<le> maxRecentMessageIDs \<Longrightarrow> merged_or_done i t ps off (n + k) (f m')"
    and l: "c m'' = c m' + l"
    "\<And>i t ps off n. i \<noteq> [] \<Longrightarrow> merged_or_done i t ps off n (f m') \<Longrightarrow> n + l \<le> maxRecentMessageIDs \<Longrightarrow> merged_or_done i t ps off (n + l) (f m'')"
    using assms unfolding keeps_by_def by blast
  have "merged_or_done i t ps off (n + (k + l)) (f m'')"
    if i: "i \<noteq> []" "merged_or_done i t ps off n (f m)" "n + (k + l) \<le> maxRecentMessageIDs" for i t ps off n
    using l(2) [OF i(1) k(2) [OF i(1,2)]] i(3) by (simp add: add.assoc)
  then show ?thesis using k(1) l(1) by (auto simp: keeps_by_def intro!: exI [of _ "k + l"])
qed

lemma keeps_same:
  assumes "c m' = c m"
    and "\<And>i t ps off n. i \<noteq> [] \<Longrightarrow> merged_or_done i t ps off n (f m) \<Longrightarrow> merged_or_done i t ps off n (f m')"
  shows "keeps_by c f m m'"
  using assms by (auto simp: keeps_by_def intro!: exI [of _ 0])

lemma keeps_refl: "keeps m m"
  by (rule keeps_same) simp_all

lemma done_at_cong: "m_recent m' = m_recent m \<Longrightarrow> m_next m' = m_next m \<Longrightarrow> m_done m' = m_done m \<Longrightarrow> done_at i off d m' = done_at i off d m"
  by (simp add: done_at_def)

lemma merged_update:
  assumes P: "merged_or_done i t ps off n m"
    and h: "g_ID h = g_ID (m_open m ! j)" "absorbed t ps off (m_open m ! j) \<Longrightarrow> absorbed t ps off h"
  shows "merged_or_done i t ps off n (m\<lparr>m_open := (m_open m)[j := h]\<rparr>)"
proof -
  have "done_at i off d (m\<lparr>m_open := (m_open m)[j := h]\<rparr>) = done_at i off d m" for d by (rule done_at_cong) simp_all
  moreover have "\<exists>x \<in> set ((m_open m)[j := h]). g_ID x = i \<and> absorbed t ps off x"
    if g: "g \<in> set (m_open m)" "g_ID g = i" "absorbed t ps off g" for g
  proof -
    obtain k where k: "k < length (m_open m)" "m_open m ! k = g" using g(1) by (metis in_set_conv_nth)
    show ?thesis
    proof (cases "k = j")
      case True
      then show ?thesis using k g h set_update_memI [of j "m_open m" h] by auto
    next
      case False
      then have "(m_open m)[j := h] ! k = g" using k by simp
      then show ?thesis using k g nth_mem [of k "(m_open m)[j := h]"] by auto
    qed
  qed
  ultimately show ?thesis using P unfolding merged_or_done_def by auto
qed

lemma absorbed_truncate: "absorbed t ps off g \<Longrightarrow> absorbed t ps off (g\<lparr>g_Truncated := True\<rparr>)"
  by (auto simp: absorbed_def)

lemma keeps_update:
  "g_ID h = g_ID (m_open m ! j) \<Longrightarrow> (\<And>t ps off. absorbed t ps off (m_open m ! j) \<Longrightarrow> absorbed t ps off h) \<Longrightarrow>
   keeps m (m\<lparr>m_open := (m_open m)[j := h]\<rparr>)"
  by (rule keeps_same) (auto simp: done_count_def intro: merged_update)

lemma keeps_finish_stream: "merger_inv m \<Longrightarrow> keeps m (finish_stream side agent m)"
  by (cases "find_index (\<lambda>g. g_Sidechain g = side \<and> g_Agent g = agent) (m_open m)")
    (auto simp: finish_stream_def keeps_refl dest: find_index_Some intro: keeps_finish)

lemma keeps_make_room:
  assumes inv: "merger_inv m"
  shows "keeps m (make_room m)"
proof (cases "length (m_open m) = maxOpenMessages")
  case True
  let ?u = "m\<lparr>m_open := (m_open m)[0 := (m_open m ! 0)\<lparr>g_Truncated := True\<rparr>]\<rparr>"
  have ne: "m_open m \<noteq> []" using True by (auto simp: maxOpenMessages_def)
  have "keeps m ?u" by (rule keeps_update) (simp_all add: absorbed_truncate)
  moreover have "keeps ?u (finish 0 ?u)" using truncate_inv [OF inv ne] ne by (intro keeps_finish) simp_all
  ultimately show ?thesis using True keeps_trans by (simp add: make_room_def)
qed (simp add: make_room_def keeps_refl)

lemma keeps_make_way: "merger_inv m \<Longrightarrow> keeps m (make_way side agent m)"
  unfolding make_way_def by (rule keeps_trans [OF keeps_finish_stream keeps_make_room [OF finish_stream_inv]])

lemma keeps_append_open: "keeps m (m\<lparr>m_open := m_open m @ [g]\<rparr>)"
proof (rule keeps_same)
  fix i t ps off n assume "merged_or_done i t ps off n m"
  moreover have "done_at i off d (m\<lparr>m_open := m_open m @ [g]\<rparr>) = done_at i off d m" for d by (rule done_at_cong) simp_all
  ultimately show "merged_or_done i t ps off n (m\<lparr>m_open := m_open m @ [g]\<rparr>)" by (auto simp: merged_or_done_def)
qed (simp add: done_count_def)

lemma keeps_nameless:
  assumes "g_ID g = []"
  shows "keeps m (m\<lparr>m_done := m_done m @ [g]\<rparr>)"
proof (rule keeps_same)
  fix i :: string and t ps off n assume i: "i \<noteq> []" "merged_or_done i t ps off n m"
  have "done_at i off d (m\<lparr>m_done := m_done m @ [g]\<rparr>) = done_at i off d m" for d
    using assms i(1) by (simp add: done_at_def last_done_snoc)
  then show "merged_or_done i t ps off n (m\<lparr>m_done := m_done m @ [g]\<rparr>)" using i(2) by (simp add: merged_or_done_def)
qed (simp add: done_count_def named_def assms)

lemma keeps_stale: "keeps m (m\<lparr>m_stale := n, m_done := extend_done k off (m_done m)\<rparr>)"
proof (rule keeps_same)
  fix i t ps o' c assume P: "merged_or_done i t ps o' c m"
  have step: "done_at i o' d (m\<lparr>m_stale := n, m_done := extend_done k off (m_done m)\<rparr>)" if "done_at i o' d m" for d
  proof -
    have "\<forall>g. last_done i (m_done m) = Some g \<longrightarrow> o' \<le> g_End g" using that unfolding done_at_def by blast
    then have "\<forall>g. last_done i (extend_done k off (m_done m)) = Some g \<longrightarrow> o' \<le> g_End g" using extend_done_keeps by blast
    then show ?thesis using that unfolding done_at_def by (simp add: maxRecentMessageIDs_def)
  qed
  show "merged_or_done i t ps o' c (m\<lparr>m_stale := n, m_done := extend_done k off (m_done m)\<rparr>)"
    using P step unfolding merged_or_done_def by auto
qed (simp add: done_count_def)

lemma keeps_add_line:
  assumes inv: "merger_inv m"
  shows "keeps m (add_line env line off m)"
proof (cases "used_head env line")
  case used: (Some h)
  let ?w = "make_way (lh_Sidechain h) (line_agent h) m"
  consider "line_id h = []" | "line_id h \<noteq> []" "line_id h \<in> set (m_recent m)"
    | "line_id h \<noteq> []" "line_id h \<notin> set (m_recent m)" "find_index (\<lambda>g. g_ID g = line_id h) (m_open m) = None"
    | j where "line_id h \<noteq> []" "line_id h \<notin> set (m_recent m)" "find_index (\<lambda>g. g_ID g = line_id h) (m_open m) = Some j"
    by (cases "find_index (\<lambda>g. g_ID g = line_id h) (m_open m)") auto
  then show ?thesis
  proof cases
    case 1
    show ?thesis unfolding add_nameless [OF used 1]
      by (rule keeps_trans [OF keeps_make_way [OF inv] keeps_nameless]) (simp add: 1)
  next
    case 2
    show ?thesis unfolding add_stale [OF used 2] by (rule keeps_stale)
  next
    case 3
    show ?thesis unfolding add_new [OF used 3] by (rule keeps_trans [OF keeps_make_way [OF inv] keeps_append_open])
  next
    case (4 j)
    show ?thesis unfolding add_known [OF used 4]
      by (rule keeps_update) (simp_all add: merge_head_def merge_line_keeps)
  qed
qed (simp add: add_unused keeps_refl)

lemma flush_inv: "merger_inv m \<Longrightarrow> merger_inv (flush_all m) \<and> keeps m (flush_all m)"
proof (induction m rule: flush_all.induct)
  case (1 m)
  show ?case
  proof (cases "m_open m = []")
    case False
    then have j: "0 < length (m_open m)" by simp
    have f: "flush_all m = flush_all (finish 0 m)" using False by (subst flush_all.simps) simp
    have "merger_inv (flush_all (finish 0 m)) \<and> keeps (finish 0 m) (flush_all (finish 0 m))"
      by (rule 1(1) [OF False finish_inv [OF "1.prems" j]])
    then show ?thesis unfolding f using keeps_trans [OF keeps_finish [OF "1.prems" j]] by blast
  qed (use 1 keeps_refl in \<open>simp add: flush_all.simps\<close>)
qed

section \<open>Runs\<close>

text \<open>The calls of a transcript's reader; what \<^verbatim>\<open>take\<close> returns is collected in order.\<close>

datatype merger_event = Line string int | Taken | Flushed

fun run_merger :: "json_env \<Rightarrow> merger_event list \<Rightarrow> message_group list \<times> merger \<Rightarrow> message_group list \<times> merger" where
  "run_merger env [] s = s"
| "run_merger env (Line line off # es) (out, m) = run_merger env es (out, add_line env line off m)"
| "run_merger env (Taken # es) (out, m) = (case take_done m of (gs, m) \<Rightarrow> run_merger env es (out @ gs, m))"
| "run_merger env (Flushed # es) (out, m) = run_merger env es (out, flush_all m)"

definition finished_count :: "message_group list \<times> merger \<Rightarrow> nat" where
  "finished_count s = length (named (fst s @ m_done (snd s)))"

lemma take_inv: "merger_inv m \<Longrightarrow> merger_inv (m\<lparr>m_done := []\<rparr>)"
  by (rule done_inv) simp_all

lemma run_merger_inv: "merger_inv (snd s) \<Longrightarrow> merger_inv (snd (run_merger env es s))"
  by (induction env es s rule: run_merger.induct) (simp_all add: add_line_inv flush_inv take_inv take_done_def)

lemma take_merged: "merged_or_done i t ps off n m \<Longrightarrow> merged_or_done i t ps off n (m\<lparr>m_done := []\<rparr>)"
  by (auto simp: merged_or_done_def done_at_def last_done_def)

text \<open>Along a run.\<close>

lemma keeps_with_out: "keeps m m' \<Longrightarrow> keeps_by finished_count snd (out, m) (out, m')"
  by (auto simp: keeps_by_def finished_count_def done_count_def)

lemma keeps_take: "keeps_by finished_count snd (out, m) (out @ m_done m, m\<lparr>m_done := []\<rparr>)"
  by (rule keeps_same) (simp_all add: finished_count_def named_def take_merged)

lemma run_merger_keeps: "merger_inv (snd s) \<Longrightarrow> keeps_by finished_count snd s (run_merger env es s)"
proof (induction env es s rule: run_merger.induct)
  case (1 env s)
  show ?case by (rule keeps_same) simp_all
next
  case (2 env line off es out m)
  have "keeps_by finished_count snd (out, m) (out, add_line env line off m)"
    using keeps_with_out [OF keeps_add_line] 2(2) by simp
  then show ?case using 2 add_line_inv keeps_trans by simp
next
  case (3 env es out m)
  then show ?case using keeps_trans [OF keeps_take] take_inv by (simp add: take_done_def)
next
  case (4 env es out m)
  have "keeps_by finished_count snd (out, m) (out, flush_all m)"
    using keeps_with_out flush_inv 4(2) by simp
  then show ?case using 4 flush_inv keeps_trans by simp
qed

lemma merged_readd:
  assumes inv: "merger_inv m" and used: "used_head env line = Some h" "line_id h \<noteq> []"
    and P: "merged_or_done (line_id h) (lh_Timestamp h) (toolPathsFromLine env line) off n m"
  shows "\<exists>k. add_line env line off m = m\<lparr>m_stale := k\<rparr>"
  using P unfolding merged_or_done_def
proof (elim disjE bexE exE conjE)
  note I = merger_invD [OF inv]
  fix g assume g: "g \<in> set (m_open m)" "g_ID g = line_id h"
    "absorbed (lh_Timestamp h) (toolPathsFromLine env line) off g"
  have no: "line_id h \<notin> set (m_recent m)" using I(4) [OF g(1)] g(2) by simp
  obtain j where j: "find_index (\<lambda>g. g_ID g = line_id h) (m_open m) = Some j"
    using g(1,2) find_index_None [of "\<lambda>g. g_ID g = line_id h" "m_open m"] by fastforce
  have "m_open m ! j \<in> set (m_open m)" "g_ID (m_open m ! j) = g_ID g" using find_index_Some [OF j] g(2) by auto
  then have "m_open m ! j = g" using I(3) g(1) by (metis distinct_map inj_onD)
  then have "add_line env line off m = m\<lparr>m_open := (m_open m)[j := m_open m ! j]\<rparr>"
    using add_known [OF used no j] merge_absorbed [OF g(3)] by (simp add: merge_head_def)
  then show ?thesis by (intro exI [of _ "m_stale m"]) simp
next
  fix d assume d: "done_at (line_id h) off d m"
  have "extend_done (line_id h) off (m_done m) = m_done m"
    using d by (intro extend_done_same) (simp add: done_at_def)
  then show ?thesis using add_stale [OF used done_at_recent [OF inv d], of off] by (intro exI [of _ "m_stale m + 1"]) simp
qed

text \<open>After a line has been added for the first time its message is open and has absorbed it.\<close>

lemma added_merged:
  assumes inv: "merger_inv m" and used: "used_head env line = Some h" "line_id h \<noteq> []" "line_id h \<notin> set (m_recent m)"
  shows "merged_or_done (line_id h) (lh_Timestamp h) (toolPathsFromLine env line) off 0 (add_line env line off m)"
proof (cases "find_index (\<lambda>g. g_ID g = line_id h) (m_open m)")
  case None
  have "absorbed (lh_Timestamp h) (toolPathsFromLine env line) off (opened env line h off)"
    unfolding merge_head_def by (rule merge_line_absorbs) (simp add: new_group_def)
  then show ?thesis unfolding add_new [OF used None] by (auto simp: merged_or_done_def)
next
  case (Some j)
  then have j: "j < length (m_open m)" "g_ID (m_open m ! j) = line_id h" using find_index_Some by blast+
  let ?g = "merge_head env line h off (m_open m ! j)"
  have "length (g_Paths (m_open m ! j)) \<le> maxToolPathsPerMessage"
    using merger_invD(4) [OF inv nth_mem [OF j(1)]] by (simp add: sound_group_def)
  then have "absorbed (lh_Timestamp h) (toolPathsFromLine env line) off ?g"
    unfolding merge_head_def by (rule merge_line_absorbs)
  moreover have "?g \<in> set ((m_open m)[j := ?g])" using j(1) by (rule set_update_memI)
  ultimately show ?thesis unfolding add_known [OF used Some] merged_or_done_def using j(2) by (intro disjI1 bexI [of _ ?g]) simp_all
qed

text \<open>C12. Reading a transcript line of a named message again changes nothing (a line without a message id is not
  recognised when it is read again): after a line of a named message has been merged, and
  whatever lines, takes and flushes follow while at most 64 messages finish, adding the same line at the same
  offset leaves the open messages, the finished ones and what is remembered as they are; only the
  counter of stale lines may move.\<close>

theorem readded_line_changes_nothing:
  assumes start: "run_merger env es0 ([], empty_merger) = (out0, m0)"
    and used: "used_head env line = Some h" "key_of (lh_ID h) \<noteq> []" "key_of (lh_ID h) \<notin> set (m_recent m0)"
    and run: "run_merger env es (out0, add_line env line off m0) = (out, m)"
    and few: "finished_count (out, m) \<le> finished_count (out0, add_line env line off m0) + 64"
  shows "\<exists>k. add_line env line off m = m\<lparr>m_stale := k\<rparr>"
proof -
  let ?s1 = "(out0, add_line env line off m0)"
  have inv0: "merger_inv m0" using run_merger_inv [of "([], empty_merger)" env es0] empty_merger_inv start by simp
  have i: "line_id h \<noteq> []" "line_id h \<notin> set (m_recent m0)" using used by (simp_all add: line_id_def)
  have inv1: "merger_inv (snd ?s1)" using add_line_inv [OF inv0] by simp
  have inv: "merger_inv m" using run_merger_inv [OF inv1, of env es] run by simp
  obtain k where k: "finished_count (out, m) = finished_count ?s1 + k"
    "\<And>i t ps off n. i \<noteq> [] \<Longrightarrow> merged_or_done i t ps off n (snd ?s1) \<Longrightarrow> n + k \<le> maxRecentMessageIDs \<Longrightarrow> merged_or_done i t ps off (n + k) m"
    using run_merger_keeps [OF inv1, of env es] run by (auto simp: keeps_by_def)
  have "merged_or_done (line_id h) (lh_Timestamp h) (toolPathsFromLine env line) off (0 + k) m"
    using k(2) [OF i(1), of _ _ _ 0] added_merged [OF inv0 used(1) i] few k(1) by (simp add: maxRecentMessageIDs_def)
  then show ?thesis by (rule merged_readd [OF inv used(1) i(1)])
qed

section \<open>Returned once\<close>

text \<open>While at most 64 named messages have finished, the ring holds exactly these, in order.\<close>

definition ring_holds :: "string list \<Rightarrow> merger \<Rightarrow> bool" where
  "ring_holds fs m \<longleftrightarrow> length fs \<le> maxRecentMessageIDs \<longrightarrow>
     distinct fs \<and> m_next m = length fs mod maxRecentMessageIDs \<and> (\<forall>k < length fs. m_recent m ! k = fs ! k)"

lemma ring_mem: "ring_holds fs m \<Longrightarrow> merger_inv m \<Longrightarrow> length fs \<le> maxRecentMessageIDs \<Longrightarrow> set fs \<subseteq> set (m_recent m)"
  using merger_invD(5) [of m] by (force simp: ring_holds_def in_set_conv_nth)

lemma ring_finish:
  assumes ring: "ring_holds (fs @ named (m_done m)) m" and inv: "merger_inv m" and j: "j < length (m_open m)"
  shows "ring_holds (fs @ named (m_done (finish j m))) (finish j m)"
proof -
  let ?g = "m_open m ! j" and ?fs = "fs @ named (m_done m)"
  note I = merger_invD [OF inv]
  have g: "g_ID ?g \<noteq> []" "g_ID ?g \<notin> set (m_recent m)" using I(4) [OF nth_mem [OF j]] by blast+
  note R = finish_recent [OF g(1)]
  have n: "fs @ named (m_done (finish j m)) = ?fs @ [g_ID ?g]" using g(1) by (simp add: named_def)
  show ?thesis unfolding n ring_holds_def
  proof (intro impI conjI allI)
    assume len: "length (?fs @ [g_ID ?g]) \<le> maxRecentMessageIDs"
    then have l: "length ?fs < 64" by (simp add: maxRecentMessageIDs_def)
    have old: "distinct ?fs" "m_next m = length ?fs" "\<forall>k < length ?fs. m_recent m ! k = ?fs ! k"
      using ring l by (auto simp: ring_holds_def maxRecentMessageIDs_def)
    have "set ?fs \<subseteq> set (m_recent m)" using l by (intro ring_mem [OF ring inv]) (simp add: maxRecentMessageIDs_def)
    then show "distinct (?fs @ [g_ID ?g])" using old(1) g(2) by auto
    show "m_next (finish j m) = length (?fs @ [g_ID ?g]) mod maxRecentMessageIDs" using old(2) by (simp add: R)
    fix k assume "k < length (?fs @ [g_ID ?g])"
    then show "m_recent (finish j m) ! k = (?fs @ [g_ID ?g]) ! k"
      using old(2,3) I(5) l by (auto simp: R nth_append nth_list_update maxRecentMessageIDs_def less_Suc_eq)
  qed
qed

lemma ring_cong: "m_recent m' = m_recent m \<Longrightarrow> m_next m' = m_next m \<Longrightarrow> ring_holds fs m' = ring_holds fs m"
  by (simp add: ring_holds_def)

definition ring_of :: "message_group list \<Rightarrow> merger \<Rightarrow> bool" where
  "ring_of out m \<longleftrightarrow> ring_holds (named out @ named (m_done m)) m"

lemma ring_of_same: "m_recent m' = m_recent m \<Longrightarrow> m_next m' = m_next m \<Longrightarrow> named (m_done m') = named (m_done m) \<Longrightarrow> ring_of out m' = ring_of out m"
  unfolding ring_of_def using ring_cong by metis

lemma ring_of_finish: "ring_of out m \<Longrightarrow> merger_inv m \<Longrightarrow> j < length (m_open m) \<Longrightarrow> ring_of out (finish j m)"
  unfolding ring_of_def by (rule ring_finish)

lemma ring_of_make_way:
  assumes ring: "ring_of out m" and inv: "merger_inv m"
  shows "ring_of out (make_way side agent m)"
proof -
  have s: "ring_of out (finish_stream side agent m)"
    using ring inv by (cases "find_index (\<lambda>g. g_Sidechain g = side \<and> g_Agent g = agent) (m_open m)")
      (auto simp: finish_stream_def dest: find_index_Some intro: ring_of_finish)
  let ?s = "finish_stream side agent m"
  note si = finish_stream_inv [OF inv, of side agent]
  show ?thesis
  proof (cases "length (m_open ?s) = maxOpenMessages")
    case True
    let ?u = "?s\<lparr>m_open := (m_open ?s)[0 := (m_open ?s ! 0)\<lparr>g_Truncated := True\<rparr>]\<rparr>"
    have ne: "m_open ?s \<noteq> []" using True by (auto simp: maxOpenMessages_def)
    have "ring_of out ?u" using s ring_of_same [of ?u ?s out] by simp
    then have "ring_of out (finish 0 ?u)" using truncate_inv [OF si ne] ne by (intro ring_of_finish) simp_all
    then show ?thesis using True by (simp add: make_way_def make_room_def)
  qed (use s in \<open>simp add: make_way_def make_room_def\<close>)
qed

lemma ring_of_add_line:
  assumes ring: "ring_of out m" and inv: "merger_inv m"
  shows "ring_of out (add_line env line off m)"
proof (cases "used_head env line")
  case used: (Some h)
  let ?w = "make_way (lh_Sidechain h) (line_agent h) m"
  have w: "ring_of out ?w" by (rule ring_of_make_way [OF ring inv])
  consider "line_id h = []" | "line_id h \<noteq> []" "line_id h \<in> set (m_recent m)"
    | "line_id h \<noteq> []" "line_id h \<notin> set (m_recent m)" "find_index (\<lambda>g. g_ID g = line_id h) (m_open m) = None"
    | j where "line_id h \<noteq> []" "line_id h \<notin> set (m_recent m)" "find_index (\<lambda>g. g_ID g = line_id h) (m_open m) = Some j"
    by (cases "find_index (\<lambda>g. g_ID g = line_id h) (m_open m)") auto
  then show ?thesis
  proof cases
    case 1
    have "ring_of out (?w\<lparr>m_done := m_done ?w @ [opened env line h off]\<rparr>) = ring_of out ?w"
      by (rule ring_of_same) (simp_all add: named_def 1)
    then show ?thesis unfolding add_nameless [OF used 1] using w by simp
  next
    case 2
    have "ring_of out (m\<lparr>m_stale := m_stale m + 1, m_done := extend_done (line_id h) off (m_done m)\<rparr>) = ring_of out m"
      by (rule ring_of_same) simp_all
    then show ?thesis unfolding add_stale [OF used 2] using ring by simp
  next
    case 3
    have "ring_of out (?w\<lparr>m_open := m_open ?w @ [opened env line h off]\<rparr>) = ring_of out ?w"
      by (rule ring_of_same) simp_all
    then show ?thesis unfolding add_new [OF used 3] using w by simp
  next
    case (4 j)
    have "ring_of out (m\<lparr>m_open := (m_open m)[j := merge_head env line h off (m_open m ! j)]\<rparr>) = ring_of out m"
      by (rule ring_of_same) simp_all
    then show ?thesis unfolding add_known [OF used 4] using ring by simp
  qed
qed (simp add: add_unused ring)

lemma ring_of_flush: "ring_of out m \<Longrightarrow> merger_inv m \<Longrightarrow> ring_of out (flush_all m)"
proof (induction m rule: flush_all.induct)
  case (1 m)
  show ?case
  proof (cases "m_open m = []")
    case False
    then have j: "0 < length (m_open m)" by simp
    have f: "flush_all m = flush_all (finish 0 m)" using False by (subst flush_all.simps) simp
    show ?thesis unfolding f
      by (rule 1(1) [OF False ring_of_finish [OF "1.prems" j] finish_inv [OF "1.prems"(2) j]])
  qed (use 1 in \<open>simp add: flush_all.simps\<close>)
qed

lemma run_merger_ring:
  "ring_of (fst s) (snd s) \<Longrightarrow> merger_inv (snd s) \<Longrightarrow> ring_of (fst (run_merger env es s)) (snd (run_merger env es s))"
proof (induction env es s rule: run_merger.induct)
  case (2 env line off es out m)
  then show ?case using ring_of_add_line add_line_inv by simp
next
  case (3 env es out m)
  have "ring_of (out @ m_done m) (m\<lparr>m_done := []\<rparr>) = ring_of out m"
    unfolding ring_of_def by (simp add: named_def ring_holds_def)
  then show ?case using 3 take_inv by (simp add: take_done_def)
next
  case (4 env es out m)
  then show ?case using ring_of_flush flush_inv by simp
qed simp

lemma empty_ring: "ring_of [] empty_merger"
  by (simp add: ring_of_def ring_holds_def empty_merger_def named_def)

text \<open>C13. What the merger holds and returns: at most 16 messages are open, each of its own stream and with a name
  of its own; every message, open or returned, has at most 16 distinct paths, all absolute, without NUL
  and not on the network; and while at most 64 named messages have finished, none is returned or held
  open twice, whatever lines arrive in whatever order.\<close>

theorem merger_sound:
  assumes "run_merger env es ([], empty_merger) = (out, m)"
  shows "length (m_open m) \<le> 16 \<and> distinct (map stream (m_open m))
    \<and> (\<forall>g \<in> set (m_open m) \<union> set (m_done m). length (g_Paths g) \<le> 16 \<and> distinct (g_Paths g) \<and> list_all usable_path (g_Paths g))
    \<and> (finished_count (out, m) \<le> 64 \<longrightarrow> distinct (named (out @ m_done m @ m_open m)))"
proof -
  have inv: "merger_inv m" using run_merger_inv [of "([], empty_merger)" env es] empty_merger_inv assms by simp
  note I = merger_invD [OF inv]
  have ring: "ring_of out m"
    using run_merger_ring [of "([], empty_merger)" env es] empty_ring empty_merger_inv assms by simp
  have paths: "sound_group g" if "g \<in> set (m_open m) \<union> set (m_done m)" for g
    using that I(4) I(7) by (auto simp: list_all_iff)
  have once: "distinct (named (out @ m_done m @ m_open m))" if few: "finished_count (out, m) \<le> 64"
  proof -
    let ?fs = "named out @ named (m_done m)"
    have len: "length ?fs \<le> maxRecentMessageIDs" using few by (simp add: finished_count_def maxRecentMessageIDs_def)
    then have "distinct ?fs" "set ?fs \<subseteq> set (m_recent m)"
      using ring ring_mem [OF ring [unfolded ring_of_def] inv len] by (auto simp: ring_of_def ring_holds_def)
    moreover have "distinct (named (m_open m))" using I(3) by (simp add: named_def)
    moreover have "set (named (m_open m)) \<inter> set (m_recent m) = {}" using I(4) by (auto simp: named_def)
    ultimately show ?thesis by auto
  qed
  show ?thesis
    using I(1,2) paths once by (auto simp: maxOpenMessages_def sound_group_def maxToolPathsPerMessage_def maxToolPathsPerLine_def)
qed

text \<open>Two messages on one stream.\<close>

definition mm_head :: "string \<Rightarrow> time \<Rightarrow> line_head" where
  "mm_head i t = \<lparr>lh_Type = ''assistant'', lh_ID = i, lh_Usage = True, lh_Timestamp = t, lh_Sidechain = False, lh_Agent = []\<rparr>"

definition mm_env :: json_env where
  "mm_env = \<lparr>je_valid = (\<lambda>l. False), je_string = (\<lambda>l. l), je_blocks = (\<lambda>l. None),
     je_head = (\<lambda>l. if l = ''a'' then Some (mm_head ''m1'' 5) else if l = ''b'' then Some (mm_head ''m2'' 6) else None)\<rparr>"

lemma mm_used: "used_head mm_env ''a'' = Some (mm_head ''m1'' 5)" "used_head mm_env ''b'' = Some (mm_head ''m2'' 6)"
  by (simp_all add: used_head_def mm_env_def mm_head_def maxJSONLLine_def)

lemma mm_paths: "toolPathsFromLine mm_env l = []"
  by (simp add: toolPathsFromLine_def mm_env_def)

lemma mm_keys: "key_of ''m1'' = ''m1''" "key_of ''m2'' = ''m2''" "key_of [] = []"
  by (simp_all add: key_of_def maxMessageKeyLen_def)

lemma mm_names: "line_id (mm_head ''m1'' 5) = ''m1''" "line_id (mm_head ''m2'' 6) = ''m2''"
  "line_agent (mm_head i t) = []" "lh_Sidechain (mm_head i t) = False" "lh_Timestamp (mm_head i t) = t"
  by (simp_all add: line_id_def line_agent_def mm_head_def mm_keys)

definition mm_first :: merger where "mm_first = add_line mm_env ''a'' 0 empty_merger"

lemma mm_first_eq: "mm_first = empty_merger\<lparr>m_open := [merge_line 5 [] 0 (new_group ''m1'' False [] 0)]\<rparr>"
proof -
  have "make_way False [] empty_merger = empty_merger"
    by (simp add: make_way_def finish_stream_def make_room_def empty_merger_def maxOpenMessages_def)
  then show ?thesis
    using add_new [OF mm_used(1), of empty_merger 0] by (simp add: mm_first_def mm_names empty_merger_def merge_head_def mm_paths)
qed

lemma mm_first_open: "m_open mm_first = [merge_line 5 [] 0 (new_group ''m1'' False [] 0)]" "m_done mm_first = []"
  "m_recent mm_first = replicate 64 []"
  unfolding mm_first_eq by (simp_all add: empty_merger_def maxRecentMessageIDs_def)

definition mm_second :: merger where "mm_second = add_line mm_env ''b'' 9 mm_first"

lemma mm_second_done: "m_done mm_second = [merge_line 5 [] 0 (new_group ''m1'' False [] 0)]"
proof -
  have w: "make_way False [] mm_first = finish 0 mm_first"
    by (simp add: make_way_def finish_stream_def make_room_def mm_first_open maxOpenMessages_def remove_at_def)
  have "mm_second = (finish 0 mm_first)\<lparr>m_open := m_open (finish 0 mm_first) @ [merge_line 6 [] 9 (new_group ''m2'' False [] 9)]\<rparr>"
    using add_new [OF mm_used(2), of mm_first 9] w by (simp add: mm_second_def mm_names mm_first_open merge_head_def mm_paths)
  from arg_cong [OF this, of m_done] show ?thesis by (simp add: mm_first_open)
qed

lemma mm_run: "run_merger mm_env [Line ''a'' 0, Line ''b'' 9] ([], empty_merger) = ([], mm_second)"
  "run_merger mm_env [Line ''b'' 9] ([], add_line mm_env ''a'' 0 empty_merger) = ([], mm_second)"
  by (simp_all add: mm_first_def mm_second_def)

lemma mm_count: "finished_count ([], mm_second) = 1"
  by (simp add: finished_count_def mm_second_done named_def)

theorem merger_sound_witness: "length (m_open mm_second) \<le> 16 \<and> distinct (named (m_done mm_second @ m_open mm_second))"
  using merger_sound [OF mm_run(1)] mm_count by simp

theorem readded_line_changes_nothing_witness: "\<exists>k. add_line mm_env ''a'' 0 mm_second = mm_second\<lparr>m_stale := k\<rparr>"
proof (rule readded_line_changes_nothing)
  show "run_merger mm_env [] ([], empty_merger) = ([], empty_merger)" by simp
  show "used_head mm_env ''a'' = Some (mm_head ''m1'' 5)" by (rule mm_used)
  show "key_of (lh_ID (mm_head ''m1'' 5)) \<noteq> []" "key_of (lh_ID (mm_head ''m1'' 5)) \<notin> set (m_recent empty_merger)"
    by (simp_all add: mm_head_def mm_keys empty_merger_def)
  show "run_merger mm_env [Line ''b'' 9] ([], add_line mm_env ''a'' 0 empty_merger) = ([], mm_second)" by (rule mm_run)
qed (simp add: mm_count)

end
