(* ===== verification/Push_Ledger.thy ===== *)
theory Push_Ledger
  imports Collector_Event
begin

text \<open>
  The outcomes table and the ledger of captured push commits: \<^verbatim>\<open>src/internal/store/pushledger.go\<close>, the row
  writers \<^verbatim>\<open>insertOutcomeRow\<close> and \<^verbatim>\<open>upsertPushOutcomeRow\<close> of \<^verbatim>\<open>store.go\<close> and the exclusion of
  reverted pull requests of \<^verbatim>\<open>exclusions.go\<close>. A table is the list of its rows in insertion order, its
  \<^verbatim>\<open>AUTOINCREMENT\<close> the next id; a unique index with \<^verbatim>\<open>ON CONFLICT DO NOTHING\<close> is a test before the insert;
  a transaction that returns an error leaves the state as it was. The calls on other tables (the correction
  tables, the fill of token events) are fields of the environment that return the new contents of \<open>others\<close>.
\<close>

section \<open>Rows\<close>

text \<open>The Go value \<^verbatim>\<open>Outcome\<close>, with the availability bits of its diff statistics.\<close>

record outcome =
  o_ID :: int
  o_Developer :: string
  o_IssueID :: string
  o_IssueRule :: string
  o_PRNumber :: int
  o_Weight :: rat
  o_WeightSource :: string
  o_Quality :: rat
  o_MergeCommitSHA :: string
  o_Additions :: int
  o_Deletions :: int
  o_ChangedFiles :: int
  o_diffStatsAvailable :: "bool \<times> bool \<times> bool"
  o_Source :: string
  o_WorkType :: string
  o_WorkTypeSource :: string
  o_Repo :: string
  o_AuthorType :: string
  o_HeadBranchHash :: "string option"
  o_Timestamp :: time
  o_CreatedAt :: "time option"
  o_MergedAt :: "time option"

definition zero_outcome :: outcome where
  "zero_outcome = \<lparr>o_ID = 0, o_Developer = [], o_IssueID = [], o_IssueRule = [], o_PRNumber = 0, o_Weight = 0,
     o_WeightSource = [], o_Quality = 0, o_MergeCommitSHA = [], o_Additions = 0, o_Deletions = 0, o_ChangedFiles = 0,
     o_diffStatsAvailable = (False, False, False), o_Source = [], o_WorkType = [], o_WorkTypeSource = [], o_Repo = [],
     o_AuthorType = [], o_HeadBranchHash = None, o_Timestamp = 0, o_CreatedAt = None, o_MergedAt = None\<rparr>"

text \<open>A row of \<^verbatim>\<open>outcomes\<close>; \<open>None\<close> is SQL's NULL.\<close>

record outcome_row =
  or_id :: int
  or_developer :: string
  or_issue :: string
  or_pr :: "int option"
  or_weight :: rat
  or_quality :: rat
  or_sha :: "string option"
  or_weight_source :: string
  or_stats :: "int option \<times> int option \<times> int option"
  or_source :: string
  or_push_day :: "string option"
  or_work_type :: string
  or_work_type_source :: string
  or_repo :: string
  or_ts :: time
  or_author_type :: "string option"
  or_branch :: "string option"
  or_created :: "time option"
  or_merged :: "time option"
  or_issue_rule :: "string option"

text \<open>A row of \<^verbatim>\<open>push_outcome_commits\<close>, of \<^verbatim>\<open>push_outcome_audit\<close> and of \<^verbatim>\<open>outcome_exclusions\<close>; a tombstone
  moved no row.\<close>

record ledger_entry =
  ce_id :: int
  ce_repo :: string
  ce_sha :: string
  ce_outcome :: int
  ce_developer :: string
  ce_ts :: time
  ce_order :: int

record push_audit_row =
  pa_outcome :: int
  pa_repo :: string
  pa_issue :: string
  pa_day :: string
  pa_action :: string
  pa_developer :: string
  pa_ts :: time
  pa_sha :: string
  pa_commit_developer :: string

record exclusion_row =
  ex_repo :: string
  ex_pr :: int
  ex_sha :: string
  ex_moved :: "outcome_row option"
  ex_author :: string
  ex_author_type :: "string option"
  ex_ts :: time
  ex_evidence :: string
  ex_actor :: string
  ex_at :: time

record 'x ldb =
  outcomes :: "outcome_row list"
  ledger :: "ledger_entry list"
  push_audit :: "push_audit_row list"
  exclusions :: "exclusion_row list"
  next_outcome :: int
  next_entry :: int
  erase_epoch :: int
  others :: 'x

record 'x ledger_env =
  lv_prepare :: "'x ldb \<Rightarrow> (string, 'x) res"
  lv_fill :: "outcome \<Rightarrow> 'x ldb \<Rightarrow> (string, 'x) res"
  lv_attach :: "outcome \<Rightarrow> 'x ldb \<Rightarrow> (string, 'x) res"
  lv_touched :: "outcome \<Rightarrow> 'x ldb \<Rightarrow> (string, int list) res"
  lv_refresh :: "int list \<Rightarrow> 'x ldb \<Rightarrow> (string, 'x) res"

definition on_others :: "('x ldb \<Rightarrow> (string, 'x) res) \<Rightarrow> 'x ldb \<Rightarrow> (string, 'x ldb) res" where
  "on_others f db = bind_res (f db) (\<lambda>x. Inr (db\<lparr>others := x\<rparr>))"

section \<open>Small functions\<close>

definition normalizeRepo :: "string \<Rightarrow> string" where
  "normalizeRepo s = (if s = [] then Unqualified else s)"

definition normalizeAuthorType :: "string \<Rightarrow> string" where
  "normalizeAuthorType t =
     (if t = ''User'' \<or> t = ''Bot'' \<or> t = ''Organization'' \<or> t = ''Mannequin'' then t else [])"

definition nullif_empty :: "string \<Rightarrow> string option" where
  "nullif_empty s = (if s = [] then None else Some s)"

definition nullableOutcomeTime :: "time option \<Rightarrow> time option" where
  "nullableOutcomeTime t = (case t of None \<Rightarrow> None | Some t \<Rightarrow> if time_is_zero t then None else Some t)"

text \<open>Seconds of the Unix epoch of a time counted in nanoseconds from the zero time of Go.\<close>

definition unix_seconds :: "time \<Rightarrow> int" where
  "unix_seconds t = t div 1000000000 - 62135596800"

definition preLedgerSHAPrefix :: string where "preLedgerSHAPrefix = ''pre-ledger:''"
definition pushOrderFirst :: int where "pushOrderFirst = 0"
definition pushOrderUnknown :: int where "pushOrderUnknown = max_int64"

definition pushOrderKey :: "time \<Rightarrow> int" where
  "pushOrderKey pushedAt =
     (if time_is_zero pushedAt \<or> unix_seconds pushedAt \<le> pushOrderFirst then pushOrderUnknown
      else unix_seconds pushedAt)"

definition ValidPushCommitID :: "string \<Rightarrow> bool" where
  "ValidPushCommitID sha \<longleftrightarrow> sha \<noteq> [] \<and> CHR '':'' \<notin> set sha"

definition SetDiffStats :: "int option \<Rightarrow> int option \<Rightarrow> int option \<Rightarrow> outcome \<Rightarrow> outcome" where
  "SetDiffStats a d c o1 =
     o1\<lparr>o_diffStatsAvailable := (a \<noteq> None, d \<noteq> None, c \<noteq> None),
        o_Additions := (case a of None \<Rightarrow> 0 | Some v \<Rightarrow> v), o_Deletions := (case d of None \<Rightarrow> 0 | Some v \<Rightarrow> v),
        o_ChangedFiles := (case c of None \<Rightarrow> 0 | Some v \<Rightarrow> v)\<rparr>"

definition DiffStats :: "outcome \<Rightarrow> int option \<times> int option \<times> int option" where
  "DiffStats o1 =
     (let stat = (\<lambda>available v. if available \<or> v \<noteq> 0 then Some v else None); (a, d, c) = o_diffStatsAvailable o1
      in (stat a (o_Additions o1), stat d (o_Deletions o1), stat c (o_ChangedFiles o1)))"

definition or_default :: "string \<Rightarrow> string \<Rightarrow> string" where
  "or_default d s = (if s = [] then d else s)"

definition stored_issue_rule :: "outcome \<Rightarrow> string option" where
  "stored_issue_rule o1 = (if IsUnattributed (o_IssueID o1) then None else nullif_empty (o_IssueRule o1))"

section \<open>Row writers\<close>

definition excluded_sha :: "'x ldb \<Rightarrow> string \<Rightarrow> bool" where
  "excluded_sha db sha \<longleftrightarrow> sha \<in> ex_sha ` set (exclusions db)"

definition merged_sha :: "'x ldb \<Rightarrow> string \<Rightarrow> bool" where
  "merged_sha db sha \<longleftrightarrow> Some sha \<in> or_sha ` set (outcomes db)"

text \<open>\<^verbatim>\<open>insertOutcomeRow\<close>: NULL shas and NULL push days are outside the unique indexes.\<close>

definition pr_row :: "int \<Rightarrow> outcome \<Rightarrow> outcome_row" where
  "pr_row i o1 =
     \<lparr>or_id = i, or_developer = o_Developer o1, or_issue = o_IssueID o1, or_pr = Some (o_PRNumber o1),
      or_weight = o_Weight o1, or_quality = o_Quality o1, or_sha = nullif_empty (o_MergeCommitSHA o1),
      or_weight_source = or_default ''legacy'' (o_WeightSource o1), or_stats = DiffStats o1,
      or_source = or_default ''github-webhook'' (o_Source o1), or_push_day = None,
      or_work_type = or_default ''feature'' (o_WorkType o1),
      or_work_type_source = or_default ''default'' (o_WorkTypeSource o1), or_repo = normalizeRepo (o_Repo o1),
      or_ts = o_Timestamp o1, or_author_type = nullif_empty (normalizeAuthorType (o_AuthorType o1)),
      or_branch = o_HeadBranchHash o1, or_created = nullableOutcomeTime (o_CreatedAt o1),
      or_merged = nullableOutcomeTime (o_MergedAt o1), or_issue_rule = stored_issue_rule o1\<rparr>"

definition insertOutcomeRow :: "outcome \<Rightarrow> 'x ldb \<Rightarrow> (string, bool \<times> 'x ldb) res" where
  "insertOutcomeRow o1 db =
     (if \<not> Validate_issue_rule (o_IssueRule o1) then Inl ''issue_rule is outside the closed set''
      else if excluded_sha db (o_MergeCommitSHA o1)
              \<or> o_MergeCommitSHA o1 \<noteq> [] \<and> merged_sha db (o_MergeCommitSHA o1) then Inr (False, db)
      else Inr (True, db\<lparr>outcomes := outcomes db @ [pr_row (next_outcome db) o1], next_outcome := next_outcome db + 1\<rparr>))"

text \<open>\<^verbatim>\<open>upsertPushOutcomeRow\<close>: one row per repository, issue and day.\<close>

definition push_row :: "int \<Rightarrow> outcome \<Rightarrow> string \<Rightarrow> outcome_row" where
  "push_row i o1 day =
     \<lparr>or_id = i, or_developer = o_Developer o1, or_issue = o_IssueID o1, or_pr = None,
      or_weight = o_Weight o1, or_quality = o_Quality o1, or_sha = None,
      or_weight_source = or_default ''push'' (o_WeightSource o1), or_stats = (None, None, None),
      or_source = ''push'', or_push_day = Some day, or_work_type = ''feature'', or_work_type_source = ''default'',
      or_repo = normalizeRepo (o_Repo o1), or_ts = o_Timestamp o1, or_author_type = None, or_branch = None,
      or_created = None, or_merged = None, or_issue_rule = stored_issue_rule o1\<rparr>"

definition push_key :: "string \<Rightarrow> string \<Rightarrow> string \<Rightarrow> outcome_row \<Rightarrow> bool" where
  "push_key repo issue day r \<longleftrightarrow>
     or_source r = ''push'' \<and> or_repo r = repo \<and> or_issue r = issue \<and> or_push_day r = Some day"

definition upsertPushOutcomeRow :: "outcome \<Rightarrow> string \<Rightarrow> 'x ldb \<Rightarrow> (string, bool \<times> 'x ldb) res" where
  "upsertPushOutcomeRow o1 day db =
     (if \<not> Validate_issue_rule (o_IssueRule o1) then Inl ''issue_rule is outside the closed set''
      else if day = [] then Inl ''store: UpsertPushOutcome requires a non-empty UTC day (YYYY-MM-DD)''
      else if \<exists>r \<in> set (outcomes db). push_key (normalizeRepo (o_Repo o1)) (o_IssueID o1) day r then Inr (False, db)
      else Inr (True, db\<lparr>outcomes := outcomes db @ [push_row (next_outcome db) o1 day], next_outcome := next_outcome db + 1\<rparr>))"

section \<open>The owner of a push row\<close>

text \<open>The part of a push outcome the reconciler reads; a NULL push day does not scan.\<close>

record push_view =
  pv_id :: int
  pv_developer :: string
  pv_repo :: string
  pv_issue :: string
  pv_day :: string
  pv_ts :: time

definition scanPushRow :: "outcome_row \<Rightarrow> (string, push_view) res" where
  "scanPushRow r =
     (case or_push_day r of None \<Rightarrow> Inl ''push_day is NULL''
      | Some day \<Rightarrow> Inr \<lparr>pv_id = or_id r, pv_developer = or_developer r, pv_repo = or_repo r, pv_issue = or_issue r,
                      pv_day = day, pv_ts = or_ts r\<rparr>)"

definition loadPushRowByKey :: "string \<Rightarrow> string \<Rightarrow> string \<Rightarrow> 'x ldb \<Rightarrow> (string, push_view) res" where
  "loadPushRowByKey repo issue day db =
     (case find (push_key repo issue day) (outcomes db) of None \<Rightarrow> Inl ''load push outcome'' | Some r \<Rightarrow> scanPushRow r)"

definition loadPushRowByID :: "int \<Rightarrow> 'x ldb \<Rightarrow> (string, push_view option) res" where
  "loadPushRowByID i db =
     (case find (\<lambda>r. or_id r = i \<and> or_source r = ''push'') (outcomes db) of None \<Rightarrow> Inr None
      | Some r \<Rightarrow> bind_res (scanPushRow r) (\<lambda>v. Inr (Some v)))"

definition entries_of :: "int \<Rightarrow> 'x ldb \<Rightarrow> ledger_entry list" where
  "entries_of i db = filter (\<lambda>e. ce_outcome e = i) (ledger db)"

text \<open>\<^verbatim>\<open>ORDER BY push_order, CASE WHEN push_order = unknown THEN id END, ts, commit_sha\<close>.\<close>

definition entry_key :: "ledger_entry \<Rightarrow> int \<times> int \<times> time \<times> string" where
  "entry_key e = (ce_order e, if ce_order e = pushOrderUnknown then ce_id e else 0, ce_ts e, ce_sha e)"

definition earliest :: "int \<Rightarrow> 'x ldb \<Rightarrow> ledger_entry option" where
  "earliest i db = (case sort_key entry_key (entries_of i db) of [] \<Rightarrow> None | e # _ \<Rightarrow> Some e)"

type_synonym push_cause = "string \<times> string"

definition insertPushAudit :: "push_view \<Rightarrow> string \<Rightarrow> push_cause \<Rightarrow> 'x ldb \<Rightarrow> 'x ldb" where
  "insertPushAudit v action cause db =
     db\<lparr>push_audit := push_audit db @ [\<lparr>pa_outcome = pv_id v, pa_repo = pv_repo v, pa_issue = pv_issue v,
        pa_day = pv_day v, pa_action = action, pa_developer = pv_developer v, pa_ts = pv_ts v,
        pa_sha = fst cause, pa_commit_developer = snd cause\<rparr>]\<rparr>"

definition set_owner :: "int \<Rightarrow> string \<Rightarrow> time \<Rightarrow> 'x ldb \<Rightarrow> 'x ldb" where
  "set_owner i dev ts db =
     db\<lparr>outcomes := map (\<lambda>r. if or_id r = i then r\<lparr>or_developer := dev, or_ts := ts\<rparr> else r) (outcomes db)\<rparr>"

definition rederivePushOwner :: "push_view \<Rightarrow> push_cause \<Rightarrow> bool \<Rightarrow> 'x ldb \<Rightarrow> (string, 'x ldb) res" where
  "rederivePushOwner v cause before db =
     (case earliest (pv_id v) db of None \<Rightarrow> Inl ''re-derive push owner''
      | Some e \<Rightarrow>
          if ce_developer e = pv_developer v \<and> ce_ts e = pv_ts v then Inr db
          else (let db = set_owner (pv_id v) (ce_developer e) (ce_ts e) db;
                    db = (if before then insertPushAudit v ''rederived_from'' cause db else db)
                in Inr (insertPushAudit (v\<lparr>pv_developer := ce_developer e, pv_ts := ce_ts e\<rparr>) ''rederived_to'' cause db)))"

section \<open>Recording a push commit\<close>

datatype push_status = PushCommitRecorded | PushCommitDuplicate | PushCommitPRCaptured

definition add_entry :: "string \<Rightarrow> string \<Rightarrow> int \<Rightarrow> string \<Rightarrow> time \<Rightarrow> int \<Rightarrow> 'x ldb \<Rightarrow> 'x ldb" where
  "add_entry repo sha i dev ts key db =
     db\<lparr>ledger := ledger db @ [\<lparr>ce_id = next_entry db, ce_repo = repo, ce_sha = sha, ce_outcome = i,
          ce_developer = dev, ce_ts = ts, ce_order = key\<rparr>], next_entry := next_entry db + 1\<rparr>"

definition marker :: "int \<Rightarrow> string" where "marker i = preLedgerSHAPrefix @ itoa i"

definition held_entry :: "string \<Rightarrow> string \<Rightarrow> 'x ldb \<Rightarrow> ledger_entry option" where
  "held_entry repo sha db = find (\<lambda>e. ce_repo e = repo \<and> ce_sha e = sha) (ledger db)"

text \<open>A commit the ledger holds: only an earlier push time is written.\<close>

definition lower_order :: "'x ledger_env \<Rightarrow> string \<Rightarrow> string \<Rightarrow> int \<Rightarrow> ledger_entry \<Rightarrow> 'x ldb \<Rightarrow> (string, 'x ldb) res" where
  "lower_order env repo sha key held db =
     (let db = db\<lparr>ledger := map (\<lambda>e. if ce_repo e = repo \<and> ce_sha e = sha then e\<lparr>ce_order := key\<rparr> else e) (ledger db)\<rparr>
      in bind_res (loadPushRowByID (ce_outcome held) db) (\<lambda>found.
         bind_res (case found of None \<Rightarrow> Inr db | Some v \<Rightarrow> rederivePushOwner v (sha, ce_developer held) True db)
           (on_others (lv_refresh env [ce_outcome held]))))"

text \<open>The marker of a row the ledger knows nothing of; its insert has no conflict clause.\<close>

definition mark_row :: "string \<Rightarrow> push_view \<Rightarrow> bool \<Rightarrow> 'x ldb \<Rightarrow> (string, 'x ldb) res" where
  "mark_row repo v created db =
     (if created \<or> entries_of (pv_id v) db \<noteq> [] then Inr db
      else if held_entry repo (marker (pv_id v)) db \<noteq> None then Inl ''pre-ledger marker''
      else Inr (add_entry repo (marker (pv_id v)) (pv_id v) (pv_developer v) (pv_ts v) pushOrderFirst db))"

text \<open>A commit the ledger does not hold: the day's row, the marker of an older row, the entry, the owner.
  \<open>None\<close> is the conflict of the entry, after which the transaction rolls back.\<close>

definition enter_commit :: "'x ledger_env \<Rightarrow> outcome \<Rightarrow> string \<Rightarrow> string \<Rightarrow> time \<Rightarrow> 'x ldb \<Rightarrow> (string, 'x ldb option) res" where
  "enter_commit env o1 day sha pushedAt db =
     (let repo = normalizeRepo (o_Repo o1)
      in bind_res (upsertPushOutcomeRow o1 day db) (\<lambda>(created, db).
         bind_res (loadPushRowByKey repo (o_IssueID o1) day db) (\<lambda>v.
         bind_res (mark_row repo v created db) (\<lambda>db.
         if held_entry repo sha db \<noteq> None then Inr None
         else (let db = add_entry repo sha (pv_id v) (o_Developer o1) (o_Timestamp o1) (pushOrderKey pushedAt) db
               in bind_res (rederivePushOwner v (sha, o_Developer o1) True db) (\<lambda>db.
                  bind_res (on_others (lv_refresh env [pv_id v]) db) (\<lambda>db. Inr (Some db))))))))"

definition RecordPushCommit ::
  "'x ledger_env \<Rightarrow> outcome \<Rightarrow> string \<Rightarrow> string \<Rightarrow> time \<Rightarrow> 'x ldb \<Rightarrow> (string, push_status \<times> 'x ldb) res" where
  "RecordPushCommit env o1 day sha pushedAt db0 =
     (if day = [] then Inl ''store: RecordPushCommit requires a non-empty UTC day (YYYY-MM-DD)''
      else if \<not> ValidPushCommitID sha then Inl ''store: RecordPushCommit: commit id cannot be a ledger key''
      else bind_res (on_others (lv_prepare env) db0) (\<lambda>db.
        if merged_sha db sha \<or> excluded_sha db sha then Inr (PushCommitPRCaptured, db0)
        else (case held_entry (normalizeRepo (o_Repo o1)) sha db of
                Some held \<Rightarrow>
                  if ce_order held \<le> pushOrderKey pushedAt then Inr (PushCommitDuplicate, db0)
                  else bind_res (lower_order env (normalizeRepo (o_Repo o1)) sha (pushOrderKey pushedAt) held db)
                         (\<lambda>db. Inr (PushCommitDuplicate, db))
              | None \<Rightarrow> bind_res (enter_commit env o1 day sha pushedAt db) (\<lambda>r.
                  Inr (case r of None \<Rightarrow> (PushCommitDuplicate, db0) | Some db \<Rightarrow> (PushCommitRecorded, db))))))"

section \<open>Reconciliation\<close>

definition reconcilePushRow :: "int \<Rightarrow> push_cause \<Rightarrow> bool \<Rightarrow> 'x ldb \<Rightarrow> (string, bool \<times> 'x ldb) res" where
  "reconcilePushRow i cause erasure db =
     bind_res (loadPushRowByID i db) (\<lambda>found. case found of None \<Rightarrow> Inr (False, db)
       | Some v \<Rightarrow>
           if entries_of (pv_id v) db \<noteq> [] then bind_res (rederivePushOwner v cause (\<not> erasure) db) (\<lambda>db. Inr (False, db))
           else (let db = db\<lparr>outcomes := filter (\<lambda>r. or_id r \<noteq> pv_id v) (outcomes db)\<rparr>
                 in Inr (True, if erasure then db else insertPushAudit v ''superseded'' cause db)))"

fun reconcile_held :: "string \<Rightarrow> ledger_entry list \<Rightarrow> 'x ldb \<Rightarrow> (string, 'x ldb) res" where
  "reconcile_held sha [] db = Inr db"
| "reconcile_held sha (e # es) db =
     bind_res (reconcilePushRow (ce_outcome e) (sha, ce_developer e) False db) (\<lambda>(_, db). reconcile_held sha es db)"

definition supersedePushCommit :: "string \<Rightarrow> 'x ldb \<Rightarrow> (string, 'x ldb) res" where
  "supersedePushCommit sha db =
     reconcile_held sha (filter (\<lambda>e. ce_sha e = sha) (ledger db))
       (db\<lparr>ledger := filter (\<lambda>e. ce_sha e \<noteq> sha) (ledger db)\<rparr>)"

definition supersede_valid :: "string \<Rightarrow> 'x ldb \<Rightarrow> (string, 'x ldb) res" where
  "supersede_valid sha db = (if ValidPushCommitID sha then supersedePushCommit sha db else Inr db)"

section \<open>Recording a pull request\<close>

text \<open>The insert with the fill of token events it triggers.\<close>

definition insert_and_fill :: "'x ledger_env \<Rightarrow> outcome \<Rightarrow> 'x ldb \<Rightarrow> (string, bool \<times> 'x ldb) res" where
  "insert_and_fill env o1 db =
     bind_res (insertOutcomeRow o1 db) (\<lambda>(inserted, db).
       bind_res (if inserted then on_others (lv_fill env o1) db else Inr db) (\<lambda>db. Inr (inserted, db)))"

definition RecordPROutcome :: "'x ledger_env \<Rightarrow> outcome \<Rightarrow> 'x ldb \<Rightarrow> (string, bool \<times> 'x ldb) res" where
  "RecordPROutcome env o1 db =
     bind_res (on_others (lv_prepare env) db) (\<lambda>db.
     bind_res (insert_and_fill env o1 db) (\<lambda>(inserted, db).
     bind_res (on_others (lv_attach env o1) db) (\<lambda>db.
     bind_res (lv_touched env o1 db) (\<lambda>touched.
     let pushIDs = map ce_outcome (filter (\<lambda>e. ce_sha e = o_MergeCommitSHA o1) (ledger db))
     in bind_res (supersede_valid (o_MergeCommitSHA o1) db) (\<lambda>db.
        bind_res (on_others (lv_refresh env (touched @ pushIDs)) db) (\<lambda>db. Inr (inserted, db)))))))"

section \<open>Excluding a reverted pull request\<close>

record exclusion_identity =
  xi_OutcomeID :: int
  xi_Repo :: string
  xi_PR :: int
  xi_SHA :: string

definition identity_row :: "exclusion_identity \<Rightarrow> outcome_row \<Rightarrow> bool" where
  "identity_row x r \<longleftrightarrow> or_id r = xi_OutcomeID x \<and> or_repo r = xi_Repo x \<and> or_pr r = Some (xi_PR x) \<and> or_sha r = Some (xi_SHA x)"

text \<open>The plan's row, scanned into the outcome: \<open>Inr None\<close> is the replay of an applied plan.\<close>

definition expected_outcome :: "exclusion_identity \<Rightarrow> string \<Rightarrow> outcome \<Rightarrow> 'x ldb \<Rightarrow> (string, outcome option) res" where
  "expected_outcome x evidence o1 db =
     (case find (identity_row x) (outcomes db) of
        Some r \<Rightarrow> Inr (Some (o1\<lparr>o_ID := or_id r, o_Repo := or_repo r, o_PRNumber := xi_PR x, o_MergeCommitSHA := xi_SHA x,
          o_Developer := or_developer r, o_IssueID := or_issue r, o_Timestamp := or_ts r,
          o_AuthorType := (case or_author_type r of None \<Rightarrow> [] | Some t \<Rightarrow> t)\<rparr>))
      | None \<Rightarrow>
          if \<exists>e \<in> set (exclusions db). ex_evidence e = evidence \<and>
               (case ex_moved e of None \<Rightarrow> False | Some r \<Rightarrow> identity_row x r)
          then Inr None else Inl ''stale exclusion plan'')"

definition exclusion_key :: "exclusion_row \<Rightarrow> string \<times> int \<times> string" where
  "exclusion_key e = (ex_repo e, ex_pr e, ex_sha e)"

text \<open>An insert under the primary key; a conflict does nothing.\<close>

definition add_exclusion :: "exclusion_row \<Rightarrow> exclusion_row list \<Rightarrow> exclusion_row list" where
  "add_exclusion e es = (if exclusion_key e \<in> exclusion_key ` set es then es else es @ [e])"

definition exclusion_of :: "outcome \<Rightarrow> string \<Rightarrow> string \<Rightarrow> time \<Rightarrow> outcome_row option \<Rightarrow> exclusion_row" where
  "exclusion_of o1 evidence actor now moved =
     \<lparr>ex_repo = (case Canonical (o_Repo o1) of Some c \<Rightarrow> c | None \<Rightarrow> normalizeRepo (o_Repo o1)), ex_pr = o_PRNumber o1,
      ex_sha = o_MergeCommitSHA o1, ex_moved = moved, ex_author = o_Developer o1,
      ex_author_type = nullif_empty (normalizeAuthorType (o_AuthorType o1)), ex_ts = o_Timestamp o1,
      ex_evidence = evidence, ex_actor = actor, ex_at = now\<rparr>"

text \<open>The move of the stored rows, their deletion, and the tombstone.\<close>

definition move_outcome :: "outcome \<Rightarrow> string \<Rightarrow> string \<Rightarrow> time \<Rightarrow> 'x ldb \<Rightarrow> (string, 'x ldb) res" where
  "move_outcome o1 evidence actor now db =
     (let rows = filter (\<lambda>r. or_sha r = Some (o_MergeCommitSHA o1)) (outcomes db);
          es = foldl (\<lambda>es r. add_exclusion (exclusion_of o1 evidence actor now (Some r)) es) (exclusions db) rows;
          moved = length es - length (exclusions db)
      in if moved \<noteq> length rows then Inl ''exclude PR outcome: moved and deleted rows differ''
         else (let es' = add_exclusion (exclusion_of o1 evidence actor now None) es
               in Inr (db\<lparr>outcomes := filter (\<lambda>r. or_sha r \<noteq> Some (o_MergeCommitSHA o1)) (outcomes db), exclusions := es',
                      erase_epoch := erase_epoch db + (if length (exclusions db) < length es' then 1 else 0)\<rparr>)))"

definition exclude_tx :: "'x ledger_env \<Rightarrow> outcome \<Rightarrow> string \<Rightarrow> string \<Rightarrow> time \<Rightarrow> bool \<Rightarrow> 'x ldb \<Rightarrow> (string, bool \<times> 'x ldb) res" where
  "exclude_tx env o1 evidence actor now planned db =
     bind_res (on_others (lv_prepare env) db) (\<lambda>db.
     bind_res (if \<not> planned \<and> o_IssueID o1 \<noteq> [] \<and> \<not> IsUnattributed (o_IssueID o1) then insert_and_fill env o1 db else Inr (False, db))
       (\<lambda>(_, db).
     bind_res (lv_touched env o1 db) (\<lambda>touched.
     bind_res (move_outcome o1 evidence actor now db) (\<lambda>db.
     bind_res (supersede_valid (o_MergeCommitSHA o1) db) (\<lambda>db.
     bind_res (on_others (lv_attach env o1) db) (\<lambda>db.
     bind_res (on_others (lv_refresh env touched) db) (\<lambda>db. Inr (True, db))))))))"

definition excludePROutcome ::
  "'x ledger_env \<Rightarrow> outcome \<Rightarrow> string \<Rightarrow> string \<Rightarrow> time \<Rightarrow> exclusion_identity option \<Rightarrow> 'x ldb \<Rightarrow> (string, bool \<times> 'x ldb) res" where
  "excludePROutcome env o1 evidence actor now expected db =
     (if o_PRNumber o1 \<le> 0 \<or> o_MergeCommitSHA o1 = [] \<or> evidence = [] \<or> actor = []
      then Inl ''exclude PR outcome: PR number, merge SHA, evidence and actor required''
      else (case expected of
              None \<Rightarrow> exclude_tx env o1 evidence actor now False db
            | Some x \<Rightarrow>
                bind_res (expected_outcome x evidence o1 db) (\<lambda>found.
                  case found of None \<Rightarrow> Inr (False, db) | Some o2 \<Rightarrow> exclude_tx env o2 evidence actor now True db)))"

definition ExcludePROutcome :: "'x ledger_env \<Rightarrow> outcome \<Rightarrow> string \<Rightarrow> string \<Rightarrow> time \<Rightarrow> 'x ldb \<Rightarrow> (string, 'x ldb) res" where
  "ExcludePROutcome env o1 evidence actor now db =
     bind_res (excludePROutcome env o1 evidence actor now None db) (\<lambda>(_, db). Inr db)"

definition ApplyPRExclusion :: "'x ledger_env \<Rightarrow> exclusion_identity \<Rightarrow> string \<Rightarrow> string \<Rightarrow> time \<Rightarrow> 'x ldb \<Rightarrow> (string, bool \<times> 'x ldb) res" where
  "ApplyPRExclusion env x evidence actor now db =
     excludePROutcome env (zero_outcome\<lparr>o_PRNumber := xi_PR x, o_MergeCommitSHA := xi_SHA x\<rparr>) evidence actor now (Some x) db"

section \<open>Erasing a developer from the ledger\<close>

definition blank_audit :: "string list \<Rightarrow> 'x ldb \<Rightarrow> push_audit_row \<Rightarrow> push_audit_row" where
  "blank_audit devs db a =
     (if pa_commit_developer a \<in> set devs
         \<or> pa_sha a \<in> ce_sha ` set (filter (\<lambda>e. ce_developer e \<in> set devs) (ledger db))
         \<or> pa_sha a \<in> ex_sha ` set (filter (\<lambda>e. (case ex_moved e of None \<Rightarrow> ex_author e | Some r \<Rightarrow> or_developer r) \<in> set devs
               \<or> ex_author e \<in> set devs) (exclusions db))
         \<or> Some (pa_sha a) \<in> or_sha ` set (filter (\<lambda>r. or_developer r \<in> set devs) (outcomes db))
      then a\<lparr>pa_sha := [], pa_commit_developer := []\<rparr> else a)"

fun reconcile_erased :: "int list \<Rightarrow> nat \<Rightarrow> 'x ldb \<Rightarrow> (string, nat \<times> 'x ldb) res" where
  "reconcile_erased [] n db = Inr (n, db)"
| "reconcile_erased (i # is) n db =
     bind_res (reconcilePushRow i ([], []) True db) (\<lambda>(deleted, db). reconcile_erased is (if deleted then n + 1 else n) db)"

definition eraseSubjectPushLedger :: "string list \<Rightarrow> 'x ldb \<Rightarrow> (string, (nat \<times> nat) \<times> 'x ldb) res" where
  "eraseSubjectPushLedger devs db =
     (let db = db\<lparr>push_audit := map (blank_audit devs db) (push_audit db)\<rparr>;
          mine = filter (\<lambda>e. ce_developer e \<in> set devs) (ledger db);
          db = db\<lparr>ledger := filter (\<lambda>e. ce_developer e \<notin> set devs) (ledger db)\<rparr>
      in bind_res (reconcile_erased (remdups (map ce_outcome mine)) 0 db) (\<lambda>(n, db). Inr ((length mine, n), db)))"

section \<open>The invariant of the tables\<close>

definition is_push :: "outcome_row \<Rightarrow> bool" where "is_push r \<longleftrightarrow> or_source r = ''push''"

definition push_slot :: "outcome_row \<Rightarrow> string \<times> string \<times> string option" where
  "push_slot r = (or_repo r, or_issue r, or_push_day r)"

definition rows_ok :: "'x ldb \<Rightarrow> bool" where
  "rows_ok db \<longleftrightarrow>
     distinct (map or_id (outcomes db)) \<and> (\<forall>r \<in> set (outcomes db). or_id r < next_outcome db) \<and>
     (\<forall>r \<in> set (outcomes db). is_push r \<longrightarrow> or_push_day r \<noteq> None \<and> or_sha r = None) \<and>
     distinct (map push_slot (filter is_push (outcomes db))) \<and>
     distinct (filter (\<lambda>s. s \<noteq> None) (map or_sha (outcomes db)))"

definition entries_ok :: "'x ldb \<Rightarrow> bool" where
  "entries_ok db \<longleftrightarrow>
     distinct (map (\<lambda>e. (ce_repo e, ce_sha e)) (ledger db)) \<and>
     (\<forall>e \<in> set (ledger db). \<exists>r \<in> set (outcomes db). or_id r = ce_outcome e \<and> is_push r \<and> or_repo r = ce_repo e)"

text \<open>No commit of the ledger is the merge commit of a stored or excluded pull request, those of \<open>ss\<close> aside.\<close>

definition claims_ok :: "string set \<Rightarrow> 'x ldb \<Rightarrow> bool" where
  "claims_ok ss db \<longleftrightarrow> (\<forall>e \<in> set (ledger db). ValidPushCommitID (ce_sha e) \<longrightarrow> ce_sha e \<notin> ss \<longrightarrow>
     \<not> merged_sha db (ce_sha e) \<and> \<not> excluded_sha db (ce_sha e))"

text \<open>A push row names the author and the time of its earliest commit, the rows of \<open>ids\<close> aside.\<close>

definition owned :: "'x ldb \<Rightarrow> outcome_row \<Rightarrow> bool" where
  "owned db r \<longleftrightarrow> (case earliest (or_id r) db of None \<Rightarrow> True | Some e \<Rightarrow> or_developer r = ce_developer e \<and> or_ts r = ce_ts e)"

definition owners_ok :: "int set \<Rightarrow> 'x ldb \<Rightarrow> bool" where
  "owners_ok ids db \<longleftrightarrow> (\<forall>r \<in> set (outcomes db). is_push r \<longrightarrow> or_id r \<notin> ids \<longrightarrow> owned db r)"

definition db_ok :: "string set \<Rightarrow> int set \<Rightarrow> 'x ldb \<Rightarrow> bool" where
  "db_ok ss ids db \<longleftrightarrow> rows_ok db \<and> entries_ok db \<and> claims_ok ss db \<and> owners_ok ids db"

lemmas db_ok_defs = db_ok_def rows_ok_def entries_ok_def claims_ok_def owners_ok_def

lemma db_ok_tables:
  assumes "outcomes db' = outcomes db" "ledger db' = ledger db" "exclusions db' = exclusions db"
    "next_outcome db' = next_outcome db"
  shows "db_ok ss ids db' = db_ok ss ids db" "owned db' r = owned db r"
  using assms by (simp_all add: db_ok_defs owned_def earliest_def entries_of_def merged_sha_def excluded_sha_def)

lemma on_others_Inr: "on_others f db = Inr db' \<longleftrightarrow> (\<exists>x. f db = Inr x \<and> db' = db\<lparr>others := x\<rparr>)"
  by (auto simp: on_others_def bind_res_Inr_iff)

lemma insertPushAudit_tables [simp]:
  "outcomes (insertPushAudit v act c db) = outcomes db" "ledger (insertPushAudit v act c db) = ledger db"
  "exclusions (insertPushAudit v act c db) = exclusions db" "next_outcome (insertPushAudit v act c db) = next_outcome db"
  by (simp_all add: insertPushAudit_def)

lemma db_ok_simps [simp]:
  "db_ok ss ids (db\<lparr>others := x\<rparr>) = db_ok ss ids db"
  "db_ok ss ids (db\<lparr>push_audit := a\<rparr>) = db_ok ss ids db"
  "db_ok ss ids (insertPushAudit v act c db) = db_ok ss ids db"
  by (rule db_ok_tables; simp)+

lemma db_ok_mono: "db_ok ss ids db \<Longrightarrow> ss \<subseteq> ss' \<Longrightarrow> ids \<subseteq> ids' \<Longrightarrow> db_ok ss' ids' db"
  by (auto simp: db_ok_def claims_ok_def owners_ok_def)

lemma same_id: "rows_ok db \<Longrightarrow> r \<in> set (outcomes db) \<Longrightarrow> r' \<in> set (outcomes db) \<Longrightarrow> or_id r = or_id r' \<Longrightarrow> r = r'"
  by (auto simp: rows_ok_def distinct_map inj_on_def)

section \<open>The owner\<close>

lemma earliest_None: "earliest i db = None \<longleftrightarrow> entries_of i db = []"
  by (auto simp: earliest_def split: list.splits dest: arg_cong [of _ _ length])

lemma earliest_entry: "earliest i db = Some e \<Longrightarrow> e \<in> set (ledger db) \<and> ce_outcome e = i"
proof -
  assume "earliest i db = Some e"
  then obtain es where "sort_key entry_key (entries_of i db) = e # es"
    by (auto simp: earliest_def split: list.splits)
  then have "e \<in> set (sort_key entry_key (entries_of i db))" by simp
  then show ?thesis by (simp add: entries_of_def)
qed

lemma earliest_cong: "entries_of i db' = entries_of i db \<Longrightarrow> earliest i db' = earliest i db"
  by (simp add: earliest_def)

definition view_of :: "outcome_row \<Rightarrow> push_view \<Rightarrow> bool" where
  "view_of r v \<longleftrightarrow> pv_id v = or_id r \<and> pv_developer v = or_developer r \<and> pv_ts v = or_ts r \<and> pv_repo v = or_repo r \<and>
     pv_issue v = or_issue r \<and> or_push_day r = Some (pv_day v)"

lemma scanPushRow_view: "scanPushRow r = Inr v \<Longrightarrow> view_of r v"
  by (auto simp: scanPushRow_def view_of_def split: option.splits)

lemma loadPushRowByID_cases:
  assumes "loadPushRowByID i db = Inr found"
  obtains "found = None" "\<forall>r \<in> set (outcomes db). or_id r = i \<longrightarrow> \<not> is_push r"
    | r v where "found = Some v" "r \<in> set (outcomes db)" "is_push r" "or_id r = i" "view_of r v"
  using assms
  by (auto simp: loadPushRowByID_def is_push_def bind_res_Inr_iff find_None_iff find_Some_iff
      dest!: scanPushRow_view split: option.splits) (metis nth_mem)

definition reown :: "int \<Rightarrow> string \<Rightarrow> time \<Rightarrow> outcome_row \<Rightarrow> outcome_row" where
  "reown i dev ts r = (if or_id r = i then r\<lparr>or_developer := dev, or_ts := ts\<rparr> else r)"

lemma reown_simps [simp]:
  "or_id (reown i d t r) = or_id r" "is_push (reown i d t r) = is_push r" "push_slot (reown i d t r) = push_slot r"
  "or_sha (reown i d t r) = or_sha r" "or_push_day (reown i d t r) = or_push_day r" "or_repo (reown i d t r) = or_repo r"
  by (simp_all add: reown_def is_push_def push_slot_def)

lemma set_owner_tables:
  "outcomes (set_owner i d t db) = map (reown i d t) (outcomes db)" "ledger (set_owner i d t db) = ledger db"
  "exclusions (set_owner i d t db) = exclusions db" "next_outcome (set_owner i d t db) = next_outcome db"
  by (simp_all add: set_owner_def reown_def [abs_def])

lemma reown_same: "reown (or_id r) (or_developer r) (or_ts r) r = r"
  by (cases r) (simp add: reown_def)

lemma reown_other: "or_id r \<noteq> i \<Longrightarrow> reown i d t r = r"
  by (simp add: reown_def)

lemma rederive_tables:
  assumes "rederivePushOwner v cause before db = Inr db'" "rows_ok db" "r \<in> set (outcomes db)" "view_of r v"
  obtains e where "earliest (or_id r) db = Some e"
    "outcomes db' = map (reown (or_id r) (ce_developer e) (ce_ts e)) (outcomes db)"
    "ledger db' = ledger db" "exclusions db' = exclusions db" "next_outcome db' = next_outcome db"
proof -
  from assms(1,4) obtain e where e: "earliest (or_id r) db = Some e"
    by (auto simp: rederivePushOwner_def view_of_def split: option.splits)
  have keep: "map (reown (or_id r) (or_developer r) (or_ts r)) (outcomes db) = outcomes db"
    using assms(2,3) by (intro map_idI) (metis reown_other reown_same same_id)
  have v: "pv_id v = or_id r" "pv_developer v = or_developer r" "pv_ts v = or_ts r"
    using assms(4) by (simp_all add: view_of_def)
  show ?thesis
  proof (cases "ce_developer e = or_developer r \<and> ce_ts e = or_ts r")
    case True
    then show ?thesis using that [OF e] assms(1) e keep by (simp add: rederivePushOwner_def v)
  next
    case False
    then have "db' = insertPushAudit (v\<lparr>pv_developer := ce_developer e, pv_ts := ce_ts e\<rparr>) ''rederived_to'' cause
        (let db = set_owner (or_id r) (ce_developer e) (ce_ts e) db
         in if before then insertPushAudit v ''rederived_from'' cause db else db)"
      using assms(1) e by (auto simp: rederivePushOwner_def v Let_def)
    then show ?thesis using that [OF e] by (simp add: set_owner_tables Let_def split: if_splits)
  qed
qed

lemma rows_ok_reown:
  assumes "outcomes db' = map (reown i d t) (outcomes db)" "next_outcome db' = next_outcome db" "rows_ok db"
  shows "rows_ok db'"
proof -
  have "map or_id (outcomes db') = map or_id (outcomes db)" "map or_sha (outcomes db') = map or_sha (outcomes db)"
    using assms(1) by (simp_all add: comp_def)
  note maps = this
  have slots: "map push_slot (filter is_push (outcomes db')) = map push_slot (filter is_push (outcomes db))"
    using assms(1) by (simp add: filter_map comp_def)
  have "\<forall>r \<in> set (outcomes db'). or_id r < next_outcome db' \<and> (is_push r \<longrightarrow> or_push_day r \<noteq> None \<and> or_sha r = None)"
    using assms by (auto simp: rows_ok_def)
  then show ?thesis using assms(3) by (simp only: rows_ok_def maps slots) blast
qed

lemma rederive_ok:
  assumes "rederivePushOwner v cause before db = Inr db'" "db_ok ss ids db" "r \<in> set (outcomes db)" "view_of r v"
  shows "db_ok ss (ids - {or_id r}) db' \<and> ledger db' = ledger db"
proof -
  have rows: "rows_ok db" using assms(2) by (simp add: db_ok_def)
  obtain e where e: "earliest (or_id r) db = Some e"
    and t: "outcomes db' = map (reown (or_id r) (ce_developer e) (ce_ts e)) (outcomes db)"
      "ledger db' = ledger db" "exclusions db' = exclusions db" "next_outcome db' = next_outcome db"
    using rederive_tables [OF assms(1) rows assms(3,4)] .
  have early: "earliest i db' = earliest i db" for i
    using t by (simp add: earliest_def entries_of_def)
  have "owners_ok (ids - {or_id r}) db'"
    using assms(2) e by (auto simp: owners_ok_def db_ok_def owned_def early t reown_def)
  moreover have "entries_ok db'" "claims_ok ss db'"
    using assms(2) by (auto simp: db_ok_def entries_ok_def claims_ok_def merged_sha_def excluded_sha_def t image_image)
  ultimately show ?thesis
    using rows_ok_reown [OF t(1,4) rows] t(2) by (simp add: db_ok_def)
qed

section \<open>Reconciliation keeps the invariant\<close>

lemma reconcile_ok:
  assumes "reconcilePushRow i cause erasure db = Inr (d, db')" "db_ok ss ids db"
  shows "db_ok ss (ids - {i}) db' \<and> ledger db' = ledger db"
proof -
  obtain found where load: "loadPushRowByID i db = Inr found"
    using assms(1) by (auto simp: reconcilePushRow_def bind_res_Inr_iff)
  then show ?thesis
  proof (cases rule: loadPushRowByID_cases)
    case 1
    then show ?thesis using assms load by (auto simp: reconcilePushRow_def db_ok_def owners_ok_def)
  next
    case (2 r v)
    then have id: "pv_id v = or_id r" by (simp add: view_of_def)
    show ?thesis
    proof (cases "entries_of (or_id r) db = []")
      case False
      then show ?thesis
        using assms(1) load 2(1,4) rederive_ok [OF _ assms(2) 2(2) 2(5), of cause "\<not> erasure" db']
        by (simp add: reconcilePushRow_def bind_res_Inr_iff id)
    next
      case True
      let ?db = "db\<lparr>outcomes := filter (\<lambda>r. or_id r \<noteq> i) (outcomes db)\<rparr>"
      have "distinct (map push_slot (filter (\<lambda>x. is_push x \<and> or_id x \<noteq> i) (outcomes db)))"
        "distinct (filter (\<lambda>s. s \<noteq> None) (map or_sha (filter (\<lambda>r. or_id r \<noteq> i) (outcomes db))))"
        using assms(2) by (auto simp: db_ok_def rows_ok_def distinct_map filter_map inj_on_def)
      then have "rows_ok ?db"
        using assms(2) by (auto simp: db_ok_def rows_ok_def distinct_map_filter conj_commute)
      moreover have "entries_ok ?db"
        using assms(2) True 2(4) by (fastforce simp: db_ok_def entries_ok_def entries_of_def filter_empty_conv)
      moreover have "claims_ok ss ?db" "owners_ok (ids - {i}) ?db"
        using assms(2) by (auto simp: db_ok_def claims_ok_def owners_ok_def merged_sha_def excluded_sha_def owned_def
            earliest_def entries_of_def)
      ultimately have "db_ok ss (ids - {i}) ?db" by (simp add: db_ok_def)
      moreover have "db' = (if erasure then ?db else insertPushAudit v ''superseded'' cause ?db)"
        using assms(1) load 2 True by (auto simp: reconcilePushRow_def id Let_def)
      ultimately show ?thesis by (simp split: if_splits)
    qed
  qed
qed

lemma reconcile_held_ok:
  "reconcile_held sha es db = Inr db' \<Longrightarrow> db_ok ss (ce_outcome ` set es \<union> ids) db \<Longrightarrow>
   db_ok ss ids db' \<and> ledger db' = ledger db"
proof (induction sha es db arbitrary: db' rule: reconcile_held.induct)
  case (2 sha e es db)
  then obtain d db1 where step: "reconcilePushRow (ce_outcome e) (sha, ce_developer e) False db = Inr (d, db1)"
    and rest: "reconcile_held sha es db1 = Inr db'"
    by (auto simp: bind_res_Inr_iff)
  have "db_ok ss (ce_outcome ` set es \<union> ids) db1 \<and> ledger db1 = ledger db"
    using reconcile_ok [OF step 2(3)] by (auto elim!: db_ok_mono)
  then show ?case using 2(1) [OF rest] by (auto simp: step)
qed auto

lemma reconcile_erased_ok:
  "reconcile_erased is n db = Inr (m, db') \<Longrightarrow> db_ok ss (set is \<union> ids) db \<Longrightarrow> db_ok ss ids db' \<and> ledger db' = ledger db"
proof (induction "is" n db arbitrary: db' rule: reconcile_erased.induct)
  case (2 i "is" n db)
  then obtain d db1 where step: "reconcilePushRow i ([], []) True db = Inr (d, db1)"
    and rest: "reconcile_erased is (if d then n + 1 else n) db1 = Inr (m, db')"
    by (auto simp: bind_res_Inr_iff)
  have "db_ok ss (set is \<union> ids) db1 \<and> ledger db1 = ledger db"
    using reconcile_ok [OF step 2(3)] by (auto elim!: db_ok_mono)
  then show ?case using 2(1) [OF rest] by (auto simp: step)
qed auto

text \<open>Entries leave the ledger: the rows that held them wait for their owner.\<close>

lemma drop_entries_ok:
  assumes "db_ok ss {} db"
  shows "db_ok ss (ce_outcome ` set (filter (\<lambda>e. \<not> P e) (ledger db))) (db\<lparr>ledger := filter P (ledger db)\<rparr>)"
proof -
  have "entries_of i (db\<lparr>ledger := filter P (ledger db)\<rparr>) = entries_of i db"
    if "i \<notin> ce_outcome ` set (filter (\<lambda>e. \<not> P e) (ledger db))" for i
    using that by (auto simp: entries_of_def image_iff intro!: filter_cong)
  then have "owners_ok (ce_outcome ` set (filter (\<lambda>e. \<not> P e) (ledger db))) (db\<lparr>ledger := filter P (ledger db)\<rparr>)"
    using assms by (auto simp: db_ok_def owners_ok_def owned_def cong: earliest_cong)
  then show ?thesis
    using assms by (auto simp: db_ok_def rows_ok_def entries_ok_def claims_ok_def distinct_map_filter merged_sha_def excluded_sha_def)
qed

lemma supersede_ok:
  assumes "supersede_valid sha db = Inr db'" "db_ok {sha} {} db"
  shows "db_ok {} {} db'"
proof (cases "ValidPushCommitID sha")
  case True
  let ?db = "db\<lparr>ledger := filter (\<lambda>e. ce_sha e \<noteq> sha) (ledger db)\<rparr>"
  have "db_ok {sha} {} db' \<and> ledger db' = ledger ?db"
    using assms(1) True drop_entries_ok [OF assms(2), of "\<lambda>e. ce_sha e \<noteq> sha"]
      reconcile_held_ok [of sha "filter (\<lambda>e. ce_sha e = sha) (ledger db)" ?db db' "{sha}" "{}"]
    by (simp add: supersede_valid_def supersedePushCommit_def)
  then show ?thesis by (auto simp: db_ok_def claims_ok_def)
next
  case False
  then show ?thesis using assms by (auto simp: supersede_valid_def db_ok_def claims_ok_def)
qed

section \<open>Recording keeps the invariant\<close>

lemma fresh_row_ok:
  assumes "db_ok ss {} db" "or_id r = next_outcome db"
    "is_push r \<Longrightarrow> or_push_day r \<noteq> None \<and> or_sha r = None"
    "is_push r \<Longrightarrow> push_slot r \<notin> push_slot ` set (filter is_push (outcomes db))"
    "or_sha r \<noteq> None \<Longrightarrow> or_sha r \<notin> or_sha ` set (outcomes db)"
    "\<And>s. or_sha r = Some s \<Longrightarrow> s \<in> ss"
    "db' = db\<lparr>outcomes := outcomes db @ [r], next_outcome := next_outcome db + 1\<rparr>"
  shows "db_ok ss {} db'" "entries_of (or_id r) db' = []"
proof -
  have held: "ce_outcome e \<noteq> or_id r" if "e \<in> set (ledger db)" for e
    using that assms(1,2) by (fastforce simp: db_ok_def entries_ok_def rows_ok_def)
  have below: "\<forall>x \<in> set (outcomes db). or_id x < next_outcome db" using assms(1) by (simp add: db_ok_def rows_ok_def)
  have "rows_ok db'"
    using assms below by (auto simp: db_ok_def rows_ok_def)
  moreover have "entries_ok db'" using assms(1,7) by (fastforce simp: db_ok_def entries_ok_def)
  moreover have "claims_ok ss db'"
    using assms(1,6,7) by (auto simp: db_ok_def claims_ok_def merged_sha_def excluded_sha_def)
  moreover show none: "entries_of (or_id r) db' = []"
    using held assms(7) by (simp add: entries_of_def filter_empty_conv)
  moreover have "owners_ok {} db'"
    using assms(1,7) none earliest_None [of "or_id r" db'] 
    by (auto simp: db_ok_def owners_ok_def owned_def earliest_def entries_of_def)
  ultimately show "db_ok ss {} db'" by (simp add: db_ok_def)
qed

lemma insert_ok:
  assumes "insertOutcomeRow o1 db = Inr (ins, db')" "db_ok {} {} db" "o_Source o1 \<noteq> ''push''"
  shows "db_ok {o_MergeCommitSHA o1} {} db'"
proof (cases ins)
  case False
  then have "db' = db" using assms(1) by (auto simp: insertOutcomeRow_def split: if_splits)
  then show ?thesis using assms(2) by (auto elim: db_ok_mono)
next
  case True
  then have db': "db' = db\<lparr>outcomes := outcomes db @ [pr_row (next_outcome db) o1], next_outcome := next_outcome db + 1\<rparr>"
    and new: "o_MergeCommitSHA o1 \<noteq> [] \<Longrightarrow> \<not> merged_sha db (o_MergeCommitSHA o1)"
    using assms(1) by (auto simp: insertOutcomeRow_def split: if_splits)
  have "\<not> is_push (pr_row i o1)" for i
    using assms(3) by (simp add: is_push_def pr_row_def or_default_def)
  then show ?thesis
    using assms(2) new
    by (intro fresh_row_ok(1) [OF _ _ _ _ _ _ db'])
      (auto simp: pr_row_def nullif_empty_def merged_sha_def elim: db_ok_mono split: if_splits)
qed

lemma insert_and_fill_ok:
  assumes "insert_and_fill env o1 db = Inr (ins, db')" "db_ok {} {} db" "o_Source o1 \<noteq> ''push''"
  shows "db_ok {o_MergeCommitSHA o1} {} db'"
  using assms insert_ok [OF _ assms(2,3)]
  by (fastforce simp: insert_and_fill_def bind_res_Inr_iff on_others_Inr split: if_splits prod.splits)

lemma RecordPROutcome_ok:
  assumes "RecordPROutcome env o1 db = Inr (ins, db')" "db_ok {} {} db" "o_Source o1 \<noteq> ''push''"
  shows "db_ok {} {} db'"
proof -
  obtain x1 db1 x2 db2 x3 where
    "insert_and_fill env o1 (db\<lparr>others := x1\<rparr>) = Inr (ins, db1)"
    and sup: "supersede_valid (o_MergeCommitSHA o1) (db1\<lparr>others := x2\<rparr>) = Inr db2" "db' = db2\<lparr>others := x3\<rparr>"
    using assms(1) by (auto simp: RecordPROutcome_def bind_res_Inr_iff on_others_Inr Let_def)
  then have "db_ok {o_MergeCommitSHA o1} {} db1"
    using insert_and_fill_ok [of env o1 "db\<lparr>others := x1\<rparr>"] assms(2,3) by simp
  then show ?thesis using supersede_ok [OF sup(1)] sup(2) by simp
qed

lemma upsert_ok:
  assumes "upsertPushOutcomeRow o1 day db = Inr (created, db')" "db_ok {} {} db"
  shows "db_ok {} {} db'" "ledger db' = ledger db" "exclusions db' = exclusions db"
    "merged_sha db' sha = merged_sha db sha"
proof -
  have "db_ok {} {} db' \<and> ledger db' = ledger db \<and> exclusions db' = exclusions db \<and> merged_sha db' sha = merged_sha db sha"
  proof (cases created)
    case False
    then have "db' = db" using assms(1) by (auto simp: upsertPushOutcomeRow_def split: if_splits)
    then show ?thesis using assms(2) by simp
  next
    case True
    then have db': "db' = db\<lparr>outcomes := outcomes db @ [push_row (next_outcome db) o1 day], next_outcome := next_outcome db + 1\<rparr>"
      and new: "\<forall>r \<in> set (outcomes db). \<not> push_key (normalizeRepo (o_Repo o1)) (o_IssueID o1) day r"
      using assms(1) by (auto simp: upsertPushOutcomeRow_def split: if_splits)
    have "push_slot (push_row i o1 day) \<notin> push_slot ` set (filter is_push (outcomes db))" for i
      using new by (auto simp: push_slot_def push_row_def push_key_def is_push_def)
    then have "db_ok {} {} db'"
      using assms(2) by (intro fresh_row_ok(1) [OF _ _ _ _ _ _ db']) (auto simp: push_row_def)
    then show ?thesis using db' by (simp add: merged_sha_def push_row_def)
  qed
  then show "db_ok {} {} db'" "ledger db' = ledger db" "exclusions db' = exclusions db"
    "merged_sha db' sha = merged_sha db sha" by auto
qed

lemma find_set: "find P xs = Some x \<Longrightarrow> x \<in> set xs \<and> P x"
  by (auto simp: find_Some_iff)

lemma held_None: "held_entry repo sha db = None \<longleftrightarrow> (\<forall>e \<in> set (ledger db). (ce_repo e, ce_sha e) \<noteq> (repo, sha))"
  by (auto simp: held_entry_def find_None_iff)

lemma add_entry_ok:
  assumes "db_ok ss ids db" "r \<in> set (outcomes db)" "is_push r" "or_id r = i" "or_repo r = repo"
    "held_entry repo sha db = None"
    "ValidPushCommitID sha \<Longrightarrow> sha \<notin> ss \<Longrightarrow> \<not> merged_sha db sha \<and> \<not> excluded_sha db sha"
  shows "db_ok ss (insert i ids) (add_entry repo sha i dev ts key db)"
proof -
  let ?db = "add_entry repo sha i dev ts key db"
  have t: "outcomes ?db = outcomes db" "exclusions ?db = exclusions db" "next_outcome ?db = next_outcome db"
    by (simp_all add: add_entry_def)
  have "entries_ok ?db"
    using assms(1-6) by (auto simp: db_ok_def entries_ok_def add_entry_def held_None)
  moreover have "claims_ok ss ?db"
    using assms(1,7) by (auto simp: db_ok_def claims_ok_def add_entry_def merged_sha_def excluded_sha_def)
  moreover have "owners_ok (insert i ids) ?db"
    using assms(1) by (auto simp: db_ok_def owners_ok_def owned_def t earliest_def entries_of_def add_entry_def)
  ultimately show ?thesis using assms(1) by (simp add: db_ok_def rows_ok_def t)
qed

lemma loadPushRowByKey_row:
  assumes "loadPushRowByKey repo issue day db = Inr v"
  obtains r where "r \<in> set (outcomes db)" "push_key repo issue day r" "view_of r v" "is_push r" "or_repo r = repo"
proof -
  obtain r where "find (push_key repo issue day) (outcomes db) = Some r" "scanPushRow r = Inr v"
    using assms by (auto simp: loadPushRowByKey_def split: option.splits)
  then show ?thesis
    using that [of r] by (auto simp: push_key_def is_push_def dest!: find_set dest: scanPushRow_view)
qed

lemma not_valid_marker: "\<not> ValidPushCommitID (marker i)"
  by (simp add: ValidPushCommitID_def marker_def preLedgerSHAPrefix_def)

lemma mark_row_ok:
  assumes "mark_row repo v created db = Inr db'" "db_ok {} {} db" "r \<in> set (outcomes db)" "view_of r v" "is_push r" "or_repo r = repo"
  shows "db_ok {} {} db' \<and> outcomes db' = outcomes db \<and> exclusions db' = exclusions db"
proof (cases "created \<or> entries_of (pv_id v) db \<noteq> []")
  case True
  then show ?thesis using assms(1,2) by (simp add: mark_row_def)
next
  case False
  let ?m = "marker (pv_id v)"
  have v: "pv_id v = or_id r" "pv_developer v = or_developer r" "pv_ts v = or_ts r" using assms(4) by (simp_all add: view_of_def)
  have db': "db' = add_entry repo ?m (or_id r) (or_developer r) (or_ts r) pushOrderFirst db" and none: "held_entry repo ?m db = None"
    using assms(1) False by (auto simp: mark_row_def v split: if_splits)
  have "db_ok {} {or_id r} db'"
    using add_entry_ok [OF assms(2,3,5) refl assms(6) none] not_valid_marker by (simp add: db')
  moreover have "owned db' r"
    using False by (simp add: owned_def earliest_def entries_of_def db' add_entry_def v)
  moreover have "outcomes db' = outcomes db" "exclusions db' = exclusions db" by (simp_all add: db' add_entry_def)
  ultimately show ?thesis
    using same_id [of db _ r] assms(2,3) by (auto simp: db_ok_def owners_ok_def)
qed

lemma enter_commit_ok:
  assumes "enter_commit env o1 day sha pushedAt db = Inr (Some db')" "db_ok {} {} db"
    "\<not> merged_sha db sha" "\<not> excluded_sha db sha"
  shows "db_ok {} {} db'"
proof -
  let ?repo = "normalizeRepo (o_Repo o1)"
  obtain created db1 v db2 db3 x where
    up: "upsertPushOutcomeRow o1 day db = Inr (created, db1)"
    and load: "loadPushRowByKey ?repo (o_IssueID o1) day db1 = Inr v"
    and mark: "mark_row ?repo v created db1 = Inr db2" and held: "held_entry ?repo sha db2 = None"
    and own: "rederivePushOwner v (sha, o_Developer o1) True
        (add_entry ?repo sha (pv_id v) (o_Developer o1) (o_Timestamp o1) (pushOrderKey pushedAt) db2) = Inr db3"
    and db': "db' = db3\<lparr>others := x\<rparr>"
    using assms(1) by (auto simp: enter_commit_def Let_def bind_res_Inr_iff on_others_Inr split: if_splits)
  let ?db = "add_entry ?repo sha (pv_id v) (o_Developer o1) (o_Timestamp o1) (pushOrderKey pushedAt) db2"
  note up_ok = upsert_ok [OF up assms(2)]
  obtain r where r: "r \<in> set (outcomes db1)" "view_of r v" "is_push r" "or_repo r = ?repo"
    using loadPushRowByKey_row [OF load] by metis
  have m: "db_ok {} {} db2" "outcomes db2 = outcomes db1" "exclusions db2 = exclusions db1"
    using mark_row_ok [OF mark up_ok(1) r] by auto
  have id: "pv_id v = or_id r" using r(2) by (simp add: view_of_def)
  have "merged_sha db2 sha = merged_sha db sha" "excluded_sha db2 sha = excluded_sha db sha"
    using m up_ok(3,4) by (simp_all add: merged_sha_def excluded_sha_def)
  then have "db_ok {} {or_id r} ?db"
    using add_entry_ok [OF m(1) _ r(3) id [symmetric] r(4) held] assms(3,4) r(1) m(2) by (simp add: id)
  moreover have "r \<in> set (outcomes ?db)" using r(1) m(2) by (simp add: add_entry_def)
  ultimately have "db_ok {} ({or_id r} - {or_id r}) db3" using rederive_ok [OF own _ _ r(2)] by blast
  then show ?thesis by (simp add: db')
qed

lemma lower_order_ok:
  assumes "lower_order env repo sha key held db = Inr db'" "db_ok {} {} db" "held_entry repo sha db = Some held"
  shows "db_ok {} {} db'"
proof -
  let ?f = "\<lambda>e. if ce_repo e = repo \<and> ce_sha e = sha then e\<lparr>ce_order := key\<rparr> else e"
  let ?db = "db\<lparr>ledger := map ?f (ledger db)\<rparr>"
  have held: "held \<in> set (ledger db)" "ce_repo held = repo" "ce_sha held = sha"
    using assms(3) by (auto simp: held_entry_def dest!: find_set)
  have only: "e = held" if "e \<in> set (ledger db)" "ce_repo e = repo" "ce_sha e = sha" for e
    using that held assms(2) by (auto simp: db_ok_def entries_ok_def distinct_map dest!: inj_onD)
  have keep [simp]: "ce_outcome (?f e) = ce_outcome e" "ce_repo (?f e) = ce_repo e" "ce_sha (?f e) = ce_sha e" for e
    by simp_all
  have "owned ?db r" if "or_id r \<noteq> ce_outcome held" "owned db r" for r
  proof -
    have "entries_of (or_id r) ?db = entries_of (or_id r) db"
      using only that(1) by (auto simp: entries_of_def filter_map comp_def intro!: map_idI)
    then show ?thesis using that(2) by (simp add: owned_def cong: earliest_cong)
  qed
  then have "owners_ok {ce_outcome held} ?db" using assms(2) by (auto simp: db_ok_def owners_ok_def)
  moreover have "entries_ok ?db" "claims_ok {} ?db" "rows_ok ?db"
    using assms(2) by (auto simp: db_ok_def entries_ok_def claims_ok_def rows_ok_def merged_sha_def excluded_sha_def comp_def)
  ultimately have ok: "db_ok {} {ce_outcome held} ?db" by (simp add: db_ok_def)
  obtain found db1 x where load: "loadPushRowByID (ce_outcome held) ?db = Inr found"
    and own: "(case found of None \<Rightarrow> Inr ?db | Some v \<Rightarrow> rederivePushOwner v (sha, ce_developer held) True ?db) = Inr db1"
    and db': "db' = db1\<lparr>others := x\<rparr>"
    using assms(1) by (auto simp: lower_order_def Let_def bind_res_Inr_iff on_others_Inr)
  from load show ?thesis
  proof (cases rule: loadPushRowByID_cases)
    case 1
    then have "db_ok {} {} ?db" using ok by (auto simp: db_ok_def owners_ok_def)
    then show ?thesis using own 1(1) by (simp add: db')
  next
    case (2 r v)
    then have "db_ok {} ({ce_outcome held} - {or_id r}) db1" using rederive_ok [OF _ ok _ 2(5)] own by fastforce
    then show ?thesis using 2(4) by (simp add: db')
  qed
qed

lemma RecordPushCommit_ok:
  assumes "RecordPushCommit env o1 day sha pushedAt db = Inr (st, db')" "db_ok {} {} db"
  shows "db_ok {} {} db'"
proof -
  have m: "merged_sha (db\<lparr>others := x\<rparr>) = merged_sha db" "excluded_sha (db\<lparr>others := x\<rparr>) = excluded_sha db" for x
    by (simp_all add: fun_eq_iff merged_sha_def excluded_sha_def)
  obtain x where x: "lv_prepare env db = Inr x"
    using assms(1) by (auto simp: RecordPushCommit_def bind_res_Inr_iff on_others_Inr split: if_splits)
  consider "db' = db" | held where "held_entry (normalizeRepo (o_Repo o1)) sha (db\<lparr>others := x\<rparr>) = Some held"
      "lower_order env (normalizeRepo (o_Repo o1)) sha (pushOrderKey pushedAt) held (db\<lparr>others := x\<rparr>) = Inr db'"
    | "enter_commit env o1 day sha pushedAt (db\<lparr>others := x\<rparr>) = Inr (Some db')" "\<not> merged_sha db sha" "\<not> excluded_sha db sha"
    using assms(1) x
    by (auto simp: RecordPushCommit_def bind_res_Inr_iff on_others_Inr m split: if_splits option.splits)
  then show ?thesis
  proof cases
    case 2
    then show ?thesis using lower_order_ok [OF 2(2) _ 2(1)] assms(2) by simp
  next
    case 3
    then show ?thesis using enter_commit_ok [OF 3(1)] assms(2) by (simp add: m)
  qed (use assms(2) in simp)
qed

section \<open>Exclusion and erasure keep the invariant\<close>

lemma add_exclusion_shas:
  "ex_sha ` set (add_exclusion (exclusion_of o1 evidence actor now r) es) \<subseteq> insert (o_MergeCommitSHA o1) (ex_sha ` set es)"
  by (auto simp: add_exclusion_def exclusion_of_def)

lemma add_exclusions_shas:
  "ex_sha ` set (foldl (\<lambda>es r. add_exclusion (exclusion_of o1 evidence actor now (Some r)) es) es rows)
     \<subseteq> insert (o_MergeCommitSHA o1) (ex_sha ` set es)"
proof (induction rows arbitrary: es)
  case (Cons r rows)
  show ?case
    using Cons.IH [of "add_exclusion (exclusion_of o1 evidence actor now (Some r)) es"]
      add_exclusion_shas [of o1 evidence actor now "Some r" es] by auto
qed auto

lemma move_ok:
  assumes "move_outcome o1 evidence actor now db = Inr db'" "db_ok {o_MergeCommitSHA o1} {} db"
  shows "db_ok {o_MergeCommitSHA o1} {} db'"
proof -
  let ?s = "o_MergeCommitSHA o1"
  have db': "outcomes db' = filter (\<lambda>r. or_sha r \<noteq> Some ?s) (outcomes db)"
      "ledger db' = ledger db" "next_outcome db' = next_outcome db"
    using assms(1) by (auto simp: move_outcome_def Let_def split: if_splits)
  define es where "es = foldl (\<lambda>es r. add_exclusion (exclusion_of o1 evidence actor now (Some r)) es) (exclusions db)
    (filter (\<lambda>r. or_sha r = Some ?s) (outcomes db))"
  have "exclusions db' = add_exclusion (exclusion_of o1 evidence actor now None) es"
    using assms(1) by (auto simp: move_outcome_def Let_def es_def split: if_splits)
  then have ex: "ex_sha ` set (exclusions db') \<subseteq> insert ?s (ex_sha ` set (exclusions db))"
    using add_exclusions_shas [of o1 evidence actor now "exclusions db" "filter (\<lambda>r. or_sha r = Some ?s) (outcomes db)"]
      add_exclusion_shas [of o1 evidence actor now None es] unfolding es_def [symmetric] by (simp only:) blast
  have rows: "rows_ok db" using assms(2) by (simp add: db_ok_def)
  have "distinct (map push_slot (filter (\<lambda>x. or_sha x \<noteq> Some ?s \<and> is_push x) (outcomes db)))"
    using rows distinct_map_filter [of push_slot "filter is_push (outcomes db)" "\<lambda>r. or_sha r \<noteq> Some ?s"]
    by (simp add: rows_ok_def conj_commute)
  moreover have "distinct (filter (\<lambda>s. s \<noteq> None) (map or_sha (filter (\<lambda>r. or_sha r \<noteq> Some ?s) (outcomes db))))"
    using rows by (auto simp: rows_ok_def distinct_map filter_map inj_on_def)
  ultimately have "rows_ok db'"
    using rows by (auto simp: rows_ok_def db' distinct_map_filter conj_commute)
  moreover have "entries_ok db'"
    using assms(2) by (fastforce simp: db_ok_def entries_ok_def rows_ok_def db')
  moreover have "claims_ok {?s} db'"
    using assms(2) ex by (auto simp: db_ok_def claims_ok_def merged_sha_def excluded_sha_def db')
  moreover have "owners_ok {} db'"
    using assms(2) by (auto simp: db_ok_def owners_ok_def owned_def earliest_def entries_of_def db')
  ultimately show ?thesis by (simp add: db_ok_def)
qed

lemma exclude_tx_ok:
  assumes "exclude_tx env o1 evidence actor now planned db = Inr (b, db')" "db_ok {} {} db" "o_Source o1 \<noteq> ''push''"
  shows "db_ok {} {} db'"
proof -
  let ?s = "o_MergeCommitSHA o1"
  obtain x1 ins db1 db2 db3 x2 x3 where
    ins: "(if \<not> planned \<and> o_IssueID o1 \<noteq> [] \<and> \<not> IsUnattributed (o_IssueID o1)
           then insert_and_fill env o1 (db\<lparr>others := x1\<rparr>) else Inr (False, db\<lparr>others := x1\<rparr>)) = Inr (ins, db1)"
    and move: "move_outcome o1 evidence actor now db1 = Inr db2" and sup: "supersede_valid ?s db2 = Inr db3"
    and db': "db' = db3\<lparr>others := x2, others := x3\<rparr>"
    using assms(1) by (auto simp: exclude_tx_def bind_res_Inr_iff on_others_Inr)
  have "db_ok {?s} {} db1"
    using ins insert_and_fill_ok [of env o1 "db\<lparr>others := x1\<rparr>" ins db1] assms(2,3)
    by (auto split: if_splits elim: db_ok_mono)
  then show ?thesis using supersede_ok [OF sup move_ok [OF move]] by (simp add: db')
qed

lemma excludePROutcome_ok:
  assumes "excludePROutcome env o1 evidence actor now expected db = Inr (b, db')" "db_ok {} {} db" "o_Source o1 \<noteq> ''push''"
  shows "db_ok {} {} db'"
proof -
  have "o_Source o2 = o_Source o1" if "expected_outcome x evidence o1 db = Inr (Some o2)" for x o2
    using that by (auto simp: expected_outcome_def split: option.splits if_splits)
  then show ?thesis
    using assms exclude_tx_ok [OF _ assms(2)]
    by (fastforce simp: excludePROutcome_def bind_res_Inr_iff split: if_splits option.splits)
qed

lemma erase_ok:
  assumes "eraseSubjectPushLedger devs db = Inr (n, db')" "db_ok {} {} db"
  shows "db_ok {} {} db'"
proof -
  let ?mine = "filter (\<lambda>e. ce_developer e \<in> set devs) (ledger db)"
  let ?a = "db\<lparr>push_audit := map (blank_audit devs db) (push_audit db)\<rparr>"
  obtain m where "reconcile_erased (remdups (map ce_outcome ?mine)) 0
      (?a\<lparr>ledger := filter (\<lambda>e. ce_developer e \<notin> set devs) (ledger ?a)\<rparr>) = Inr (m, db')"
    using assms(1) by (auto simp: eraseSubjectPushLedger_def Let_def bind_res_Inr_iff)
  then show ?thesis
    using reconcile_erased_ok [where ids = "{}"] drop_entries_ok [of "{}" ?a "\<lambda>e. ce_developer e \<notin> set devs"] assms(2)
    by fastforce
qed

end
