(* ===== verification/Pr_Derive.thy ===== *)
theory Pr_Derive
  imports Repo_Id
begin

text \<open>
  What a merged change is worth and what it is: \<^verbatim>\<open>src/internal/prderive/prderive.go\<close>, the weights and work types of
  \<^verbatim>\<open>src/internal/store/store.go\<close>, and the small classifiers of \<^verbatim>\<open>src/internal/webhook/handler.go\<close> (generated paths,
  commit subjects). A Go map is an association list without duplicate keys; encoding a one-entry map as JSON is
  the argument \<open>marshal\<close>. The weights are exact in \<^verbatim>\<open>float64\<close>.
\<close>

section \<open>Weights\<close>

definition defaultSizeLabels :: "(string \<times> rat) list" where
  "defaultSizeLabels =
     [(''size/xs'', 1 / 2), (''xs'', 1 / 2), (''size/s'', 1), (''s'', 1), (''size/m'', 3), (''m'', 3),
      (''size/l'', 5), (''l'', 5), (''size/xl'', 8), (''xl'', 8)]"

fun map_put :: "string \<Rightarrow> rat \<Rightarrow> (string \<times> rat) list \<Rightarrow> (string \<times> rat) list" where
  "map_put k v [] = [(k, v)]"
| "map_put k v (e # es) = (if fst e = k then (k, v) # es else e # map_put k v es)"

text \<open>The loop over the configured table, in the order the runtime yields its entries; \<open>None\<close> is nil.\<close>

definition NormalizeSizeLabels :: "(string \<times> rat) list \<Rightarrow> (string \<times> rat) list option" where
  "NormalizeSizeLabels m =
     (if m = [] then None else Some (foldl (\<lambda>norm (k, v). map_put (ToLower (TrimSpace k)) v norm) [] m))"

fun first_weight :: "(string \<times> rat) list \<Rightarrow> string list \<Rightarrow> rat" where
  "first_weight table [] = 0"
| "first_weight table (name # names) =
     (case map_of table (ToLower name) of Some w \<Rightarrow> w | None \<Rightarrow> first_weight table names)"

definition SizeWeight :: "string list \<Rightarrow> (string \<times> rat) list \<Rightarrow> rat" where
  "SizeWeight labels table = first_weight (if table = [] then defaultSizeLabels else table) labels"

definition GitHeuristic :: "int \<Rightarrow> int \<Rightarrow> rat" where
  "GitHeuristic linesChanged filesChanged =
     (let effort = wrap64 (linesChanged + wrap64 (filesChanged * 10))
      in if effort \<le> 15 then 1 / 2 else if effort \<le> 60 then 1 else if effort \<le> 200 then 3
         else if effort \<le> 1000 then 5 else 8)"

definition ResolveWeight :: "rat \<Rightarrow> int \<Rightarrow> int \<Rightarrow> int \<Rightarrow> rat \<times> string" where
  "ResolveWeight explicitWeight additions deletions changedFiles =
     (if explicitWeight \<noteq> 0 then (explicitWeight, ''label'')
      else (GitHeuristic (wrap64 (additions + deletions)) changedFiles, ''git-heuristic''))"

section \<open>Work types\<close>

definition canonicalWorkTypes :: "string list" where
  "canonicalWorkTypes = [''feature'', ''bug'', ''security'', ''incident'', ''tech-debt'', ''research'', ''compliance'']"

definition ValidWorkType :: "string \<Rightarrow> bool" where "ValidWorkType s \<longleftrightarrow> s \<in> set canonicalWorkTypes"

definition WorkTypeList :: string where
  "WorkTypeList = concat (tl (concat (map (\<lambda>w. ['', '', w]) canonicalWorkTypes)))"

definition workTypePrecedence :: "string list" where
  "workTypePrecedence = [''security'', ''incident'', ''compliance'', ''bug'', ''tech-debt'', ''research'', ''feature'']"

definition cut_prefix :: "string \<Rightarrow> string \<Rightarrow> string option" where
  "cut_prefix p s = (if has_prefix p s then Some (drop (length p) s) else None)"

definition label_token :: "string \<Rightarrow> string" where
  "label_token l =
     (let name = ToLower (TrimSpace l)
      in case cut_prefix ''type:'' name of Some rest \<Rightarrow> TrimSpace rest
         | None \<Rightarrow> (case cut_prefix ''kind:'' name of Some rest \<Rightarrow> TrimSpace rest | None \<Rightarrow> name))"

definition WorkTypeFromLabels :: "string list \<Rightarrow> string \<times> string" where
  "WorkTypeFromLabels labels =
     (let matched = filter ValidWorkType (map label_token labels)
      in case find (\<lambda>wt. wt \<in> set matched) workTypePrecedence of
           Some wt \<Rightarrow> (wt, ''label'') | None \<Rightarrow> (''feature'', ''default''))"

section \<open>Reverted pull requests\<close>

text \<open>\<^verbatim>\<open>^revert-[0-9]+-\<close>\<close>

definition revert_head :: "string \<Rightarrow> bool" where
  "revert_head s =
     (case cut_prefix ''revert-'' s of None \<Rightarrow> False
      | Some rest \<Rightarrow> takeWhile is_digit rest \<noteq> [] \<and> has_prefix ''-'' (dropWhile is_digit rest))"

definition RevertEvidence :: "(string \<Rightarrow> string \<Rightarrow> string) \<Rightarrow> string \<Rightarrow> string \<Rightarrow> string" where
  "RevertEvidence marshal head title =
     (if revert_head head then marshal ''head_ref'' head
      else if has_prefix (''Revert '' @ [CHR 0x22]) title then marshal ''title'' title else [])"

section \<open>Generated paths\<close>

definition defaultGeneratedPaths :: "string list" where
  "defaultGeneratedPaths =
     [''vendor/'', ''node_modules/'', ''*.pb.go'', ''*_generated.go'', ''*.gen.go'', ''go.sum'', ''package-lock.json'',
      ''yarn.lock'', ''pnpm-lock.yaml'', ''Cargo.lock'', ''poetry.lock'', ''Gemfile.lock'', ''composer.lock'']"

definition go_suffix :: "string \<Rightarrow> string \<Rightarrow> bool" where
  "go_suffix p s \<longleftrightarrow> has_prefix (rev p) (rev s)"

definition path_base :: "string \<Rightarrow> string" where
  "path_base path = rev (takeWhile (\<lambda>c. c \<noteq> CHR ''/'') (rev path))"

definition path_matches :: "string \<Rightarrow> string \<Rightarrow> bool" where
  "path_matches path p =
     (if go_suffix ''/'' p then has_prefix p path \<or> index_sub (CHR ''/'' # p) path \<noteq> None
      else if has_prefix ''*'' p then go_suffix (drop 1 p) path
      else path_base path = p)"

definition isGeneratedPath :: "string \<Rightarrow> string list \<Rightarrow> bool" where
  "isGeneratedPath path patterns \<longleftrightarrow> list_ex (path_matches path) patterns"

definition allGenerated :: "string list \<Rightarrow> string list \<Rightarrow> bool" where
  "allGenerated paths patterns \<longleftrightarrow> paths \<noteq> [] \<and> list_all (\<lambda>p. isGeneratedPath p patterns) paths"

section \<open>Commit subjects\<close>

definition subject_space :: "char \<Rightarrow> bool" where
  "subject_space c \<longleftrightarrow> c \<in> {CHR '' '', CHR 0x09, CHR 0x0D, CHR 0x0B, CHR 0x0C}"

definition trim_line :: "string \<Rightarrow> string" where
  "trim_line l = rev (dropWhile subject_space (rev l))"

fun join_with :: "string \<Rightarrow> string list \<Rightarrow> string" where
  "join_with sep [] = []"
| "join_with sep [l] = l"
| "join_with sep (l # ls) = l @ sep @ join_with sep ls"

definition gitCommitSubject :: "string \<Rightarrow> string" where
  "gitCommitSubject message =
     join_with '' '' (takeWhile (\<lambda>l. l \<noteq> []) (dropWhile (\<lambda>l. l = []) (map trim_line (split_on (CHR 0x0A) message))))"

definition canonicalRepo :: "string \<Rightarrow> string" where
  "canonicalRepo fullName = (case Canonical fullName of Some slug \<Rightarrow> slug | None \<Rightarrow> Unqualified)"

section \<open>Properties\<close>

lemma WorkTypeFromLabels_cong: "set labels = set labels' \<Longrightarrow> WorkTypeFromLabels labels = WorkTypeFromLabels labels'"
proof -
  assume "set labels = set labels'"
  then have "(\<lambda>wt. wt \<in> set (filter ValidWorkType (map label_token labels)))
      = (\<lambda>wt. wt \<in> set (filter ValidWorkType (map label_token labels')))" by auto
  then show ?thesis by (simp only: WorkTypeFromLabels_def Let_def)
qed

definition scale :: "rat set" where "scale = {1 / 2, 1, 3, 5, 8}"

lemma first_weight_scale: "snd ` set table \<subseteq> scale \<Longrightarrow> first_weight table ls \<in> insert 0 scale"
  by (induction table ls rule: first_weight.induct) (force split: option.splits dest: map_of_SomeD)+

lemma map_put_snd: "snd ` set (map_put k v es) \<subseteq> insert v (snd ` set es)"
  by (induction es) auto

lemma normalized_scale:
  assumes "NormalizeSizeLabels m = Some table" "snd ` set m \<subseteq> S"
  shows "snd ` set table \<subseteq> S"
proof -
  have "snd ` set (foldl (\<lambda>norm (k, v). map_put (ToLower (TrimSpace k)) v norm) acc m) \<subseteq> snd ` set acc \<union> snd ` set m"
    for acc
  proof (induction m arbitrary: acc)
    case (Cons e m)
    obtain k v where "e = (k, v)" by (cases e)
    then show ?case
      using Cons.IH [of "map_put (ToLower (TrimSpace k)) v acc"] map_put_snd [of "ToLower (TrimSpace k)" v acc] by auto
  qed simp
  from this [of "[]"] show ?thesis using assms by (auto simp: NormalizeSizeLabels_def split: if_splits)
qed

lemma GitHeuristic_scale: "GitHeuristic l f \<in> scale"
  by (simp add: GitHeuristic_def scale_def Let_def)

lemma default_scale: "snd ` set defaultSizeLabels \<subseteq> scale"
  by (simp add: defaultSizeLabels_def scale_def)

lemma resolved_weight_scale:
  assumes "snd ` set table \<subseteq> scale"
  shows "fst (ResolveWeight (SizeWeight labels table) a d c) \<in> scale"
  using first_weight_scale [OF assms, of labels] first_weight_scale [OF default_scale, of labels] GitHeuristic_scale
  by (auto simp: ResolveWeight_def SizeWeight_def)

text \<open>A generated path stays generated below any directory, and a longer deny-list only denies more.\<close>

lemma generated_mono: "isGeneratedPath p ps \<Longrightarrow> set ps \<subseteq> set qs \<Longrightarrow> isGeneratedPath p qs"
  by (auto simp: isGeneratedPath_def list_ex_iff)

lemma path_base_none: "CHR ''/'' \<notin> set (path_base path)"
  by (auto simp: path_base_def dest: set_takeWhileD)

end
