(* ===== verification/Quality_Rule.thy ===== *)
theory Quality_Rule
  imports Go_Float
begin

text \<open>
  The quality multiplier of an outcome: \<^verbatim>\<open>internal/qualityrule\<close> (the resolver over parsed
  facts, the CI source references) and the adapter of \<^verbatim>\<open>internal/quality\<close> that feeds it stored
  events. Quality is a pure function of the set of events: the theorems give the resolved level
  in closed form, for every order and multiplicity of the events.
\<close>

section \<open>Event kinds\<close>

definition EventCIPass :: string where "EventCIPass = ''ci_pass''"
definition EventCIFail :: string where "EventCIFail = ''ci_fail''"
definition EventCIFailFlaky :: string where "EventCIFailFlaky = ''ci_fail_flaky''"
definition EventRevertAmbiguous :: string where "EventRevertAmbiguous = ''revert_ambiguous''"
definition EventRevertQuality :: string where "EventRevertQuality = ''revert_quality''"
definition EventRevertStrategic :: string where "EventRevertStrategic = ''revert_strategic''"

lemmas event_kinds = EventCIPass_def EventCIFail_def EventCIFailFlaky_def
  EventRevertAmbiguous_def EventRevertQuality_def EventRevertStrategic_def

definition CorrectionWindow :: duration where "CorrectionWindow = 14 * 24 * Hour"

definition IsEvidence :: "string \<Rightarrow> bool" where
  "IsEvidence k \<longleftrightarrow> k \<in> {EventCIPass, EventCIFail, EventCIFailFlaky, EventRevertQuality,
     EventRevertStrategic}"

definition ObservationStatus :: "string \<Rightarrow> string" where
  "ObservationStatus k = (if IsEvidence k then ''observed'' else ''unknown'')"

definition IsCI :: "string \<Rightarrow> bool" where
  "IsCI k \<longleftrightarrow> k \<in> {EventCIPass, EventCIFail, EventCIFailFlaky}"

definition NormalizeTrigger :: "string \<Rightarrow> string" where
  "NormalizeTrigger e =
     (if e \<in> {''push'', ''pull_request'', ''schedule'', ''workflow_dispatch'', ''merge_group'',
        ''pull_request_target'', ''release'', ''workflow_run'', ''repository_dispatch''}
      then e else ''other'')"

section \<open>Facts, levels and results\<close>

record qevent =
  TriggerEvent :: "string option"
  EventType :: string
  HeadSHA :: string
  WorkflowID :: string

record correction =
  Active :: bool
  Confirmed :: bool
  ChildMergedAt :: time

datatype level = clean | cleanCorrection | ciFail | ciFailCorrection | strategicRevert | qualityRevert

record result =
  Rational :: rat
  Float64 :: f64

text \<open>The table of levels: the exact policy ratio and the \<^verbatim>\<open>float64\<close> literal beside it.\<close>

fun levels :: "level \<Rightarrow> int \<times> int \<times> f64" where
  "levels clean = (1, 1, fl 1)"
| "levels cleanCorrection = (17, 20, fl (85 / 100))"
| "levels ciFail = (7, 10, fl (7 / 10))"
| "levels ciFailCorrection = (11, 20, fl (55 / 100))"
| "levels strategicRevert = (4, 5, fl (8 / 10))"
| "levels qualityRevert = (1, 10, fl (1 / 10))"

definition level_ratio :: "level \<Rightarrow> rat" where
  "level_ratio l = (case levels l of (n, d, v) \<Rightarrow> of_int n / of_int d)"
definition level_value :: "level \<Rightarrow> f64" where
  "level_value l = (case levels l of (n, d, v) \<Rightarrow> v)"

section \<open>The resolver\<close>

text \<open>A CI event triggered by anything but a push is skipped by both loops.\<close>

definition skipped :: "qevent \<Rightarrow> bool" where
  "skipped e \<longleftrightarrow> IsCI (EventType e) \<and>
     (case TriggerEvent e of None \<Rightarrow> False | Some t \<Rightarrow> t \<noteq> ''push'')"

fun flaky_keys :: "qevent list \<Rightarrow> (string \<times> string) list" where
  "flaky_keys [] = []"
| "flaky_keys (e # es) =
     (if skipped e then flaky_keys es
      else if EventType e = EventCIFailFlaky then (HeadSHA e, WorkflowID e) # flaky_keys es
      else flaky_keys es)"

fun scan :: "(string \<times> string) list \<Rightarrow> qevent list \<Rightarrow> level \<Rightarrow> level \<Rightarrow> level \<times> level" where
  "scan flaky [] ci revert = (ci, revert)"
| "scan flaky (e # es) ci revert =
     (if skipped e then scan flaky es ci revert
      else if EventType e = EventCIFail then
        scan flaky es (if (HeadSHA e, WorkflowID e) \<in> set flaky then ci else ciFail) revert
      else if EventType e = EventRevertQuality then scan flaky es ci qualityRevert
      else if EventType e = EventRevertStrategic then
        scan flaky es ci (if revert \<noteq> qualityRevert then strategicRevert else revert)
      else scan flaky es ci revert)"

definition resolve :: "qevent list \<Rightarrow> bool \<Rightarrow> result" where
  "resolve events corrected =
     (let flaky = flaky_keys events;
          (ci, revert) = scan flaky events clean clean;
          ci = (if corrected then if ci = ciFail then ciFailCorrection else cleanCorrection else ci);
          chosen = (if level_value revert < level_value ci then revert else ci)
      in \<lparr>Rational = level_ratio chosen, Float64 = level_value chosen\<rparr>)"

definition Resolve :: "qevent list \<Rightarrow> result" where "Resolve events = resolve events False"

definition counts_within :: "time \<Rightarrow> correction \<Rightarrow> bool" where
  "counts_within original c \<longleftrightarrow>
     Active c \<and> Confirmed c \<and> \<not> time_is_zero (ChildMergedAt c) \<and>
     (let delta = time_sub (ChildMergedAt c) original in 0 \<le> delta \<and> delta \<le> CorrectionWindow)"

definition ResolveWithCorrection :: "qevent list \<Rightarrow> time \<Rightarrow> correction list \<Rightarrow> result" where
  "ResolveWithCorrection events originalMergedAt corrections =
     resolve events (\<not> time_is_zero originalMergedAt \<and> list_ex (counts_within originalMergedAt) corrections)"

section \<open>CI source references\<close>

record ci_ref =
  ref_sha :: string
  ref_workflow :: string
  RunAttempt :: int

definition BuildCISourceRef :: "string \<Rightarrow> int \<Rightarrow> int \<Rightarrow> string" where
  "BuildCISourceRef headSHA runAttempt workflowID =
     (let ref = headSHA @ '':'' @ itoa (if runAttempt < 0 then 0 else runAttempt)
      in if workflowID \<le> 0 then ref else ref @ '':'' @ itoa workflowID)"

definition isPositiveDecimal :: "string \<Rightarrow> bool" where
  "isPositiveDecimal s \<longleftrightarrow> list_all is_digit s \<and> list_ex (\<lambda>c. c \<noteq> CHR ''0'') s"

definition parseDecimal :: "string \<Rightarrow> int option" where
  "parseDecimal s = (if s = [] \<or> \<not> list_all is_digit s then None else atoi_digits s)"

text \<open>The three-field form, then the two-field form, each behind its own checks.\<close>

definition parse_three :: "string \<Rightarrow> nat \<Rightarrow> ci_ref option" where
  "parse_three s wfAt =
     (case last_index_byte CHR '':'' (take wfAt s) of
        None \<Rightarrow> None
      | Some attemptAt \<Rightarrow>
          (case parseDecimal (drop (attemptAt + 1) (take wfAt s)) of
             Some attempt \<Rightarrow>
               if isPositiveDecimal (drop (wfAt + 1) s)
               then Some \<lparr>ref_sha = take attemptAt s, ref_workflow = drop (wfAt + 1) s,
                 RunAttempt = attempt\<rparr>
               else None
           | None \<Rightarrow> None))"

definition parse_two :: "string \<Rightarrow> nat \<Rightarrow> ci_ref option" where
  "parse_two s wfAt =
     (case parseDecimal (drop (wfAt + 1) s) of
        Some attempt \<Rightarrow> Some \<lparr>ref_sha = take wfAt s, ref_workflow = [], RunAttempt = attempt\<rparr>
      | None \<Rightarrow> None)"

definition parse_bare :: "string \<Rightarrow> ci_ref" where
  "parse_bare s =
     (case index_byte CHR '':'' s of
        Some i \<Rightarrow> \<lparr>ref_sha = take i s, ref_workflow = [], RunAttempt = 0\<rparr>
      | None \<Rightarrow> \<lparr>ref_sha = s, ref_workflow = [], RunAttempt = 0\<rparr>)"

definition ParseCIRef :: "string \<Rightarrow> ci_ref" where
  "ParseCIRef s =
     (case last_index_byte CHR '':'' s of
        Some wfAt \<Rightarrow>
          (if 0 < wfAt then
             (case parse_three s wfAt of
                Some r \<Rightarrow> r
              | None \<Rightarrow> (case parse_two s wfAt of Some r \<Rightarrow> r | None \<Rightarrow> parse_bare s))
           else parse_bare s)
      | None \<Rightarrow> parse_bare s)"

section \<open>The adapter over stored events\<close>

record stored_event =
  SE_TriggerEvent :: "string option"
  SE_EventType :: string
  SE_SourceRef :: string

definition quality_fact :: "stored_event \<Rightarrow> qevent" where
  "quality_fact e = (let ref = ParseCIRef (SE_SourceRef e) in
     \<lparr>TriggerEvent = SE_TriggerEvent e, EventType = SE_EventType e, HeadSHA = ref_sha ref,
      WorkflowID = ref_workflow ref\<rparr>)"

definition quality_Resolve :: "stored_event list \<Rightarrow> f64" where
  "quality_Resolve events = Float64 (Resolve (map quality_fact events))"

section \<open>The specification: floors\<close>

definition failing :: "(string \<times> string) list \<Rightarrow> qevent \<Rightarrow> bool" where
  "failing flaky e \<longleftrightarrow> \<not> skipped e \<and> EventType e = EventCIFail \<and> (HeadSHA e, WorkflowID e) \<notin> set flaky"

definition has_kind :: "string \<Rightarrow> qevent list \<Rightarrow> bool" where
  "has_kind k es \<longleftrightarrow> (\<exists>e\<in>set es. EventType e = k)"

text \<open>The floor the CI half and the revert half settle on.\<close>

definition unneutralised :: "qevent list \<Rightarrow> bool" where
  "unneutralised es \<longleftrightarrow> (\<exists>e\<in>set es. failing (flaky_keys es) e)"

definition ci_floor :: "qevent list \<Rightarrow> bool \<Rightarrow> rat" where
  "ci_floor es corrected =
     (if unneutralised es then if corrected then 11 / 20 else 7 / 10
      else if corrected then 17 / 20 else 1)"

definition revert_floor :: "qevent list \<Rightarrow> rat" where
  "revert_floor es =
     (if has_kind EventRevertQuality es then 1 / 10
      else if has_kind EventRevertStrategic es then 4 / 5 else 1)"

section \<open>Levels as numbers\<close>

lemma level_literals:
  "fl (85 / 100) = Fin (7656119366529843 / 2 ^ 53)"
  "fl (17 / 20) = Fin (7656119366529843 / 2 ^ 53)"
  "fl (7 / 10) = Fin (6305039478318694 / 2 ^ 53)"
  "fl (55 / 100) = Fin (4953959590107546 / 2 ^ 53)"
  "fl (11 / 20) = Fin (4953959590107546 / 2 ^ 53)"
  "fl (8 / 10) = Fin (7205759403792794 / 2 ^ 53)"
  "fl (4 / 5) = Fin (7205759403792794 / 2 ^ 53)"
  "fl (1 / 10) = Fin (7205759403792794 / 2 ^ 56)"
  using fl_cert [of "85 / 100" 53 7656119366529843]
    fl_cert [of "17 / 20" 53 7656119366529843]
    fl_cert [of "7 / 10" 53 6305039478318694]
    fl_cert [of "55 / 100" 53 4953959590107546]
    fl_cert [of "11 / 20" 53 4953959590107546]
    fl_cert [of "8 / 10" 53 7205759403792794]
    fl_cert [of "4 / 5" 53 7205759403792794]
    fl_cert [of "1 / 10" 56 7205759403792794]
  by simp_all

lemma level_value_less: "level_value a < level_value b \<longleftrightarrow> level_ratio a < level_ratio b"
  by (cases a; cases b) (simp_all add: level_value_def level_ratio_def level_literals)

lemma level_value_float: "level_value l = fl (level_ratio l)"
  by (cases l) (simp_all add: level_value_def level_ratio_def)

section \<open>The two loops in closed form\<close>

lemma set_flaky_keys:
  "set (flaky_keys es) =
     {(HeadSHA e, WorkflowID e) | e. e \<in> set es \<and> \<not> skipped e \<and> EventType e = EventCIFailFlaky}"
  by (induction es) auto

lemma not_skipped_revert:
  "EventType e = EventRevertQuality \<or> EventType e = EventRevertStrategic \<Longrightarrow> \<not> skipped e"
  by (auto simp: skipped_def IsCI_def event_kinds)

lemma scan_ci: "fst (scan flaky es ci rv) = (if (\<exists>e\<in>set es. failing flaky e) then ciFail else ci)"
  by (induction es arbitrary: ci rv) (auto simp: failing_def event_kinds)

lemma scan_revert:
  "snd (scan flaky es ci rv) =
     (if rv = qualityRevert \<or> has_kind EventRevertQuality es then qualityRevert
      else if has_kind EventRevertStrategic es then strategicRevert else rv)"
proof (induction es arbitrary: ci rv)
  case (Cons e es)
  then show ?case
    using not_skipped_revert [of e] by (auto simp: has_kind_def event_kinds)
qed (simp add: has_kind_def)


lemma scan_eq:
  "scan (flaky_keys es) es clean clean =
     (if unneutralised es then ciFail else clean,
      if has_kind EventRevertQuality es then qualityRevert
      else if has_kind EventRevertStrategic es then strategicRevert else clean)"
  using scan_ci [of "flaky_keys es" es clean clean] scan_revert [of "flaky_keys es" es clean clean]
  by (simp add: prod_eq_iff unneutralised_def)

lemma resolve_rational: "Rational (resolve es corrected) = min (ci_floor es corrected) (revert_floor es)"
  by (simp add: resolve_def scan_eq Let_def level_value_less ci_floor_def revert_floor_def)
    (simp add: level_ratio_def)

lemma resolve_float: "Float64 (resolve es corrected) = fl (Rational (resolve es corrected))"
  by (simp add: resolve_def Let_def level_value_float split: prod.split)

lemma unneutralised_iff:
  "unneutralised es \<longleftrightarrow> (\<exists>e\<in>set es. \<not> skipped e \<and> EventType e = EventCIFail \<and>
     \<not> (\<exists>f\<in>set es. \<not> skipped f \<and> EventType f = EventCIFailFlaky \<and>
         HeadSHA f = HeadSHA e \<and> WorkflowID f = WorkflowID e))"
  by (fastforce simp: unneutralised_def failing_def set_flaky_keys)

lemma resolve_set_cong: "set es = set es' \<Longrightarrow> resolve es c = resolve es' c"
proof -
  assume "set es = set es'"
  then have "Rational (resolve es c) = Rational (resolve es' c)"
    by (simp add: resolve_rational ci_floor_def revert_floor_def unneutralised_iff has_kind_def)
  then show ?thesis by (simp add: resolve_float)
qed

lemma unneutralised_Cons:
  "EventType e \<noteq> EventCIFailFlaky \<Longrightarrow> unneutralised es \<Longrightarrow> unneutralised (e # es)"
  unfolding unneutralised_iff by (metis list.set_intros(2) set_ConsD)

section \<open>Properties of the resolver\<close>

text \<open>\<^verbatim>\<open>qualityrule.Resolve\<close> in closed form: the multiplier is the worst of the applicable
  floors, 0.1 for a quality revert, 0.7 for a push-triggered CI failure that no push-triggered
  flaky record of the same commit and workflow neutralises, 0.8 for a strategic revert, 1
  otherwise; the float is the literal of that ratio. The order and the number of copies of the
  events do not matter, so a replay resolves to the same value.\<close>

theorem Resolve_worst_of:
  "Rational (Resolve es) =
     (if \<exists>e\<in>set es. EventType e = EventRevertQuality then 1 / 10
      else if \<exists>e\<in>set es. \<not> skipped e \<and> EventType e = EventCIFail \<and>
        \<not> (\<exists>f\<in>set es. \<not> skipped f \<and> EventType f = EventCIFailFlaky \<and>
            HeadSHA f = HeadSHA e \<and> WorkflowID f = WorkflowID e) then 7 / 10
      else if \<exists>e\<in>set es. EventType e = EventRevertStrategic then 4 / 5 else 1)
   \<and> Float64 (Resolve es) = fl (Rational (Resolve es))"
proof
  show "Float64 (Resolve es) = fl (Rational (Resolve es))"
    by (simp add: Resolve_def resolve_float)
  show "Rational (Resolve es) = (if \<exists>e\<in>set es. EventType e = EventRevertQuality then 1 / 10
      else if \<exists>e\<in>set es. \<not> skipped e \<and> EventType e = EventCIFail \<and>
        \<not> (\<exists>f\<in>set es. \<not> skipped f \<and> EventType f = EventCIFailFlaky \<and>
            HeadSHA f = HeadSHA e \<and> WorkflowID f = WorkflowID e) then 7 / 10
      else if \<exists>e\<in>set es. EventType e = EventRevertStrategic then 4 / 5 else 1)"
    unfolding Resolve_def resolve_rational ci_floor_def revert_floor_def
      unneutralised_iff [symmetric] has_kind_def [symmetric] by simp
qed

text \<open>C27. Corrections lower quality at most once and only through merges inside the closed
  14-day window: a correction that is inactive, unconfirmed, undated or outside the window
  changes nothing, and when one counts, the CI half moves from 1 to 0.85 and from 0.7 to 0.55
  while the revert floors stay.\<close>

theorem ResolveWithCorrection_once:
  "Rational (ResolveWithCorrection es t cs) =
     (if \<exists>c\<in>set cs. t \<noteq> 0 \<and> Active c \<and> Confirmed c \<and> ChildMergedAt c \<noteq> 0 \<and>
        0 \<le> ChildMergedAt c - t \<and> ChildMergedAt c - t \<le> CorrectionWindow
      then min (if unneutralised es then 11 / 20 else 17 / 20) (revert_floor es)
      else Rational (Resolve es))"
proof -
  have "CorrectionWindow < max_int64"
    by (simp add: CorrectionWindow_def Hour_def Minute_def Second_def max_int64_def)
  then have cw: "counts_within t c \<longleftrightarrow> Active c \<and> Confirmed c \<and> ChildMergedAt c \<noteq> 0 \<and>
      0 \<le> ChildMergedAt c - t \<and> ChildMergedAt c - t \<le> CorrectionWindow" for c
    using time_sub_between [of 0 CorrectionWindow "ChildMergedAt c" t]
    by (simp add: counts_within_def time_is_zero_def Let_def)
  show ?thesis
    by (auto simp: ResolveWithCorrection_def Resolve_def resolve_rational ci_floor_def list_ex_iff cw
        time_is_zero_def)
qed

text \<open>Evidence other than a flaky record never raises quality: appending any event whose
  kind is not \<^verbatim>\<open>ci_fail_flaky\<close> leaves the resolved ratio or lowers it.\<close>

theorem Resolve_antimono:
  assumes "EventType e \<noteq> EventCIFailFlaky"
  shows "Rational (Resolve (es @ [e])) \<le> Rational (Resolve es)"
proof -
  have "Resolve (es @ [e]) = Resolve (e # es)"
    unfolding Resolve_def by (rule resolve_set_cong) simp
  moreover have "has_kind k es \<Longrightarrow> has_kind k (e # es)" for k by (simp add: has_kind_def)
  ultimately show ?thesis
    using unneutralised_Cons [OF assms, of es]
    by (auto simp: Resolve_def resolve_rational ci_floor_def revert_floor_def)
qed

theorem Resolve_antimono_witness:
  "Rational (Resolve ([] @ [\<lparr>TriggerEvent = None, EventType = EventCIFail, HeadSHA = ''a'', WorkflowID = ''7''\<rparr>]))
     \<le> Rational (Resolve [])"
  by (rule Resolve_antimono) (simp add: event_kinds)

section \<open>Properties of the source references\<close>

lemma colon_not_digit [simp]: "\<not> is_digit CHR '':''"
  by (simp add: is_digit_def)

lemma colon_notin_itoa [simp]: "CHR '':'' \<notin> set (itoa_nat n)"
  by (rule not_digit_notin_itoa_nat) simp

lemma last_index_after:
  "CHR '':'' \<notin> set t \<Longrightarrow> last_index_byte CHR '':'' (s @ CHR '':'' # t) = Some (length s)"
  by (simp add: last_index_byte_append last_index_byte_None [THEN iffD2])

lemma parseDecimal_itoa: "int n \<le> max_int64 \<Longrightarrow> parseDecimal (itoa_nat n) = Some (int n)"
  by (simp add: parseDecimal_def itoa_nat_digits atoi_digits_def)

lemma itoa_nat_nonzero: "0 < n \<Longrightarrow> list_ex (\<lambda>c. c \<noteq> CHR ''0'') (itoa_nat n)"
proof (rule ccontr)
  assume "0 < n" and z: "\<not> list_ex (\<lambda>c. c \<noteq> CHR ''0'') (itoa_nat n)"
  have "set s \<subseteq> {CHR ''0''} \<Longrightarrow> foldl (\<lambda>a c. 10 * a + digit_val c) 0 s = 0" for s
    by (induction s rule: rev_induct) (auto simp: digit_val_def)
  then have "digits_val (itoa_nat n) = 0"
    using z by (auto simp: digits_val_def list_ex_iff)
  with \<open>0 < n\<close> show False by simp
qed

text \<open>A CI source reference survives its string form: parsing what \<^verbatim>\<open>BuildCISourceRef\<close> wrote
  gives back the commit, the run attempt (a negative one as 0) and the workflow id, or the
  empty workflow of a reference built without one.\<close>

theorem ParseCIRef_BuildCISourceRef:
  assumes "sha \<noteq> []" and "CHR '':'' \<notin> set sha" and "attempt \<le> max_int64"
  shows "ParseCIRef (BuildCISourceRef sha attempt wfid) =
    \<lparr>ref_sha = sha, ref_workflow = (if wfid \<le> 0 then [] else itoa wfid), RunAttempt = max 0 attempt\<rparr>"
proof -
  define a where "a = nat (if attempt < 0 then 0 else attempt)"
  have it: "itoa (if attempt < 0 then 0 else attempt) = itoa_nat a"
    by (simp add: itoa_def a_def)
  have a: "int a = max 0 attempt" "int a \<le> max_int64"
    using assms(3) by (simp_all add: a_def max_int64_def)
  have two: "last_index_byte CHR '':'' (sha @ CHR '':'' # itoa_nat a) = Some (length sha)"
    by (rule last_index_after) simp
  show ?thesis
  proof (cases "wfid \<le> 0")
    case True
    then show ?thesis
      using assms(1,2) a two
      by (simp add: BuildCISourceRef_def it ParseCIRef_def parse_three_def parse_two_def
          last_index_byte_None [THEN iffD2] parseDecimal_itoa)
  next
    case False
    define w where "w = nat wfid"
    have w: "itoa wfid = itoa_nat w" "0 < w" using False by (simp_all add: itoa_def w_def)
    define s where "s = (sha @ CHR '':'' # itoa_nat a) @ CHR '':'' # itoa_nat w"
    have li: "last_index_byte CHR '':'' s = Some (length (sha @ CHR '':'' # itoa_nat a))"
      unfolding s_def by (rule last_index_after) simp
    have "take (length (sha @ CHR '':'' # itoa_nat a)) s = sha @ CHR '':'' # itoa_nat a"
      by (simp add: s_def)
    then have "parse_three s (length (sha @ CHR '':'' # itoa_nat a)) =
        Some \<lparr>ref_sha = sha, ref_workflow = itoa_nat w, RunAttempt = int a\<rparr>"
      using two a w itoa_nat_nonzero [of w]
      by (simp add: parse_three_def parseDecimal_itoa isPositiveDecimal_def itoa_nat_digits)
        (simp add: s_def itoa_nat_digits)
    then show ?thesis
      using False li a w by (simp add: BuildCISourceRef_def it Let_def ParseCIRef_def s_def)
  qed
qed

theorem ParseCIRef_BuildCISourceRef_witness:
  "ParseCIRef (BuildCISourceRef ''9f'' 2 41) =
     \<lparr>ref_sha = ''9f'', ref_workflow = itoa 41, RunAttempt = 2\<rparr>"
  using ParseCIRef_BuildCISourceRef [of "''9f''" 2 41] by (simp add: max_int64_def)

end
