(* ===== verification/Corrective_Parse.thy ===== *)
theory Corrective_Parse
  imports Repo_Id
begin

text \<open>
  The parser of corrective declarations, \<^verbatim>\<open>src/internal/corrects/parse.go\<close>: the recognizer of
  \<^verbatim>\<open>Corrects:\<close> lines outside fenced code, the values they carry, the agreement of repeated lines, and the
  removal of declaration lines from a body. A body is a string of bytes. The lemmas compare the loop
  of \<^verbatim>\<open>Parse\<close> with the list of all declared values, read back what a declaration writes, and show that
  nothing declared survives the removal.
\<close>

section \<open>Declarations\<close>

definition MaxBodyBytes :: nat where "MaxBodyBytes = 262144"
definition MaxParents :: nat where "MaxParents = 32"

datatype decl_state = StateMissing | StateInvalid | StateNone | StateParents

record decl =
  d_State :: decl_state
  d_Parents :: "int list"

definition plain_decl :: "decl_state \<Rightarrow> decl" where
  "plain_decl st = \<lparr>d_State = st, d_Parents = []\<rparr>"

section \<open>The recognizer of lines\<close>

text \<open>The open fence, if any, its width and the indentation of its list container.\<close>

record recognizer =
  fence :: "char option"
  fwidth :: nat
  findent :: int

definition fresh :: recognizer where
  "fresh = \<lparr>fence = None, fwidth = 0, findent = 0\<rparr>"

definition newline :: char where "newline = CHR 0x0A"
definition backtick :: char where "backtick = CHR 0x60"

definition trim_blanks :: "string \<Rightarrow> string" where
  "trim_blanks s = dropWhile (\<lambda>c. c = CHR '' '') s"

definition list_markers :: "string list" where
  "list_markers = [''- '', ''* '', ''+ '', ''1. '']"

definition strip_marker :: "int \<Rightarrow> string \<Rightarrow> int \<times> string" where
  "strip_marker ind text =
     (case find (\<lambda>p. ind \<le> 3 \<and> has_prefix p text) list_markers of
        None \<Rightarrow> (0, text)
      | Some p \<Rightarrow> (ind + int (length p), trim_blanks (drop (length p) text)))"

definition wide_colon :: string where "wide_colon = bytes_of [239, 188, 154]"

text \<open>\<^verbatim>\<open>strings.IndexAny\<close> with the two colons: the index and the width of the first one.\<close>

fun index_colon :: "string \<Rightarrow> (nat \<times> nat) option" where
  "index_colon [] = None"
| "index_colon (x # s) =
     (if x = CHR '':'' then Some (0, 1)
      else if has_prefix wide_colon (x # s) then Some (0, 3)
      else map_option (\<lambda>(i, w). (Suc i, w)) (index_colon s))"

definition is_emphasis :: "char \<Rightarrow> bool" where
  "is_emphasis c \<longleftrightarrow> c = CHR ''*'' \<or> c = CHR ''_''"

definition trim_emphasis :: "string \<Rightarrow> string" where
  "trim_emphasis s = rev (dropWhile is_emphasis (rev (dropWhile is_emphasis s)))"

text \<open>One list bullet of a trimmed line.\<close>

definition drop_bullet :: "string \<Rightarrow> string" where
  "drop_bullet line =
     (case line of a # b # rest \<Rightarrow>
        if (a = CHR ''-'' \<or> a = CHR ''*'' \<or> a = CHR ''+'') \<and> (b = CHR '' '' \<or> b = CHR 0x09) then TrimSpace rest else line
      | _ \<Rightarrow> line)"

text \<open>The key and the value; a reference before any colon leaves the value empty.\<close>

definition split_key :: "string \<Rightarrow> (string \<times> string) option" where
  "split_key line =
     (let colon = index_colon line
      in case index_byte (CHR ''#'') line of
           Some h \<Rightarrow>
             (case colon of
                None \<Rightarrow> if 0 < h then Some (take h line, []) else None
              | Some (i, w) \<Rightarrow> if 0 < h \<and> h < i then Some (take h line, []) else Some (take i line, drop (i + w) line))
         | None \<Rightarrow> (case colon of None \<Rightarrow> None | Some (i, w) \<Rightarrow> Some (take i line, drop (i + w) line)))"

definition trim_prefix :: "string \<Rightarrow> string \<Rightarrow> string" where
  "trim_prefix p s = (if has_prefix p s then drop (length p) s else s)"

definition key_value :: "string \<Rightarrow> string option" where
  "key_value line =
     (case split_key (drop_bullet line) of None \<Rightarrow> None
      | Some (k, v) \<Rightarrow>
          (let key = TrimSpace k; emphasis = takeWhile is_emphasis key; name = TrimSpace (trim_emphasis key)
           in if length name \<noteq> 8 \<or> map ascii_lower name \<noteq> ''corrects'' then None
              else Some (TrimSpace (trim_prefix emphasis (TrimSpace v)))))"

definition fence_line :: "recognizer \<Rightarrow> int \<Rightarrow> string \<Rightarrow> recognizer" where
  "fence_line r container text =
     (let n = length (takeWhile (\<lambda>c. c = hd text) text); rest = drop n text
      in case fence r of
           Some f \<Rightarrow> if hd text = f \<and> fwidth r \<le> n \<and> TrimSpace rest = [] then fresh else r
         | None \<Rightarrow> if 3 \<le> n \<and> (hd text \<noteq> backtick \<or> backtick \<notin> set rest)
                   then \<lparr>fence = Some (hd text), fwidth = n, findent = container\<rparr> else r)"

definition declarationValue :: "recognizer \<Rightarrow> string \<Rightarrow> string option \<times> recognizer" where
  "declarationValue r line =
     (let ind = int (length line) - int (length (trim_blanks line));
          (container, text) = strip_marker ind (trim_blanks line);
          ind = (if container = 0 \<and> fence r \<noteq> None then ind - findent r else ind)
      in if ind \<le> 3 \<and> 3 \<le> length text \<and> (hd text = backtick \<or> hd text = CHR ''~'')
         then (None, fence_line r container text)
         else if fence r \<noteq> None then (None, r)
         else (key_value (TrimSpace line), r))"

section \<open>Values\<close>

fun parse_refs :: "string list \<Rightarrow> int list \<Rightarrow> int list option" where
  "parse_refs [] ps = Some ps"
| "parse_refs (r # rs) ps =
     (let ref = TrimSpace r
      in if length ref < 2 \<or> ref ! 0 \<noteq> CHR ''#'' \<or> ref ! 1 = CHR ''0'' \<or> \<not> is_digit (ref ! 1)
            \<or> \<not> list_all is_digit (drop 2 ref) then None
         else (case atoi_digits (drop 1 ref) of None \<Rightarrow> None
               | Some n \<Rightarrow>
                   if n \<in> set ps then parse_refs rs ps
                   else if length ps = MaxParents then None else parse_refs rs (ps @ [n])))"

definition parseValue :: "string \<Rightarrow> decl" where
  "parseValue value =
     (if value = ''none'' then plain_decl StateNone
      else (case parse_refs (split_on (CHR '','') value) [] of
              None \<Rightarrow> plain_decl StateInvalid
            | Some ps \<Rightarrow> \<lparr>d_State = StateParents, d_Parents = ps\<rparr>))"

fun parse_body :: "string list \<Rightarrow> recognizer \<Rightarrow> decl \<Rightarrow> decl" where
  "parse_body [] r acc = acc"
| "parse_body (l # ls) r acc =
     (case declarationValue r l of
        (None, r) \<Rightarrow> parse_body ls r acc
      | (Some value, r) \<Rightarrow>
          (let nxt = parseValue value
           in if d_State nxt = StateInvalid then nxt
              else if d_State acc = StateMissing then parse_body ls r nxt
              else if d_State acc \<noteq> d_State nxt \<or> length (d_Parents acc) \<noteq> length (d_Parents nxt)
              then plain_decl StateInvalid
              else if list_ex (\<lambda>p. p \<notin> set (d_Parents acc)) (d_Parents nxt) then plain_decl StateInvalid
              else parse_body ls r acc))"

definition Parse :: "string \<Rightarrow> decl" where
  "Parse body =
     (if MaxBodyBytes < length body then plain_decl StateInvalid
      else parse_body (split_on newline body) fresh (plain_decl StateMissing))"

section \<open>Removal\<close>

text \<open>\<^verbatim>\<open>strings.SplitAfterSeq\<close>: the separator stays with the line it ends.\<close>

fun split_after :: "char \<Rightarrow> string \<Rightarrow> string list" where
  "split_after c [] = [[]]"
| "split_after c (x # s) =
     (if x = c then [c] # split_after c s
      else (case split_after c s of p # ps \<Rightarrow> (x # p) # ps | [] \<Rightarrow> [[x]]))"

definition has_suffix :: "string \<Rightarrow> string \<Rightarrow> bool" where
  "has_suffix p s = has_prefix (rev p) (rev s)"

definition strip_line :: "string \<Rightarrow> string" where
  "strip_line line =
     (case fst (declarationValue fresh line) of None \<Rightarrow> line
      | Some _ \<Rightarrow> ''x'' @ (if has_suffix [CHR 0x0D, newline] line then [CHR 0x0D, newline]
                          else if has_suffix [newline] line then [newline] else []))"

definition StripDeclarationLines :: "string \<Rightarrow> string" where
  "StripDeclarationLines body = concat (map strip_line (split_after newline body))"

section \<open>Agreement of the declared values\<close>

text \<open>The values of a body, in order, and the declaration a list of parsed values makes.\<close>

fun declared_values :: "string list \<Rightarrow> recognizer \<Rightarrow> string list" where
  "declared_values [] r = []"
| "declared_values (l # ls) r =
     (case declarationValue r l of (None, r) \<Rightarrow> declared_values ls r | (Some v, r) \<Rightarrow> v # declared_values ls r)"

definition agreeing :: "decl \<Rightarrow> decl \<Rightarrow> bool" where
  "agreeing d e \<longleftrightarrow> d_State e \<noteq> StateInvalid \<and> d_State e = d_State d \<and> set (d_Parents e) = set (d_Parents d)"

definition agreed :: "decl list \<Rightarrow> decl" where
  "agreed ds =
     (case ds of [] \<Rightarrow> plain_decl StateMissing
      | d # _ \<Rightarrow> if list_all (agreeing d) ds then d else plain_decl StateInvalid)"

lemma foldl_digits_ge: "a \<le> foldl (\<lambda>a c. 10 * a + digit_val c) a s"
proof (induction s arbitrary: a)
  case (Cons c s)
  have "a \<le> 10 * a + digit_val c" by simp
  also have "\<dots> \<le> foldl (\<lambda>a c. 10 * a + digit_val c) (10 * a + digit_val c) s" by (rule Cons.IH)
  finally show ?case by simp
qed simp

lemma digit_val_pos: "is_digit c \<Longrightarrow> c \<noteq> CHR ''0'' \<Longrightarrow> 0 < digit_val c"
proof -
  assume "is_digit c" "c \<noteq> CHR ''0''"
  moreover have "(of_char c :: nat) \<noteq> 48"
  proof
    assume "(of_char c :: nat) = 48"
    then have "c = char_of (48 :: nat)" by (metis char_of_char)
    moreover have "char_of (48 :: nat) = CHR ''0''" by code_simp
    ultimately show False using \<open>c \<noteq> CHR ''0''\<close> by simp
  qed
  ultimately show ?thesis by (simp add: is_digit_def digit_val_def)
qed

lemma atoi_digits_pos:
  assumes "2 \<le> length s" "is_digit (s ! 1)" "s ! 1 \<noteq> CHR ''0''" "atoi_digits (drop 1 s) = Some n"
  shows "0 < n"
proof -
  obtain a b t where s: "s = a # b # t" using assms(1) by (cases s rule: remdups_adj.cases) auto
  have "digit_val b \<le> digits_val (b # t)" using foldl_digits_ge [of "digit_val b" t] by (simp add: digits_val_def)
  moreover have "0 < digit_val b" using assms s digit_val_pos by simp
  ultimately show ?thesis using assms(4) s by (auto simp: atoi_digits_def Let_def split: if_splits)
qed

lemma parse_refs_grows: "parse_refs rs ps = Some qs \<Longrightarrow> set ps \<subseteq> set qs"
  by (induction rs ps rule: parse_refs.induct) (auto simp: Let_def split: if_splits option.splits)

lemma parse_refs_sound:
  "parse_refs rs ps = Some qs \<Longrightarrow> distinct ps \<Longrightarrow> length ps \<le> MaxParents \<Longrightarrow> \<forall>p \<in> set ps. 0 < p \<and> p \<le> max_int64 \<Longrightarrow>
   distinct qs \<and> length qs \<le> MaxParents \<and> (\<forall>p \<in> set qs. 0 < p \<and> p \<le> max_int64)"
proof (induction rs ps rule: parse_refs.induct)
  case (2 r rs ps)
  let ?ref = "TrimSpace r"
  from "2.prems"(1) obtain n where n: "atoi_digits (drop 1 ?ref) = Some n"
    and ok: "\<not> (length ?ref < 2 \<or> ?ref ! 0 \<noteq> CHR ''#'' \<or> ?ref ! 1 = CHR ''0'' \<or> \<not> is_digit (?ref ! 1) \<or> \<not> list_all is_digit (drop 2 ?ref))"
    by (auto simp: Let_def split: if_splits option.splits)
  have "0 < n" using n ok atoi_digits_pos [of ?ref n] by auto
  moreover have "n \<le> max_int64" using n by (auto simp: atoi_digits_def Let_def split: if_splits)
  ultimately show ?case using 2 n ok by (auto simp: Let_def split: if_splits)
qed simp

lemma parseValue_parents:
  assumes "d_State (parseValue v) = StateParents"
  shows "distinct (d_Parents (parseValue v)) \<and> d_Parents (parseValue v) \<noteq> [] \<and> length (d_Parents (parseValue v)) \<le> MaxParents
    \<and> (\<forall>p \<in> set (d_Parents (parseValue v)). 0 < p \<and> p \<le> max_int64)"
proof -
  obtain ps where ps: "parse_refs (split_on (CHR '','') v) [] = Some ps" "d_Parents (parseValue v) = ps"
    using assms by (auto simp: parseValue_def plain_decl_def split: if_splits option.splits)
  moreover have "ps \<noteq> []"
    using ps(1) split_on_nonempty [of "CHR '',''" v] parse_refs_grows
    by (cases "split_on (CHR '','') v") (fastforce simp: Let_def MaxParents_def split: if_splits option.splits)+
  ultimately show ?thesis using parse_refs_sound [OF ps(1)] by simp
qed

lemma parseValue_states: "d_State (parseValue v) \<noteq> StateMissing"
  "d_State (parseValue v) = StateInvalid \<Longrightarrow> parseValue v = plain_decl StateInvalid"
  "d_State (parseValue v) = StateNone \<Longrightarrow> d_Parents (parseValue v) = []"
  by (auto simp: parseValue_def plain_decl_def split: if_splits option.splits)

text \<open>The two comparisons of the loop are equality of sets, because parents are distinct.\<close>

lemma agreeing_iff:
  assumes "d_State (parseValue v) \<noteq> StateInvalid" "d_State (parseValue w) \<noteq> StateInvalid"
  shows "agreeing (parseValue v) (parseValue w) \<longleftrightarrow>
    d_State (parseValue v) = d_State (parseValue w) \<and> length (d_Parents (parseValue v)) = length (d_Parents (parseValue w))
    \<and> \<not> list_ex (\<lambda>p. p \<notin> set (d_Parents (parseValue v))) (d_Parents (parseValue w))"
proof (cases "d_State (parseValue w)")
  case StateParents
  have *: "set ys = set xs \<longleftrightarrow> length xs = length ys \<and> set ys \<subseteq> set xs" if "distinct xs" "distinct ys" for xs ys :: "int list"
    using that by (metis card_subset_eq distinct_card finite_set order_refl)
  show ?thesis
  proof (cases "d_State (parseValue v) = StateParents")
    case True
    show ?thesis using StateParents True * [of "d_Parents (parseValue v)" "d_Parents (parseValue w)"]
        parseValue_parents [OF True] parseValue_parents [OF StateParents]
      by (auto simp: agreeing_def list_ex_iff)
  qed (use StateParents in \<open>auto simp: agreeing_def\<close>)
next
  case StateNone
  then show ?thesis using assms parseValue_states(3) [of v] parseValue_states(3) [of w]
    by (auto simp: agreeing_def)
qed (use assms parseValue_states(1) in auto)

lemma parse_body_agreed:
  assumes "acc = parseValue a" "d_State acc \<noteq> StateInvalid"
  shows "parse_body ls r acc =
    (if list_all (agreeing acc) (map parseValue (declared_values ls r)) then acc else plain_decl StateInvalid)"
proof (induction ls arbitrary: r)
  case (Cons l ls)
  obtain v r' where d: "declarationValue r l = (v, r')" by fastforce
  show ?case
  proof (cases v)
    case (Some w)
    show ?thesis
    proof (cases "d_State (parseValue w) = StateInvalid")
      case True
      then show ?thesis using d Some parseValue_states(2) [OF True] by (simp add: Let_def agreeing_def plain_decl_def)
    next
      case False
      then show ?thesis using d Some Cons.IH [of r'] assms agreeing_iff [of a w] parseValue_states(1) [of a]
        by (simp add: Let_def)
    qed
  qed (use d Cons.IH in simp)
qed simp

lemma parse_body_missing:
  "parse_body ls r (plain_decl StateMissing) = agreed (map parseValue (declared_values ls r))"
proof (induction ls arbitrary: r)
  case (Cons l ls)
  obtain v r' where d: "declarationValue r l = (v, r')" by fastforce
  show ?case
  proof (cases v)
    case (Some w)
    show ?thesis
    proof (cases "d_State (parseValue w) = StateInvalid")
      case True
      then show ?thesis using d Some parseValue_states(2) [OF True]
        by (simp add: Let_def agreed_def agreeing_def plain_decl_def)
    next
      case False
      have "parse_body (l # ls) r (plain_decl StateMissing) = parse_body ls r' (parseValue w)"
        using d Some False by (simp add: Let_def plain_decl_def)
      then show ?thesis using d Some False parse_body_agreed [OF refl False, of ls r']
        by (simp add: agreed_def agreeing_def)
    qed
  qed (use d Cons.IH in simp)
qed (simp add: agreed_def)

text \<open>C15. Parsing a body is the agreement of the values it declares: the loop with its early exits gives
  missing when no line outside a fence declares anything, the first declaration when every one is valid and
  names the same set of parents (or all say none), and invalid otherwise.\<close>

theorem Parse_agreed:
  "Parse body =
    (if MaxBodyBytes < length body then plain_decl StateInvalid
     else agreed (map parseValue (declared_values (split_on newline body) fresh)))"
  by (simp add: Parse_def parse_body_missing)

section \<open>What a declaration writes is read back\<close>

lemma go_spaces_outer:
  "p \<in> set go_spaces \<Longrightarrow> p \<noteq> [] \<and> ((of_char (hd p) :: nat) \<le> 32 \<or> 128 \<le> (of_char (hd p) :: nat)) \<and> ((of_char (last p) :: nat) \<le> 32 \<or> 128 \<le> (of_char (last p) :: nat))"
proof -
  have "list_all (\<lambda>p. p \<noteq> [] \<and> ((of_char (hd p) :: nat) \<le> 32 \<or> 128 \<le> (of_char (hd p) :: nat)) \<and> ((of_char (last p) :: nat) \<le> 32 \<or> 128 \<le> (of_char (last p) :: nat))) go_spaces"
    by code_simp
  then show "p \<in> set go_spaces \<Longrightarrow> ?thesis" by (simp add: list_all_iff)
qed

text \<open>Visible ASCII at both ends: nothing is trimmed.\<close>

definition visible :: "char \<Rightarrow> bool" where
  "visible c \<longleftrightarrow> 32 < (of_char c :: nat) \<and> (of_char c :: nat) < 128"

lemma leading_space_visible:
  "u \<noteq> [] \<Longrightarrow> visible (hd u) \<Longrightarrow> \<forall>p \<in> set sp. p \<noteq> [] \<and> ((of_char (hd p) :: nat) \<le> 32 \<or> 128 \<le> (of_char (hd p) :: nat)) \<Longrightarrow>
   leading_space sp u = 0"
proof (induction sp)
  case (Cons p sp)
  then have "\<not> has_prefix p u" by (cases p; cases u) (auto simp: has_prefix_iff visible_def)
  with Cons show ?case by simp
qed simp

lemma TrimSpace_visible:
  assumes "s \<noteq> []" "visible (hd s)" "visible (last s)"
  shows "TrimSpace s = s"
proof -
  have "leading_space go_spaces s = 0"
    using assms go_spaces_outer by (intro leading_space_visible) auto
  moreover have "leading_space (map rev go_spaces) (rev s) = 0"
    using assms go_spaces_outer by (intro leading_space_visible) (auto simp: hd_rev)
  ultimately show ?thesis by (simp add: TrimSpace_def trim_left.simps)
qed

lemma TrimSpace_nil: "TrimSpace [] = []"
  by (simp add: TrimSpace_def trim_left.simps)

lemma TrimSpace_blank: "TrimSpace (CHR '' '' # s) = TrimSpace s"
proof -
  have "leading_space go_spaces (CHR '' '' # s) = 1"
    by (simp add: go_spaces_def bytes_of_def char_of_def bit_0)
  then show ?thesis unfolding TrimSpace_def by (subst trim_left.simps) simp
qed

definition ref_text :: "int \<Rightarrow> string" where "ref_text n = CHR ''#'' # itoa n"

fun render_refs :: "int list \<Rightarrow> string" where
  "render_refs [] = []"
| "render_refs [n] = ref_text n"
| "render_refs (n # ns) = ref_text n @ CHR '','' # CHR '' '' # render_refs ns"

definition render_declaration :: "int list \<Rightarrow> string" where
  "render_declaration ns = ''Corrects: '' @ render_refs ns"

lemma digit_visible: "is_digit c \<Longrightarrow> visible c"
  by (simp add: is_digit_def visible_def)

lemma itoa_digits: "0 < n \<Longrightarrow> list_all is_digit (itoa n) \<and> itoa n \<noteq> []"
  by (simp add: itoa_def itoa_nat_digits)

lemma itoa_nat_first: "0 < n \<Longrightarrow> itoa_nat n ! 0 \<noteq> CHR ''0''"
proof (induction n rule: itoa_nat.induct)
  case (1 n)
  show ?case
  proof (cases "n < 10")
    case True
    have "digit_char n \<noteq> CHR ''0''"
    proof
      assume "digit_char n = CHR ''0''"
      then have "(of_char (digit_char n) :: nat) = of_char (CHR ''0'')" by simp
      then show False using 1(2) True by (simp add: of_char_digit_char)
    qed
    then show ?thesis using True by (subst itoa_nat.simps) simp
  next
    case False
    then have "itoa_nat n ! 0 = itoa_nat (n div 10) ! 0"
      by (subst itoa_nat.simps) (simp add: nth_append)
    then show ?thesis using 1 False by simp
  qed
qed

lemma ref_text_trim: "0 < n \<Longrightarrow> TrimSpace (ref_text n) = ref_text n"
  using itoa_digits [of n] by (intro TrimSpace_visible) (auto simp: ref_text_def visible_def list_all_iff intro!: digit_visible [unfolded visible_def])

lemma ref_text_parses:
  assumes "0 < n" "n \<le> max_int64"
  shows "2 \<le> length (ref_text n)" "ref_text n ! 0 = CHR ''#''" "ref_text n ! 1 \<noteq> CHR ''0''" "is_digit (ref_text n ! 1)"
    "list_all is_digit (drop 2 (ref_text n))" "atoi_digits (drop 1 (ref_text n)) = Some n"
proof -
  obtain c t where i: "itoa n = c # t" using itoa_digits [OF assms(1)] by (cases "itoa n") auto
  have d: "itoa n = itoa_nat (nat n)" using assms by (simp add: itoa_def)
  show "2 \<le> length (ref_text n)" "ref_text n ! 0 = CHR ''#''" using i by (simp_all add: ref_text_def)
  show "ref_text n ! 1 \<noteq> CHR ''0''" using itoa_nat_first [of "nat n"] assms i d by (simp add: ref_text_def)
  show "is_digit (ref_text n ! 1)" "list_all is_digit (drop 2 (ref_text n))"
    using itoa_digits [OF assms(1)] i by (simp_all add: ref_text_def numeral_2_eq_2)
  show "atoi_digits (drop 1 (ref_text n)) = Some n" using assms d by (simp add: ref_text_def atoi_digits_def)
qed

lemma ref_text_no_comma: "0 < n \<Longrightarrow> CHR '','' \<notin> set (ref_text n)"
  using itoa_digits [of n] by (auto simp: ref_text_def list_all_iff is_digit_def)

lemma parse_refs_one:
  assumes "0 < n" "n \<le> max_int64" "n \<notin> set ps" "length ps < MaxParents" "TrimSpace r = ref_text n"
  shows "parse_refs (r # rs) ps = parse_refs rs (ps @ [n])"
  using ref_text_parses [OF assms(1,2)] assms(3-) by (simp add: Let_def)

lemma split_on_cons_blank: "split_on (CHR '','') (CHR '' '' # s) = (CHR '' '' # hd (split_on (CHR '','') s)) # tl (split_on (CHR '','') s)"
  using split_on_nonempty [of "CHR '',''" s] by (cases "split_on (CHR '','') s") auto

lemma parse_refs_hd: "TrimSpace r = TrimSpace r' \<Longrightarrow> parse_refs (r # rs) ps = parse_refs (r' # rs) ps"
  by simp

lemma parse_rendered:
  "ns \<noteq> [] \<Longrightarrow> distinct (ps @ ns) \<Longrightarrow> length (ps @ ns) \<le> MaxParents \<Longrightarrow> \<forall>n \<in> set ns. 0 < n \<and> n \<le> max_int64 \<Longrightarrow>
   parse_refs (split_on (CHR '','') (render_refs ns)) ps = Some (ps @ ns)"
proof (induction ns arbitrary: ps rule: render_refs.induct)
  case (2 n)
  then show ?case using ref_text_no_comma [of n] ref_text_trim [of n] parse_refs_one [of n ps "ref_text n" "[]"]
    by (simp add: split_on_none)
next
  case (3 n m ns)
  let ?ms = "m # ns"
  have n: "0 < n" "n \<le> max_int64" "n \<notin> set ps" "length ps < MaxParents" using 3 by auto
  have sp: "split_on (CHR '','') (render_refs (n # ?ms)) = ref_text n # split_on (CHR '','') (CHR '' '' # render_refs ?ms)"
    using split_on_append [of "CHR '',''" "ref_text n" "CHR '' '' # render_refs ?ms"] ref_text_no_comma [OF n(1)]
    by (simp add: split_on_none)
  have "parse_refs (split_on (CHR '','') (render_refs (n # ?ms))) ps
      = parse_refs (split_on (CHR '','') (CHR '' '' # render_refs ?ms)) (ps @ [n])"
    unfolding sp by (rule parse_refs_one [OF n ref_text_trim [OF n(1)]])
  also have "\<dots> = parse_refs (split_on (CHR '','') (render_refs ?ms)) (ps @ [n])"
    unfolding split_on_cons_blank
    using parse_refs_hd [OF TrimSpace_blank] split_on_nonempty [of "CHR '',''" "render_refs ?ms"] by (metis list.collapse)
  also have "\<dots> = Some ((ps @ [n]) @ ?ms)" using 3 by (intro "3.IH") auto
  finally show ?case by simp
qed simp

lemma render_refs_hd: "ns \<noteq> [] \<Longrightarrow> \<exists>t. render_refs ns = CHR ''#'' # t"
  by (cases ns rule: render_refs.cases) (auto simp: ref_text_def)

lemma render_refs_last: "ns \<noteq> [] \<Longrightarrow> \<forall>n \<in> set ns. 0 < n \<Longrightarrow> is_digit (last (render_refs ns))"
proof (induction ns rule: render_refs.induct)
  case (2 n)
  then show ?case using itoa_digits [of n] by (auto simp: ref_text_def list_all_iff)
next
  case (3 n m ns)
  then show ?case using render_refs_hd [of "m # ns"] by auto
qed simp

lemma render_refs_bytes: "\<forall>n \<in> set ns. 0 < n \<Longrightarrow> c \<in> set (render_refs ns) \<Longrightarrow> is_digit c \<or> c = CHR ''#'' \<or> c = CHR '','' \<or> c = CHR '' ''"
proof (induction ns rule: render_refs.induct)
  case (2 n)
  then show ?case using itoa_digits [of n] by (auto simp: ref_text_def list_all_iff)
next
  case (3 n m ns)
  then show ?case using itoa_digits [of n] by (auto simp: ref_text_def list_all_iff)
qed simp

lemma key_of_rendered:
  assumes "ns \<noteq> []" "\<forall>n \<in> set ns. 0 < n"
  shows "key_value (render_declaration ns) = Some (render_refs ns)"
proof -
  obtain t where t: "render_refs ns = CHR ''#'' # t" using render_refs_hd [OF assms(1)] by blast
  have trim: "TrimSpace (render_refs ns) = render_refs ns"
    using t digit_visible [OF render_refs_last [OF assms]] by (intro TrimSpace_visible) (auto simp: visible_def)
  have c: "TrimSpace ''Corrects'' = ''Corrects''" by (rule TrimSpace_visible) (simp_all add: visible_def)
  have "index_colon (render_declaration ns) = Some (8, 1)"
    by (simp add: render_declaration_def wide_colon_def bytes_of_def char_of_def)
  moreover have "index_byte (CHR ''#'') (render_declaration ns) = Some 10"
    by (simp add: render_declaration_def t)
  ultimately have "split_key (render_declaration ns) = Some (''Corrects'', CHR '' '' # render_refs ns)"
    by (simp add: split_key_def Let_def render_declaration_def)
  moreover have "drop_bullet (render_declaration ns) = render_declaration ns"
    by (simp add: drop_bullet_def render_declaration_def)
  moreover have "map ascii_lower ''Corrects'' = ''corrects''" by code_simp
  ultimately show ?thesis
    by (simp add: key_value_def c trim_emphasis_def is_emphasis_def TrimSpace_blank trim trim_prefix_def)
qed

lemma declared_rendered:
  assumes "ns \<noteq> []" "\<forall>n \<in> set ns. 0 < n"
  shows "declarationValue fresh (render_declaration ns) = (Some (render_refs ns), fresh)"
proof -
  have "last (render_declaration ns) = last (render_refs ns)"
    using render_refs_hd [OF assms(1)] by (auto simp: render_declaration_def)
  then have "TrimSpace (render_declaration ns) = render_declaration ns"
    using digit_visible [OF render_refs_last [OF assms]]
    by (intro TrimSpace_visible) (simp_all add: render_declaration_def visible_def)
  moreover have "strip_marker 0 (render_declaration ns) = (0, render_declaration ns)"
    by (simp add: strip_marker_def list_markers_def render_declaration_def)
  moreover have "trim_blanks (render_declaration ns) = render_declaration ns"
    by (simp add: trim_blanks_def render_declaration_def)
  moreover have "hd (render_declaration ns) = CHR ''C''" by (simp add: render_declaration_def)
  moreover have "fence fresh = None" by (simp add: fresh_def)
  ultimately show ?thesis using key_of_rendered [OF assms]
    by (simp add: declarationValue_def backtick_def)
qed

text \<open>C16. A declaration of up to 32 distinct positive pull requests, written as one line, is read back as
  exactly these pull requests in this order.\<close>

theorem Parse_rendered:
  assumes "ns \<noteq> []" "distinct ns" "length ns \<le> MaxParents" "\<forall>n \<in> set ns. 0 < n \<and> n \<le> max_int64"
    and "length (render_declaration ns) \<le> MaxBodyBytes"
  shows "Parse (render_declaration ns) = \<lparr>d_State = StateParents, d_Parents = ns\<rparr>"
proof -
  have pos: "\<forall>n \<in> set ns. 0 < n" using assms(4) by blast
  have "newline \<notin> set (render_declaration ns)"
    using render_refs_bytes [OF pos] by (fastforce simp: render_declaration_def newline_def is_digit_def)
  then have "split_on newline (render_declaration ns) = [render_declaration ns]" by (rule split_on_none)
  moreover have "parseValue (render_refs ns) = \<lparr>d_State = StateParents, d_Parents = ns\<rparr>"
    using parse_rendered [of ns "[]"] render_refs_hd [OF assms(1)] assms by (auto simp: parseValue_def)
  ultimately show ?thesis using assms(5) declared_rendered [OF assms(1) pos]
    by (simp add: Parse_def Let_def plain_decl_def)
qed

theorem Parse_rendered_witness: "Parse ''Corrects: #12, #7'' = \<lparr>d_State = StateParents, d_Parents = [12, 7]\<rparr>"
proof -
  have "render_declaration [12, 7] = ''Corrects: #12, #7''" by code_simp
  moreover have "Parse (render_declaration [12, 7]) = \<lparr>d_State = StateParents, d_Parents = [12, 7]\<rparr>"
    by (rule Parse_rendered) (simp_all add: MaxParents_def max_int64_def MaxBodyBytes_def calculation)
  ultimately show ?thesis by simp
qed

section \<open>Nothing declared survives the removal\<close>

lemma leading_space_snoc:
  assumes "s \<noteq> []" "\<forall>p \<in> set sp. newline \<in> set p \<longrightarrow> length p = 1"
  shows "leading_space sp (s @ [newline]) = leading_space sp s"
  using assms(2)
proof (induction sp)
  case (Cons p sp)
  have "has_prefix p (s @ [newline]) = has_prefix p s"
  proof (cases "length p \<le> length s")
    case False
    have "\<not> has_prefix p (s @ [newline])"
    proof
      assume "has_prefix p (s @ [newline])"
      then obtain t where t: "s @ [newline] = p @ t" by (auto simp: has_prefix_iff)
      then have "p = s @ [newline]" using False by (cases t) (auto dest: arg_cong [of _ _ length])
      then have "newline \<in> set p" "length p \<noteq> 1" using assms(1) by auto
      then show False using Cons.prems by simp
    qed
    moreover have "\<not> has_prefix p s" using False has_prefix_length by blast
    ultimately show ?thesis by simp
  qed (rule has_prefix_short)
  then show ?case using Cons by simp
qed simp

lemma go_spaces_newline: "\<forall>p \<in> set go_spaces. newline \<in> set p \<longrightarrow> length p = 1"
proof -
  have "list_all (\<lambda>p. newline \<in> set p \<longrightarrow> length p = 1) go_spaces" by code_simp
  then show ?thesis by (simp add: list_all_iff)
qed

lemma leading_space_le: "leading_space sp s \<le> length s"
  by (induction sp) (auto dest: has_prefix_length)

lemma trim_left_newline: "trim_left go_spaces [newline] = []"
  by code_simp

lemma trim_left_snoc:
  "trim_left go_spaces (s @ [newline]) = (if trim_left go_spaces s = [] then [] else trim_left go_spaces s @ [newline])"
proof (induction s rule: length_induct)
  case (1 s)
  let ?n = "leading_space go_spaces s"
  show ?case
  proof (cases "s = [] \<or> ?n = 0")
    case True
    then show ?thesis
    proof (cases "s = []")
      case False
      then show ?thesis using True leading_space_snoc [OF False go_spaces_newline] by (simp add: trim_left.simps)
    qed (simp add: trim_left_newline trim_left.simps [of _ "[]"])
  next
    case False
    then have "?n \<le> length s" using leading_space_le by blast
    then have "drop ?n (s @ [newline]) = drop ?n s @ [newline]" by simp
    moreover have "trim_left go_spaces (drop ?n s @ [newline])
        = (if trim_left go_spaces (drop ?n s) = [] then [] else trim_left go_spaces (drop ?n s) @ [newline])"
      using 1 False by auto
    ultimately show ?thesis using False leading_space_snoc [OF _ go_spaces_newline, of s]
      by (simp add: trim_left.simps [of go_spaces s] trim_left.simps [of go_spaces "s @ [newline]"])
  qed
qed

lemma TrimSpace_snoc: "TrimSpace (s @ [newline]) = TrimSpace s"
proof -
  have l: "leading_space (map rev go_spaces) (newline # u) = 1" for u
    by (simp add: go_spaces_def bytes_of_def newline_def char_of_def bit_0)
  have "trim_left (map rev go_spaces) (newline # u) = trim_left (map rev go_spaces) u" for u
    by (subst trim_left.simps) (simp add: l)
  then show ?thesis by (simp add: TrimSpace_def trim_left_snoc)
qed

abbreviation value_of :: "string \<Rightarrow> string option" where
  "value_of l \<equiv> fst (declarationValue fresh l)"

lemma value_of_any: "value_of l = None \<Longrightarrow> fst (declarationValue r l) = None"
  by (cases "fence r") (auto simp: declarationValue_def fresh_def Let_def split: prod.splits if_splits)

lemma trim_left_set: "set (trim_left sp s) \<subseteq> set s"
proof (induction sp s rule: trim_left.induct)
  case (1 sp s)
  then show ?case using set_drop_subset [of "leading_space sp s" s] by (subst trim_left.simps) auto
qed

lemma TrimSpace_set: "set (TrimSpace s) \<subseteq> set s"
  using trim_left_set [of go_spaces s] trim_left_set [of "map rev go_spaces" "rev (trim_left go_spaces s)"]
  by (auto simp: TrimSpace_def)

lemma trim_emphasis_set: "set (trim_emphasis s) \<subseteq> set s"
proof -
  have *: "set (dropWhile is_emphasis xs) \<subseteq> set xs" for xs by (auto dest: set_dropWhileD)
  show ?thesis using * [of "rev (dropWhile is_emphasis s)"] * [of s] unfolding trim_emphasis_def set_rev by (rule order_trans)
qed

lemma split_key_set: "split_key l = Some (k, v) \<Longrightarrow> set k \<subseteq> set l"
  by (auto simp: split_key_def Let_def split: option.splits if_splits dest: in_set_takeD)

lemma drop_bullet_set: "set (drop_bullet l) \<subseteq> set l"
proof (cases l rule: remdups_adj.cases)
  case (3 a b rest)
  then show ?thesis using TrimSpace_set [of rest] by (auto simp: drop_bullet_def)
qed (simp_all add: drop_bullet_def)

text \<open>A recognized line contains the letters of its key.\<close>

lemma key_value_letters:
  assumes "key_value l = Some v"
  shows "set ''corrects'' \<subseteq> ascii_lower ` set l"
proof -
  obtain k w where k: "split_key (drop_bullet l) = Some (k, w)"
    "map ascii_lower (TrimSpace (trim_emphasis (TrimSpace k))) = ''corrects''"
    using assms by (auto simp: key_value_def Let_def split: option.splits if_splits)
  have "set (TrimSpace (trim_emphasis (TrimSpace k))) \<subseteq> set l"
    using TrimSpace_set trim_emphasis_set split_key_set [OF k(1)] drop_bullet_set by (meson order_trans)
  moreover have "set ''corrects'' = ascii_lower ` set (TrimSpace (trim_emphasis (TrimSpace k)))"
    by (metis k(2) set_map)
  ultimately show ?thesis by blast
qed

lemma value_of_letters: "value_of l = Some v \<Longrightarrow> set ''corrects'' \<subseteq> ascii_lower ` set l"
  using key_value_letters TrimSpace_set by (fastforce simp: declarationValue_def fresh_def Let_def split: prod.splits if_splits)

lemma value_of_length: "value_of l = Some v \<Longrightarrow> 6 \<le> length l"
proof -
  assume "value_of l = Some v"
  then have "card (set ''corrects'') \<le> card (ascii_lower ` set l)" by (intro card_mono value_of_letters) auto
  also have "\<dots> \<le> card (set l)" by (rule card_image_le) simp
  also have "\<dots> \<le> length l" by (rule card_length)
  finally show ?thesis by (simp add: card_insert_if)
qed

lemma has_prefix_snoc: "newline \<notin> set p \<Longrightarrow> has_prefix p (t @ [newline]) = has_prefix p t"
proof (cases "length p \<le> length t")
  case False
  assume n: "newline \<notin> set p"
  have "\<not> has_prefix p (t @ [newline])"
  proof
    assume "has_prefix p (t @ [newline])"
    then obtain u where u: "t @ [newline] = p @ u" by (auto simp: has_prefix_iff)
    then have "p = t @ [newline]" using False by (cases u) (auto dest: arg_cong [of _ _ length])
    then show False using n by simp
  qed
  then show ?thesis using False has_prefix_length by blast
qed (rule has_prefix_short)

lemma trim_blanks_snoc: "trim_blanks (l @ [newline]) = trim_blanks l @ [newline]"
  by (induction l) (auto simp: trim_blanks_def newline_def)

lemma list_markers_newline: "p \<in> set list_markers \<Longrightarrow> newline \<notin> set p"
  by (auto simp: list_markers_def newline_def)

lemma strip_marker_snoc: "strip_marker ind (t @ [newline]) = (case strip_marker ind t of (c, u) \<Rightarrow> (c, u @ [newline]))"
proof -
  have *: "find (\<lambda>p. ind \<le> 3 \<and> has_prefix p (t @ [newline])) list_markers = find (\<lambda>p. ind \<le> 3 \<and> has_prefix p t) list_markers"
    by (rule find_cong) (auto simp: has_prefix_snoc list_markers_newline)
  show ?thesis
  proof (cases "find (\<lambda>p. ind \<le> 3 \<and> has_prefix p t) list_markers")
    case (Some p)
    then have "length p \<le> length t" by (auto simp: find_Some_iff dest: has_prefix_length)
    then show ?thesis using * Some by (simp add: strip_marker_def trim_blanks_snoc)
  qed (use * in \<open>simp add: strip_marker_def\<close>)
qed

lemma strip_marker_set:
  assumes "strip_marker ind (trim_blanks l) = (c, u)" "x \<in> set l"
  shows "x = CHR '' '' \<or> x \<in> \<Union> (set ` set list_markers) \<or> x \<in> set u"
proof -
  have blanks: "y \<in> set s \<Longrightarrow> y = CHR '' '' \<or> y \<in> set (trim_blanks s)" for s y
    by (induction s) (auto simp: trim_blanks_def)
  show ?thesis
  proof (cases "find (\<lambda>p. ind \<le> 3 \<and> has_prefix p (trim_blanks l)) list_markers")
    case None
    then show ?thesis using assms blanks by (auto simp: strip_marker_def)
  next
    case (Some p)
    then have p: "p \<in> set list_markers" "has_prefix p (trim_blanks l)" by (auto simp: find_Some_iff)
    then obtain t where "trim_blanks l = p @ t" by (auto simp: has_prefix_iff)
    then show ?thesis using assms Some p(1) blanks [of x l] blanks [of x t] by (auto simp: strip_marker_def)
  qed
qed

lemma short_fence_no_value:
  assumes "strip_marker ind (trim_blanks l) = (c, [a, b])" "a = backtick \<or> a = CHR ''~''"
  shows "key_value (TrimSpace l) = None"
proof (rule ccontr)
  assume "\<not> ?thesis"
  then obtain v where "key_value (TrimSpace l) = Some v" by auto
  then have s: "set ''corrects'' \<subseteq> ascii_lower ` set l"
    using key_value_letters TrimSpace_set by (meson image_mono order_trans)
  have *: "y = ascii_lower b" if y: "y = CHR ''c'' \<or> y = CHR ''o''" for y
  proof -
    have "y \<in> set ''corrects''" using y by auto
    then obtain x where x: "x \<in> set l" "y = ascii_lower x" using s by blast
    have "x \<noteq> CHR '' ''" "x \<notin> \<Union> (set ` set list_markers)" "x \<noteq> a"
      using x(2) y assms(2) by (auto simp: list_markers_def ascii_lower_def backtick_def Let_def)
    then show ?thesis using strip_marker_set [OF assms(1) x(1)] x(2) by auto
  qed
  show False using * [of "CHR ''c''"] * [of "CHR ''o''"] by simp
qed

lemma value_of_snoc:
  assumes "value_of (l @ [newline]) = None"
  shows "value_of l = None"
proof -
  let ?ind = "int (length l) - int (length (trim_blanks l))"
  obtain c u where u: "strip_marker ?ind (trim_blanks l) = (c, u)" by fastforce
  let ?F = "\<lambda>t. ?ind \<le> 3 \<and> 3 \<le> length t \<and> (hd t = backtick \<or> hd t = CHR ''~'')"
  have 1: "value_of l = (if ?F u then None else key_value (TrimSpace l))"
    using u by (auto simp: declarationValue_def fresh_def Let_def)
  have 2: "value_of (l @ [newline]) = (if ?F (u @ [newline]) then None else key_value (TrimSpace l))"
    using u by (auto simp: declarationValue_def fresh_def Let_def trim_blanks_snoc strip_marker_snoc TrimSpace_snoc)
  show ?thesis
  proof (cases "?F (u @ [newline]) \<and> \<not> ?F u")
    case True
    then have "length u = 2" by (cases u) auto
    then obtain a b where "u = [a, b]" by (auto simp: numeral_2_eq_2 length_Suc_conv)
    then show ?thesis using 1 True short_fence_no_value [of ?ind l c a b] u by simp
  qed (use 1 2 assms in \<open>auto split: if_splits\<close>)
qed

text \<open>The lines of a body, and what the removal makes of each.\<close>

lemma split_after_lines:
  "split_after c s = map (\<lambda>l. l @ [c]) (butlast (split_on c s)) @ [last (split_on c s)]"
proof (induction s)
  case (Cons x s)
  obtain p ps where p: "split_on c s = p # ps" by (meson split_on_nonempty neq_Nil_conv)
  then show ?case using Cons by (cases ps) auto
qed simp

lemma split_on_notin: "l \<in> set (split_on c s) \<Longrightarrow> c \<notin> set l"
  by (induction s arbitrary: l) (auto split: list.splits if_splits)

lemma split_on_concat:
  "\<forall>l \<in> set ls. c \<notin> set l \<Longrightarrow> c \<notin> set m \<Longrightarrow> split_on c (concat (map (\<lambda>l. l @ [c]) ls) @ m) = ls @ [m]"
  by (induction ls) (auto simp: split_on_none split_on_append)

lemma concat_split_after: "concat (split_after c s) = s"
  by (induction s) (auto split: list.splits)

definition stripped :: "string \<Rightarrow> string" where
  "stripped l =
     (case value_of (l @ [newline]) of None \<Rightarrow> l
      | Some _ \<Rightarrow> ''x'' @ (if has_suffix [CHR 0x0D, newline] (l @ [newline]) then [CHR 0x0D] else []))"

definition stripped_last :: "string \<Rightarrow> string" where
  "stripped_last l = (case value_of l of None \<Rightarrow> l | Some _ \<Rightarrow> ''x'')"

lemma has_suffix_newline: "has_suffix [newline] (l @ [newline])"
  by (simp add: has_suffix_def)

lemma strip_line_full: "strip_line (l @ [newline]) = stripped l @ [newline]"
  by (auto simp: strip_line_def stripped_def has_suffix_newline split: option.splits)

lemma has_suffix_none: "newline \<notin> set l \<Longrightarrow> has_suffix (q @ [newline]) l = False"
  by (cases l rule: rev_cases) (auto simp: has_suffix_def)

lemma strip_line_last: "newline \<notin> set l \<Longrightarrow> strip_line l = stripped_last l"
  using has_suffix_none [of l "[CHR 0x0D]"] has_suffix_none [of l "[]"]
  by (auto simp: strip_line_def stripped_last_def split: option.splits)

lemma no_letter_no_value:
  assumes "CHR ''c'' \<notin> ascii_lower ` set l"
  shows "value_of l = None"
  using assms value_of_letters [of l] by (cases "value_of l") auto

lemma barrier_no_value: "value_of ''x'' = None" "value_of [CHR ''x'', CHR 0x0D] = None"
  by (rule no_letter_no_value, simp add: ascii_lower_def)+

lemma stripped_clean:
  "newline \<notin> set l \<Longrightarrow> newline \<notin> set (stripped l) \<and> value_of (stripped l) = None"
  "newline \<notin> set l \<Longrightarrow> newline \<notin> set (stripped_last l) \<and> value_of (stripped_last l) = None"
  using barrier_no_value value_of_snoc [of l]
  by (auto simp: stripped_def stripped_last_def newline_def split: option.splits)

lemma stripped_lines:
  "split_on newline (StripDeclarationLines body)
   = map stripped (butlast (split_on newline body)) @ [stripped_last (last (split_on newline body))]"
proof -
  let ?ls = "butlast (split_on newline body)" and ?m = "last (split_on newline body)"
  have n: "newline \<notin> set l" if "l \<in> set ?ls \<or> l = ?m" for l
    using that split_on_notin [of l newline body] split_on_nonempty [of newline body] by (auto dest: in_set_butlastD)
  have "StripDeclarationLines body = concat (map (\<lambda>l. l @ [newline]) (map stripped ?ls)) @ stripped_last ?m"
    using n by (simp add: StripDeclarationLines_def split_after_lines strip_line_full strip_line_last o_def)
  then show ?thesis by (simp only:, intro split_on_concat) (use n stripped_clean in auto)
qed

lemma strip_line_shorter: "length (strip_line l) \<le> length l"
  using value_of_length [of l] by (auto simp: strip_line_def split: option.splits)

lemma strip_shorter: "length (StripDeclarationLines body) \<le> length body"
proof -
  have "length (concat (map strip_line ls)) \<le> length (concat ls)" for ls
    by (induction ls) (auto intro: add_mono strip_line_shorter)
  from this [of "split_after newline body"] show ?thesis by (simp add: StripDeclarationLines_def concat_split_after)
qed

lemma declared_values_none: "\<forall>l \<in> set ls. value_of l = None \<Longrightarrow> declared_values ls r = []"
proof (induction ls arbitrary: r)
  case (Cons l ls)
  then show ?case using value_of_any [of l r] by (auto split: prod.splits option.splits)
qed simp

text \<open>Nothing declared survives the removal: however a body is fenced, quoted or broken into lines,
  parsing what \<^verbatim>\<open>StripDeclarationLines\<close> leaves of it finds no declaration, and every line that declares
  nothing is still there, in its place.\<close>

theorem stripped_declares_nothing:
  assumes "length body \<le> MaxBodyBytes"
  shows "Parse (StripDeclarationLines body) = plain_decl StateMissing
    \<and> length (split_on newline (StripDeclarationLines body)) = length (split_on newline body)
    \<and> (\<forall>i < length (split_on newline body). value_of (split_on newline body ! i @ [newline]) = None \<longrightarrow>
         split_on newline (StripDeclarationLines body) ! i = split_on newline body ! i)"
proof (intro conjI allI impI)
  let ?ls = "split_on newline body"
  have n: "newline \<notin> set l" if "l \<in> set ?ls" for l using that by (rule split_on_notin)
  have mem: "l \<in> set ?ls" if "l \<in> set (butlast ?ls) \<or> l = last ?ls" for l
    using that split_on_nonempty [of newline body] by (auto dest: in_set_butlastD)
  have "\<forall>l \<in> set (split_on newline (StripDeclarationLines body)). value_of l = None"
    unfolding stripped_lines using mem n stripped_clean by auto
  from declared_values_none [OF this] show "Parse (StripDeclarationLines body) = plain_decl StateMissing"
    using assms strip_shorter [of body] by (simp add: Parse_def parse_body_missing agreed_def)
  show len: "length (split_on newline (StripDeclarationLines body)) = length ?ls"
    unfolding stripped_lines by simp
  fix i assume i: "i < length ?ls" "value_of (?ls ! i @ [newline]) = None"
  show "split_on newline (StripDeclarationLines body) ! i = ?ls ! i"
  proof (cases "i < length ?ls - 1")
    case True
    then show ?thesis using i unfolding stripped_lines by (simp add: nth_append nth_butlast stripped_def)
  next
    case False
    then have "i = length ?ls - 1" using i(1) by simp
    then show ?thesis using i value_of_snoc [OF i(2)] unfolding stripped_lines
      by (simp add: nth_append last_conv_nth stripped_last_def)
  qed
qed

theorem stripped_declares_nothing_witness:
  "Parse (StripDeclarationLines (''Fixes #3'' @ [newline] @ ''- **Corrects**: #12'')) = plain_decl StateMissing"
  using stripped_declares_nothing [of "''Fixes #3'' @ [newline] @ ''- **Corrects**: #12''"] by (simp add: MaxBodyBytes_def)

end
