(* ===== verification/Webhook_Events.thy ===== *)
theory Webhook_Events
  imports Push_Ledger Pr_Derive Quality_Rule Corrective_Parse
begin

text \<open>
  The handlers of GitHub deliveries, \<^verbatim>\<open>src/internal/webhook/handler.go\<close>: merged pull requests, pushes (reverts and
  captured commits) and completed CI runs. The store is the interface of the handler, a record of operations on a
  state; JSON and time decoding, the issue grammar, the classifier of revert messages and the branch hash are pure
  arguments. A handler returns its error and the state it leaves, with the counters it bumped. Case folding is ASCII.
\<close>

section \<open>Errors\<close>

text \<open>Wrapped and joined errors, down to the sentinel of write-lock contention.\<close>

datatype go_error = ErrWriteLockUnavailable | Plain string | Wrapped string go_error | Joined "go_error list"

fun onlyWriteLockErrors :: "go_error \<Rightarrow> bool" where
  "onlyWriteLockErrors ErrWriteLockUnavailable = True"
| "onlyWriteLockErrors (Plain msg) = False"
| "onlyWriteLockErrors (Wrapped msg e) = onlyWriteLockErrors e"
| "onlyWriteLockErrors (Joined es) =
     (es \<noteq> [] \<and> (ErrWriteLockUnavailable \<in> set es \<or> list_all onlyWriteLockErrors es))"

text \<open>\<^verbatim>\<open>errors.Join\<close>: nil when nothing failed.\<close>

definition join_errors :: "go_error list \<Rightarrow> go_error option" where
  "join_errors es = (if es = [] then None else Some (Joined es))"

section \<open>The environment\<close>

record quality_event =
  qe_OutcomeID :: int
  qe_Developer :: string
  qe_IssueID :: string
  qe_EventType :: string
  qe_SourceRef :: string
  qe_EventTS :: time
  qe_Trigger :: "string option"
  qe_Reason :: string

record 's hook_store =
  hs_payload :: "string \<Rightarrow> string \<Rightarrow> string \<Rightarrow> 's \<Rightarrow> (go_error, 's) res"
  hs_declare :: "outcome \<Rightarrow> decl \<Rightarrow> string \<Rightarrow> string \<Rightarrow> 's \<Rightarrow> (go_error, 's) res"
  hs_ignored :: "go_error \<Rightarrow> bool"
  hs_record_pr :: "outcome \<Rightarrow> 's \<Rightarrow> (go_error, bool \<times> 's) res"
  hs_exclude :: "outcome \<Rightarrow> string \<Rightarrow> string \<Rightarrow> 's \<Rightarrow> (go_error, 's) res"
  hs_record_push :: "outcome \<Rightarrow> string \<Rightarrow> string \<Rightarrow> time \<Rightarrow> 's \<Rightarrow> (go_error, push_status \<times> 's) res"
  hs_by_merge :: "string \<Rightarrow> 's \<Rightarrow> (go_error, outcome option) res"
  hs_candidates :: "string \<Rightarrow> string \<Rightarrow> time \<Rightarrow> time \<Rightarrow> 's \<Rightarrow> (go_error, outcome list \<times> bool) res"
  hs_append :: "quality_event \<Rightarrow> 's \<Rightarrow> (go_error, bool \<times> 's) res"
  hs_events :: "int \<Rightarrow> 's \<Rightarrow> (go_error, quality_event list) res"
  hs_update :: "int \<Rightarrow> f64 \<Rightarrow> string \<Rightarrow> string \<Rightarrow> 's \<Rightarrow> (go_error, 's) res"

record pr_payload =
  pr_Action :: string
  pr_Number :: int
  pr_Title :: string
  pr_Body :: string
  pr_Merged :: bool
  pr_MergedAt :: "string option"
  pr_CreatedAt :: string
  pr_MergeCommitSHA :: string
  pr_HeadRef :: string
  pr_HeadRepo :: string
  pr_BaseDefault :: string
  pr_Login :: string
  pr_UserType :: string
  pr_Labels :: "string list"
  pr_Additions :: "int option"
  pr_Deletions :: "int option"
  pr_ChangedFiles :: "int option"
  pr_FullName :: string
  pr_DefaultBranch :: string

record commit =
  cm_ID :: string
  cm_Message :: string
  cm_Timestamp :: time
  cm_Username :: string
  cm_Added :: "string list"
  cm_Removed :: "string list"
  cm_Modified :: "string list"

text \<open>\<^verbatim>\<open>pushed_at\<close> is raw JSON: a string, or text that is not one.\<close>

record push_payload =
  ps_Ref :: string
  ps_Commits :: "commit list"
  ps_DefaultBranch :: string
  ps_FullName :: string
  ps_PushedAt :: "string + string"

record run_payload =
  wr_Action :: string
  wr_Event :: string
  wr_HeadSHA :: string
  wr_HeadBranch :: string
  wr_Conclusion :: string
  wr_RunAttempt :: int
  wr_UpdatedAt :: time
  wr_WorkflowID :: int
  wr_DefaultBranch :: string

record hook_lib =
  hl_pr :: "string \<Rightarrow> pr_payload option"
  hl_push :: "string \<Rightarrow> push_payload option"
  hl_run :: "string \<Rightarrow> run_payload option"
  hl_rfc3339 :: "string \<Rightarrow> time option"
  hl_parseInt :: "string \<Rightarrow> int option"
  hl_day :: "time \<Rightarrow> string"
  hl_marshal :: "string \<Rightarrow> string \<Rightarrow> string"
  hl_branch_ref :: "string \<Rightarrow> string \<Rightarrow> string \<times> string"
  hl_subject_ref :: "string \<Rightarrow> string \<times> string"
  hl_revert_branch :: "string \<Rightarrow> bool"
  hl_branch_hash :: "string \<Rightarrow> string \<Rightarrow> string option"
  hl_classify :: "string \<Rightarrow> string"

record hook_config =
  hc_secret :: string
  hc_push_capture :: bool
  hc_generated :: "string list"
  hc_sizes :: "(string \<times> rat) list"

text \<open>The counters, bumped once per element: reasons of unresolved reverts, then plain counts.\<close>

record counters =
  ct_revert :: "string list"
  ct_unattributed :: nat
  ct_missing_pushed_at :: nat
  ct_merge_leak :: nat

definition zero_counters :: counters where
  "zero_counters = \<lparr>ct_revert = [], ct_unattributed = 0, ct_missing_pushed_at = 0, ct_merge_leak = 0\<rparr>"

section \<open>Patterns\<close>

definition all_digits :: "nat \<Rightarrow> string \<Rightarrow> bool" where
  "all_digits n s \<longleftrightarrow> n \<le> length s \<and> list_all is_digit (take n s)"

text \<open>\<^verbatim>\<open>mergedAtRFC3339RE\<close>: the date and time, a fraction of at least one digit, the zone.\<close>

definition clock_shape :: "string \<Rightarrow> bool" where
  "clock_shape s \<longleftrightarrow>
     all_digits 4 s \<and> has_prefix ''-'' (drop 4 s) \<and> all_digits 2 (drop 5 s) \<and> has_prefix ''-'' (drop 7 s) \<and>
     all_digits 2 (drop 8 s) \<and> has_prefix ''T'' (drop 10 s) \<and> all_digits 2 (drop 11 s) \<and> has_prefix '':'' (drop 13 s) \<and>
     all_digits 2 (drop 14 s) \<and> has_prefix '':'' (drop 16 s) \<and> all_digits 2 (drop 17 s)"

definition drop_fraction :: "string \<Rightarrow> string" where
  "drop_fraction s = (if has_prefix ''.'' s \<and> takeWhile is_digit (drop 1 s) \<noteq> [] then dropWhile is_digit (drop 1 s) else s)"

definition zone_shape :: "string \<Rightarrow> bool" where
  "zone_shape z \<longleftrightarrow> z = ''Z'' \<or>
     length z = 6 \<and> (z ! 0 = CHR ''+'' \<or> z ! 0 = CHR ''-'') \<and> is_digit (z ! 1) \<and> is_digit (z ! 2) \<and>
     (z ! 1 = CHR ''0'' \<or> z ! 1 = CHR ''1'' \<or> z ! 1 = CHR ''2'' \<and> z ! 2 \<in> {CHR ''0'', CHR ''1'', CHR ''2'', CHR ''3''}) \<and>
     z ! 3 = CHR '':'' \<and> z ! 4 \<in> {CHR ''0'', CHR ''1'', CHR ''2'', CHR ''3'', CHR ''4'', CHR ''5''} \<and> is_digit (z ! 5)"

definition merged_at_shape :: "string \<Rightarrow> bool" where
  "merged_at_shape s \<longleftrightarrow> clock_shape s \<and> zone_shape (drop_fraction (drop 19 s))"

text \<open>\<^verbatim>\<open>prMergeRE\<close>, \<^verbatim>\<open>mergeCommitRE\<close>, and \<^verbatim>\<open>revertLineRE\<close> on a commit subject, which holds no line feed: after
  the word, one space and one more character match, whatever they are.\<close>

definition pr_merge :: "string \<Rightarrow> bool" where
  "pr_merge s \<longleftrightarrow> (case cut_prefix ''Merge pull request #'' s of Some (c # _) \<Rightarrow> is_digit c | _ \<Rightarrow> False)"

definition merge_commit :: "string \<Rightarrow> bool" where
  "merge_commit s \<longleftrightarrow> pr_merge s \<or> has_prefix ''Merge branch '' s \<or> has_prefix ''Merge remote-tracking branch '' s"

definition revert_line :: "string \<Rightarrow> bool" where
  "revert_line s \<longleftrightarrow> 8 \<le> length s \<and> map ascii_lower (take 6 s) = ''revert'' \<and>
     s ! 6 \<in> {CHR '' '', CHR 0x09, CHR 0x0A, CHR 0x0C, CHR 0x0D}"

text \<open>\<^verbatim>\<open>revertsCommitRE\<close>: the leftmost footer with 40 lower-case digits and a word boundary after them.\<close>

definition lower_hex :: "char \<Rightarrow> bool" where
  "lower_hex c \<longleftrightarrow> is_digit c \<or> c \<in> {CHR ''a'', CHR ''b'', CHR ''c'', CHR ''d'', CHR ''e'', CHR ''f''}"

definition word_byte :: "char \<Rightarrow> bool" where
  "word_byte c \<longleftrightarrow> is_digit c \<or> is_lower (ascii_lower c) \<or> c = CHR ''_''"

definition footer_at :: "string \<Rightarrow> string option" where
  "footer_at s =
     (let sha = take 40 (drop 20 s); rest = drop 60 s
      in if map ascii_lower (take 20 s) = ''this reverts commit '' \<and> length sha = 40 \<and> list_all lower_hex sha
            \<and> (case rest of [] \<Rightarrow> True | c # _ \<Rightarrow> \<not> word_byte c)
         then Some sha else None)"

fun revert_footer :: "string \<Rightarrow> string option" where
  "revert_footer [] = None"
| "revert_footer (c # s) = (case footer_at (c # s) of Some sha \<Rightarrow> Some sha | None \<Rightarrow> revert_footer s)"

definition parsePushedAt :: "hook_lib \<Rightarrow> string + string \<Rightarrow> time \<times> bool" where
  "parsePushedAt lib raw =
     (case raw of
        Inl s \<Rightarrow> (case hl_rfc3339 lib s of None \<Rightarrow> (0, False)
                  | Some t \<Rightarrow> if unix_seconds t \<le> 0 then (0, False) else (t, True))
      | Inr s \<Rightarrow> (case hl_parseInt lib s of None \<Rightarrow> (0, False)
                  | Some secs \<Rightarrow> if secs \<le> 0 then (0, False) else ((secs + 62135596800) * 1000000000, True)))"

section \<open>Quality events\<close>

definition ciObservationWindow :: duration where "ciObservationWindow = 48 * Hour"
definition revertObservationWindow :: duration where "revertObservationWindow = 60 * 24 * Hour"
definition flakyRerunWindow :: duration where "flakyRerunWindow = 30 * Minute"

type_synonym 's hres = "go_error option \<times> 's"

definition resolve_events :: "quality_event list \<Rightarrow> f64" where
  "resolve_events es =
     quality_Resolve (map (\<lambda>e. \<lparr>SE_TriggerEvent = qe_Trigger e, SE_EventType = qe_EventType e, SE_SourceRef = qe_SourceRef e\<rparr>) es)"

definition appendAndResolveLocked ::
  "'s hook_store \<Rightarrow> outcome \<Rightarrow> string \<Rightarrow> string \<Rightarrow> time \<Rightarrow> string option \<Rightarrow> 's \<Rightarrow> 's hres" where
  "appendAndResolveLocked st origin eventType sourceRef eventTS trigger s =
     (case hs_append st \<lparr>qe_OutcomeID = o_ID origin, qe_Developer = o_Developer origin, qe_IssueID = o_IssueID origin,
            qe_EventType = eventType, qe_SourceRef = sourceRef, qe_EventTS = eventTS, qe_Trigger = trigger, qe_Reason = []\<rparr> s of
        Inl e \<Rightarrow> (Some (Wrapped ''append quality event'' e), s)
      | Inr (_, s) \<Rightarrow>
          (if trigger \<noteq> None \<and> trigger \<noteq> Some ''push'' then (None, s)
           else (case hs_events st (o_ID origin) s of
                   Inl e \<Rightarrow> (Some (Wrapped ''read quality events'' e), s)
                 | Inr es \<Rightarrow> (case hs_update st (o_ID origin) (resolve_events es) eventType sourceRef s of
                     Inl e \<Rightarrow> (Some (Wrapped ''update quality'' e), s) | Inr s \<Rightarrow> (None, s)))))"

definition flaky_rerun :: "ci_ref \<Rightarrow> time \<Rightarrow> quality_event \<Rightarrow> bool" where
  "flaky_rerun success successTS e \<longleftrightarrow>
     (let failed = ParseCIRef (qe_SourceRef e); delta = time_sub successTS (qe_EventTS e)
      in qe_EventType e = EventCIFail \<and> (qe_Trigger e = None \<or> qe_Trigger e = Some ''push'') \<and>
         ref_sha failed = ref_sha success \<and> ref_workflow failed = ref_workflow success \<and>
         RunAttempt failed < RunAttempt success \<and> 0 \<le> delta \<and> delta \<le> flakyRerunWindow)"

definition isFlakyRerunLocked :: "'s hook_store \<Rightarrow> int \<Rightarrow> ci_ref \<Rightarrow> time \<Rightarrow> 's \<Rightarrow> (go_error, bool) res" where
  "isFlakyRerunLocked st outcomeID success successTS s =
     (case hs_events st outcomeID s of
        Inl e \<Rightarrow> Inl (Wrapped ''workflow_run: read events for flaky check'' e)
      | Inr es \<Rightarrow> Inr (list_ex (flaky_rerun success successTS) es))"

definition appendAndResolveCISuccess :: "'s hook_store \<Rightarrow> outcome \<Rightarrow> string \<Rightarrow> time \<Rightarrow> string \<Rightarrow> 's \<Rightarrow> 's hres" where
  "appendAndResolveCISuccess st origin sourceRef eventTS trigger s =
     (case (if trigger = ''push'' then isFlakyRerunLocked st (o_ID origin) (ParseCIRef sourceRef) eventTS s else Inr False) of
        Inl e \<Rightarrow> (Some e, s)
      | Inr flaky \<Rightarrow>
          appendAndResolveLocked st origin (if flaky \<and> trigger = ''push'' then EventCIFailFlaky else EventCIPass)
            sourceRef eventTS (Some trigger) s)"

section \<open>CI runs\<close>

definition handleWorkflowRun :: "hook_lib \<Rightarrow> 's hook_store \<Rightarrow> time \<Rightarrow> string \<Rightarrow> 's \<Rightarrow> 's hres" where
  "handleWorkflowRun lib st now body s =
     (case hl_run lib body of None \<Rightarrow> (Some (Plain ''parse workflow_run payload''), s)
      | Some wr \<Rightarrow>
          if wr_Action wr \<noteq> ''completed'' then (None, s)
          else if wr_HeadBranch wr = [] \<or> wr_HeadBranch wr \<noteq> wr_DefaultBranch wr then (None, s)
          else if wr_Conclusion wr \<noteq> ''success'' \<and> wr_Conclusion wr \<noteq> ''failure'' then (None, s)
          else (case hs_by_merge st (wr_HeadSHA wr) s of
                  Inl e \<Rightarrow> (Some (Wrapped ''workflow_run: lookup outcome by head sha'' e), s)
                | Inr None \<Rightarrow> (None, s)
                | Inr (Some origin) \<Rightarrow>
                    (let eventTS = (if time_is_zero (wr_UpdatedAt wr) then now else wr_UpdatedAt wr)
                     in if o_Timestamp origin + ciObservationWindow < eventTS then (None, s)
                        else (let sourceRef = BuildCISourceRef (wr_HeadSHA wr) (wr_RunAttempt wr) (wr_WorkflowID wr)
                              in if wr_Conclusion wr = ''success''
                                 then appendAndResolveCISuccess st origin sourceRef eventTS (NormalizeTrigger (wr_Event wr)) s
                                 else appendAndResolveLocked st origin EventCIFail sourceRef eventTS
                                        (Some (NormalizeTrigger (wr_Event wr))) s))))"

section \<open>Merged pull requests\<close>

definition merge_time :: "hook_lib \<Rightarrow> time \<Rightarrow> string option \<Rightarrow> time option" where
  "merge_time lib now raw =
     (case raw of None \<Rightarrow> None
      | Some s \<Rightarrow> if \<not> merged_at_shape s then None
          else (case hl_rfc3339 lib s of None \<Rightarrow> None
                | Some ts \<Rightarrow> if time_is_zero ts \<or> now < ts then None else Some ts))"

definition created_time :: "hook_lib \<Rightarrow> time \<Rightarrow> string \<Rightarrow> time option" where
  "created_time lib outcomeTS s =
     (case hl_rfc3339 lib s of None \<Rightarrow> None
      | Some ts \<Rightarrow> if time_is_zero ts \<or> outcomeTS < ts then None else Some ts)"

definition evidence_outcome :: "hook_lib \<Rightarrow> time \<Rightarrow> pr_payload \<Rightarrow> outcome" where
  "evidence_outcome lib now p =
     (let merged = merge_time lib now (pr_MergedAt p); ts = (case merged of None \<Rightarrow> now | Some t \<Rightarrow> t)
      in (SetDiffStats (pr_Additions p) (pr_Deletions p) (pr_ChangedFiles p)
           (zero_outcome\<lparr>o_Developer := pr_Login p, o_Repo := canonicalRepo (pr_FullName p), o_PRNumber := pr_Number p,
              o_MergeCommitSHA := pr_MergeCommitSHA p, o_MergedAt := merged\<rparr>))
         \<lparr>o_CreatedAt := created_time lib ts (pr_CreatedAt p)\<rparr>)"

definition excluded_outcome :: "time \<Rightarrow> pr_payload \<Rightarrow> outcome" where
  "excluded_outcome ts p =
     zero_outcome\<lparr>o_Developer := pr_Login p, o_Repo := canonicalRepo (pr_FullName p), o_PRNumber := pr_Number p,
       o_MergeCommitSHA := pr_MergeCommitSHA p, o_Timestamp := ts, o_AuthorType := pr_UserType p\<rparr>"

definition trim_heads :: "string \<Rightarrow> string" where
  "trim_heads ref = (case cut_prefix ''refs/heads/'' ref of Some b \<Rightarrow> b | None \<Rightarrow> ref)"

definition head_branch_hash :: "hook_lib \<Rightarrow> pr_payload \<Rightarrow> string option" where
  "head_branch_hash lib p =
     (let repo = canonicalRepo (pr_FullName p);
          defaultBranch = (if pr_BaseDefault p = [] then pr_DefaultBranch p else pr_BaseDefault p)
      in if equal_fold (pr_HeadRepo p) repo \<and> \<not> hl_revert_branch lib (pr_HeadRef p) \<and> trim_heads (pr_HeadRef p) \<noteq> defaultBranch
         then hl_branch_hash lib repo (pr_HeadRef p) else None)"

definition pr_outcome :: "hook_lib \<Rightarrow> hook_config \<Rightarrow> time \<Rightarrow> pr_payload \<Rightarrow> string \<times> string \<Rightarrow> outcome" where
  "pr_outcome lib cfg now p ref =
     (let merged = merge_time lib now (pr_MergedAt p); ts = (case merged of None \<Rightarrow> now | Some t \<Rightarrow> t);
          (workType, workTypeSource) = WorkTypeFromLabels (pr_Labels p);
          o1 = SetDiffStats (pr_Additions p) (pr_Deletions p) (pr_ChangedFiles p)
            (zero_outcome\<lparr>o_Developer := pr_Login p, o_IssueID := fst ref, o_IssueRule := snd ref, o_PRNumber := pr_Number p,
               o_Quality := 1, o_MergeCommitSHA := pr_MergeCommitSHA p, o_WorkType := workType,
               o_WorkTypeSource := workTypeSource, o_Repo := canonicalRepo (pr_FullName p),
               o_AuthorType := pr_UserType p, o_Timestamp := ts\<rparr>);
          (w, source) = ResolveWeight (SizeWeight (pr_Labels p) (hc_sizes cfg)) (o_Additions o1) (o_Deletions o1) (o_ChangedFiles o1)
      in o1\<lparr>o_Weight := w, o_WeightSource := source, o_HeadBranchHash := head_branch_hash lib p, o_MergedAt := merged,
           o_CreatedAt := created_time lib ts (pr_CreatedAt p)\<rparr>)"

text \<open>The declaration of corrections, recorded before anything can return early.\<close>

definition declare_corrections :: "hook_lib \<Rightarrow> 's hook_store \<Rightarrow> time \<Rightarrow> pr_payload \<Rightarrow> 's \<Rightarrow> 's hres" where
  "declare_corrections lib st now p s =
     (let o1 = evidence_outcome lib now p
      in if 0 < o_PRNumber o1 \<and> o_MergeCommitSHA o1 \<noteq> [] \<and> o_Repo o1 \<noteq> Unqualified
         then (case hs_declare st o1 (Parse (pr_Body p)) [] ''github-webhook:merge-delivery'' s of
                 Inl e \<Rightarrow> (if hs_ignored st e then None else Some e, s)
               | Inr s \<Rightarrow> (None, s))
         else (None, s))"

definition handlePR :: "hook_lib \<Rightarrow> hook_config \<Rightarrow> 's hook_store \<Rightarrow> time \<Rightarrow> string \<Rightarrow> 's \<Rightarrow> 's hres" where
  "handlePR lib cfg st now body s =
     (case hl_pr lib body of None \<Rightarrow> (Some (Plain ''parse PR payload''), s)
      | Some p \<Rightarrow>
          if pr_Action p \<noteq> ''closed'' \<or> \<not> pr_Merged p then (None, s)
          else (case declare_corrections lib st now p s of
                  (Some e, s) \<Rightarrow> (Some e, s)
                | (None, s) \<Rightarrow>
                    (let evidence = RevertEvidence (hl_marshal lib) (pr_HeadRef p) (pr_Title p);
                         ts = (case merge_time lib now (pr_MergedAt p) of None \<Rightarrow> now | Some t \<Rightarrow> t)
                     in if evidence \<noteq> []
                        then (if pr_Number p \<le> 0 \<or> pr_MergeCommitSHA p = [] then (None, s)
                              else (case hs_exclude st (excluded_outcome ts p) evidence ''github-webhook'' s of
                                      Inl e \<Rightarrow> (Some e, s) | Inr s \<Rightarrow> (None, s)))
                        else (let ref = hl_branch_ref lib (pr_HeadRef p) (pr_Body p)
                              in if fst ref = [] then (None, s)
                                 else if ResemblesUnattributed (pr_Login p) then (None, s)
                                 else (case hs_record_pr st (pr_outcome lib cfg now p ref) s of
                                         Inl e \<Rightarrow> (Some e, s) | Inr (_, s) \<Rightarrow> (None, s))))))"

section \<open>Reverts in a push\<close>

definition onDefaultBranch :: "push_payload \<Rightarrow> bool" where
  "onDefaultBranch p \<longleftrightarrow> ps_DefaultBranch p \<noteq> [] \<and> ps_Ref p = ''refs/heads/'' @ ps_DefaultBranch p"

text \<open>Every candidate of an ambiguous issue gets its marker; a failed append is an error of the delivery.\<close>

fun mark_ambiguous :: "'s hook_store \<Rightarrow> string \<Rightarrow> time \<Rightarrow> outcome list \<Rightarrow> 's \<Rightarrow> go_error list \<times> 's" where
  "mark_ambiguous st sha ts [] s = ([], s)"
| "mark_ambiguous st sha ts (c # cs) s =
     (case hs_append st \<lparr>qe_OutcomeID = o_ID c, qe_Developer = o_Developer c, qe_IssueID = o_IssueID c,
            qe_EventType = EventRevertAmbiguous, qe_SourceRef = sha, qe_EventTS = ts, qe_Trigger = None,
            qe_Reason = ''ambiguous''\<rparr> s of
        Inl e \<Rightarrow> (let (es, s) = mark_ambiguous st sha ts cs s in (Wrapped ''ambiguous revert append'' e # es, s))
      | Inr (_, s) \<Rightarrow> mark_ambiguous st sha ts cs s)"

datatype target = Origin outcome | Unresolved string | Failed go_error

text \<open>The issue tier: exactly one candidate, and no earlier ambiguous decision on this commit.\<close>

definition issue_target :: "hook_lib \<Rightarrow> 's hook_store \<Rightarrow> push_payload \<Rightarrow> bool \<Rightarrow> string \<Rightarrow> string \<Rightarrow> time \<Rightarrow> 's \<Rightarrow>
    target \<times> go_error list \<times> 's" where
  "issue_target lib st p prMergeSeen sha subject eventTS s =
     (let issueID = fst (hl_subject_ref lib subject)
      in if prMergeSeen then (Unresolved ''merge_push'', [], s)
         else if issueID = [] then (Unresolved ''no_candidate'', [], s)
         else (case hs_candidates st (canonicalRepo (ps_FullName p)) issueID (eventTS - revertObservationWindow) eventTS s of
                 Inl e \<Rightarrow> (Failed (Wrapped ''candidate lookup'' e), [], s)
               | Inr ([origin], _) \<Rightarrow>
                   (case hs_events st (o_ID origin) s of
                      Inl e \<Rightarrow> (Failed (Wrapped ''candidate lookup: read prior revert decision'' e), [], s)
                    | Inr es \<Rightarrow>
                        if list_ex (\<lambda>e. qe_EventType e = EventRevertAmbiguous \<and> qe_SourceRef e = sha) es
                        then (Unresolved ''ambiguous'', [], s) else (Origin origin, [], s))
               | Inr ([], legacyOnly) \<Rightarrow> (Unresolved (if legacyOnly then ''legacy_only'' else ''no_candidate''), [], s)
               | Inr (cs, _) \<Rightarrow> (let (errs, s) = mark_ambiguous st sha eventTS cs s in (Unresolved ''ambiguous'', errs, s))))"

definition revert_target :: "hook_lib \<Rightarrow> 's hook_store \<Rightarrow> push_payload \<Rightarrow> bool \<Rightarrow> commit \<Rightarrow> time \<Rightarrow> 's \<Rightarrow>
    target \<times> go_error list \<times> 's" where
  "revert_target lib st p prMergeSeen c eventTS s =
     (case revert_footer (cm_Message c) of
        Some sha \<Rightarrow>
          (case hs_by_merge st sha s of
             Inl e \<Rightarrow> (Failed (Wrapped ''lookup outcome by merge commit'' e), [], s)
           | Inr (Some origin) \<Rightarrow> (Origin origin, [], s)
           | Inr None \<Rightarrow> (Unresolved ''footer_unresolved'', [], s))
      | None \<Rightarrow> issue_target lib st p prMergeSeen (cm_ID c) (gitCommitSubject (cm_Message c)) eventTS s)"

definition revert_commit :: "hook_lib \<Rightarrow> 's hook_store \<Rightarrow> time \<Rightarrow> push_payload \<Rightarrow> bool \<Rightarrow> commit \<Rightarrow> counters \<Rightarrow> 's \<Rightarrow>
    go_error list \<times> counters \<times> 's" where
  "revert_commit lib st now p prMergeSeen c ct s =
     (if \<not> revert_line (gitCommitSubject (cm_Message c)) then ([], ct, s)
      else
        (let eventTS = (if time_is_zero (cm_Timestamp c) then now else cm_Timestamp c);
             (t, errs, s) = revert_target lib st p prMergeSeen c eventTS s
         in case t of
              Failed e \<Rightarrow> (errs @ [e], ct, s)
            | Unresolved reason \<Rightarrow> (errs, ct\<lparr>ct_revert := ct_revert ct @ [reason]\<rparr>, s)
            | Origin origin \<Rightarrow>
                if o_Timestamp origin + revertObservationWindow < eventTS then (errs, ct, s)
                else (case appendAndResolveLocked st origin (hl_classify lib (cm_Message c)) (cm_ID c) eventTS None s of
                        (None, s) \<Rightarrow> (errs, ct, s)
                      | (Some e, s) \<Rightarrow> (errs @ [Wrapped ''apply revert quality event'' e], ct, s))))"

fun revert_commits :: "hook_lib \<Rightarrow> 's hook_store \<Rightarrow> time \<Rightarrow> push_payload \<Rightarrow> bool \<Rightarrow> commit list \<Rightarrow> counters \<Rightarrow> 's \<Rightarrow>
    go_error list \<times> counters \<times> 's" where
  "revert_commits lib st now p seen [] ct s = ([], ct, s)"
| "revert_commits lib st now p seen (c # cs) ct s =
     (let (errs, ct, s) = revert_commit lib st now p seen c ct s; (errs', ct, s) = revert_commits lib st now p seen cs ct s
      in (errs @ errs', ct, s))"

section \<open>Captured commits of a push\<close>

datatype capture = Skipped | SkippedMerge bool | Unattributed | Capture outcome string

text \<open>What the loop does with one commit, up to the store call.\<close>

definition capture_of :: "hook_lib \<Rightarrow> hook_config \<Rightarrow> time \<Rightarrow> push_payload \<Rightarrow> commit \<Rightarrow> capture" where
  "capture_of lib cfg now p c =
     (let subject = gitCommitSubject (cm_Message c)
      in if revert_line subject then Skipped
         else if merge_commit subject then SkippedMerge (pr_merge subject)
         else if allGenerated (cm_Added c @ cm_Removed c @ cm_Modified c) (hc_generated cfg) then Skipped
         else
           (let (issueID, rule) = hl_subject_ref lib subject
            in if issueID = [] \<or> cm_Username c = [] \<or> ResemblesUnattributed (cm_Username c) \<or> \<not> ValidPushCommitID (cm_ID c)
               then Unattributed
               else
                 (let eventTS = (if time_is_zero (cm_Timestamp c) then now else cm_Timestamp c)
                  in Capture
                       (zero_outcome\<lparr>o_Developer := cm_Username c, o_IssueID := issueID, o_IssueRule := rule,
                          o_Weight := GitHeuristic 0 0, o_WeightSource := ''push'', o_Quality := 1, o_Source := ''push'',
                          o_Repo := canonicalRepo (ps_FullName p), o_Timestamp := eventTS\<rparr>)
                       (hl_day lib eventTS))))"

record 's capture_loop =
  cl_errs :: "go_error list"
  cl_captured :: nat
  cl_merge_seen :: bool
  cl_counters :: counters
  cl_state :: 's

definition capture_commit :: "hook_lib \<Rightarrow> hook_config \<Rightarrow> 's hook_store \<Rightarrow> time \<Rightarrow> push_payload \<Rightarrow> commit \<Rightarrow>
    's capture_loop \<Rightarrow> 's capture_loop" where
  "capture_commit lib cfg st now p c l =
     (let (pushedAt, ok) = parsePushedAt lib (ps_PushedAt p); ct = cl_counters l
      in case capture_of lib cfg now p c of
           Skipped \<Rightarrow> l
         | SkippedMerge pr \<Rightarrow> l\<lparr>cl_merge_seen := cl_merge_seen l \<or> pr\<rparr>
         | Unattributed \<Rightarrow> l\<lparr>cl_counters := ct\<lparr>ct_unattributed := ct_unattributed ct + 1\<rparr>\<rparr>
         | Capture o1 day \<Rightarrow>
             (case hs_record_push st o1 day (cm_ID c) pushedAt (cl_state l) of
                Inl e \<Rightarrow> l\<lparr>cl_errs := cl_errs l @ [Wrapped ''commit'' e]\<rparr>
              | Inr (PushCommitRecorded, s) \<Rightarrow>
                  l\<lparr>cl_captured := cl_captured l + 1, cl_state := s,
                     cl_counters := (if ok then ct else ct\<lparr>ct_missing_pushed_at := ct_missing_pushed_at ct + 1\<rparr>)\<rparr>
              | Inr (_, s) \<Rightarrow> l\<lparr>cl_state := s\<rparr>))"

definition capturePushOutcomes :: "hook_lib \<Rightarrow> hook_config \<Rightarrow> 's hook_store \<Rightarrow> time \<Rightarrow> push_payload \<Rightarrow> counters \<Rightarrow> 's \<Rightarrow>
    go_error option \<times> counters \<times> 's" where
  "capturePushOutcomes lib cfg st now p ct s =
     (if \<not> onDefaultBranch p then (None, ct, s)
      else
        (let l = fold (capture_commit lib cfg st now p) (ps_Commits p)
               \<lparr>cl_errs = [], cl_captured = 0, cl_merge_seen = False, cl_counters = ct, cl_state = s\<rparr>;
             ct = cl_counters l;
             ct = (if cl_merge_seen l \<and> 0 < cl_captured l \<and> cl_errs l = []
                   then ct\<lparr>ct_merge_leak := ct_merge_leak ct + 1\<rparr> else ct)
         in (join_errors (cl_errs l), ct, cl_state l)))"

definition handlePush :: "hook_lib \<Rightarrow> hook_config \<Rightarrow> 's hook_store \<Rightarrow> time \<Rightarrow> string \<Rightarrow> counters \<Rightarrow> 's \<Rightarrow>
    go_error option \<times> counters \<times> 's" where
  "handlePush lib cfg st now body ct s =
     (case hl_push lib body of None \<Rightarrow> (Some (Plain ''parse push payload''), ct, s)
      | Some p \<Rightarrow>
          if \<not> onDefaultBranch p then (None, ct, s)
          else
            (let seen = list_ex (\<lambda>c. pr_merge (gitCommitSubject (cm_Message c))) (ps_Commits p);
                 (errs, ct, s) = revert_commits lib st now p seen (ps_Commits p) ct s;
                 (err, ct, s) = (if hc_push_capture cfg then capturePushOutcomes lib cfg st now p ct s else (None, ct, s));
                 errs = (case err of None \<Rightarrow> errs | Some e \<Rightarrow> errs @ [Wrapped ''capture push outcomes'' e])
             in (join_errors errs, ct, s)))"

end
