(* ===== verification/Push_Runs.thy ===== *)
theory Push_Runs
  imports Push_Ledger
begin

text \<open>
  Runs of the operations on outcomes and on the ledger of push commits: the invariant holds in every reachable
  state, a push delivered again writes nothing, and a push and the pull request of its commit may arrive in either
  order.
\<close>

section \<open>Runs\<close>

text \<open>What the server does to these tables; a call that returns an error rolled its transaction back.\<close>

datatype ledger_op =
    Push outcome string string time
  | Merged outcome
  | Reverted outcome string string time
  | Planned exclusion_identity string string time
  | Erased "string list"

definition keep_on_error :: "'x ldb \<Rightarrow> (string, 'a \<times> 'x ldb) res \<Rightarrow> 'x ldb" where
  "keep_on_error db r = (case r of Inl _ \<Rightarrow> db | Inr (_, db') \<Rightarrow> db')"

fun ledger_step :: "'x ledger_env \<Rightarrow> ledger_op \<Rightarrow> 'x ldb \<Rightarrow> 'x ldb" where
  "ledger_step env (Push o1 day sha pushedAt) db = keep_on_error db (RecordPushCommit env o1 day sha pushedAt db)"
| "ledger_step env (Merged o1) db = keep_on_error db (RecordPROutcome env o1 db)"
| "ledger_step env (Reverted o1 evidence actor now) db = keep_on_error db (excludePROutcome env o1 evidence actor now None db)"
| "ledger_step env (Planned x evidence actor now) db = keep_on_error db (ApplyPRExclusion env x evidence actor now db)"
| "ledger_step env (Erased devs) db = keep_on_error db (eraseSubjectPushLedger devs db)"

fun pr_source :: "ledger_op \<Rightarrow> bool" where
  "pr_source (Merged o1) = (o_Source o1 \<noteq> ''push'')"
| "pr_source (Reverted o1 _ _ _) = (o_Source o1 \<noteq> ''push'')"
| "pr_source _ = True"

definition ledger_run :: "'x ledger_env \<Rightarrow> ledger_op list \<Rightarrow> 'x ldb \<Rightarrow> 'x ldb" where
  "ledger_run env ops db = fold (ledger_step env) ops db"

definition empty_ldb :: "'x \<Rightarrow> 'x ldb" where
  "empty_ldb x = \<lparr>outcomes = [], ledger = [], push_audit = [], exclusions = [], next_outcome = 1, next_entry = 1,
     erase_epoch = 0, others = x\<rparr>"

lemma empty_ok: "db_ok {} {} (empty_ldb x)"
  by (simp add: db_ok_defs empty_ldb_def)

lemma ledger_step_ok: "db_ok {} {} db \<Longrightarrow> pr_source op \<Longrightarrow> db_ok {} {} (ledger_step env op db)"
  by (cases op)
    (auto simp: keep_on_error_def ApplyPRExclusion_def zero_outcome_def split: sum.splits
      dest: RecordPushCommit_ok RecordPROutcome_ok excludePROutcome_ok erase_ok)

lemma ledger_run_ok: "db_ok {} {} db \<Longrightarrow> list_all pr_source ops \<Longrightarrow> db_ok {} {} (ledger_run env ops db)"
  unfolding ledger_run_def by (induction ops arbitrary: db) (simp_all add: ledger_step_ok)

definition ex_ledger_env :: "unit ledger_env" where
  "ex_ledger_env = \<lparr>lv_prepare = (\<lambda>_. Inr ()), lv_fill = (\<lambda>_ _. Inr ()), lv_attach = (\<lambda>_ _. Inr ()),
     lv_touched = (\<lambda>_ _. Inr []), lv_refresh = (\<lambda>_ _. Inr ())\<rparr>"

definition ex_outcome :: "string \<Rightarrow> time \<Rightarrow> string \<Rightarrow> outcome" where
  "ex_outcome dev ts sha = zero_outcome\<lparr>o_Developer := dev, o_IssueID := ''issue-7'', o_Repo := ''a/b'', o_PRNumber := 3,
     o_Weight := 1 / 2, o_Quality := 1, o_Timestamp := ts, o_MergeCommitSHA := sha\<rparr>"

text \<open>
  C0. No commit is counted twice. Whatever sequence of captured pushes, merged pull requests, exclusions of
  reverted ones and erasures of developers from the ledger the server has served, and in whatever order the push and the pull request event of one
  merge arrived: no commit in the push ledger is the merge commit of a stored or of an excluded pull request; a
  merge commit has one outcome; a repository, an issue and a day have one push outcome; and a push outcome names the
  author and the time of the earliest commit it still holds.
\<close>

theorem no_commit_counted_twice:
  assumes "list_all pr_source ops" "db = ledger_run env ops (empty_ldb x)"
  shows "(\<forall>e \<in> set (ledger db). ValidPushCommitID (ce_sha e) \<longrightarrow> \<not> merged_sha db (ce_sha e) \<and> \<not> excluded_sha db (ce_sha e))
    \<and> distinct (filter (\<lambda>s. s \<noteq> None) (map or_sha (outcomes db)))
    \<and> distinct (map push_slot (filter is_push (outcomes db)))
    \<and> (\<forall>r \<in> set (outcomes db). is_push r \<longrightarrow> owned db r)"
  using ledger_run_ok [OF empty_ok assms(1), of env x] assms(2)
  by (simp add: db_ok_defs)

text \<open>Two pushes of one day by two authors, then the merge of the first: the row passes to the second author.\<close>

definition ex_ops :: "ledger_op list" where
  "ex_ops = [Push (ex_outcome ''ann'' 5 []) ''2026-01-01'' ''c1'' 0, Push (ex_outcome ''bob'' 6 []) ''2026-01-01'' ''c2'' 0,
     Merged (ex_outcome ''ann'' 5 ''c1'')]"

lemma no_commit_counted_twice_witness:
  "owned (ledger_run ex_ledger_env ex_ops (empty_ldb ())) (hd (outcomes (ledger_run ex_ledger_env ex_ops (empty_ldb ()))))
   \<and> map or_developer (outcomes (ledger_run ex_ledger_env ex_ops (empty_ldb ()))) = [''bob'', ''ann'']"
proof -
  let ?db = "ledger_run ex_ledger_env ex_ops (empty_ldb ())"
  have rows: "map or_developer (outcomes ?db) = [''bob'', ''ann'']" "map is_push (outcomes ?db) = [True, False]"
    by code_simp+
  have "list_all pr_source ex_ops" by code_simp
  then have "owned ?db (hd (outcomes ?db))"
    using no_commit_counted_twice [of ex_ops ?db ex_ledger_env "()"] rows by (cases "outcomes ?db") auto
  then show ?thesis using rows by simp
qed

section \<open>Redelivery\<close>

lemma merged_sha_audit [simp]: "merged_sha (insertPushAudit v act c db) sha = merged_sha db sha"
  by (simp add: merged_sha_def)

lemma rederive_keeps:
  assumes "rederivePushOwner v cause before db = Inr db'"
  shows "ledger db' = ledger db" "exclusions db' = exclusions db" "merged_sha db' sha = merged_sha db sha"
proof -
  have "ledger (set_owner i d t db) = ledger db" "exclusions (set_owner i d t db) = exclusions db"
    "merged_sha (set_owner i d t db) sha = merged_sha db sha" for i d t
    by (simp_all add: set_owner_tables merged_sha_def image_image)
  then show "ledger db' = ledger db" "exclusions db' = exclusions db" "merged_sha db' sha = merged_sha db sha"
    using assms by (auto simp: rederivePushOwner_def Let_def split: option.splits if_splits)
qed

lemma find_snoc_None: "find P xs = None \<Longrightarrow> find P (xs @ [x]) = (if P x then Some x else None)"
  by (induction xs) (auto split: if_splits)

lemma held_add_entry:
  "held_entry repo sha db = None \<Longrightarrow>
   \<exists>e. held_entry repo sha (add_entry repo sha i dev ts key db) = Some e \<and> ce_order e = key"
  by (simp add: held_entry_def add_entry_def find_snoc_None)

lemma held_lowered:
  "find (\<lambda>e. ce_repo e = repo \<and> ce_sha e = sha) es = Some h \<Longrightarrow>
   \<exists>e. find (\<lambda>e. ce_repo e = repo \<and> ce_sha e = sha)
         (map (\<lambda>e. if ce_repo e = repo \<and> ce_sha e = sha then e\<lparr>ce_order := key\<rparr> else e) es) = Some e \<and> ce_order e = key"
  by (induction es) (auto split: if_splits)

lemma mark_keeps:
  assumes "mark_row repo v created db = Inr db'"
  shows "outcomes db' = outcomes db" "exclusions db' = exclusions db" "next_outcome db' = next_outcome db"
  using assms by (auto simp: mark_row_def add_entry_def split: if_splits)

lemma upsert_keeps:
  assumes "upsertPushOutcomeRow o1 day db = Inr (created, db')"
  shows "ledger db' = ledger db" "exclusions db' = exclusions db" "merged_sha db' sha = merged_sha db sha"
  using assms by (auto simp: upsertPushOutcomeRow_def merged_sha_def push_row_def split: if_splits)

text \<open>A commit that was written is held at its push time, and its merge claims are as they were.\<close>

lemma push_written:
  assumes "RecordPushCommit env o1 day sha pushedAt db = Inr (st, db')" "db' \<noteq> db \<or> st = PushCommitRecorded"
  shows "(\<exists>e. held_entry (normalizeRepo (o_Repo o1)) sha db' = Some e \<and> ce_order e = pushOrderKey pushedAt)
    \<and> \<not> merged_sha db' sha \<and> \<not> excluded_sha db' sha"
proof -
  let ?repo = "normalizeRepo (o_Repo o1)"
  have same: "merged_sha (d\<lparr>others := y\<rparr>) s = merged_sha d s" "excluded_sha (d\<lparr>others := y\<rparr>) s = excluded_sha d s"
    "held_entry r s (d\<lparr>others := y\<rparr>) = held_entry r s d" for d :: "'a ldb" and y r s
    by (simp_all add: merged_sha_def excluded_sha_def held_entry_def)
  obtain x where x: "lv_prepare env db = Inr x" and new: "\<not> merged_sha db sha" "\<not> excluded_sha db sha"
    using assms by (auto simp: RecordPushCommit_def bind_res_Inr_iff on_others_Inr same split: if_splits)
  consider held where "held_entry ?repo sha db = Some held"
      "lower_order env ?repo sha (pushOrderKey pushedAt) held (db\<lparr>others := x\<rparr>) = Inr db'"
    | "enter_commit env o1 day sha pushedAt (db\<lparr>others := x\<rparr>) = Inr (Some db')"
    using assms x by (auto simp: RecordPushCommit_def bind_res_Inr_iff on_others_Inr same split: if_splits option.splits)
  then show ?thesis
  proof cases
    case (1 held)
    let ?db = "db\<lparr>others := x, ledger := map (\<lambda>e. if ce_repo e = ?repo \<and> ce_sha e = sha
        then e\<lparr>ce_order := pushOrderKey pushedAt\<rparr> else e) (ledger db)\<rparr>"
    obtain found d y where own: "(case found of None \<Rightarrow> Inr ?db
        | Some v \<Rightarrow> rederivePushOwner v (sha, ce_developer held) True ?db) = Inr d" and db': "db' = d\<lparr>others := y\<rparr>"
      using 1(2) by (auto simp: lower_order_def Let_def bind_res_Inr_iff on_others_Inr)
    have "ledger d = ledger ?db" "exclusions d = exclusions ?db" "merged_sha d sha = merged_sha ?db sha"
      using own by (cases found; force dest: rederive_keeps)+
    then show ?thesis
      using 1(1) held_lowered [of ?repo sha "ledger db" held "pushOrderKey pushedAt"] new
      by (simp add: db' held_entry_def merged_sha_def excluded_sha_def)
  next
    case 2
    then obtain created d1 v d2 d3 y where
      up: "upsertPushOutcomeRow o1 day (db\<lparr>others := x\<rparr>) = Inr (created, d1)" and mark: "mark_row ?repo v created d1 = Inr d2"
      and held: "held_entry ?repo sha d2 = None"
      and own: "rederivePushOwner v (sha, o_Developer o1) True
        (add_entry ?repo sha (pv_id v) (o_Developer o1) (o_Timestamp o1) (pushOrderKey pushedAt) d2) = Inr d3"
      and db': "db' = d3\<lparr>others := y\<rparr>"
      by (auto simp: enter_commit_def Let_def bind_res_Inr_iff on_others_Inr split: if_splits)
    let ?db = "add_entry ?repo sha (pv_id v) (o_Developer o1) (o_Timestamp o1) (pushOrderKey pushedAt) d2"
    have "merged_sha ?db sha = merged_sha db sha" "excluded_sha ?db sha = excluded_sha db sha"
      using upsert_keeps [OF up] mark_keeps [OF mark] by (simp_all add: add_entry_def merged_sha_def excluded_sha_def)
    then show ?thesis
      using held_add_entry [OF held] rederive_keeps [OF own] new
      by (simp add: db' held_entry_def merged_sha_def excluded_sha_def)
  qed
qed

text \<open>
  C0. A push delivered again writes nothing: after a commit was recorded, skipped or found held, the same call leaves
  every table as it is and never reports the commit as recorded.
\<close>

theorem redelivered_push_writes_nothing:
  assumes "RecordPushCommit env o1 day sha pushedAt db = Inr (st, db1)"
    "RecordPushCommit env o1 day sha pushedAt db1 = Inr (st', db2)"
  shows "db2 = db1 \<and> st' \<noteq> PushCommitRecorded"
proof (cases "db1 = db \<and> st \<noteq> PushCommitRecorded")
  case True
  then show ?thesis using assms by auto
next
  case False
  then have written: "db1 \<noteq> db \<or> st = PushCommitRecorded" by simp
  have same: "merged_sha (d\<lparr>others := y\<rparr>) s = merged_sha d s" "excluded_sha (d\<lparr>others := y\<rparr>) s = excluded_sha d s"
    "held_entry r s (d\<lparr>others := y\<rparr>) = held_entry r s d" for d :: "'a ldb" and y r s
    by (simp_all add: merged_sha_def excluded_sha_def held_entry_def)
  show ?thesis
    using push_written [OF assms(1) written] assms(2)
    by (auto simp: RecordPushCommit_def bind_res_Inr_iff on_others_Inr same split: if_splits)
qed

section \<open>The order of a push and its pull request\<close>

definition fresh_sha :: "string \<Rightarrow> 'x ldb \<Rightarrow> bool" where
  "fresh_sha sha db \<longleftrightarrow> sha \<notin> ce_sha ` set (ledger db) \<and> \<not> merged_sha db sha \<and> \<not> excluded_sha db sha"

text \<open>What the insert of a pull request leaves to the supersede.\<close>

lemma pr_tables:
  fixes db :: "'x ldb"
  assumes "RecordPROutcome env p db = Inr (b, db')" "\<not> merged_sha db (o_MergeCommitSHA p)"
    "\<not> excluded_sha db (o_MergeCommitSHA p)"
  obtains d1 d2 :: "'x ldb" where "b" "outcomes d1 = outcomes db @ [pr_row (next_outcome db) p]" "ledger d1 = ledger db"
    "supersede_valid (o_MergeCommitSHA p) d1 = Inr d2" "outcomes db' = outcomes d2" "ledger db' = ledger d2"
    "db_ok {} {} db \<and> o_Source p \<noteq> ''push'' \<longrightarrow> rows_ok d1"
proof -
  obtain x1 d1 x2 d2 x3 where ins: "insert_and_fill env p (db\<lparr>others := x1\<rparr>) = Inr (b, d1)"
    and sup: "supersede_valid (o_MergeCommitSHA p) (d1\<lparr>others := x2\<rparr>) = Inr d2" "db' = d2\<lparr>others := x3\<rparr>"
    using assms(1) by (auto simp: RecordPROutcome_def bind_res_Inr_iff on_others_Inr Let_def)
  have "b \<and> outcomes d1 = outcomes db @ [pr_row (next_outcome db) p] \<and> ledger d1 = ledger db"
    using ins assms(2,3)
    by (auto simp: insert_and_fill_def insertOutcomeRow_def bind_res_Inr_iff on_others_Inr merged_sha_def excluded_sha_def split: if_splits)
  then have d1: "b" "outcomes d1 = outcomes db @ [pr_row (next_outcome db) p]" "ledger d1 = ledger db" by simp_all
  show ?thesis
  proof (rule that [OF d1(1) _ _ sup(1)])
    have "rows_ok d1" if "db_ok {} {} db" "o_Source p \<noteq> ''push''"
      using insert_and_fill_ok [OF ins _ that(2)] that(1) by (simp only: db_ok_simps) (simp only: db_ok_def)
    then show "db_ok {} {} db \<and> o_Source p \<noteq> ''push'' \<longrightarrow> rows_ok (d1\<lparr>others := x2\<rparr>)"
      by (simp add: rows_ok_def)
  qed (simp_all add: d1 sup(2))
qed

lemma supersede_none: "sha \<notin> ce_sha ` set (ledger db) \<Longrightarrow> supersede_valid sha db = Inr db"
proof -
  assume "sha \<notin> ce_sha ` set (ledger db)"
  then have "filter (\<lambda>e. ce_sha e = sha) (ledger db) = []" "filter (\<lambda>e. ce_sha e \<noteq> sha) (ledger db) = ledger db"
    by (auto simp: filter_empty_conv filter_id_conv)
  then show ?thesis by (simp add: supersede_valid_def supersedePushCommit_def)
qed

text \<open>The push leaves one entry of its commit, on the day's row, which keeps its owner once the entry is gone.\<close>

lemma owned_ledger: "ledger d = ledger d' \<Longrightarrow> owned d r = owned d' r"
  by (simp add: owned_def earliest_def entries_of_def)

lemma push_tables:
  fixes db :: "'x ldb"
  assumes "RecordPushCommit env o1 day sha pushedAt db = Inr (st, db')" "db_ok {} {} db" "fresh_sha sha db"
  obtains r :: outcome_row and d2 :: "'x ldb" and e d t where "st = PushCommitRecorded" "ValidPushCommitID sha" "is_push r"
    "ledger db' = ledger d2 @ [e]" "ce_sha e = sha" "ce_outcome e = or_id r" "sha \<notin> ce_sha ` set (ledger d2)"
    "outcomes db' = map (reown (or_id r) d t) (if r \<in> set (outcomes db) then outcomes db else outcomes db @ [r])"
    "r \<in> set (outcomes db) \<longrightarrow> entries_of (or_id r) d2 \<noteq> [] \<and> owned d2 r"
    "r \<notin> set (outcomes db) \<longrightarrow> or_id r = next_outcome db \<and> entries_of (or_id r) d2 = []"
proof -
  let ?repo = "normalizeRepo (o_Repo o1)"
  have same: "merged_sha (d\<lparr>others := y\<rparr>) s = merged_sha d s" "excluded_sha (d\<lparr>others := y\<rparr>) s = excluded_sha d s"
    "held_entry r s (d\<lparr>others := y\<rparr>) = held_entry r s d" for d :: "'a ldb" and y r s
    by (simp_all add: merged_sha_def excluded_sha_def held_entry_def)
  have none: "held_entry ?repo sha db = None" using assms(3) by (auto simp: held_None fresh_sha_def)
  have valid: "ValidPushCommitID sha" using assms(1) by (simp add: RecordPushCommit_def split: if_splits)
  obtain x where enter: "enter_commit env o1 day sha pushedAt (db\<lparr>others := x\<rparr>) = Inr (Some db') \<and> st = PushCommitRecorded
      \<or> enter_commit env o1 day sha pushedAt (db\<lparr>others := x\<rparr>) = Inr None"
    using assms(1,3) none
    by (auto simp: RecordPushCommit_def fresh_sha_def bind_res_Inr_iff on_others_Inr same split: if_splits option.splits)
  then obtain created d1 v d2 where
    up: "upsertPushOutcomeRow o1 day (db\<lparr>others := x\<rparr>) = Inr (created, d1)"
    and load: "loadPushRowByKey ?repo (o_IssueID o1) day d1 = Inr v" and mark: "mark_row ?repo v created d1 = Inr d2"
    by (auto simp: enter_commit_def Let_def bind_res_Inr_iff split: if_splits)
  obtain r where r: "r \<in> set (outcomes d1)" "push_key ?repo (o_IssueID o1) day r" "view_of r v" "is_push r" "or_repo r = ?repo"
    using loadPushRowByKey_row [OF load] by metis
  have id: "pv_id v = or_id r" using r(3) by (simp add: view_of_def)
  have ok1: "db_ok {} {} d1" and led1: "ledger d1 = ledger db" using upsert_ok [OF up] assms(2) by simp_all
  have ok2: "db_ok {} {} d2" "outcomes d2 = outcomes d1" using mark_row_ok [OF mark ok1 r(1,3-5)] by auto
  have fresh2: "sha \<notin> ce_sha ` set (ledger d2)"
    using mark assms(3) led1 valid not_valid_marker by (auto simp: mark_row_def add_entry_def fresh_sha_def split: if_splits)
  then have held: "held_entry ?repo sha d2 = None" by (auto simp: held_None)
  let ?db = "add_entry ?repo sha (pv_id v) (o_Developer o1) (o_Timestamp o1) (pushOrderKey pushedAt) d2"
  obtain d3 y where own: "rederivePushOwner v (sha, o_Developer o1) True ?db = Inr d3" and db': "db' = d3\<lparr>others := y\<rparr>"
    and st: "st = PushCommitRecorded"
    using enter up load mark held by (auto simp: enter_commit_def Let_def bind_res_Inr_iff on_others_Inr)
  have rows: "rows_ok ?db" "r \<in> set (outcomes ?db)" "outcomes ?db = outcomes d1"
    using ok2 r(1) by (auto simp: db_ok_def rows_ok_def add_entry_def)
  obtain d t where out: "outcomes db' = map (reown (or_id r) d t) (outcomes d1)" and led: "ledger db' = ledger ?db"
    using rederive_tables [OF own rows(1,2) r(3)] rows(3) by (metis db' ldb.select_convs(1,2) ldb.surjective ldb.update_convs(8))
  have cases: "if r \<in> set (outcomes db) then outcomes d1 = outcomes db \<and> entries_of (or_id r) d2 \<noteq> []
      else outcomes d1 = outcomes db @ [r] \<and> or_id r = next_outcome db \<and> entries_of (or_id r) d2 = []"
  proof (cases created)
    case True
    then have d1: "d1 = db\<lparr>others := x, outcomes := outcomes db @ [push_row (next_outcome db) o1 day], next_outcome := next_outcome db + 1\<rparr>"
      and new: "\<forall>r \<in> set (outcomes db). \<not> push_key ?repo (o_IssueID o1) day r"
      using up by (auto simp: upsertPushOutcomeRow_def split: if_splits)
    then have "r = push_row (next_outcome db) o1 day" "r \<notin> set (outcomes db)" using r(1,2) by auto
    moreover have "d2 = d1" using mark True by (simp add: mark_row_def)
    moreover have "\<forall>e \<in> set (ledger db). ce_outcome e < next_outcome db"
      using assms(2) by (fastforce simp: db_ok_def entries_ok_def rows_ok_def)
    ultimately show ?thesis by (auto simp: d1 push_row_def entries_of_def filter_empty_conv)
  next
    case False
    then have "d1 = db\<lparr>others := x\<rparr>" using up by (auto simp: upsertPushOutcomeRow_def split: if_splits)
    then show ?thesis
      using mark False r(1) by (auto simp: mark_row_def entries_of_def add_entry_def id split: if_splits)
  qed
  show ?thesis
  proof (rule that [OF st valid r(4) _ _ _ fresh2])
    show "ledger db' = ledger d2 @ [\<lparr>ce_id = next_entry d2, ce_repo = ?repo, ce_sha = sha, ce_outcome = or_id r,
        ce_developer = o_Developer o1, ce_ts = o_Timestamp o1, ce_order = pushOrderKey pushedAt\<rparr>]"
      by (simp add: led add_entry_def id)
    show "outcomes db' = map (reown (or_id r) d t) (if r \<in> set (outcomes db) then outcomes db else outcomes db @ [r])"
      using cases by (simp add: out split: if_splits)
    show "r \<in> set (outcomes db) \<longrightarrow> entries_of (or_id r) d2 \<noteq> [] \<and> owned d2 r"
      using cases ok2 r(1,4) by (auto simp: db_ok_def owners_ok_def)
    show "r \<notin> set (outcomes db) \<longrightarrow> or_id r = next_outcome db \<and> entries_of (or_id r) d2 = []"
      using cases by (auto simp only: if_False)
  qed simp_all
qed

text \<open>Removing the one entry of a commit undoes what its push did to the rows.\<close>

lemma supersede_one:
  assumes "supersedePushCommit sha db = Inr db'" "ledger db = es @ [e]" "ce_sha e = sha" "sha \<notin> ce_sha ` set es"
  shows "\<exists>b. reconcilePushRow (ce_outcome e) (sha, ce_developer e) False (db\<lparr>ledger := es\<rparr>) = Inr (b, db')"
proof -
  have "filter (\<lambda>e. ce_sha e = sha) es = []" "filter (\<lambda>e. ce_sha e \<noteq> sha) es = es"
    using assms(4) by (auto simp: filter_empty_conv filter_id_conv)
  then show ?thesis
    using assms(1-3) by (auto simp: supersedePushCommit_def bind_res_Inr_iff)
qed

lemma reown_reown: "reown i d t (reown i d' t' r) = reown i d t r"
  by (simp add: reown_def)

lemma reown_owner:
  assumes "rows_ok db" "r \<in> set (outcomes db)"
  shows "map (reown (or_id r) (or_developer r) (or_ts r)) (outcomes db) = outcomes db"
  using assms by (intro map_idI) (metis reown_other reown_same same_id)

lemma reconcile_undoes:
  assumes "reconcilePushRow (or_id r) cause False d = Inr (b, d')" "rows_ok db" "rows_ok d"
    "outcomes d = map (reown (or_id r) dev ts) (if r \<in> set (outcomes db) then outcomes db else outcomes db @ [r]) @ [q]"
    "is_push r" "\<not> is_push q" "or_id q \<noteq> or_id r" "ledger d = ledger d2"
    "r \<in> set (outcomes db) \<Longrightarrow> entries_of (or_id r) d2 \<noteq> [] \<and> owned d2 r"
    "r \<notin> set (outcomes db) \<Longrightarrow> or_id r = next_outcome db \<and> entries_of (or_id r) d2 = []"
  shows "outcomes d' = outcomes db @ [q]"
proof -
  have in_d: "reown (or_id r) dev ts r \<in> set (outcomes d)" using assms(4) by auto
  obtain found where load: "loadPushRowByID (or_id r) d = Inr found"
    using assms(1) by (auto simp: reconcilePushRow_def bind_res_Inr_iff)
  have es: "entries_of (or_id r) d = entries_of (or_id r) d2" "owned d r = owned d2 r" "earliest (or_id r) d = earliest (or_id r) d2"
    using assms(8) owned_ledger [OF assms(8)] by (simp_all add: entries_of_def earliest_def)
  from load show ?thesis
  proof (cases rule: loadPushRowByID_cases)
    case 1
    then show ?thesis using bspec [OF 1(2) in_d] assms(5) by simp
  next
    case (2 r' v)
    then have id: "pv_id v = or_id r" by (simp add: view_of_def)
    show ?thesis
    proof (cases "r \<in> set (outcomes db)")
      case True
      then have "rederivePushOwner v cause True d = Inr d'"
        using assms(1,9) load 2(1) es by (simp add: reconcilePushRow_def id bind_res_Inr_iff)
      then obtain e where e: "earliest (or_id r') d = Some e" "outcomes d' = map (reown (or_id r') (ce_developer e) (ce_ts e)) (outcomes d)"
        using rederive_tables [OF _ assms(3) 2(2,5)] by blast
      have "ce_developer e = or_developer r" "ce_ts e = or_ts r"
        using assms(9) [OF True] e(1) es(3) 2(4) by (simp_all add: owned_def)
      then have "outcomes d' = map (reown (or_id r) (or_developer r) (or_ts r)) (map (reown (or_id r) dev ts) (outcomes db) @ [q])"
        using e(2) assms(4) True 2(4) by simp
      also have "\<dots> = map (reown (or_id r) (or_developer r) (or_ts r)) (outcomes db) @ [q]"
        using reown_other [OF assms(7)] by (simp add: comp_def reown_reown)
      finally show ?thesis using reown_owner [OF assms(2) True] by simp
    next
      case False
      then have none: "entries_of (or_id r) d = []" and new: "or_id r = next_outcome db" using assms(10) es by auto
      have "outcomes d' = filter (\<lambda>x. or_id x \<noteq> or_id r) (outcomes d)"
        using assms(1) load 2(1) none by (auto simp: reconcilePushRow_def id Let_def)
      moreover have "\<forall>x \<in> set (outcomes db). or_id x \<noteq> or_id r" using assms(2) new by (auto simp: rows_ok_def)
      moreover have "map (reown (or_id r) dev ts) (outcomes db) = outcomes db"
        using calculation(2) by (intro map_idI) (simp add: reown_other)
      ultimately show ?thesis
        using False assms(4,7) by (simp add: filter_id_conv)
    qed
  qed
qed

definition uncounted :: "outcome_row \<Rightarrow> outcome_row" where "uncounted r = r\<lparr>or_id := 0\<rparr>"

text \<open>C23. A squash merge counts once, whichever of its push and its pull request event arrives first. For a commit the
  tables of a run do not know, and a pull request that is not of the push source, when the four calls succeed: if the push is recorded and then the pull request, or the pull request and then the push, both
  pull requests are inserted, the later push is skipped as captured, and the outcomes are the same rows in the same
  order with the same owners, up to the ids the store assigns.
\<close>

theorem push_and_merge_commute:
  fixes db :: "'x ldb"
  assumes "db = ledger_run env ops (empty_ldb x)" "list_all pr_source ops" "fresh_sha (o_MergeCommitSHA p) db" "o_Source p \<noteq> ''push''"
    and push_first: "RecordPushCommit env o1 day (o_MergeCommitSHA p) pushedAt db = Inr (st1, a1)"
      "RecordPROutcome env p a1 = Inr (ins1, a2)"
    and merge_first: "RecordPROutcome env p db = Inr (ins2, b1)"
      "RecordPushCommit env o1 day (o_MergeCommitSHA p) pushedAt b1 = Inr (st2, b2)"
  shows "ins1 \<and> ins2 \<and> st1 = PushCommitRecorded \<and> st2 = PushCommitPRCaptured
    \<and> map uncounted (outcomes a2) = map uncounted (outcomes b2)"
proof -
  let ?sha = "o_MergeCommitSHA p"
  have ok: "db_ok {} {} db" using ledger_run_ok [OF empty_ok assms(2)] assms(1) by simp
  have fresh: "?sha \<notin> ce_sha ` set (ledger db)" "\<not> merged_sha db ?sha" "\<not> excluded_sha db ?sha"
    using assms(3) by (simp_all add: fresh_sha_def)
  obtain r :: outcome_row and d2 :: "'x ldb" and e d t where st1: "st1 = PushCommitRecorded" and valid: "ValidPushCommitID ?sha" and push: "is_push r"
    and led: "ledger a1 = ledger d2 @ [e]" "ce_sha e = ?sha" "ce_outcome e = or_id r" "?sha \<notin> ce_sha ` set (ledger d2)"
    and out: "outcomes a1 = map (reown (or_id r) d t) (if r \<in> set (outcomes db) then outcomes db else outcomes db @ [r])"
    and old: "r \<in> set (outcomes db) \<longrightarrow> entries_of (or_id r) d2 \<noteq> [] \<and> owned d2 r"
    and new: "r \<notin> set (outcomes db) \<longrightarrow> or_id r = next_outcome db \<and> entries_of (or_id r) d2 = []"
    using push_tables [OF push_first(1) ok assms(3)] .
  have ok1: "db_ok {} {} a1" using RecordPushCommit_ok [OF push_first(1) ok] .
  have a1: "\<not> merged_sha a1 ?sha" "\<not> excluded_sha a1 ?sha" using push_written [OF push_first(1)] st1 by simp_all
  obtain c1 c2 :: "'x ldb" where ins1: ins1 and c1: "outcomes c1 = outcomes a1 @ [pr_row (next_outcome a1) p]" "ledger c1 = ledger a1"
    and sup1: "supersede_valid ?sha c1 = Inr c2" "outcomes a2 = outcomes c2" and "ledger a2 = ledger c2"
    and "db_ok {} {} a1 \<and> o_Source p \<noteq> ''push'' \<longrightarrow> rows_ok c1"
    using pr_tables [OF push_first(2) a1] .
  then have c1_ok: "rows_ok c1" using ok1 assms(4) by simp
  obtain b where undo: "reconcilePushRow (or_id r) (?sha, ce_developer e) False (c1\<lparr>ledger := ledger d2\<rparr>) = Inr (b, c2)"
    using supersede_one [of ?sha c1 c2 "ledger d2" e] sup1(1) valid led c1(2) by (auto simp: supersede_valid_def)
  have "reown (or_id r) d t r \<in> set (outcomes a1)" using out by auto
  then have "or_id r < next_outcome a1" using ok1 by (force simp: db_ok_def rows_ok_def)
  then have other: "or_id (pr_row (next_outcome a1) p) \<noteq> or_id r" by (simp add: pr_row_def)
  have no_push: "\<not> is_push (pr_row (next_outcome a1) p)"
    using assms(4) by (simp add: is_push_def pr_row_def or_default_def)
  have rows: "rows_ok db" "rows_ok (c1\<lparr>ledger := ledger d2\<rparr>)"
    using ok c1_ok by (simp only: db_ok_def, simp add: rows_ok_def)
  have "outcomes (c1\<lparr>ledger := ledger d2\<rparr>) = map (reown (or_id r) d t)
      (if r \<in> set (outcomes db) then outcomes db else outcomes db @ [r]) @ [pr_row (next_outcome a1) p]"
    using c1(1) out by simp
  then have "outcomes c2 = outcomes db @ [pr_row (next_outcome a1) p]"
    by (rule reconcile_undoes [OF undo rows _ push no_push other _ old [rule_format] new [rule_format]]) simp_all
  moreover obtain e1 e2 :: "'x ldb" where ins2: ins2 and "outcomes e1 = outcomes db @ [pr_row (next_outcome db) p]" "ledger e1 = ledger db"
    "supersede_valid ?sha e1 = Inr e2" "outcomes b1 = outcomes e2" "ledger b1 = ledger e2"
    "db_ok {} {} db \<and> o_Source p \<noteq> ''push'' \<longrightarrow> rows_ok e1"
    using pr_tables [OF merge_first(1) fresh(2,3)] .
  then have b1: "outcomes b1 = outcomes db @ [pr_row (next_outcome db) p]" using supersede_none [of ?sha e1] fresh(1) by simp
  then have "merged_sha b1 ?sha" using valid by (simp add: merged_sha_def pr_row_def nullif_empty_def ValidPushCommitID_def)
  then have "st2 = PushCommitPRCaptured \<and> b2 = b1"
    using merge_first(2) by (auto simp: RecordPushCommit_def bind_res_Inr_iff on_others_Inr merged_sha_def split: if_splits)
  ultimately show ?thesis using ins1 ins2 st1 sup1(2) b1 by (simp add: uncounted_def pr_row_def)
qed

text \<open>A second push of the day and its merge, in both orders.\<close>

definition ex_day :: "unit ldb" where
  "ex_day = ledger_run ex_ledger_env [Push (ex_outcome ''bob'' 6 []) ''2026-01-01'' ''c2'' 0] (empty_ldb ())"

lemma push_and_merge_commute_witness:
  "case RecordPushCommit ex_ledger_env (ex_outcome ''ann'' 5 []) ''2026-01-01'' ''c1'' 0 ex_day of Inl _ \<Rightarrow> False | Inr (_, a1) \<Rightarrow>
   case RecordPROutcome ex_ledger_env (ex_outcome ''ann'' 5 ''c1'') a1 of Inl _ \<Rightarrow> False | Inr (_, a2) \<Rightarrow>
   case RecordPROutcome ex_ledger_env (ex_outcome ''ann'' 5 ''c1'') ex_day of Inl _ \<Rightarrow> False | Inr (_, b1) \<Rightarrow>
   map uncounted (outcomes a2) = map uncounted (outcomes b1)"
proof -
  let ?p = "ex_outcome ''ann'' 5 ''c1''"
  let ?push = "RecordPushCommit ex_ledger_env (ex_outcome ''ann'' 5 []) ''2026-01-01'' ''c1'' 0"
  define r1 where "r1 = ?push ex_day"
  define r2 where "r2 = (case r1 of Inr (_, a1) \<Rightarrow> RecordPROutcome ex_ledger_env ?p a1 | Inl e \<Rightarrow> Inl e)"
  define s1 where "s1 = RecordPROutcome ex_ledger_env ?p ex_day"
  define s2 where "s2 = (case s1 of Inr (_, b1) \<Rightarrow> ?push b1 | Inl e \<Rightarrow> Inl e)"
  have "isl r1 = False" "isl r2 = False" "isl s1 = False" "isl s2 = False"
    unfolding r1_def r2_def s1_def s2_def by code_simp+
  then obtain st1 a1 i1 a2 i2 b1 st2 b2 where r: "r1 = Inr (st1, a1)" "r2 = Inr (i1, a2)" "s1 = Inr (i2, b1)" "s2 = Inr (st2, b2)"
    by (metis isl_def sum.exhaust_sel surj_pair)
  have sha: "o_MergeCommitSHA ?p = ''c1''" by (simp add: ex_outcome_def zero_outcome_def)
  have p: "fresh_sha (o_MergeCommitSHA ?p) ex_day" "o_Source ?p \<noteq> ''push''"
    "list_all pr_source [Push (ex_outcome ''bob'' 6 []) ''2026-01-01'' ''c2'' 0]" by code_simp+
  have runs: "?push ex_day = Inr (st1, a1)" "RecordPROutcome ex_ledger_env ?p a1 = Inr (i1, a2)"
    "RecordPROutcome ex_ledger_env ?p ex_day = Inr (i2, b1)" "?push b1 = Inr (st2, b2)"
    using r by (simp_all add: r1_def r2_def s1_def s2_def)
  have "b2 = b1"
    using runs(4) push_and_merge_commute [OF ex_day_def p(3,1,2), unfolded sha, OF runs(1)]
      runs by (auto simp: RecordPushCommit_def bind_res_Inr_iff split: if_splits option.splits)
  then show ?thesis
    using push_and_merge_commute [OF ex_day_def p(3,1,2), unfolded sha, OF runs(1-3)] runs by simp
qed

lemma redelivered_push_writes_nothing_witness:
  "case RecordPushCommit ex_ledger_env (ex_outcome ''bob'' 6 []) ''2026-01-01'' ''c2'' 0 ex_day of Inl _ \<Rightarrow> False
   | Inr (st, db) \<Rightarrow> st \<noteq> PushCommitRecorded \<and> db = ex_day"
proof -
  let ?push = "RecordPushCommit ex_ledger_env (ex_outcome ''bob'' 6 []) ''2026-01-01'' ''c2'' 0"
  have first: "?push (empty_ldb ()) = Inr (PushCommitRecorded, ex_day)" by code_simp
  have "isl (?push ex_day) = False" by code_simp
  then obtain st db where "?push ex_day = Inr (st, db)" by (metis isl_def sum.exhaust_sel surj_pair)
  then show ?thesis using redelivered_push_writes_nothing [OF first] by simp
qed

end
