(* ===== verification/Webhook.thy ===== *)
theory Webhook
  imports Webhook_Events Push_Runs
begin

text \<open>
  The entry of GitHub deliveries, \<^verbatim>\<open>ServeHTTP\<close> of \<^verbatim>\<open>src/internal/webhook/handler.go\<close>: authentication, the audit
  copy, the window of delivery GUIDs and the dispatch to the handlers of \<^verbatim>\<open>Webhook_Events\<close>. One request is one step:
  the deliveries are processed one after the other. Reading the body (\<^verbatim>\<open>body.go\<close>) and HMAC-SHA256 are arguments.
\<close>

section \<open>The window of deliveries\<close>

record delivery_set =
  ds_seen :: "string list"
  ds_ring :: "string list"
  ds_next :: nat

definition deliveryWindow :: nat where "deliveryWindow = 1024"

definition newDeliverySet :: "nat \<Rightarrow> delivery_set" where
  "newDeliverySet n = \<lparr>ds_seen = [], ds_ring = replicate n [], ds_next = 0\<rparr>"

definition firstSeen :: "string \<Rightarrow> delivery_set \<Rightarrow> bool \<times> delivery_set" where
  "firstSeen key d =
     (if key \<in> set (ds_seen d) then (False, d)
      else
        (let old = ds_ring d ! ds_next d;
             seen = (if old \<noteq> [] then removeAll old (ds_seen d) else ds_seen d)
         in (True, \<lparr>ds_seen = key # seen, ds_ring = (ds_ring d)[ds_next d := key],
                    ds_next = (ds_next d + 1) mod length (ds_ring d)\<rparr>)))"

fun blank_first :: "string \<Rightarrow> string list \<Rightarrow> string list" where
  "blank_first key [] = []"
| "blank_first key (v # vs) = (if v = key then [] # vs else v # blank_first key vs)"

definition forget :: "string \<Rightarrow> delivery_set \<Rightarrow> delivery_set" where
  "forget key d =
     (if key \<notin> set (ds_seen d) then d
      else d\<lparr>ds_seen := removeAll key (ds_seen d), ds_ring := blank_first key (ds_ring d)\<rparr>)"

text \<open>The map and the ring agree, and the ring holds no key twice.\<close>

definition window_ok :: "delivery_set \<Rightarrow> bool" where
  "window_ok d \<longleftrightarrow> ds_next d < length (ds_ring d) \<and> distinct (ds_seen d) \<and> distinct (filter (\<lambda>v. v \<noteq> []) (ds_ring d))
     \<and> set (ds_seen d) = set (ds_ring d) - {[]}"

lemma new_ok: "0 < n \<Longrightarrow> window_ok (newDeliverySet n)"
  by (simp add: window_ok_def newDeliverySet_def)

lemma blank_first_length [simp]: "length (blank_first key vs) = length vs"
  by (induction vs) auto

lemma blank_first_set:
  "distinct (filter (\<lambda>v. v \<noteq> []) vs) \<Longrightarrow> key \<noteq> [] \<Longrightarrow>
   set (blank_first key vs) - {[]} = set vs - {[], key} \<and> distinct (filter (\<lambda>v. v \<noteq> []) (blank_first key vs))"
  by (induction vs) (auto split: if_splits)

lemma blank_first_other: "vs ! p \<noteq> key \<Longrightarrow> blank_first key vs ! p = vs ! p"
  by (induction vs arbitrary: p) (auto simp: nth_Cons split: nat.splits)

lemma ring_update:
  assumes "distinct (filter (\<lambda>v. v \<noteq> []) vs)" "i < length vs" "key \<notin> set vs"
  shows "set (vs[i := key]) - {[]} = insert key (set vs - {vs ! i}) - {[]}"
    and "distinct (filter (\<lambda>v. v \<noteq> []) (vs[i := key]))"
proof -
  have vs: "vs = take i vs @ vs ! i # drop (Suc i) vs" "vs[i := key] = take i vs @ key # drop (Suc i) vs"
    using assms(2) by (simp_all add: id_take_nth_drop upd_conv_take_nth_drop)
  have parts: "set (take i vs) \<subseteq> set vs" "set (drop (Suc i) vs) \<subseteq> set vs" by (simp_all add: set_take_subset set_drop_subset)
  have "distinct (filter (\<lambda>v. v \<noteq> []) (take i vs @ vs ! i # drop (Suc i) vs))" using assms(1) vs(1) by simp
  then have d: "vs ! i \<noteq> [] \<Longrightarrow> vs ! i \<notin> set (take i vs) \<union> set (drop (Suc i) vs)"
    "distinct (filter (\<lambda>v. v \<noteq> []) (take i vs @ drop (Suc i) vs))" by (auto split: if_splits)
  have "set vs = insert (vs ! i) (set (take i vs) \<union> set (drop (Suc i) vs))" by (subst vs(1)) auto
  then show "set (vs[i := key]) - {[]} = insert key (set vs - {vs ! i}) - {[]}"
    using d(1) assms(3) unfolding vs(2) by auto
  show "distinct (filter (\<lambda>v. v \<noteq> []) (vs[i := key]))"
    using d(2) assms(3) parts unfolding vs(2) by (auto split: if_splits)
qed

lemma firstSeen_ok:
  assumes "window_ok d" "key \<noteq> []"
  shows "window_ok (snd (firstSeen key d)) \<and> length (ds_ring (snd (firstSeen key d))) = length (ds_ring d)
    \<and> key \<in> set (ds_seen (snd (firstSeen key d)))"
proof (cases "key \<in> set (ds_seen d)")
  case True
  then show ?thesis using assms by (simp add: firstSeen_def)
next
  case False
  then have new: "key \<notin> set (ds_ring d)" using assms by (auto simp: window_ok_def)
  let ?old = "ds_ring d ! ds_next d"
  have d: "ds_next d < length (ds_ring d)" "distinct (ds_seen d)" "distinct (filter (\<lambda>v. v \<noteq> []) (ds_ring d))"
    "set (ds_seen d) = set (ds_ring d) - {[]}" using assms(1) by (simp_all add: window_ok_def)
  define seen where "seen = (if ?old \<noteq> [] then removeAll ?old (ds_seen d) else ds_seen d)"
  have first: "snd (firstSeen key d) = \<lparr>ds_seen = key # seen, ds_ring = (ds_ring d)[ds_next d := key],
      ds_next = (ds_next d + 1) mod length (ds_ring d)\<rparr>"
    using False by (simp add: firstSeen_def seen_def Let_def)
  have "set seen = set (ds_ring d) - {?old} - {[]}" "distinct seen" using d(2,4) by (auto simp: seen_def distinct_removeAll)
  moreover note ring_update [OF d(3,1) new]
  moreover have "(ds_next d + 1) mod length (ds_ring d) < length (ds_ring d)" using d(1) by (intro mod_less_divisor) linarith
  ultimately show ?thesis
    using assms(2) new by (simp only: first window_ok_def delivery_set.simps length_list_update list.set distinct.simps) auto
qed

lemma forget_ok:
  assumes "window_ok d"
  shows "window_ok (forget key d) \<and> length (ds_ring (forget key d)) = length (ds_ring d)"
proof (cases "key \<in> set (ds_seen d)")
  case True
  then have "key \<noteq> []" using assms by (auto simp: window_ok_def)
  then show ?thesis
    using True assms blank_first_set [of "ds_ring d" key]
    by (auto simp: forget_def window_ok_def distinct_removeAll)
qed (use assms in \<open>simp add: forget_def\<close>)

text \<open>The map never outgrows the ring.\<close>

lemma window_bounded: "window_ok d \<Longrightarrow> length (ds_seen d) \<le> length (ds_ring d)"
proof -
  assume "window_ok d"
  then have "length (ds_seen d) = card (set (ds_ring d) - {[]})" by (simp add: window_ok_def distinct_card [symmetric])
  also have "\<dots> \<le> card (set (ds_ring d))" by (simp add: card_Diff_subset_Int card_mono)
  also have "\<dots> \<le> length (ds_ring d)" by (rule card_length)
  finally show ?thesis .
qed

text \<open>A key sits in slot \<open>p\<close> until \<open>k\<close> more admissions wrap around to it.\<close>

definition held_at :: "string \<Rightarrow> nat \<Rightarrow> nat \<Rightarrow> delivery_set \<Rightarrow> bool" where
  "held_at key p k d \<longleftrightarrow> window_ok d \<and> p < length (ds_ring d) \<and> ds_ring d ! p = key \<and> key \<noteq> [] \<and>
     ds_next d = (p + 1 + k) mod length (ds_ring d)"

lemma held_at_seen:
  assumes "held_at key p k d"
  shows "key \<in> set (ds_seen d)"
proof -
  have "key \<in> set (ds_ring d)" "key \<noteq> []" using assms by (auto simp: held_at_def)
  moreover have "set (ds_seen d) = set (ds_ring d) - {[]}" using assms by (simp add: held_at_def window_ok_def)
  ultimately show ?thesis by simp
qed

lemma mod_apart: "k + 1 < n \<Longrightarrow> (p + 1 + k) mod n \<noteq> (p :: nat) mod n"
proof
  assume k: "k + 1 < n" and eq: "(p + 1 + k) mod n = p mod n"
  then have "n dvd (k + 1)" by (metis add.assoc add.commute add_diff_cancel_left' le_add1 mod_eq_dvd_iff_nat)
  then show False using k by (auto dest: dvd_imp_le)
qed

lemma firstSeen_held:
  assumes "held_at key p k d" "key' \<noteq> []" "key' \<noteq> key" "k + 1 < length (ds_ring d)"
  shows "\<exists>k' \<le> k + 1. held_at key p k' (snd (firstSeen key' d))"
proof (cases "key' \<in> set (ds_seen d)")
  case True
  then show ?thesis using assms(1) by (auto simp: firstSeen_def intro!: exI [of _ k])
next
  case False
  have ok: "window_ok (snd (firstSeen key' d))" "length (ds_ring (snd (firstSeen key' d))) = length (ds_ring d)"
    using firstSeen_ok [of d key'] assms(1,2) by (auto simp: held_at_def)
  have "ds_next d \<noteq> p" using assms(1,4) mod_apart [of k "length (ds_ring d)" p] by (auto simp: held_at_def)
  then have "held_at key p (k + 1) (snd (firstSeen key' d))"
    using ok assms(1) False by (auto simp: held_at_def firstSeen_def Let_def mod_Suc_eq)
  then show ?thesis by blast
qed

lemma forget_held: "held_at key p k d \<Longrightarrow> key' \<noteq> key \<Longrightarrow> held_at key p k (forget key' d)"
  using forget_ok [of d key'] blank_first_other [of "ds_ring d" p key']
  by (auto simp: held_at_def forget_def)

lemma admitted_held:
  assumes "window_ok d" "key \<noteq> []" "key \<notin> set (ds_seen d)"
  shows "held_at key (ds_next d) 0 (snd (firstSeen key d))"
  using firstSeen_ok [OF assms(1,2)] assms by (auto simp: held_at_def firstSeen_def window_ok_def Let_def)

section \<open>Requests\<close>

datatype body_read = BodyRead string | BodyOverflow | BodyBusy | BodyTimeout | BodyFailed

record delivery =
  dl_Method :: string
  dl_Event :: string
  dl_ID :: string
  dl_Signature :: string
  dl_Body :: body_read
  dl_Now :: time

record 's hook_state =
  hk_deliveries :: delivery_set
  hk_counters :: counters
  hk_oversized :: "string list"
  hk_store :: 's

record answer =
  an_Status :: nat
  an_RetryAfter :: bool

definition status :: "nat \<Rightarrow> answer" where "status n = \<lparr>an_Status = n, an_RetryAfter = False\<rparr>"

definition persistedEvent :: "string \<Rightarrow> bool" where
  "persistedEvent e \<longleftrightarrow> e = ''pull_request'' \<or> e = ''push'' \<or> e = ''workflow_run''"

definition eventLabel :: "string \<Rightarrow> string" where
  "eventLabel e = (if persistedEvent e then e else ''other'')"

text \<open>\<^verbatim>\<open>hex.DecodeString\<close>.\<close>

definition hex_value :: "char \<Rightarrow> nat option" where
  "hex_value c =
     (let n = (of_char c :: nat)
      in if 48 \<le> n \<and> n \<le> 57 then Some (n - 48) else if 97 \<le> n \<and> n \<le> 102 then Some (n - 87)
         else if 65 \<le> n \<and> n \<le> 70 then Some (n - 55) else None)"

fun hex_decode :: "string \<Rightarrow> string option" where
  "hex_decode [] = Some []"
| "hex_decode [c] = None"
| "hex_decode (a # b # s) =
     (case (hex_value a, hex_value b) of
        (Some x, Some y) \<Rightarrow> map_option (\<lambda>r. char_of (16 * x + y) # r) (hex_decode s)
      | _ \<Rightarrow> None)"

definition verifySignature :: "(string \<Rightarrow> string \<Rightarrow> string) \<Rightarrow> string \<Rightarrow> string \<Rightarrow> string \<Rightarrow> bool" where
  "verifySignature hmac secret body sigHeader \<longleftrightarrow>
     (case cut_prefix ''sha256='' sigHeader of None \<Rightarrow> False
      | Some after \<Rightarrow> hex_decode after = Some (hmac secret body))"

definition dispatch :: "hook_lib \<Rightarrow> hook_config \<Rightarrow> 's hook_store \<Rightarrow> delivery \<Rightarrow> string \<Rightarrow> counters \<Rightarrow> 's \<Rightarrow>
    go_error option \<times> counters \<times> 's" where
  "dispatch lib cfg st r body ct s =
     (if dl_Event r = ''pull_request'' then (let (e, s) = handlePR lib cfg st (dl_Now r) body s in (e, ct, s))
      else if dl_Event r = ''push'' then handlePush lib cfg st (dl_Now r) body ct s
      else if dl_Event r = ''workflow_run'' then (let (e, s) = handleWorkflowRun lib st (dl_Now r) body s in (e, ct, s))
      else (None, ct, s))"

text \<open>The audit copy is best effort.\<close>

definition persist :: "'s hook_store \<Rightarrow> delivery \<Rightarrow> string \<Rightarrow> 's \<Rightarrow> 's" where
  "persist st r body s =
     (if persistedEvent (dl_Event r)
      then (case hs_payload st (dl_Event r) (dl_ID r) body s of Inl e \<Rightarrow> s | Inr s \<Rightarrow> s) else s)"

text \<open>The dedup key; empty when the delivery is not deduplicated.\<close>

definition deliveryKey :: "delivery \<Rightarrow> string" where
  "deliveryKey r = (if dl_ID r \<noteq> [] \<and> persistedEvent (dl_Event r) then dl_Event r @ [CHR 0x00] @ dl_ID r else [])"

definition handle :: "hook_lib \<Rightarrow> hook_config \<Rightarrow> 's hook_store \<Rightarrow> delivery \<Rightarrow> string \<Rightarrow> 's hook_state \<Rightarrow> answer \<times> 's hook_state" where
  "handle lib cfg st r body h =
     (let (err, ct, s) = dispatch lib cfg st r body (hk_counters h) (hk_store h);
          h = h\<lparr>hk_counters := ct, hk_store := s\<rparr>
      in case err of None \<Rightarrow> (status 204, h)
         | Some e \<Rightarrow>
             (let h = (if deliveryKey r \<noteq> [] then h\<lparr>hk_deliveries := forget (deliveryKey r) (hk_deliveries h)\<rparr> else h)
              in if onlyWriteLockErrors e then (\<lparr>an_Status = 503, an_RetryAfter = True\<rparr>, h) else (status 500, h)))"

definition serve_body :: "hook_lib \<Rightarrow> hook_config \<Rightarrow> 's hook_store \<Rightarrow> delivery \<Rightarrow> string \<Rightarrow> 's hook_state \<Rightarrow> answer \<times> 's hook_state" where
  "serve_body lib cfg st r body h =
     (let h = h\<lparr>hk_store := persist st r body (hk_store h)\<rparr>
      in if deliveryKey r = [] then handle lib cfg st r body h
         else
           (let (first, d) = firstSeen (deliveryKey r) (hk_deliveries h); h = h\<lparr>hk_deliveries := d\<rparr>
            in if first then handle lib cfg st r body h else (status 204, h)))"

definition ServeHTTP :: "(string \<Rightarrow> string \<Rightarrow> string) \<Rightarrow> hook_lib \<Rightarrow> hook_config \<Rightarrow> 's hook_store \<Rightarrow> delivery \<Rightarrow> 's hook_state \<Rightarrow>
    answer \<times> 's hook_state" where
  "ServeHTTP hmac lib cfg st r h =
     (if dl_Method r \<noteq> ''POST'' then (status 405, h)
      else if hc_secret cfg = [] then (status 403, h)
      else (case dl_Body r of
              BodyOverflow \<Rightarrow> (status 413, h\<lparr>hk_oversized := hk_oversized h @ [eventLabel (dl_Event r)]\<rparr>)
            | BodyBusy \<Rightarrow> (\<lparr>an_Status = 503, an_RetryAfter = True\<rparr>, h)
            | BodyTimeout \<Rightarrow> (status 400, h)
            | BodyFailed \<Rightarrow> (status 400, h)
            | BodyRead body \<Rightarrow>
                if \<not> verifySignature hmac (hc_secret cfg) body (dl_Signature r) then (status 403, h)
                else serve_body lib cfg st r body h))"

definition serve_all :: "(string \<Rightarrow> string \<Rightarrow> string) \<Rightarrow> hook_lib \<Rightarrow> hook_config \<Rightarrow> 's hook_store \<Rightarrow> delivery list \<Rightarrow> 's hook_state \<Rightarrow> 's hook_state" where
  "serve_all hmac lib cfg st rs h = fold (\<lambda>r h. snd (ServeHTTP hmac lib cfg st r h)) rs h"

definition new_hook :: "'s \<Rightarrow> 's hook_state" where
  "new_hook s = \<lparr>hk_deliveries = newDeliverySet deliveryWindow, hk_counters = zero_counters, hk_oversized = [], hk_store = s\<rparr>"

section \<open>Authentication\<close>

definition authentic :: "(string \<Rightarrow> string \<Rightarrow> string) \<Rightarrow> hook_config \<Rightarrow> delivery \<Rightarrow> bool" where
  "authentic hmac cfg r \<longleftrightarrow> dl_Method r = ''POST'' \<and> hc_secret cfg \<noteq> [] \<and>
     (case dl_Body r of BodyRead body \<Rightarrow> verifySignature hmac (hc_secret cfg) body (dl_Signature r) | _ \<Rightarrow> False)"

text \<open>
  C0. Only a signed delivery has an effect. A request that is not a POST, that comes to a server without a secret, whose
  body was not read, or whose signature is not the HMAC of its body under the secret leaves the store, the window of
  deliveries and the counters of the handlers as they are, and is not answered with 204.
\<close>

theorem unsigned_delivery_has_no_effect:
  assumes "\<not> authentic hmac cfg r" "ServeHTTP hmac lib cfg st r h = (a, h')"
  shows "hk_store h' = hk_store h \<and> hk_deliveries h' = hk_deliveries h \<and> hk_counters h' = hk_counters h \<and> an_Status a \<noteq> 204"
  using assms by (auto simp: ServeHTTP_def authentic_def status_def split: if_splits body_read.splits)

section \<open>The window across requests\<close>

lemma handle_deliveries:
  "hk_deliveries (snd (handle lib cfg st r body h)) = hk_deliveries h \<or>
   deliveryKey r \<noteq> [] \<and> hk_deliveries (snd (handle lib cfg st r body h)) = forget (deliveryKey r) (hk_deliveries h)"
  by (auto simp: handle_def Let_def split: prod.splits option.splits)

text \<open>A request with another key moves the ring by one slot at most.\<close>

lemma serve_held:
  assumes "held_at key p k (hk_deliveries h)" "k + 1 < length (ds_ring (hk_deliveries h))"
  shows "\<exists>k' \<le> k + 1. held_at key p k' (hk_deliveries (snd (ServeHTTP hmac lib cfg st r h)))"
proof -
  have keep: ?thesis if "hk_deliveries (snd (ServeHTTP hmac lib cfg st r h)) = hk_deliveries h"
    using assms(1) that by (auto intro!: exI [of _ k])
  show ?thesis
  proof (cases "\<exists>body. dl_Body r = BodyRead body \<and> authentic hmac cfg r")
    case False
    then show ?thesis using keep by (auto simp: ServeHTTP_def authentic_def split: body_read.splits)
  next
    case True
    then obtain body where body: "snd (ServeHTTP hmac lib cfg st r h) = snd (serve_body lib cfg st r body h)"
      by (auto simp: ServeHTTP_def authentic_def)
    let ?key = "deliveryKey r" and ?h = "h\<lparr>hk_store := persist st r body (hk_store h)\<rparr>"
    consider "?key = []" | "?key \<noteq> []" "?key \<in> set (ds_seen (hk_deliveries h))" | "?key \<noteq> []" "?key \<notin> set (ds_seen (hk_deliveries h))"
      by blast
    then show ?thesis
    proof cases
      case 1
      then show ?thesis using keep handle_deliveries [of lib cfg st r body ?h] by (auto simp: body serve_body_def)
    next
      case 2
      then show ?thesis using keep by (auto simp: body serve_body_def firstSeen_def)
    next
      case 3
      then have other: "?key \<noteq> key" using held_at_seen [OF assms(1)] by auto
      obtain k' where k': "k' \<le> k + 1" "held_at key p k' (snd (firstSeen ?key (hk_deliveries h)))"
        using firstSeen_held [OF assms(1) 3(1) other assms(2)] by blast
      obtain d' where "firstSeen ?key (hk_deliveries h) = (True, d')" using 3(2) by (simp add: firstSeen_def Let_def)
      then have "snd (ServeHTTP hmac lib cfg st r h)
          = snd (handle lib cfg st r body (?h\<lparr>hk_deliveries := snd (firstSeen ?key (hk_deliveries h))\<rparr>))"
        using 3(1) by (simp add: body serve_body_def Let_def split: prod.splits)
      then show ?thesis
        using handle_deliveries [of lib cfg st r body "?h\<lparr>hk_deliveries := snd (firstSeen ?key (hk_deliveries h))\<rparr>"]
          forget_held [OF k'(2) other] k' by auto
    qed
  qed
qed

lemma serve_length:
  "window_ok (hk_deliveries h) \<Longrightarrow> window_ok (hk_deliveries (snd (ServeHTTP hmac lib cfg st r h))) \<and>
   length (ds_ring (hk_deliveries (snd (ServeHTTP hmac lib cfg st r h)))) = length (ds_ring (hk_deliveries h))"
proof -
  assume ok: "window_ok (hk_deliveries h)"
  have h: "window_ok (hk_deliveries (snd (handle lib cfg st r body g))) \<and>
      length (ds_ring (hk_deliveries (snd (handle lib cfg st r body g)))) = length (ds_ring (hk_deliveries g))"
    if "window_ok (hk_deliveries g)" for body g
    using that forget_ok [OF that, of "deliveryKey r"] handle_deliveries [of lib cfg st r body g] by auto
  show ?thesis
    using ok h firstSeen_ok [OF ok, of "deliveryKey r"]
    by (auto simp: ServeHTTP_def serve_body_def Let_def split: body_read.splits prod.splits)
qed

lemma serve_all_held:
  assumes "held_at key p k (hk_deliveries h)" "k + length rs < length (ds_ring (hk_deliveries h))"
  shows "\<exists>k'. held_at key p k' (hk_deliveries (serve_all hmac lib cfg st rs h))"
  using assms
proof (induction rs arbitrary: k h)
  case (Cons r rs)
  let ?h = "snd (ServeHTTP hmac lib cfg st r h)"
  obtain k' where "k' \<le> k + 1" "held_at key p k' (hk_deliveries ?h)"
    using serve_held [OF Cons.prems(1), of hmac lib cfg st r] Cons.prems(2) by auto
  moreover have "length (ds_ring (hk_deliveries ?h)) = length (ds_ring (hk_deliveries h))"
    using serve_length [of h] Cons.prems(1) by (simp add: held_at_def)
  ultimately show ?case using Cons.IH [of k' ?h] Cons.prems(2) by (auto simp: serve_all_def)
qed (auto simp: serve_all_def)

text \<open>
  C0. A delivery is processed once. After a signed delivery of a processed type was admitted and answered with success,
  and while fewer than 1024 further requests of whatever kind arrived (retries, forgeries and failures among them), a
  signed delivery with the same event and GUID is answered with success and reaches no handler: it leaves everything as
  it is but for its copy in the audit trail.
\<close>

theorem redelivery_is_not_processed:
  assumes first: "ServeHTTP hmac lib cfg st r h = (a, h1)" "an_Status a = 204" "authentic hmac cfg r"
      "deliveryKey r \<noteq> []" "deliveryKey r \<notin> set (ds_seen (hk_deliveries h))"
    and window: "window_ok (hk_deliveries h)" "length (ds_ring (hk_deliveries h)) = deliveryWindow" "length rs < deliveryWindow"
    and again: "dl_Event r' = dl_Event r" "dl_ID r' = dl_ID r" "authentic hmac cfg r'" "dl_Body r' = BodyRead body"
  shows "let h2 = serve_all hmac lib cfg st rs h1
    in ServeHTTP hmac lib cfg st r' h2 = (status 204, h2\<lparr>hk_store := persist st r' body (hk_store h2)\<rparr>)"
proof -
  let ?key = "deliveryKey r" and ?d = "hk_deliveries h"
  obtain b where b: "dl_Body r = BodyRead b" using first(3) by (auto simp: authentic_def split: body_read.splits)
  let ?g = "h\<lparr>hk_store := persist st r b (hk_store h), hk_deliveries := snd (firstSeen ?key ?d)\<rparr>"
  have new: "fst (firstSeen ?key ?d)" using first(5) by (simp add: firstSeen_def Let_def)
  then have "handle lib cfg st r b ?g = (a, h1)"
    using first(1,3,4) b by (auto simp: ServeHTTP_def authentic_def serve_body_def Let_def split: prod.splits)
  then have h1: "hk_deliveries h1 = snd (firstSeen ?key ?d)"
    using first(2) by (auto simp: handle_def Let_def status_def split: prod.splits option.splits if_splits)
  have "held_at ?key (ds_next ?d) 0 (hk_deliveries h1)" using admitted_held [OF window(1) first(4,5)] h1 by simp
  moreover have "length (ds_ring (hk_deliveries h1)) = deliveryWindow"
    using firstSeen_ok [OF window(1) first(4)] window(2) h1 by simp
  ultimately obtain k' where "held_at ?key (ds_next ?d) k' (hk_deliveries (serve_all hmac lib cfg st rs h1))"
    using serve_all_held [of ?key "ds_next ?d" 0 h1 rs hmac lib cfg st] window(3) by auto
  then have "?key \<in> set (ds_seen (hk_deliveries (serve_all hmac lib cfg st rs h1)))" by (rule held_at_seen)
  moreover have "deliveryKey r' = ?key" using again(1,2) by (simp add: deliveryKey_def)
  ultimately show ?thesis
    using again(3,4) first(4) by (auto simp: ServeHTTP_def authentic_def serve_body_def firstSeen_def Let_def)
qed

text \<open>
  C0. A failed delivery is not lost: when a signed delivery is answered with an error of the server, its key is not in the
  window afterwards, so the redelivery of the same GUID reaches the handler again.
\<close>

theorem failed_delivery_can_be_retried:
  assumes "ServeHTTP hmac lib cfg st r h = (a, h1)" "an_Status a \<in> {500, 503}" "authentic hmac cfg r"
    "window_ok (hk_deliveries h)" "dl_Body r = BodyRead body" "deliveryKey r \<noteq> []"
  shows "deliveryKey r \<notin> set (ds_seen (hk_deliveries h1)) \<and>
    ServeHTTP hmac lib cfg st r h1 = handle lib cfg st r body
      (h1\<lparr>hk_store := persist st r body (hk_store h1), hk_deliveries := snd (firstSeen (deliveryKey r) (hk_deliveries h1))\<rparr>)"
proof -
  let ?key = "deliveryKey r" and ?d = "hk_deliveries h"
  obtain g where g: "handle lib cfg st r body g = (a, h1)" "hk_deliveries g = snd (firstSeen ?key ?d)"
    using assms by (auto simp: ServeHTTP_def authentic_def serve_body_def Let_def status_def split: prod.splits if_splits)
  have "hk_deliveries h1 = forget ?key (snd (firstSeen ?key ?d))"
    using g assms(2,6) by (auto simp: handle_def Let_def status_def split: prod.splits option.splits if_splits)
  then have new: "?key \<notin> set (ds_seen (hk_deliveries h1))" by (simp add: forget_def)
  then have "fst (firstSeen ?key (hk_deliveries h1))" by (simp add: firstSeen_def Let_def)
  then show ?thesis
    using new assms(3,5,6) by (auto simp: ServeHTTP_def authentic_def serve_body_def Let_def split: prod.splits)
qed

section \<open>Instances\<close>

text \<open>A server with a one-byte MAC whose store is a counter of audit copies; every pull request is an opened one.\<close>

definition ex_lib :: "pr_payload option \<Rightarrow> hook_lib" where
  "ex_lib pr = \<lparr>hl_pr = (\<lambda>_. pr), hl_push = (\<lambda>_. None), hl_run = (\<lambda>_. None), hl_rfc3339 = (\<lambda>_. None),
     hl_parseInt = (\<lambda>_. None), hl_day = (\<lambda>_. ''2026-01-01''), hl_marshal = (\<lambda>k v. v), hl_branch_ref = (\<lambda>_ _. ([], [])),
     hl_subject_ref = (\<lambda>_. ([], [])), hl_revert_branch = (\<lambda>_. False), hl_branch_hash = (\<lambda>_ _. None), hl_classify = (\<lambda>_. [])\<rparr>"

definition ex_pr :: pr_payload where
  "ex_pr = \<lparr>pr_Action = ''opened'', pr_Number = 1, pr_Title = [], pr_Body = [], pr_Merged = False, pr_MergedAt = None,
     pr_CreatedAt = [], pr_MergeCommitSHA = [], pr_HeadRef = [], pr_HeadRepo = [], pr_BaseDefault = [], pr_Login = [],
     pr_UserType = [], pr_Labels = [], pr_Additions = None, pr_Deletions = None, pr_ChangedFiles = None, pr_FullName = [],
     pr_DefaultBranch = []\<rparr>"

definition ex_cfg :: hook_config where
  "ex_cfg = \<lparr>hc_secret = ''s'', hc_push_capture = True, hc_generated = [], hc_sizes = []\<rparr>"

definition ex_store :: "nat hook_store" where
  "ex_store = \<lparr>hs_payload = (\<lambda>_ _ _ s. Inr (s + 1)), hs_declare = (\<lambda>_ _ _ _ s. Inr s), hs_ignored = (\<lambda>_. False),
     hs_record_pr = (\<lambda>_ s. Inr (True, s)), hs_exclude = (\<lambda>_ _ _ s. Inr s), hs_record_push = (\<lambda>_ _ _ _ s. Inr (PushCommitRecorded, s)),
     hs_by_merge = (\<lambda>_ _. Inr None), hs_candidates = (\<lambda>_ _ _ _ _. Inr ([], False)), hs_append = (\<lambda>_ s. Inr (True, s)),
     hs_events = (\<lambda>_ _. Inr []), hs_update = (\<lambda>_ _ _ _ s. Inr s)\<rparr>"

definition ex_mac :: "string \<Rightarrow> string \<Rightarrow> string" where "ex_mac k b = ''k''"

definition ex_delivery :: "string \<Rightarrow> delivery" where
  "ex_delivery sig = \<lparr>dl_Method = ''POST'', dl_Event = ''pull_request'', dl_ID = ''g'', dl_Signature = sig, dl_Body = BodyRead [], dl_Now = 9\<rparr>"

abbreviation ex_serve :: "pr_payload option \<Rightarrow> string \<Rightarrow> nat hook_state \<Rightarrow> answer \<times> nat hook_state" where
  "ex_serve pr sig \<equiv> ServeHTTP ex_mac (ex_lib pr) ex_cfg ex_store (ex_delivery sig)"

lemma ex_signed: "authentic ex_mac ex_cfg (ex_delivery ''sha256=6b'')" "\<not> authentic ex_mac ex_cfg (ex_delivery ''sha256=6c'')"
  by code_simp+

lemma ex_key: "deliveryKey (ex_delivery sig) \<noteq> []" "dl_Body (ex_delivery sig) = BodyRead []"
  by (simp_all add: deliveryKey_def ex_delivery_def persistedEvent_def)

lemma unsigned_delivery_has_no_effect_witness:
  "hk_store (snd (ex_serve None ''sha256=6c'' (new_hook 0))) = 0"
proof -
  obtain a h where ah: "ex_serve None ''sha256=6c'' (new_hook 0) = (a, h)" by fastforce
  show ?thesis using unsigned_delivery_has_no_effect [OF ex_signed(2) ah] ah by (simp add: new_hook_def)
qed

lemma new_window: "window_ok (hk_deliveries (new_hook s))" "length (ds_ring (hk_deliveries (new_hook s))) = deliveryWindow"
  "deliveryKey (ex_delivery sig) \<notin> set (ds_seen (hk_deliveries (new_hook s)))"
  by (simp_all add: new_hook_def new_ok deliveryWindow_def) (simp_all add: newDeliverySet_def)

lemma ex_handled:
  "fst (ex_serve (Some ex_pr) ''sha256=6b'' (new_hook 0)) = status 204"
  "fst (ex_serve None ''sha256=6b'' (new_hook 0)) = status 500"
  using ex_signed(1) new_window(3) [of "''sha256=6b''" 0] ex_key [of "''sha256=6b''"]
  by (auto simp: ServeHTTP_def authentic_def serve_body_def handle_def dispatch_def handlePR_def ex_lib_def ex_pr_def
      firstSeen_def Let_def ex_delivery_def status_def)

lemma redelivery_is_not_processed_witness:
  "let h1 = snd (ex_serve (Some ex_pr) ''sha256=6b'' (new_hook 0));
       h2 = serve_all ex_mac (ex_lib (Some ex_pr)) ex_cfg ex_store [ex_delivery ''sha256=6c''] h1
   in fst (ex_serve (Some ex_pr) ''sha256=6b'' h2) = status 204"
proof -
  obtain h1 where h1: "ex_serve (Some ex_pr) ''sha256=6b'' (new_hook 0) = (status 204, h1)"
    using ex_handled(1) by (metis prod.collapse)
  have "length [ex_delivery ''sha256=6c''] < deliveryWindow" "an_Status (status 204) = 204"
    by (simp_all add: deliveryWindow_def status_def)
  from redelivery_is_not_processed [OF h1 this(2) ex_signed(1) ex_key(1) new_window(3,1,2) this(1) refl refl ex_signed(1) ex_key(2)]
  show ?thesis by (simp add: h1 Let_def)
qed

lemma failed_delivery_can_be_retried_witness:
  "deliveryKey (ex_delivery ''sha256=6b'') \<notin> set (ds_seen (hk_deliveries (snd (ex_serve None ''sha256=6b'' (new_hook 0)))))"
proof -
  obtain h1 where h1: "ex_serve None ''sha256=6b'' (new_hook 0) = (status 500, h1)"
    using ex_handled(2) by (metis prod.collapse)
  have "an_Status (status 500) \<in> {500, 503}" by (simp add: status_def)
  from failed_delivery_can_be_retried [OF h1 this ex_signed(1) new_window(1) ex_key(2,1)] show ?thesis by (simp add: h1)
qed

end
