(* ===== verification/Webhook_Ledger.thy ===== *)
theory Webhook_Ledger
  imports Webhook
begin

text \<open>
  The webhook over the store: what the handlers promise to a store (the source of a pull request is never
  \<^verbatim>\<open>push\<close>), a locale in which every handler keeps an invariant that the operations of the store keep, and its
  interpretation on the outcomes and the push ledger. The accounting of captured commits is here too.
\<close>

section \<open>The contract of the store\<close>

locale hook_store_inv =
  fixes st :: "'s hook_store" and ok :: "'s \<Rightarrow> bool"
  assumes payload: "ok s \<Longrightarrow> hs_payload st ev i b s = Inr s' \<Longrightarrow> ok s'"
    and declared: "ok s \<Longrightarrow> hs_declare st o1 d actor via s = Inr s' \<Longrightarrow> ok s'"
    and record_pr: "ok s \<Longrightarrow> o_Source o1 \<noteq> ''push'' \<Longrightarrow> hs_record_pr st o1 s = Inr (ins, s') \<Longrightarrow> ok s'"
    and exclude: "ok s \<Longrightarrow> o_Source o1 \<noteq> ''push'' \<Longrightarrow> hs_exclude st o1 evidence actor s = Inr s' \<Longrightarrow> ok s'"
    and record_push: "ok s \<Longrightarrow> hs_record_push st o1 day sha pushedAt s = Inr (stat, s') \<Longrightarrow> ok s'"
    and append: "ok s \<Longrightarrow> hs_append st q s = Inr (ins, s') \<Longrightarrow> ok s'"
    and update: "ok s \<Longrightarrow> hs_update st oid w reason ref s = Inr s' \<Longrightarrow> ok s'"
begin

lemma resolve_locked: "ok s \<Longrightarrow> appendAndResolveLocked st origin ty ref ts trigger s = (e, s') \<Longrightarrow> ok s'"
  by (auto simp: appendAndResolveLocked_def split: sum.splits prod.splits if_splits dest: append update)

lemma ci_success: "ok s \<Longrightarrow> appendAndResolveCISuccess st origin ref ts trigger s = (e, s') \<Longrightarrow> ok s'"
  by (auto simp: appendAndResolveCISuccess_def split: sum.splits if_splits dest: resolve_locked)

lemma workflow_run: "ok s \<Longrightarrow> handleWorkflowRun lib st now body s = (e, s') \<Longrightarrow> ok s'"
  by (auto simp: handleWorkflowRun_def Let_def split: option.splits sum.splits if_splits dest: resolve_locked ci_success)

lemma corrections: "ok s \<Longrightarrow> declare_corrections lib st now p s = (e, s') \<Longrightarrow> ok s'"
  by (auto simp: declare_corrections_def Let_def split: sum.splits if_splits dest: declared)

lemma pr_outcome_source: "o_Source (pr_outcome lib cfg now p ref) = []" "o_Source (excluded_outcome ts p) = []"
  by (simp_all add: pr_outcome_def excluded_outcome_def zero_outcome_def SetDiffStats_def Let_def split: prod.splits)

lemma pull_request:
  assumes "ok s" "handlePR lib cfg st now body s = (e, s')"
  shows "ok s'"
proof (cases "\<exists>p e0 s0. hl_pr lib body = Some p \<and> pr_Action p = ''closed'' \<and> pr_Merged p \<and> declare_corrections lib st now p s = (e0, s0)")
  case False
  then have "s' = s" using assms(2) by (auto simp: handlePR_def split: option.splits if_splits prod.splits)
  then show ?thesis using assms(1) by simp
next
  case True
  then obtain p e0 s0 where p: "hl_pr lib body = Some p" "pr_Action p = ''closed''" "pr_Merged p" "declare_corrections lib st now p s = (e0, s0)"
    by blast
  have ok0: "ok s0" using corrections [OF assms(1) p(4)] .
  have ex: "ok s1" if "hs_exclude st (excluded_outcome ts p) evidence actor s0 = Inr s1" for ts evidence actor s1
    using exclude [OF ok0 _ that] by (simp add: pr_outcome_source)
  have re: "ok s1" if "hs_record_pr st (pr_outcome lib cfg now p ref) s0 = Inr (ins, s1)" for ref ins s1
    using record_pr [OF ok0 _ that] by (simp add: pr_outcome_source)
  have "handlePR lib cfg st now body s = (case e0 of Some e \<Rightarrow> (Some e, s0) | None \<Rightarrow>
      (let evidence = RevertEvidence (hl_marshal lib) (pr_HeadRef p) (pr_Title p);
           ts = (case merge_time lib now (pr_MergedAt p) of None \<Rightarrow> now | Some t \<Rightarrow> t);
           ref = hl_branch_ref lib (pr_HeadRef p) (pr_Body p)
       in if evidence \<noteq> []
          then (if pr_Number p \<le> 0 \<or> pr_MergeCommitSHA p = [] then (None, s0)
                else (case hs_exclude st (excluded_outcome ts p) evidence ''github-webhook'' s0 of
                        Inl e \<Rightarrow> (Some e, s0) | Inr s1 \<Rightarrow> (None, s1)))
          else if fst ref = [] then (None, s0)
          else if ResemblesUnattributed (pr_Login p) then (None, s0)
          else (case hs_record_pr st (pr_outcome lib cfg now p ref) s0 of
                  Inl e \<Rightarrow> (Some e, s0) | Inr (_, s1) \<Rightarrow> (None, s1))))"
    by (simp add: handlePR_def p Let_def split: option.split)
  then show ?thesis
    using assms(2) ok0 by (auto simp: Let_def split: option.splits sum.splits if_splits dest: ex re)
qed

lemma ambiguous: "ok s \<Longrightarrow> mark_ambiguous st sha ts cs s = (errs, s') \<Longrightarrow> ok s'"
  by (induction cs arbitrary: s errs) (auto split: sum.splits prod.splits dest: append)

lemma issue: "ok s \<Longrightarrow> issue_target lib st p seen sha subject ts s = (t, errs, s') \<Longrightarrow> ok s'"
  by (auto simp: issue_target_def Let_def simp del: mark_ambiguous.simps
      split: sum.splits list.splits prod.splits if_splits dest: ambiguous)

lemma target: "ok s \<Longrightarrow> revert_target lib st p seen c ts s = (t, errs, s') \<Longrightarrow> ok s'"
  by (auto simp: revert_target_def split: option.splits sum.splits dest: issue)

lemma revert: "ok s \<Longrightarrow> revert_commit lib st now p seen c ct s = (errs, ct', s') \<Longrightarrow> ok s'"
  by (auto simp: revert_commit_def Let_def split: if_splits prod.splits target.splits option.splits dest: target resolve_locked)

lemma reverts: "ok s \<Longrightarrow> revert_commits lib st now p seen cs ct s = (errs, ct', s') \<Longrightarrow> ok s'"
  by (induction cs arbitrary: ct s errs) (auto split: prod.splits dest: revert)

lemma capture: "ok (cl_state l) \<Longrightarrow> ok (cl_state (capture_commit lib cfg st now p c l))"
  by (auto simp: capture_commit_def Let_def split: prod.splits capture.splits sum.splits push_status.splits dest: record_push)

lemma captures: "ok (cl_state l) \<Longrightarrow> ok (cl_state (fold (capture_commit lib cfg st now p) cs l))"
  by (induction cs arbitrary: l) (simp_all add: capture)

lemma push_captures: "ok s \<Longrightarrow> capturePushOutcomes lib cfg st now p ct s = (e, ct', s') \<Longrightarrow> ok s'"
  using captures [of "\<lparr>cl_errs = [], cl_captured = 0, cl_merge_seen = False, cl_counters = ct, cl_state = s\<rparr>"
      lib cfg now p "ps_Commits p"]
  by (auto simp: capturePushOutcomes_def Let_def split: if_splits)

lemma push:
  assumes "ok s" "handlePush lib cfg st now body ct s = (e, ct', s')"
  shows "ok s'"
proof (cases "\<exists>p. hl_push lib body = Some p \<and> onDefaultBranch p")
  case False
  then show ?thesis using assms by (auto simp: handlePush_def split: option.splits)
next
  case True
  then obtain p where p: "hl_push lib body = Some p" "onDefaultBranch p" by blast
  obtain errs ct1 s1 where r: "revert_commits lib st now p
      (list_ex (\<lambda>c. pr_merge (gitCommitSubject (cm_Message c))) (ps_Commits p)) (ps_Commits p) ct s = (errs, ct1, s1)"
    by (metis prod_cases3)
  have "s' = s1 \<or> (\<exists>e1 ct2. capturePushOutcomes lib cfg st now p ct1 s1 = (e1, ct2, s'))"
    using assms(2) r p by (auto simp: handlePush_def Let_def split: prod.splits if_splits)
  then show ?thesis using reverts [OF assms(1) r] push_captures by blast
qed

lemma serve: "ok (hk_store h) \<Longrightarrow> ok (hk_store (snd (ServeHTTP hmac lib cfg st r h)))"
proof -
  assume ok: "ok (hk_store h)"
  have handled: "ok (hk_store (snd (handle lib cfg st r body g)))" if "ok (hk_store g)" for body g
    using that by (auto simp: handle_def dispatch_def Let_def split: prod.splits option.splits if_splits
        dest: pull_request push workflow_run)
  have "ok (persist st r body s)" if "ok s" for body s
    using that by (auto simp: persist_def split: sum.splits dest: payload)
  then show ?thesis
    using ok handled by (auto simp: ServeHTTP_def serve_body_def Let_def split: body_read.splits prod.splits)
qed

lemma serve_run: "ok (hk_store h) \<Longrightarrow> ok (hk_store (serve_all hmac lib cfg st rs h))"
  unfolding serve_all_def by (induction rs arbitrary: h) (simp_all add: serve)

end

section \<open>The store of the server\<close>

text \<open>What the webhook calls besides the outcomes and the ledger: calls on other tables, and the busy lock.\<close>

record 'x side =
  sd_payload :: "string \<Rightarrow> string \<Rightarrow> string \<Rightarrow> 'x ldb \<Rightarrow> (go_error, 'x) res"
  sd_declare :: "outcome \<Rightarrow> decl \<Rightarrow> string \<Rightarrow> string \<Rightarrow> 'x ldb \<Rightarrow> (go_error, 'x) res"
  sd_ignored :: "go_error \<Rightarrow> bool"
  sd_candidates :: "string \<Rightarrow> string \<Rightarrow> time \<Rightarrow> time \<Rightarrow> 'x ldb \<Rightarrow> (go_error, outcome list \<times> bool) res"
  sd_append :: "quality_event \<Rightarrow> 'x ldb \<Rightarrow> (go_error, bool \<times> 'x) res"
  sd_events :: "int \<Rightarrow> 'x ldb \<Rightarrow> (go_error, quality_event list) res"
  sd_recorded :: "int \<Rightarrow> string \<Rightarrow> string \<Rightarrow> 'x ldb \<Rightarrow> bool"
  sd_history :: "int \<Rightarrow> f64 \<Rightarrow> string \<Rightarrow> string \<Rightarrow> 'x ldb \<Rightarrow> (go_error, 'x) res"
  sd_rat :: "f64 \<Rightarrow> rat"
  sd_busy :: "'x ldb \<Rightarrow> bool"
  sd_clock :: time

definition store_tx :: "'x side \<Rightarrow> ('x ldb \<Rightarrow> (string, 'a) res) \<Rightarrow> 'x ldb \<Rightarrow> (go_error, 'a) res" where
  "store_tx sd tx db =
     (if sd_busy sd db then Inl ErrWriteLockUnavailable else (case tx db of Inl e \<Rightarrow> Inl (Plain e) | Inr r \<Rightarrow> Inr r))"

definition side_call :: "('x ldb \<Rightarrow> (go_error, 'x) res) \<Rightarrow> 'x ldb \<Rightarrow> (go_error, 'x ldb) res" where
  "side_call f db = (case f db of Inl e \<Rightarrow> Inl e | Inr x \<Rightarrow> Inr (db\<lparr>others := x\<rparr>))"

text \<open>\<^verbatim>\<open>OutcomeByMergeCommit\<close>, newest row first, and \<^verbatim>\<open>UpdateQualityForOutcome\<close>: when the driving event is recorded, the
  events decide the quality, not the caller; a quality that is stored already is not written.\<close>

definition outcomeByMergeCommit :: "string \<Rightarrow> 'x ldb \<Rightarrow> outcome option" where
  "outcomeByMergeCommit sha db =
     (if sha = [] then None
      else map_option (\<lambda>r. zero_outcome\<lparr>o_ID := or_id r, o_Developer := or_developer r, o_IssueID := or_issue r,
             o_Quality := or_quality r, o_MergeCommitSHA := sha, o_Repo := or_repo r, o_Timestamp := or_ts r\<rparr>)
             (find (\<lambda>r. or_sha r = Some sha) (rev (outcomes db))))"

definition requality :: "int \<Rightarrow> rat \<Rightarrow> outcome_row \<Rightarrow> outcome_row" where
  "requality i q r = (if or_id r = i then r\<lparr>or_quality := q\<rparr> else r)"

definition set_quality :: "int \<Rightarrow> rat \<Rightarrow> 'x ldb \<Rightarrow> 'x ldb" where
  "set_quality i q db = db\<lparr>outcomes := map (requality i q) (outcomes db)\<rparr>"

definition updateQualityForOutcome :: "'x ledger_env \<Rightarrow> 'x side \<Rightarrow> int \<Rightarrow> f64 \<Rightarrow> string \<Rightarrow> string \<Rightarrow> 'x ldb \<Rightarrow> (go_error, 'x ldb) res" where
  "updateQualityForOutcome env sd i q reason ref db0 =
     bind_res (store_tx sd (on_others (lv_prepare env)) db0) (\<lambda>db.
       case find (\<lambda>r. or_id r = i) (outcomes db) of
         None \<Rightarrow> Inl (Plain ''UpdateQualityForOutcome: no outcome with id'')
       | Some r \<Rightarrow>
           bind_res (if sd_recorded sd i reason ref db then bind_res (sd_events sd i db) (\<lambda>es. Inr (resolve_events es)) else Inr q)
             (\<lambda>q. if or_quality r = sd_rat sd q then Inr db
                  else side_call (sd_history sd i q reason ref) (set_quality i (sd_rat sd q) db)))"

definition store_hook :: "'x ledger_env \<Rightarrow> 'x side \<Rightarrow> 'x ldb hook_store" where
  "store_hook env sd =
     \<lparr>hs_payload = (\<lambda>ev i b. side_call (sd_payload sd ev i b)),
      hs_declare = (\<lambda>o1 d a v. side_call (sd_declare sd o1 d a v)),
      hs_ignored = sd_ignored sd,
      hs_record_pr = (\<lambda>o1. store_tx sd (RecordPROutcome env o1)),
      hs_exclude = (\<lambda>o1 ev a. store_tx sd (ExcludePROutcome env o1 ev a (sd_clock sd))),
      hs_record_push = (\<lambda>o1 day sha ts. store_tx sd (RecordPushCommit env o1 day sha ts)),
      hs_by_merge = (\<lambda>sha db. Inr (outcomeByMergeCommit sha db)),
      hs_candidates = sd_candidates sd,
      hs_append = (\<lambda>q db. case sd_append sd q db of Inl e \<Rightarrow> Inl e | Inr (b, x) \<Rightarrow> Inr (b, db\<lparr>others := x\<rparr>)),
      hs_events = sd_events sd,
      hs_update = updateQualityForOutcome env sd\<rparr>"

lemma requality_simps [simp]:
  "or_id (requality i q r) = or_id r" "is_push (requality i q r) = is_push r" "push_slot (requality i q r) = push_slot r"
  "or_sha (requality i q r) = or_sha r" "or_push_day (requality i q r) = or_push_day r" "or_repo (requality i q r) = or_repo r"
  "or_developer (requality i q r) = or_developer r" "or_ts (requality i q r) = or_ts r"
  by (simp_all add: requality_def is_push_def push_slot_def)

lemma set_quality_ok:
  assumes "db_ok ss ids db"
  shows "db_ok ss ids (set_quality i q db)"
proof -
  have t: "outcomes (set_quality i q db) = map (requality i q) (outcomes db)" "ledger (set_quality i q db) = ledger db"
    "exclusions (set_quality i q db) = exclusions db" "next_outcome (set_quality i q db) = next_outcome db"
    by (simp_all add: set_quality_def)
  have maps: "map or_id (map (requality i q) (outcomes db)) = map or_id (outcomes db)"
    "map or_sha (map (requality i q) (outcomes db)) = map or_sha (outcomes db)"
    "map push_slot (filter is_push (map (requality i q) (outcomes db))) = map push_slot (filter is_push (outcomes db))"
    by (simp_all add: comp_def filter_map)
  have "rows_ok (set_quality i q db)"
    using assms unfolding db_ok_def rows_ok_def t maps by simp
  moreover have "entries_ok (set_quality i q db)" "claims_ok ss (set_quality i q db)"
    using assms unfolding db_ok_def entries_ok_def claims_ok_def merged_sha_def excluded_sha_def t
    by (simp_all add: image_image)
  moreover have "owned (set_quality i q db) (requality i q r) = owned db r" for r
    by (simp add: owned_def earliest_def entries_of_def t split: option.split)
  then have "owners_ok ids (set_quality i q db)" using assms by (simp add: db_ok_def owners_ok_def t)
  ultimately show ?thesis by (simp add: db_ok_def)
qed

lemma side_call_ok: "side_call f db = Inr db' \<Longrightarrow> db_ok ss ids db \<Longrightarrow> db_ok ss ids db'"
  by (auto simp: side_call_def split: sum.splits)

lemma store_tx_Inr: "store_tx sd tx db = Inr r \<Longrightarrow> tx db = Inr r"
  by (auto simp: store_tx_def split: if_splits sum.splits)

lemma update_quality_ok:
  assumes "updateQualityForOutcome env sd i q reason ref db = Inr db'" "db_ok ss ids db"
  shows "db_ok ss ids db'"
proof -
  obtain db1 where 1: "on_others (lv_prepare env) db = Inr db1"
    using assms(1) by (auto simp: updateQualityForOutcome_def bind_res_Inr_iff dest: store_tx_Inr)
  have ok: "db_ok ss ids db1" using 1 assms(2) by (auto simp: on_others_def bind_res_Inr_iff)
  have "db' = db1 \<or> (\<exists>f q'. side_call f (set_quality i q' db1) = Inr db')"
    using assms(1) 1 by (auto simp: updateQualityForOutcome_def bind_res_Inr_iff dest!: store_tx_Inr split: option.splits if_splits)
  then show ?thesis using ok set_quality_ok side_call_ok by blast
qed

interpretation tier: hook_store_inv "store_hook env sd" "db_ok {} {}" for env sd
proof (unfold_locales, goal_cases)
  case (4 s o1 evidence actor s')
  then show ?case
    by (auto simp: store_hook_def ExcludePROutcome_def bind_res_Inr_iff dest!: store_tx_Inr intro: excludePROutcome_ok)
qed (auto simp: store_hook_def split: sum.splits dest!: store_tx_Inr
    intro: side_call_ok RecordPROutcome_ok RecordPushCommit_ok update_quality_ok)

text \<open>C31. The webhook never credits a change twice. From an empty store, whatever requests are served one after another, signed or not, in
  whatever order, with whatever retries, failing store calls and calls refused for a held write lock: in the store the
  server is left with, no commit captured under a usable id is the merge commit of a stored or of an excluded pull request, no merge commit has two
  outcomes, and a repository, an issue and a day have one push outcome at most.
\<close>

theorem webhook_never_credits_twice:
  assumes "h = serve_all hmac lib cfg (store_hook env sd) rs (new_hook (empty_ldb x))" "db = hk_store h"
  shows "(\<forall>e \<in> set (ledger db). ValidPushCommitID (ce_sha e) \<longrightarrow> \<not> merged_sha db (ce_sha e) \<and> \<not> excluded_sha db (ce_sha e))
    \<and> distinct (filter (\<lambda>s. s \<noteq> None) (map or_sha (outcomes db)))
    \<and> distinct (map push_slot (filter is_push (outcomes db)))"
proof -
  have "db_ok {} {} (hk_store (new_hook (empty_ldb x)))" by (simp add: new_hook_def empty_ok)
  then have "db_ok {} {} db" using tier.serve_run assms by blast
  then show ?thesis by (simp add: db_ok_def rows_ok_def claims_ok_def)
qed

section \<open>Accounting of captured commits\<close>

text \<open>
  Every commit of a push is accounted for. The loop over the commits counts as unattributed exactly those it can
  neither skip (a revert, a merge, generated files only) nor hand to the store, and it hands to the store only commits
  with an author whose login is not reserved, an issue, a usable id and the smallest weight of the scale.
\<close>

theorem captured_commits_accounted:
  "ct_unattributed (cl_counters (fold (capture_commit lib cfg st now p) cs l))
      = ct_unattributed (cl_counters l) + length (filter (\<lambda>c. capture_of lib cfg now p c = Unattributed) cs)
    \<and> (\<forall>c o1 day. capture_of lib cfg now p c = Capture o1 day \<longrightarrow>
        o_Developer o1 \<noteq> [] \<and> \<not> ResemblesUnattributed (o_Developer o1) \<and> o_IssueID o1 \<noteq> [] \<and> ValidPushCommitID (cm_ID c)
        \<and> o_Weight o1 = 1 / 2 \<and> \<not> allGenerated (cm_Added c @ cm_Removed c @ cm_Modified c) (hc_generated cfg))"
proof -
  have step: "ct_unattributed (cl_counters (capture_commit lib cfg st now p c l))
      = ct_unattributed (cl_counters l) + (if capture_of lib cfg now p c = Unattributed then 1 else 0)" for c and l
    by (auto simp: capture_commit_def Let_def split: prod.splits capture.splits sum.splits push_status.splits)
  have "ct_unattributed (cl_counters (fold (capture_commit lib cfg st now p) cs l))
      = ct_unattributed (cl_counters l) + length (filter (\<lambda>c. capture_of lib cfg now p c = Unattributed) cs)"
    by (induction cs arbitrary: l) (simp_all add: step)
  then show ?thesis
    by (auto simp: capture_of_def Let_def GitHeuristic_def wrap64_def zero_outcome_def split: if_splits prod.splits)
qed

text \<open>A server whose grammar reads an issue from every subject; one commit.\<close>

definition ex_hook_lib :: hook_lib where
  "ex_hook_lib = (ex_lib None)\<lparr>hl_subject_ref := \<lambda>_. (''issue-7'', []),
     hl_push := \<lambda>_. Some \<lparr>ps_Ref = ''refs/heads/m'', ps_Commits = [\<lparr>cm_ID = ''c1'', cm_Message = ''fix'', cm_Timestamp = 5,
       cm_Username = ''ann'', cm_Added = [], cm_Removed = [], cm_Modified = []\<rparr>], ps_DefaultBranch = ''m'',
       ps_FullName = [], ps_PushedAt = Inr []\<rparr>\<rparr>"

definition ex_side :: "unit side" where
  "ex_side = \<lparr>sd_payload = (\<lambda>_ _ _ _. Inr ()), sd_declare = (\<lambda>_ _ _ _ _. Inr ()), sd_ignored = (\<lambda>_. False),
     sd_candidates = (\<lambda>_ _ _ _ _. Inr ([], False)), sd_append = (\<lambda>_ _. Inr (True, ())), sd_events = (\<lambda>_ _. Inr []),
     sd_recorded = (\<lambda>_ _ _ _. False),
     sd_history = (\<lambda>_ _ _ _ _. Inr ()), sd_rat = (\<lambda>_. 1), sd_busy = (\<lambda>_. False), sd_clock = 9\<rparr>"

definition ex_request :: delivery where
  "ex_request = \<lparr>dl_Method = ''POST'', dl_Event = ''push'', dl_ID = [], dl_Signature = ''sha256=6b'', dl_Body = BodyRead [], dl_Now = 9\<rparr>"

theorem webhook_never_credits_twice_witness:
  "let db = hk_store (serve_all ex_mac ex_hook_lib ex_cfg (store_hook ex_ledger_env ex_side) [ex_request] (new_hook (empty_ldb ())))
   in map ce_sha (ledger db) = [''c1''] \<and> \<not> merged_sha db ''c1''"
proof -
  let ?st = "store_hook ex_ledger_env ex_side"
  let ?h = "serve_all ex_mac ex_hook_lib ex_cfg ?st [ex_request] (new_hook (empty_ldb ()))"
  have "authentic ex_mac ex_cfg ex_request" "deliveryKey ex_request = []" "dl_Body ex_request = BodyRead []" "dl_Event ex_request = ''push''"
    by code_simp+
  then have "hk_store ?h = snd (snd (handlePush ex_hook_lib ex_cfg ?st (dl_Now ex_request) [] zero_counters
      (persist ?st ex_request [] (empty_ldb ()))))"
    by (auto simp: serve_all_def ServeHTTP_def authentic_def serve_body_def handle_def dispatch_def new_hook_def Let_def
        split: prod.splits option.splits)
  moreover have "map ce_sha (ledger (snd (snd (handlePush ex_hook_lib ex_cfg ?st (dl_Now ex_request) [] zero_counters
      (persist ?st ex_request [] (empty_ldb ())))))) = [''c1'']" by code_simp
  ultimately have led: "map ce_sha (ledger (hk_store ?h)) = [''c1'']" by simp
  have "ValidPushCommitID ''c1''" by code_simp
  then have "\<not> merged_sha (hk_store ?h) ''c1''"
    using led webhook_never_credits_twice [OF refl refl, of ex_mac ex_hook_lib ex_cfg ex_ledger_env ex_side "[ex_request]" "()"] by auto
  then show ?thesis using led by (simp add: Let_def)
qed

end
