(* ===== verification/Spec2Isabelle.thy ===== *)
theory Spec2Isabelle
  imports K_Fold Authorize Pricing Token_Acct Health Proxy Event_Intake Event3_Resolve Correction_Audit Log_Safe Message_Runs
    Webhook_Ledger
begin

text \<open>
  Verification of TIER, the cost-and-outcome measurement server of this repository (Go, under
  \<^verbatim>\<open>src/internal\<close> and \<^verbatim>\<open>src/cmd\<close>). This is the root of the development: it imports every other theory.

  \<^bold>\<open>The program.\<close> Collectors on a developer's machine read the session logs of coding agents, a reverse proxy
  watches the API traffic of others; both produce token events, priced with a versioned table, that reach a
  SQLite store through a chain of ingesters, locally or over HTTP from the thin shipper of a laptop. A webhook
  receiver records merged pull requests as outcomes. A pull request may declare that it corrects earlier ones: the
  declaration is parsed from its text, becomes a relation whose state operators confirm or refute under audit, and
  a chain of confirmed corrections splits the original points between the changes that carry the work. Scores divide
  outcome points, weighted by quality rules, by cost, and every team report passes a k-anonymity barrier. A
  supervisor restarts the watcher and feeds a health probe; bearer tokens with scopes and a lockout of failing
  addresses guard the API; values of foreign origin reach the log through one encoder.

  \<^bold>\<open>Theories and code.\<close>
  \<^item> \<^verbatim>\<open>Go_Prelude\<close>: the Go library functions the code uses (int64 wrap-around, byte strings, \<^verbatim>\<open>strings.TrimSpace\<close>,
    decimal printing and reading, sorting, time), the result type and the collections \<open>go_defs\<close> and \<open>perm_intros\<close>.
    \<^verbatim>\<open>Go_Float\<close>: float64 as rationals with round-half-even, infinities and NaN. \<^verbatim>\<open>Keyed_Clock\<close>: the locale of a
    keyed state machine with a clock, whose keys cannot influence one another.
  \<^item> \<^verbatim>\<open>Scoring\<close>, \<^verbatim>\<open>K_Anon\<close>, \<^verbatim>\<open>K_Fold\<close>: \<^verbatim>\<open>internal/scoring\<close> (\<^verbatim>\<open>engine.go\<close>, \<^verbatim>\<open>correction_policy.go\<close>,
    \<^verbatim>\<open>bootstrap.go\<close>, \<^verbatim>\<open>prefold.go\<close>). The lemmas show that no published row is about fewer than k people, that the
    folding of stored inputs publishes what the rows would, and that intervals are ordered.
  \<^item> \<^verbatim>\<open>Quality_Rule\<close>: \<^verbatim>\<open>internal/qualityrule\<close> and \<^verbatim>\<open>internal/quality\<close>, the worst-of resolution of CI and revert
    evidence and the CI source reference with its parser.
  \<^item> \<^verbatim>\<open>Money\<close>, \<^verbatim>\<open>Pricing\<close>, \<^verbatim>\<open>Token_Acct\<close>: \<^verbatim>\<open>internal/store/money.go\<close>, \<^verbatim>\<open>internal/store/prices.go\<close> and
    \<^verbatim>\<open>internal/tokenacct\<close>: conversion of dollars, validation of the price table, name normalisation, host-qualified
    lookup, and the billing rules of the token counters.
  \<^item> \<^verbatim>\<open>Rate_Limit\<close>, \<^verbatim>\<open>Authorize\<close>: \<^verbatim>\<open>internal/api/ratelimit.go\<close> and the guards of \<^verbatim>\<open>internal/api/handler.go\<close>. A
    request takes the mutex of the limiter twice, to check the address and to record the outcome, each time with
    its own clock reading; the runs interleave these sections of concurrent requests in any order, and the
    isolation of addresses is an instance of the locale of \<^verbatim>\<open>Keyed_Clock\<close>. It is stated for addresses that fit the
    ceiling of the map; what eviction does at the ceiling is stated in \<^verbatim>\<open>Rate_Limit\<close>.
  \<^item> \<^verbatim>\<open>Health\<close>: \<^verbatim>\<open>internal/health\<close>. The supervised function is a script of attempts; the loop is a recursion over it.
  \<^item> \<^verbatim>\<open>Repo_Id\<close>, \<^verbatim>\<open>Collector_Event\<close>: \<^verbatim>\<open>internal/repoid\<close>, \<^verbatim>\<open>internal/collector/collector.go\<close>, \<^verbatim>\<open>clamp.go\<close>,
    \<^verbatim>\<open>internal/ingester\<close>: slugs, the event, its keys, and the chain of decorated sinks, which are instances of the
    locale \<open>event_sink\<close>.
  \<^item> \<^verbatim>\<open>Sse_Framer\<close>, \<^verbatim>\<open>Proxy_Usage\<close>, \<^verbatim>\<open>Proxy\<close>: \<^verbatim>\<open>internal/proxy\<close>: the framer of event streams against a
    line-by-line specification, the usage parsers of three providers (instances of \<open>stream_parser\<close>), and the
    response hook with its attribution and counters.
  \<^item> \<^verbatim>\<open>Shipper\<close>, \<^verbatim>\<open>Event_Intake\<close>: \<^verbatim>\<open>internal/shipper/shipper.go\<close> and \<^verbatim>\<open>internal/api/events.go\<close>: the two ends of the
    wire, and the theorem that a row is the same whether it was shipped or stored locally.
  \<^item> \<^verbatim>\<open>Message_Merge\<close>, \<^verbatim>\<open>Message_Runs\<close>: \<^verbatim>\<open>internal/collector/messagemerge.go\<close> and \<^verbatim>\<open>toolpath.go\<close>. The first holds
    the merger of the transcript lines of one message and the byte scanner that finds the paths in tool calls, the
    second runs of added lines: the merger invariant and that a line read twice changes nothing.
  \<^item> \<^verbatim>\<open>Corrective_Parse\<close>: \<^verbatim>\<open>internal/corrects/parse.go\<close>, the declaration lines of a pull request, the agreement of
    several lines, the reference grammar with its rendering, and the removal of the lines.
  \<^item> \<^verbatim>\<open>Correction_Lifecycle\<close>, \<^verbatim>\<open>Correction_Audit\<close>: \<^verbatim>\<open>internal/store/correction_lifecycle.go\<close> with the schemas it
    writes to. The first holds the commands, the reviewed assessments and the reconciliation with late evidence, the
    second runs of them: the tables stay consistent, a settled relation is final, a revision is spent once, the
    operator that confirms is not the one that declared, a retried command changes nothing. Tables are lists of
    records and a transaction that fails leaves them as they were.
  \<^item> \<^verbatim>\<open>Event3\<close>, \<^verbatim>\<open>Event3_Graph\<close>, \<^verbatim>\<open>Event3_Allocate\<close>, \<^verbatim>\<open>Event3_Points\<close>, \<^verbatim>\<open>Event3_Conserve\<close>,
    \<^verbatim>\<open>Event3_Resolve\<close>: \<^verbatim>\<open>internal/event3/resolve.go\<close>: rationals and the validation of a review, the search for the
    originals of a chain, the allocation of points, bounds of one allocation, conservation over a chain, and the
    public resolver with the best-response loop and the independence from the order of the nodes.
  \<^item> \<^verbatim>\<open>Push_Ledger\<close>, \<^verbatim>\<open>Push_Runs\<close>: \<^verbatim>\<open>internal/store/pushledger.go\<close>, \<^verbatim>\<open>exclusions.go\<close> and the outcome rows of
    \<^verbatim>\<open>store.go\<close>: a push records an outcome per repository, issue and day and enters its commits in a ledger; a merged
    pull request supersedes them, an exclusion removes what a revert undid. The first holds the transactions over
    tables as lists and the invariant each keeps, the second runs of them: no commit is counted twice, a redelivered
    push writes nothing, and the push and the merge of a commit lead to the same outcomes in both orders.
  \<^item> \<^verbatim>\<open>Pr_Derive\<close>: \<^verbatim>\<open>internal/prderive/prderive.go\<close> and the weights of \<^verbatim>\<open>internal/store/store.go\<close>: size labels, the
    weight heuristic, work types, revert evidence, generated paths and commit subjects.
  \<^item> \<^verbatim>\<open>Webhook_Events\<close>, \<^verbatim>\<open>Webhook\<close>, \<^verbatim>\<open>Webhook_Ledger\<close>: \<^verbatim>\<open>internal/webhook/handler.go\<close>. The first holds the handlers
    of pull requests, pushes and workflow runs over a record of store calls; the second the signature check, the window
    of seen deliveries and \<^verbatim>\<open>ServeHTTP\<close>, with what unsigned, repeated and failed deliveries do; the third the locale
    \<open>hook_store_inv\<close> of an invariant that every store call keeps, its interpretation on the push ledger, and that the
    webhook never credits a change twice. Requests are served one after another.
  \<^item> \<^verbatim>\<open>Log_Safe\<close>: \<^verbatim>\<open>internal/logsafe/logsafe.go\<close>, the encoder of values in log lines: one field, no line break,
    bounded length.

  \<^bold>\<open>Modelling choices.\<close> Integers are mathematical integers with \<open>wrap64\<close> where a 64-bit result can wrap. Errors are
  values of a sum or an option. JSON, YAML, URL and time parsing, SHA-256, the HTTP transport and the SQL engine are
  parameters, as are the projection of allocations that a correction command stores and the table of printable
  runes; a hypothesis on one of them is documented behaviour (decoding what was encoded, a digest without
  collision on two inputs) and every property with a hypothesis has a witness. Case folding is ASCII, which is what
  the folded literals of the code allow to differ, except in \<^verbatim>\<open>Repo_Id\<close>, which writes out the two non-ASCII letters
  whose lower case is ASCII. The identities of the correction lifecycle are free text that the code folds as Unicode;
  there the ASCII folding is an approximation, which tells apart some identities that the code takes for one. \<^verbatim>\<open>Log_Safe\<close> writes out the UTF-8 decoding and the quoting verb of the standard library;
  absolute paths are those of Unix. Otherwise logging has no effect in the models.

  \<^bold>\<open>Loops and bounds.\<close> Recursions carry a measure. The eviction loop of the rate limiter runs on fuel, the number of
  entries, each round removing one. The flush of the shipper is a partial function, proved to return for every
  client that the constructor accepts. The best-response loop of Event 3 is a partial function, proved to return for
  every chain that passes validation; the depth-first searches of its graph carry the number of unvisited nodes as
  measure. Reading a stream in the proxy runs for as many reads as there are chunks. The merger remembers the last 64
  finished messages, as the code does, and the laws of re-read lines speak of that window; the webhook remembers the
  last 1024 deliveries in the same way.

  \<^bold>\<open>Not modelled.\<close> The SQL statements of \<^verbatim>\<open>internal/store\<close> other than the correction tables, the outcome rows, the
  push ledger and the exclusions, and the handlers that only read them; the erasure of developers (but for the push
  ledger) and the export of audit rows; the slots and deadlines under which the webhook reads a body, whose outcome is
  part of a delivery; the parsing of JSONL logs and the watching of files; the patterns of issue references and of
  revert titles, which are regular expressions and parameters of the webhook; HTML and text rendering; flag parsing and wiring
  in \<^verbatim>\<open>src/cmd\<close>; metrics exposition; the dashboard; the polling of third-party billing APIs.
\<close>

end
